(* ===== verification/Chu_Prelude.thy ===== *)
theory Chu_Prelude
  imports Main "HOL-Library.Word" "HOL-Library.AList"
begin

text \<open>
  Shared vocabulary of the development: the machine integers and byte strings of the
  storage engine, the little and big endian integer codecs of the Rust standard library,
  in-place writes into a byte buffer, the outcome of a fallible operation (a value, an
  I/O error or a panic), and a small state-and-exception monad with its weakest
  preconditions.  Every component theory imports this one.
\<close>

section \<open>Types\<close>

type_synonym u8 = "8 word"
type_synonym u16 = "16 word"
type_synonym u32 = "32 word"
type_synonym u64 = "64 word"
type_synonym bytes = "u8 list"
type_synonym page_id = u64

named_theorems byte_simps "round trips and lengths of the byte codecs and buffer writes"
named_theorems wp_simps "weakest preconditions of the state-and-exception combinators"

section \<open>Errors and outcomes\<close>

text \<open>The kinds of \<open>std::io::ErrorKind\<close> that the storage engine distinguishes.\<close>

datatype io_kind =
  NotFound | AlreadyExists | InvalidInput | InvalidData | UnexpectedEof | Other

datatype io_error = IoError (err_kind: io_kind) (err_message: string)

text \<open>
  \<open>Ok\<close> and \<open>Err\<close> are the two values of \<open>io::Result\<close>; \<open>Panic\<close> stands for an
  out-of-range index, an arithmetic overflow (as checked by Rust's development profile)
  or a failed \<open>expect\<close>.
\<close>

datatype 'a outcome = Ok 'a | Err io_error | Panic

definition other_error :: "string \<Rightarrow> io_error" where
  "other_error msg = IoError Other msg"

section \<open>Decimal rendering for error messages\<close>

fun dec_digits :: "nat \<Rightarrow> string" where
  "dec_digits n =
     (if n < 10 then [char_of (48 + n)] else dec_digits (n div 10) @ [char_of (48 + n mod 10)])"

declare dec_digits.simps [simp del]

section \<open>Integer codecs\<close>

text \<open>\<open>to_le_bytes\<close> and \<open>from_le_bytes\<close> on the unsigned value of an integer of \<open>n\<close> bytes.\<close>

fun le_bytes :: "nat \<Rightarrow> nat \<Rightarrow> bytes" where
  "le_bytes 0 v = []"
| "le_bytes (Suc n) v = word_of_nat (v mod 256) # le_bytes n (v div 256)"

fun le_value :: "bytes \<Rightarrow> nat" where
  "le_value [] = 0"
| "le_value (b # bs) = unat b + 256 * le_value bs"

definition u16_le :: "u16 \<Rightarrow> bytes" where "u16_le w = le_bytes 2 (unat w)"
definition u32_le :: "u32 \<Rightarrow> bytes" where "u32_le w = le_bytes 4 (unat w)"
definition u64_le :: "u64 \<Rightarrow> bytes" where "u64_le w = le_bytes 8 (unat w)"
definition u64_be :: "u64 \<Rightarrow> bytes" where "u64_be w = rev (le_bytes 8 (unat w))"

definition le_u16 :: "bytes \<Rightarrow> u16" where "le_u16 bs = word_of_nat (le_value bs)"
definition le_u32 :: "bytes \<Rightarrow> u32" where "le_u32 bs = word_of_nat (le_value bs)"
definition le_u64 :: "bytes \<Rightarrow> u64" where "le_u64 bs = word_of_nat (le_value bs)"

lemma length_le_bytes [simp]: "length (le_bytes n v) = n"
  by (induction n arbitrary: v) auto

lemma take_le_bytes: "take k (le_bytes n v) = le_bytes (min k n) v"
proof (induction n arbitrary: k v)
  case (Suc n)
  then show ?case by (cases k) simp_all
qed simp

lemma unat_byte [simp]: "unat (word_of_nat (v mod 256) :: u8) = v mod 256"
  by (simp add: unat_of_nat)

lemma le_value_le_bytes: "le_value (le_bytes n v) = v mod 256 ^ n"
proof (induction n arbitrary: v)
  case 0
  then show ?case by simp
next
  case (Suc n)
  have "v mod 256 ^ Suc n = 256 * (v div 256 mod 256 ^ n) + v mod 256"
    by (simp add: mod_mult2_eq)
  then show ?case by (simp add: Suc.IH)
qed

lemma length_le [simp]:
  "length (u16_le a) = 2" "length (u32_le b) = 4"
  "length (u64_le c) = 8" "length (u64_be d) = 8"
  by (simp_all add: u16_le_def u32_le_def u64_le_def u64_be_def)

lemma unat_bound: "unat (w :: 'a::len word) < 2 ^ LENGTH('a)"
  by (rule unsigned_less)

lemma le_u16_u16_le [simp, byte_simps]: "le_u16 (u16_le w) = w"
  using unat_bound [of w]
  by (simp add: le_u16_def u16_le_def le_value_le_bytes)

lemma le_u32_u32_le [simp, byte_simps]: "le_u32 (u32_le w) = w"
  using unat_bound [of w]
  by (simp add: le_u32_def u32_le_def le_value_le_bytes)

lemma le_u64_u64_le [simp, byte_simps]: "le_u64 (u64_le w) = w"
  using unat_bound [of w]
  by (simp add: le_u64_def u64_le_def le_value_le_bytes)

section \<open>Buffers: slices and in-place writes\<close>

text \<open>
  \<open>bslice buf off n\<close> is \<open>buf[off..off + n]\<close>; \<open>bwrite buf off xs\<close> is
  \<open>buf[off..off + xs.len()].copy_from_slice(xs)\<close>.  Both are used under the explicit range
  checks that Rust makes; the definitions below are total.
\<close>

definition bslice :: "'a list \<Rightarrow> nat \<Rightarrow> nat \<Rightarrow> 'a list" where
  "bslice buf off n = take n (drop off buf)"

definition bwrite :: "'a list \<Rightarrow> nat \<Rightarrow> 'a list \<Rightarrow> 'a list" where
  "bwrite buf off xs = take off buf @ xs @ drop (off + length xs) buf"

lemma length_bslice [simp]: "off + n \<le> length buf \<Longrightarrow> length (bslice buf off n) = n"
  by (simp add: bslice_def)

lemma length_bwrite [simp]:
  "off + length xs \<le> length buf \<Longrightarrow> length (bwrite buf off xs) = length buf"
  by (simp add: bwrite_def)

lemma bslice_bwrite_same [simp, byte_simps]:
  "off + length xs \<le> length buf \<Longrightarrow> n = length xs \<Longrightarrow> bslice (bwrite buf off xs) off n = xs"
  by (simp add: bslice_def bwrite_def)

lemma bslice_bwrite_before [simp, byte_simps]:
  "o1 + n \<le> off \<Longrightarrow> off \<le> length buf \<Longrightarrow> bslice (bwrite buf off xs) o1 n = bslice buf o1 n"
  by (auto simp: bslice_def bwrite_def drop_take min_def)

lemma bslice_bwrite_after [simp, byte_simps]:
  assumes "off + length xs \<le> o1" and "off + length xs \<le> length buf"
  shows "bslice (bwrite buf off xs) o1 n = bslice buf o1 n"
proof -
  have "drop o1 (bwrite buf off xs) = drop o1 buf"
    using assms by (simp add: bwrite_def)
  then show ?thesis by (simp add: bslice_def)
qed

text \<open>A write at an offset of a file, which grows and is zero-filled up to the offset.\<close>

definition write_at :: "bytes \<Rightarrow> nat \<Rightarrow> bytes \<Rightarrow> bytes" where
  "write_at f off xs = bwrite (f @ replicate (off - length f) 0) off xs"

lemma write_at_inside: "off \<le> length f \<Longrightarrow> write_at f off xs = bwrite f off xs"
  by (simp add: write_at_def)

lemma write_at_end [simp]: "write_at f (length f) xs = f @ xs"
  by (simp add: write_at_def bwrite_def)

lemma length_write_at:
  "length (write_at f off xs) = max (length f) (off + length xs)"
  by (auto simp: write_at_def bwrite_def)

lemma bslice_write_at_same [byte_simps]:
  "n = length xs \<Longrightarrow> bslice (write_at f off xs) off n = xs"
  by (simp add: write_at_def bwrite_def bslice_def)

lemma nth_write_at:
  "i < length (write_at f off xs) \<Longrightarrow>
   write_at f off xs ! i =
     (if off \<le> i \<and> i < off + length xs then xs ! (i - off)
      else if i < length f then f ! i else 0)"
  by (auto simp: write_at_def bwrite_def nth_append length_write_at min_def max_def
      split: if_splits)

section \<open>Commands: state passing with errors and panics\<close>

text \<open>
  A method that takes \<open>&mut self\<close> and returns \<open>io::Result\<close> is a command: it maps the
  state to an outcome and a new state.  The state is returned on the error path too,
  because Rust keeps whatever the method had changed before it failed.
\<close>

type_synonym ('s, 'a) cmd = "'s \<Rightarrow> 'a outcome \<times> 's"

definition okM :: "'a \<Rightarrow> ('s, 'a) cmd" where
  "okM a s = (Ok a, s)"

definition errM :: "io_error \<Rightarrow> ('s, 'a) cmd" where
  "errM e s = (Err e, s)"

definition panicM :: "('s, 'a) cmd" where
  "panicM s = (Panic, s)"

definition getM :: "('s \<Rightarrow> 'a) \<Rightarrow> ('s, 'a) cmd" where
  "getM f s = (Ok (f s), s)"

definition modM :: "('s \<Rightarrow> 's) \<Rightarrow> ('s, unit) cmd" where
  "modM f s = (Ok (), f s)"

definition bindM :: "('s, 'a) cmd \<Rightarrow> ('a \<Rightarrow> ('s, 'b) cmd) \<Rightarrow> ('s, 'b) cmd" where
  "bindM m f s = (case m s of
       (Ok a, t) \<Rightarrow> f a t
     | (Err e, t) \<Rightarrow> (Err e, t)
     | (Panic, t) \<Rightarrow> (Panic, t))"

definition seqM :: "('s, 'a) cmd \<Rightarrow> ('s, 'b) cmd \<Rightarrow> ('s, 'b) cmd" where
  "seqM m n = bindM m (\<lambda>_. n)"

text \<open>The \<open>?\<close> operator on a pure result, and a \<open>for\<close> loop over a list.\<close>

definition liftM :: "'a outcome \<Rightarrow> ('s, 'a) cmd" where
  "liftM r s = (r, s)"

fun forM :: "'a list \<Rightarrow> ('a \<Rightarrow> ('s, unit) cmd) \<Rightarrow> ('s, unit) cmd" where
  "forM [] f = okM ()"
| "forM (x # xs) f = seqM (f x) (forM xs f)"

text \<open>
  The weakest precondition: \<open>wp m Q E s\<close> says that \<open>m\<close> started in \<open>s\<close> does not panic,
  ends in a state satisfying \<open>Q\<close> for its value if it succeeds, and in a state
  satisfying \<open>E\<close> if it fails.
\<close>

definition wp :: "('s, 'a) cmd \<Rightarrow> ('a \<Rightarrow> 's \<Rightarrow> bool) \<Rightarrow> ('s \<Rightarrow> bool) \<Rightarrow> 's \<Rightarrow> bool" where
  "wp m Q E s = (case m s of (Ok a, t) \<Rightarrow> Q a t | (Err e, t) \<Rightarrow> E t | (Panic, t) \<Rightarrow> False)"

lemma wp_bindM [wp_simps]: "wp (bindM m f) Q E = wp m (\<lambda>a. wp (f a) Q E) E"
  by (rule ext) (auto simp: wp_def bindM_def split: prod.splits outcome.splits)

lemma wp_seqM [wp_simps]: "wp (seqM m n) Q E = wp m (\<lambda>_. wp n Q E) E"
  by (simp add: seqM_def wp_bindM)

lemma wp_basic [wp_simps]:
  "wp (okM a) Q E = Q a"
  "wp (errM e) Q E = E"
  "wp panicM Q E = (\<lambda>_. False)"
  "wp (getM f) Q' E = (\<lambda>s. Q' (f s) s)"
  "wp (modM g) Q'' E = (\<lambda>s. Q'' () (g s))"
  by (simp_all add: fun_eq_iff wp_def okM_def errM_def panicM_def getM_def modM_def)

lemma wp_mono:
  assumes "wp m Q E s" and "\<And>a t. Q a t \<Longrightarrow> Q' a t" and "\<And>t. E t \<Longrightarrow> E' t"
  shows "wp m Q' E' s"
  using assms by (auto simp: wp_def split: prod.splits outcome.splits)

lemma wp_OkD: "wp m Q E s \<Longrightarrow> m s = (Ok a, t) \<Longrightarrow> Q a t"
  by (simp add: wp_def)

lemma wp_ErrD: "wp m Q E s \<Longrightarrow> m s = (Err e, t) \<Longrightarrow> E t"
  by (simp add: wp_def)

lemma wp_no_panic: "wp m Q E s \<Longrightarrow> fst (m s) \<noteq> Panic"
  by (auto simp: wp_def split: prod.splits)

lemma wp_succeeds: "wp m Q (\<lambda>_. False) s \<Longrightarrow> \<exists>a t. m s = (Ok a, t) \<and> Q a t"
  by (auto simp: wp_def split: prod.splits outcome.splits)

lemma wp_if [wp_simps]:
  "wp (if b then m else n) Q E = (if b then wp m Q E else wp n Q E)"
  by simp

end
