(* ===== verification/Page_Wal.thy ===== *)
theory Page_Wal
  imports Chu_Prelude
begin

text \<open>
  The full-page write-ahead journal of \<open>page_wal.rs\<close>.  A page file lives in four files
  on disk (the data file, \<open>.page-wal\<close>, \<open>.pages\<close> and \<open>.pages.pending\<close>); every I/O call
  of the code may fail, and a failing write may leave any prefix of its bytes behind.
  The theory models \<open>PageWal::open\<close>, \<open>prepare\<close>, \<open>reset\<close>, \<open>checkpoint\<close> and \<open>recover\<close>
  over that disk and shows that replaying the journal yields the last image of every page
  it records, whatever the data file holds for those pages.
\<close>

unbundle bit_operations_syntax

section \<open>The disk of one page file\<close>

datatype fault = NoFault | Fault nat

text \<open>
  \<open>d_faults\<close> lists the outcomes of the I/O calls to come; when it is empty every call
  succeeds.  \<open>Fault k\<close> fails the call; a write that fails has transferred its first
  \<open>k\<close> bytes.
\<close>

record disk =
  d_data :: bytes
  d_journal :: "bytes option"
  d_meta :: "bytes option"
  d_tmp :: "bytes option"
  d_faults :: "fault list"

definition io_failure :: io_error where
  "io_failure = IoError Other ''I/O failure''"

text \<open>
  One I/O call: \<open>io_call ok bad\<close> applies \<open>ok\<close> if the call succeeds and \<open>bad k\<close> if it
  fails after transferring \<open>k\<close> bytes.
\<close>

definition io_call ::
  "('z disk_scheme \<Rightarrow> 'z disk_scheme) \<Rightarrow> (nat \<Rightarrow> 'z disk_scheme \<Rightarrow> 'z disk_scheme)
    \<Rightarrow> ('z disk_scheme, unit) cmd" where
  "io_call ok bad s = (case d_faults s of
       [] \<Rightarrow> (Ok (), ok s)
     | NoFault # fs \<Rightarrow> (Ok (), ok (s\<lparr>d_faults := fs\<rparr>))
     | Fault k # fs \<Rightarrow> (Err io_failure, bad k (s\<lparr>d_faults := fs\<rparr>)))"

definition io_check :: "('z disk_scheme, unit) cmd" where
  "io_check = io_call id (\<lambda>_. id)"

definition write_data :: "nat \<Rightarrow> bytes \<Rightarrow> ('z disk_scheme, unit) cmd" where
  "write_data off bs = io_call
     (\<lambda>s. s\<lparr>d_data := write_at (d_data s) off bs\<rparr>)
     (\<lambda>k s. s\<lparr>d_data := write_at (d_data s) off (take k bs)\<rparr>)"

definition truncate_data :: "('z disk_scheme, unit) cmd" where
  "truncate_data = io_call (\<lambda>s. s\<lparr>d_data := []\<rparr>) (\<lambda>_. id)"

definition append_journal :: "bytes \<Rightarrow> ('z disk_scheme, unit) cmd" where
  "append_journal bs = io_call
     (\<lambda>s. s\<lparr>d_journal := map_option (\<lambda>j. j @ bs) (d_journal s)\<rparr>)
     (\<lambda>k s. s\<lparr>d_journal := map_option (\<lambda>j. j @ take k bs) (d_journal s)\<rparr>)"

section \<open>State and frames\<close>

record pages_state =
  ps_version :: u32
  ps_page_size :: nat
  ps_sequence :: u64
  ps_pages :: "u64 \<rightharpoonup> u64"

record page_wal = disk +
  pw_state :: pages_state
  pw_lsn :: u64
  pw_pending :: bool
  pw_failed :: bool
  pw_file :: bool

text \<open>The JSON codec of the page metadata is the serialisation library's.\<close>

record 'a codec =
  encode :: "'a \<Rightarrow> bytes"
  decode :: "bytes \<Rightarrow> 'a option"

definition HEADER :: nat where "HEADER = 40"
definition RESET :: u64 where "RESET = - 1"

definition checksum :: "bytes \<Rightarrow> u64" where
  "checksum bs = foldl (\<lambda>hash byte. (hash XOR ucast byte) * 0x100000001b3) 0xcbf29ce484222325 bs"

text \<open>\<open>b"CPW1"\<close>\<close>

definition frame_magic :: bytes where
  "frame_magic = [0x43, 0x50, 0x57, 0x31]"

definition frame_head :: "u64 \<Rightarrow> u64 \<Rightarrow> u64 \<Rightarrow> bytes \<Rightarrow> bytes" where
  "frame_head sequence lsn page bs =
     frame_magic @ u64_le sequence @ u64_le lsn @ u64_le page @ u32_le (word_of_nat (length bs))"

definition frame_bytes :: "u64 \<Rightarrow> u64 \<Rightarrow> u64 \<Rightarrow> bytes \<Rightarrow> bytes" where
  "frame_bytes sequence lsn page bs =
     (let h = frame_head sequence lsn page bs in h @ u64_le (checksum (h @ bs)) @ bs)"

section \<open>Operations\<close>

definition set_lsn :: "u64 \<Rightarrow> 'z page_wal_scheme \<Rightarrow> 'z page_wal_scheme" where
  "set_lsn lsn s = s\<lparr>pw_lsn := lsn\<rparr>"

definition page_lsn :: "'z page_wal_scheme \<Rightarrow> u64 \<Rightarrow> u64 option" where
  "page_lsn s page = ps_pages (pw_state s) page"

definition handle :: "('z page_wal_scheme, unit) cmd" where
  "handle = bindM (getM pw_file) (\<lambda>opened.
     if opened then okM ()
     else seqM (io_call (\<lambda>s. s\<lparr>d_journal := Some (case d_journal s of None \<Rightarrow> [] | Some j \<Rightarrow> j)\<rparr>)
                        (\<lambda>_. id))
          (seqM io_check
          (modM (\<lambda>s. s\<lparr>pw_file := True\<rparr>))))"

definition bad_image :: "nat \<Rightarrow> u64 \<times> bytes \<Rightarrow> bool" where
  "bad_image psz img = (case img of (page, bs) \<Rightarrow>
     (page = RESET \<and> bs \<noteq> []) \<or>
     (page \<noteq> RESET \<and> (length bs \<noteq> psz \<or> 2 ^ 64 \<le> unat page * psz)))"

definition needs_recovery :: io_error where
  "needs_recovery = other_error ''page journal requires recovery''"

text \<open>The body of the loop of \<open>prepare\<close>: append one frame and note its page version.\<close>

definition log_image :: "u64 \<times> bytes \<Rightarrow> ('z page_wal_scheme, unit) cmd" where
  "log_image img = (case img of (page, bs) \<Rightarrow>
     bindM (getM pw_state) (\<lambda>st. bindM (getM pw_lsn) (\<lambda>current.
       if ps_sequence st = - 1 then errM (other_error ''page write sequence exhausted'')
       else (let sequence = ps_sequence st + 1;
                 lsn = max current (case ps_pages st page of None \<Rightarrow> 0 | Some l \<Rightarrow> l)
         in seqM handle
           (seqM (append_journal (frame_bytes sequence lsn page bs))
           (modM (\<lambda>s. s\<lparr>pw_state := st\<lparr>ps_sequence := sequence,
                         ps_pages := if page = RESET then Map.empty
                                     else (ps_pages st)(page \<mapsto> lsn)\<rparr>,
                        pw_pending := True\<rparr>)))))))"

definition prepare :: "(u64 \<times> bytes) list \<Rightarrow> ('z page_wal_scheme, unit) cmd" where
  "prepare images = bindM (getM pw_failed) (\<lambda>failed. bindM (getM pw_state) (\<lambda>st.
     if failed then errM needs_recovery
     else if list_ex (bad_image (ps_page_size st)) images
       then errM (IoError InvalidInput ''invalid page image size or offset'')
     else if images = [] then okM ()
     else seqM (modM (\<lambda>s. s\<lparr>pw_failed := True\<rparr>))
         (seqM (forM images log_image)
         (seqM handle
         (seqM io_check
         (modM (\<lambda>s. s\<lparr>pw_failed := False\<rparr>)))))))"

definition reset :: "('z page_wal_scheme, unit) cmd" where
  "reset = prepare [(RESET, [])]"

definition checkpoint :: "pages_state codec \<Rightarrow> ('z page_wal_scheme, unit) cmd" where
  "checkpoint c = bindM (getM pw_failed) (\<lambda>failed. bindM (getM pw_pending) (\<lambda>pending.
     if failed then errM needs_recovery
     else if \<not> pending then okM ()
     else seqM (modM (\<lambda>s. s\<lparr>pw_failed := True\<rparr>))
         (seqM (io_call (\<lambda>s. s\<lparr>d_tmp := Some []\<rparr>) (\<lambda>_. id))
         (seqM (io_call (\<lambda>s. s\<lparr>d_tmp := Some (encode c (pw_state s))\<rparr>)
                        (\<lambda>k s. s\<lparr>d_tmp := Some (take k (encode c (pw_state s)))\<rparr>))
         (seqM io_check
         (seqM (io_call (\<lambda>s. s\<lparr>d_meta := d_tmp s, d_tmp := None\<rparr>) (\<lambda>_. id))
         (seqM io_check
         (seqM handle
         (seqM (io_call (\<lambda>s. s\<lparr>d_journal := Some []\<rparr>) (\<lambda>_. id))
         (seqM handle
         (seqM io_check
         (modM (\<lambda>s. s\<lparr>pw_pending := False, pw_failed := False\<rparr>)))))))))))))"

text \<open>Replaying one frame that is newer than the checkpoint.\<close>

definition apply_frame :: "u64 \<Rightarrow> u64 \<Rightarrow> u64 \<Rightarrow> bytes \<Rightarrow> ('z page_wal_scheme, unit) cmd" where
  "apply_frame sequence lsn page bs =
     seqM (if page = RESET
           then seqM truncate_data
               (modM (\<lambda>s. s\<lparr>pw_state := (pw_state s)\<lparr>ps_pages := Map.empty\<rparr>\<rparr>))
           else bindM (getM (\<lambda>s. ps_page_size (pw_state s))) (\<lambda>psz.
             if 2 ^ 64 \<le> unat page * psz then errM (other_error ''page offset overflow'')
             else seqM (write_data (unat page * psz) bs)
               (modM (\<lambda>s. s\<lparr>pw_state := (pw_state s)\<lparr>ps_pages := (ps_pages (pw_state s))(page \<mapsto> lsn)\<rparr>\<rparr>))))
     (modM (\<lambda>s. s\<lparr>pw_state := (pw_state s)\<lparr>ps_sequence := sequence\<rparr>\<rparr>))"

abbreviation hdr_sequence :: "bytes \<Rightarrow> u64" where "hdr_sequence h \<equiv> le_u64 (bslice h 4 8)"
abbreviation hdr_lsn :: "bytes \<Rightarrow> u64" where "hdr_lsn h \<equiv> le_u64 (bslice h 12 8)"
abbreviation hdr_page :: "bytes \<Rightarrow> u64" where "hdr_page h \<equiv> le_u64 (bslice h 20 8)"
abbreviation hdr_len :: "bytes \<Rightarrow> nat" where "hdr_len h \<equiv> unat (le_u32 (bslice h 28 4))"
abbreviation hdr_sum :: "bytes \<Rightarrow> u64" where "hdr_sum h \<equiv> le_u64 (bslice h 32 8)"

definition bad_header :: "nat \<Rightarrow> u64 \<Rightarrow> bytes \<Rightarrow> bool" where
  "bad_header psz previous h =
     (take 4 h \<noteq> frame_magic \<or> hdr_sequence h \<le> previous \<or>
      (hdr_page h = RESET \<and> hdr_len h \<noteq> 0) \<or>
      (hdr_page h \<noteq> RESET \<and> hdr_len h \<noteq> psz))"

text \<open>
  The loop of \<open>recover\<close> over the bytes of the journal that are still to be read; a frame
  that ends before its bytes do is the torn tail and stops the loop.
\<close>

function replay_frames :: "nat \<Rightarrow> u64 \<Rightarrow> bytes \<Rightarrow> u64 \<Rightarrow> ('z page_wal_scheme, unit) cmd" where
  "replay_frames psz cp rest previous =
     seqM io_check
      (if length rest < HEADER then okM ()
       else if bad_header psz previous rest
         then errM (IoError InvalidData ''invalid page image header'')
       else seqM io_check
        (if length rest < HEADER + hdr_len rest then okM ()
         else if checksum (take 32 rest @ bslice rest HEADER (hdr_len rest)) \<noteq> hdr_sum rest
           then errM (IoError InvalidData ''page image checksum mismatch'')
         else if hdr_sequence rest \<le> cp
           then replay_frames psz cp (drop (HEADER + hdr_len rest) rest) (hdr_sequence rest)
         else seqM (apply_frame (hdr_sequence rest) (hdr_lsn rest) (hdr_page rest)
                      (bslice rest HEADER (hdr_len rest)))
             (replay_frames psz cp (drop (HEADER + hdr_len rest) rest) (hdr_sequence rest))))"
  by pat_completeness auto
termination
  by (relation "measure (\<lambda>(_, _, rest, _). length rest)") (auto simp: HEADER_def)

declare replay_frames.simps [simp del]

definition recover :: "pages_state codec \<Rightarrow> ('z page_wal_scheme, unit) cmd" where
  "recover c = seqM io_check (bindM (getM d_journal) (\<lambda>file. case file of
       None \<Rightarrow> okM ()
     | Some journal \<Rightarrow> seqM io_check
        (if journal = [] then okM ()
         else bindM (getM pw_state) (\<lambda>st.
          seqM (replay_frames (ps_page_size st) (ps_sequence st) journal 0)
         (seqM io_check
         (seqM (modM (\<lambda>s. s\<lparr>pw_pending := True\<rparr>))
         (checkpoint c)))))))"

definition fresh_state :: "nat \<Rightarrow> pages_state" where
  "fresh_state psz = \<lparr>ps_version = 1, ps_page_size = psz, ps_sequence = 0, ps_pages = Map.empty\<rparr>"

text \<open>
  \<open>PageWal::open\<close> on the disk of a page file.  The fields of the journal handle are
  overwritten, so the command may start from any earlier handle on the same disk.
\<close>

definition open_wal :: "pages_state codec \<Rightarrow> nat \<Rightarrow> ('z page_wal_scheme, unit) cmd" where
  "open_wal c psz = seqM io_check (bindM (getM d_meta) (\<lambda>metadata.
     bindM (case metadata of
         None \<Rightarrow> okM (fresh_state psz)
       | Some bs \<Rightarrow> (case decode c bs of
            None \<Rightarrow> errM (other_error ''page metadata'')
          | Some st \<Rightarrow> okM st)) (\<lambda>st.
     if ps_version st \<noteq> 1 \<or> ps_page_size st \<noteq> psz
     then errM (IoError InvalidData ''unsupported page LSN metadata'')
     else seqM (modM (\<lambda>s. s\<lparr>pw_state := st, pw_lsn := 0, pw_pending := False,
                            pw_failed := False, pw_file := False\<rparr>))
         (recover c))))"

section \<open>What a journal means\<close>

text \<open>A frame is a write sequence number, an LSN, a page number and the page image.\<close>

type_synonym frame = "u64 \<times> u64 \<times> u64 \<times> bytes"

fun frame_ok :: "nat \<Rightarrow> frame \<Rightarrow> bool" where
  "frame_ok psz (q, l, p, b) = (\<not> bad_image psz (p, b))"

fun frames_ok :: "nat \<Rightarrow> u64 \<Rightarrow> frame list \<Rightarrow> bool" where
  "frames_ok psz prev [] = True"
| "frames_ok psz prev (f # fs) = (prev < fst f \<and> frame_ok psz f \<and> frames_ok psz (fst f) fs)"

fun frame_enc :: "frame \<Rightarrow> bytes" where
  "frame_enc (q, l, p, b) = frame_bytes q l p b"

definition journal_bytes :: "frame list \<Rightarrow> bytes" where
  "journal_bytes fs = concat (map frame_enc fs)"

text \<open>A torn tail: a proper prefix of the next frame.\<close>

definition torn_tail :: "nat \<Rightarrow> u64 \<Rightarrow> bytes \<Rightarrow> bool" where
  "torn_tail psz prev t \<longleftrightarrow> t = [] \<or>
     (\<exists>f k. prev < fst f \<and> frame_ok psz f \<and> k < length (frame_enc f) \<and> t = take k (frame_enc f))"

text \<open>The effect of one newer frame on the data file and on the page metadata.\<close>

fun frame_step :: "nat \<Rightarrow> bytes \<times> pages_state \<Rightarrow> frame \<Rightarrow> bytes \<times> pages_state" where
  "frame_step psz (data, st) (q, l, p, b) =
     (if p = RESET then ([], st\<lparr>ps_pages := Map.empty, ps_sequence := q\<rparr>)
      else (write_at data (unat p * psz) b,
            st\<lparr>ps_pages := (ps_pages st)(p \<mapsto> l), ps_sequence := q\<rparr>))"

definition newer :: "u64 \<Rightarrow> frame list \<Rightarrow> frame list" where
  "newer cp fs = filter (\<lambda>f. cp < fst f) fs"

definition replayed :: "nat \<Rightarrow> u64 \<Rightarrow> frame list \<Rightarrow> bytes \<times> pages_state \<Rightarrow> bytes \<times> pages_state" where
  "replayed psz cp fs = (\<lambda>d. foldl (frame_step psz) d (newer cp fs))"

lemma bslice_append_skip:
  "length xs \<le> off \<Longrightarrow> bslice (xs @ ys) off n = bslice ys (off - length xs) n"
  by (simp add: bslice_def)

lemma bslice_append_first: "length xs = n \<Longrightarrow> bslice (xs @ ys) 0 n = xs"
  by (simp add: bslice_def)

lemma bslice_take: "off + n \<le> k \<Longrightarrow> bslice (take k xs) off n = bslice xs off n"
  by (auto simp: bslice_def drop_take min_def)

lemmas bslice_append = bslice_append_skip bslice_append_first

lemma length_frame_magic [simp]: "length frame_magic = 4"
  by (simp add: frame_magic_def)

lemma length_frame_head [simp]: "length (frame_head q l p b) = 32"
  by (simp add: frame_head_def)

lemma length_frame_bytes [simp]: "length (frame_bytes q l p b) = HEADER + length b"
  by (simp add: frame_bytes_def Let_def HEADER_def)

lemma frame_bytes_not_Nil [simp]: "frame_bytes q l p b \<noteq> []"
  by (simp add: frame_bytes_def Let_def frame_head_def frame_magic_def)

text \<open>Parsing an encoded frame gives back its fields, whatever follows it.\<close>

lemma parse_frame:
  assumes "length b < 2 ^ 32"
  shows "take 4 (frame_bytes q l p b @ rest) = frame_magic"
    and "hdr_sequence (frame_bytes q l p b @ rest) = q"
    and "hdr_lsn (frame_bytes q l p b @ rest) = l"
    and "hdr_page (frame_bytes q l p b @ rest) = p"
    and "hdr_len (frame_bytes q l p b @ rest) = length b"
    and "hdr_sum (frame_bytes q l p b @ rest) = checksum (frame_head q l p b @ b)"
    and "take 32 (frame_bytes q l p b @ rest) = frame_head q l p b"
    and "bslice (frame_bytes q l p b @ rest) HEADER (length b) = b"
    and "drop (HEADER + length b) (frame_bytes q l p b @ rest) = rest"
  using assms
  by (simp_all add: frame_bytes_def frame_head_def Let_def HEADER_def
      bslice_append unat_of_nat)

lemma frame_ok_len: "frame_ok psz (q, l, p, b) \<Longrightarrow> length b \<le> psz"
  by (auto simp: bad_image_def)

lemma frame_ok_header:
  assumes "frame_ok psz (q, l, p, b)" and "prev < q" and "psz < 2 ^ 32"
  shows "\<not> bad_header psz prev (frame_bytes q l p b @ rest)"
proof -
  have "length b < 2 ^ 32" using frame_ok_len [OF assms(1)] assms(3) by simp
  note h = parse_frame [OF this, of q l p rest]
  show ?thesis
    using assms unfolding bad_header_def h by (auto simp: bad_image_def)
qed

section \<open>Replay without faults\<close>

lemma io_ok [simp]:
  "d_faults s = [] \<Longrightarrow> io_call ok bad s = (Ok (), ok s)"
  "d_faults s = [] \<Longrightarrow> io_check s = (Ok (), s)"
  by (simp_all add: io_call_def io_check_def)

lemmas cmd_defs = bindM_def seqM_def okM_def errM_def getM_def modM_def

lemma apply_frame_ok:
  assumes "d_faults s = []" and "frame_ok (ps_page_size (pw_state s)) (q, l, p, b)"
  shows "apply_frame q l p b s =
     (Ok (), s\<lparr>d_data := fst (frame_step (ps_page_size (pw_state s)) (d_data s, pw_state s) (q, l, p, b)),
               pw_state := snd (frame_step (ps_page_size (pw_state s)) (d_data s, pw_state s) (q, l, p, b))\<rparr>)"
  using assms
  by (auto simp: apply_frame_def cmd_defs truncate_data_def write_data_def bad_image_def)

fun last_seq :: "u64 \<Rightarrow> frame list \<Rightarrow> u64" where
  "last_seq prev [] = prev"
| "last_seq prev (f # fs) = last_seq (fst f) fs"

lemma frame_step_psz [simp]: "ps_page_size (snd (frame_step psz d f)) = ps_page_size (snd d)"
  by (cases d; cases f) auto

lemma foldl_frame_step_psz [simp]:
  "ps_page_size (snd (foldl (frame_step psz) d fs)) = ps_page_size (snd d)"
  by (induction fs arbitrary: d) auto

lemma replay_torn:
  assumes "d_faults s = []" and "torn_tail psz prev t" and "psz < 2 ^ 32"
  shows "replay_frames psz cp t prev s = (Ok (), s)"
proof (cases "length t < HEADER")
  case True
  with assms(1) show ?thesis by (subst replay_frames.simps) (simp add: cmd_defs)
next
  case False
  then obtain q l p b k where f: "prev < q" "frame_ok psz (q, l, p, b)" "k < HEADER + length b"
      and t: "t = take k (frame_bytes q l p b)"
    using assms(2) by (auto simp: torn_tail_def HEADER_def)
  from False f(3) t have k: "HEADER \<le> k" by simp
  have len: "length b < 2 ^ 32" using frame_ok_len [OF f(2)] assms(3) by simp
  have hdr: "hdr_sequence t = q" "hdr_page t = p" "hdr_len t = length b" "take 4 t = frame_magic"
    using parse_frame [OF len, of q l p "[]"] k
    by (simp_all add: t bslice_take HEADER_def min_def)
  have "\<not> bad_header psz prev t"
    using frame_ok_header [OF f(2,1) assms(3), of "[]"] parse_frame [OF len, of q l p "[]"]
    by (auto simp: bad_header_def hdr)
  moreover have "length t < HEADER + length b" using f(3) t by simp
  ultimately show ?thesis
    using assms(1) False by (subst replay_frames.simps) (simp add: cmd_defs hdr)
qed

lemma replay_no_fault:
  assumes "d_faults s = []" and "psz < 2 ^ 32" and "ps_page_size (pw_state s) = psz"
    and "frames_ok psz prev fs" and "torn_tail psz (last_seq prev fs) t"
  shows "replay_frames psz cp (journal_bytes fs @ t) prev s =
    (Ok (), s\<lparr>d_data := fst (replayed psz cp fs (d_data s, pw_state s)),
              pw_state := snd (replayed psz cp fs (d_data s, pw_state s))\<rparr>)"
  using assms(1,3,4,5)
proof (induction fs arbitrary: s prev)
  case Nil
  then show ?case
    using replay_torn [OF Nil.prems(1) _ assms(2)]
    by (simp add: journal_bytes_def replayed_def newer_def)
next
  case (Cons f fs)
  obtain q l p b where f: "f = (q, l, p, b)" by (cases f)
  from Cons.prems f have ok: "frame_ok psz (q, l, p, b)" "prev < q" "frames_ok psz q fs"
    "torn_tail psz (last_seq q fs) t" by auto
  have len: "length b < 2 ^ 32" using frame_ok_len [OF ok(1)] assms(2) by simp
  let ?r = "frame_bytes q l p b @ journal_bytes fs @ t"
  note h = parse_frame [OF len, of q l p "journal_bytes fs @ t"]
  have nb: "\<not> bad_header psz prev ?r" by (rule frame_ok_header [OF ok(1,2) assms(2)])
  have unfold: "replay_frames psz cp ?r prev s =
      (if q \<le> cp then replay_frames psz cp (journal_bytes fs @ t) q s
       else seqM (apply_frame q l p b) (replay_frames psz cp (journal_bytes fs @ t) q) s)"
    using Cons.prems(1) nb
    by (subst replay_frames.simps) (simp add: cmd_defs h del: take_append drop_append)
  show ?case
  proof (cases "q \<le> cp")
    case True
    with unfold Cons.IH [OF Cons.prems(1,2) ok(3,4)] show ?thesis
      by (simp add: f journal_bytes_def replayed_def newer_def)
  next
    case False
    let ?s = "s\<lparr>d_data := fst (frame_step psz (d_data s, pw_state s) (q, l, p, b)),
               pw_state := snd (frame_step psz (d_data s, pw_state s) (q, l, p, b))\<rparr>"
    have "apply_frame q l p b s = (Ok (), ?s)"
      using apply_frame_ok [of s q l p b] Cons.prems(1,2) ok(1) by simp
    with unfold False have "replay_frames psz cp ?r prev s = replay_frames psz cp (journal_bytes fs @ t) q ?s"
      by (simp add: cmd_defs)
    also have "\<dots> = (Ok (), ?s\<lparr>d_data := fst (replayed psz cp fs (d_data ?s, pw_state ?s)),
              pw_state := snd (replayed psz cp fs (d_data ?s, pw_state ?s))\<rparr>)"
      by (rule Cons.IH) (use Cons.prems(1,2) ok in auto)
    finally show ?thesis
      using False by (simp add: f journal_bytes_def replayed_def newer_def not_le)
  qed
qed

section \<open>Page images\<close>

text \<open>
  The image of page \<open>i\<close> in a data file, zero-filled past the end of the file, and the
  images that a list of frames leaves behind.
\<close>

definition page_image :: "nat \<Rightarrow> bytes \<Rightarrow> nat \<Rightarrow> bytes" where
  "page_image psz data i = take psz (drop (i * psz) data @ replicate psz 0)"

fun image_step :: "nat \<Rightarrow> (nat \<Rightarrow> bytes) \<Rightarrow> frame \<Rightarrow> nat \<Rightarrow> bytes" where
  "image_step psz m (q, l, p, b) = (if p = RESET then (\<lambda>_. replicate psz 0) else m(unat p := b))"

definition images :: "nat \<Rightarrow> frame list \<Rightarrow> (nat \<Rightarrow> bytes) \<Rightarrow> nat \<Rightarrow> bytes" where
  "images psz fs m = foldl (image_step psz) m fs"

lemma length_page_image [simp]: "length (page_image psz data i) = psz"
  by (simp add: page_image_def)

lemma nth_page_image:
  "k < psz \<Longrightarrow> page_image psz data i ! k =
     (if i * psz + k < length data then data ! (i * psz + k) else 0)"
  by (auto simp: page_image_def nth_append)

lemma page_image_Nil [simp]: "page_image psz [] i = replicate psz 0"
  by (simp add: page_image_def)

lemma page_offset_disjoint:
  fixes i j psz :: nat
  assumes "i \<noteq> j" and "k < psz"
  shows "\<not> (j * psz \<le> i * psz + k \<and> i * psz + k < j * psz + psz)"
proof (cases "i < j")
  case True
  then have "Suc i * psz \<le> j * psz" by (intro mult_le_mono1) simp
  with assms show ?thesis by simp
next
  case False
  with assms have "Suc j * psz \<le> i * psz" by (intro mult_le_mono1) simp
  then show ?thesis by simp
qed

lemma page_image_write_other:
  assumes "i \<noteq> j" and "length b \<le> psz"
  shows "page_image psz (write_at data (j * psz) b) i = page_image psz data i"
proof (rule nth_equalityI)
  fix k assume "k < length (page_image psz (write_at data (j * psz) b) i)"
  then have k: "k < psz" by simp
  then have "\<not> (j * psz \<le> i * psz + k \<and> i * psz + k < j * psz + length b)"
    using page_offset_disjoint [OF assms(1) k] assms(2) by auto
  with k assms(2) show "page_image psz (write_at data (j * psz) b) i ! k = page_image psz data i ! k"
    by (auto simp: nth_page_image nth_write_at length_write_at)
qed simp

lemma page_image_write:
  assumes "length b = psz"
  shows "page_image psz (write_at data (j * psz) b) = (page_image psz data)(j := b)"
proof
  fix i
  show "page_image psz (write_at data (j * psz) b) i = ((page_image psz data)(j := b)) i"
  proof (cases "i = j")
    case True
    have "page_image psz (write_at data (j * psz) b) j = b"
      using assms
      by (intro nth_equalityI) (auto simp: nth_page_image nth_write_at length_write_at)
    with True show ?thesis by simp
  next
    case False
    then show ?thesis using assms page_image_write_other [of i j b psz data] by simp
  qed
qed

lemma page_image_replayed:
  assumes "\<forall>f \<in> set fs. frame_ok psz f"
  shows "page_image psz (fst (replayed psz cp fs (data, st))) =
         images psz (newer cp fs) (page_image psz data)"
proof -
  have "\<forall>f \<in> set gs. frame_ok psz f \<Longrightarrow>
    page_image psz (fst (foldl (frame_step psz) (d, st) gs)) =
    foldl (image_step psz) (page_image psz d) gs" for gs d st
  proof (induction gs arbitrary: d st)
    case (Cons f gs)
    obtain q l p b where f: "f = (q, l, p, b)" by (cases f)
    show ?case
    proof (cases "p = RESET")
      case True
      have "page_image psz [] = (\<lambda>_. replicate psz 0)" by (rule ext) simp
      then show ?thesis using Cons True by (simp add: f)
    next
      case False
      then have "length b = psz" using Cons.prems by (simp add: f bad_image_def)
      then show ?thesis using Cons False by (simp add: f page_image_write)
    qed
  qed simp
  moreover have "\<forall>f \<in> set (newer cp fs). frame_ok psz f"
    using assms by (simp add: newer_def)
  ultimately show ?thesis by (simp add: replayed_def images_def)
qed

text \<open>A page that some frame of the list rewrites, or that a reset clears.\<close>

definition covered :: "frame list \<Rightarrow> nat \<Rightarrow> bool" where
  "covered fs i = list_ex (\<lambda>(q, l, p, b). p = RESET \<or> unat p = i) fs"

lemma images_uncovered: "\<not> covered fs i \<Longrightarrow> images psz fs m i = m i"
  by (induction fs arbitrary: m) (auto simp: covered_def images_def split: if_splits)

lemma images_covered: "covered fs i \<Longrightarrow> images psz fs m i = images psz fs m' i"
proof (induction fs arbitrary: m m')
  case (Cons f fs)
  obtain q l p b where f: "f = (q, l, p, b)" by (cases f)
  show ?case
  proof (cases "covered fs i")
    case True
    then show ?thesis using Cons.IH by (simp add: images_def)
  next
    case False
    have "images psz fs n i = n i" for n
      by (rule images_uncovered [OF False])
    with Cons.prems False show ?thesis by (auto simp: f images_def covered_def)
  qed
qed (simp add: covered_def)

lemma images_cong:
  "(\<And>i. \<not> covered fs i \<Longrightarrow> m i = m' i) \<Longrightarrow> images psz fs m = images psz fs m'"
  by (rule ext) (metis images_covered images_uncovered)

lemma images_append: "images psz (fs @ gs) m = images psz gs (images psz fs m)"
  by (simp add: images_def)

section \<open>What a restart finds\<close>

definition journal_of :: "bytes option \<Rightarrow> bytes" where
  "journal_of j = (case j of None \<Rightarrow> [] | Some bs \<Rightarrow> bs)"

definition meta_of :: "pages_state codec \<Rightarrow> nat \<Rightarrow> bytes option \<Rightarrow> pages_state option" where
  "meta_of c psz m = (case m of None \<Rightarrow> Some (fresh_state psz) | Some bs \<Rightarrow> decode c bs)"

text \<open>
  \<open>on_disk c psz st fs t d\<close>: the metadata file holds \<open>st\<close>, and the journal consists of
  the frames \<open>fs\<close> followed by the torn tail \<open>t\<close>.  \<open>recoverable c psz d m\<close>: a restart
  that replays this journal leaves the page images \<open>m\<close>.
\<close>

definition files_hold :: "pages_state codec \<Rightarrow> nat \<Rightarrow> pages_state \<Rightarrow> frame list \<Rightarrow> bytes \<Rightarrow>
    bytes option \<Rightarrow> bytes option \<Rightarrow> bool" where
  "files_hold c psz st fs t m j \<longleftrightarrow>
     meta_of c psz m = Some st \<and> ps_version st = 1 \<and> ps_page_size st = psz \<and>
     journal_of j = journal_bytes fs @ t \<and> frames_ok psz 0 fs \<and>
     torn_tail psz (last_seq 0 fs) t"

abbreviation on_disk :: "pages_state codec \<Rightarrow> nat \<Rightarrow> pages_state \<Rightarrow> frame list \<Rightarrow> bytes \<Rightarrow>
    'z disk_scheme \<Rightarrow> bool" where
  "on_disk c psz st fs t d \<equiv> files_hold c psz st fs t (d_meta d) (d_journal d)"

definition recoverable :: "pages_state codec \<Rightarrow> nat \<Rightarrow> 'z disk_scheme \<Rightarrow> (nat \<Rightarrow> bytes) \<Rightarrow> bool" where
  "recoverable c psz d m \<longleftrightarrow> (\<exists>st fs t. on_disk c psz st fs t d \<and>
     m = images psz (newer (ps_sequence st) fs) (page_image psz (d_data d)))"

lemma recoverableI:
  "on_disk c psz st fs t d \<Longrightarrow>
   images psz (newer (ps_sequence st) fs) (page_image psz (d_data d)) = m \<Longrightarrow> recoverable c psz d m"
  by (auto simp: recoverable_def)

text \<open>A journal handle in use: nothing failed, no torn tail, sequence numbers ahead of the disk.\<close>

definition live :: "pages_state codec \<Rightarrow> nat \<Rightarrow> pages_state \<Rightarrow> frame list \<Rightarrow>
    'z page_wal_scheme \<Rightarrow> bool" where
  "live c psz st fs s \<longleftrightarrow>
     on_disk c psz st fs [] s \<and> ps_page_size (pw_state s) = psz \<and> ps_version (pw_state s) = 1 \<and>
     last_seq 0 fs \<le> ps_sequence (pw_state s) \<and> ps_sequence st \<le> ps_sequence (pw_state s) \<and>
     (pw_file s \<longrightarrow> d_journal s \<noteq> None) \<and> psz < 2 ^ 32"

lemma torn_tail_Nil [simp]: "torn_tail psz q []"
  by (simp add: torn_tail_def)

lemma frames_ok_frame: "frames_ok psz q fs \<Longrightarrow> f \<in> set fs \<Longrightarrow> frame_ok psz f"
  by (induction fs arbitrary: q) auto

lemma frames_ok_last: "frames_ok psz q fs \<Longrightarrow> q \<le> last_seq q fs"
proof (induction fs arbitrary: q)
  case (Cons f fs)
  then have "q < fst f" and "fst f \<le> last_seq (fst f) fs" by auto
  then show ?case by simp
qed simp

lemma frames_ok_le_last: "frames_ok psz q fs \<Longrightarrow> f \<in> set fs \<Longrightarrow> fst f \<le> last_seq q fs"
  by (induction fs arbitrary: q) (auto dest: frames_ok_last)

lemma frames_ok_snoc:
  "frames_ok psz q (fs @ [f]) = (frames_ok psz q fs \<and> last_seq q fs < fst f \<and> frame_ok psz f)"
  by (induction fs arbitrary: q) auto

lemma last_seq_snoc [simp]: "last_seq q (fs @ [f]) = fst f"
  by (induction fs arbitrary: q) auto

lemma journal_bytes_snoc: "journal_bytes (fs @ [(q, l, p, b)]) = journal_bytes fs @ frame_bytes q l p b"
  by (simp add: journal_bytes_def)

lemma open_wal_recovers:
  assumes faults: "d_faults s = []" and psz: "psz < 2 ^ 32" and rec: "recoverable c psz s m"
    and codec: "\<And>st. decode c (encode c st) = Some st"
  shows "\<exists>t. open_wal c psz s = (Ok (), t) \<and> page_image psz (d_data t) = m \<and>
    d_faults t = [] \<and> \<not> pw_failed t \<and> live c psz (pw_state t) [] t"
proof -
  from rec obtain st fs tl where od: "on_disk c psz st fs tl s"
    and m: "m = images psz (newer (ps_sequence st) fs) (page_image psz (d_data s))"
    by (auto simp: recoverable_def)
  define s0 where "s0 = s\<lparr>pw_state := st, pw_lsn := 0, pw_pending := False,
                            pw_failed := False, pw_file := False\<rparr>"
  have "open_wal c psz s = recover c s0"
    using faults od
    by (auto simp: open_wal_def cmd_defs files_hold_def meta_of_def s0_def split: option.splits)
  moreover have "\<exists>t. recover c s0 = (Ok (), t) \<and> page_image psz (d_data t) = m \<and>
    d_faults t = [] \<and> \<not> pw_failed t \<and> live c psz (pw_state t) [] t"
  proof (cases "journal_of (d_journal s) = []")
    case True
    then have "fs = []"
      using od by (cases fs) (auto simp: files_hold_def journal_bytes_def HEADER_def)
    moreover have "recover c s0 = (Ok (), s0)"
      using True faults by (auto simp: recover_def cmd_defs s0_def journal_of_def split: option.splits)
    ultimately show ?thesis
      using m od faults psz True
      by (auto simp: s0_def images_def newer_def live_def files_hold_def journal_bytes_def
          journal_of_def meta_of_def)
  next
    case False
    define r where "r = replayed psz (ps_sequence st) fs (d_data s, st)"
    have fok: "\<forall>f \<in> set fs. frame_ok psz f" and jb: "d_journal s0 = Some (journal_bytes fs @ tl)"
      using od False frames_ok_frame
      by (auto simp: files_hold_def s0_def journal_of_def split: option.splits)
    have "replay_frames psz (ps_sequence st) (journal_bytes fs @ tl) 0 s0 =
        (Ok (), s0\<lparr>d_data := fst r, pw_state := snd r\<rparr>)"
      using replay_no_fault [of s0 psz 0 fs tl "ps_sequence st"] faults od psz
      by (simp add: s0_def files_hold_def r_def)
    moreover have "page_image psz (fst r) = m"
      using page_image_replayed [OF fok] m by (simp add: r_def)
    moreover have "ps_page_size (snd r) = psz" "ps_version (snd r) = 1"
    proof -
      show "ps_page_size (snd r) = psz"
        using od by (simp add: r_def replayed_def files_hold_def)
      have "ps_version (snd (foldl (frame_step psz) d gs)) = ps_version (snd d)" for d gs
      proof (induction gs arbitrary: d)
        case (Cons f gs)
        show ?case using Cons [of "frame_step psz d f"] by (cases d; cases f) auto
      qed simp
      then show "ps_version (snd r) = 1"
        using od by (simp add: r_def replayed_def files_hold_def)
    qed
    ultimately show ?thesis
      using jb False od faults psz codec
      by (auto simp: recover_def checkpoint_def handle_def cmd_defs s0_def journal_of_def
          live_def files_hold_def meta_of_def journal_bytes_def)
  qed
  ultimately show ?thesis by simp
qed

section \<open>Journalling under faults\<close>

lemma wp_io_call:
  assumes "\<And>fs. Q () (ok (s\<lparr>d_faults := fs\<rparr>))" and "\<And>k fs. E (bad k (s\<lparr>d_faults := fs\<rparr>))"
  shows "wp (io_call ok bad) Q E s"
  using assms(1) [of "d_faults s"] assms
  by (auto simp: wp_def io_call_def split: list.splits fault.splits)

lemma wp_io_check:
  assumes "\<And>fs. Q () (s\<lparr>d_faults := fs\<rparr>)" and "\<And>fs. E (s\<lparr>d_faults := fs\<rparr>)"
  shows "wp io_check Q E s"
  unfolding io_check_def using assms by (intro wp_io_call) auto

text \<open>What the journal leaves alone: the data file and every field of an enclosing record.\<close>

definition same_data :: "'z page_wal_scheme \<Rightarrow> 'z page_wal_scheme \<Rightarrow> bool" where
  "same_data s t \<longleftrightarrow> d_data t = d_data s \<and> page_wal.more t = page_wal.more s"

lemma same_data_simps [simp]:
  "same_data s s"
  "same_data s (t\<lparr>d_faults := a\<rparr>) = same_data s t" "same_data s (t\<lparr>d_journal := b\<rparr>) = same_data s t"
  "same_data s (t\<lparr>d_meta := b\<rparr>) = same_data s t" "same_data s (t\<lparr>d_tmp := b\<rparr>) = same_data s t"
  "same_data s (t\<lparr>pw_state := e\<rparr>) = same_data s t" "same_data s (t\<lparr>pw_pending := x\<rparr>) = same_data s t"
  "same_data s (t\<lparr>pw_failed := x\<rparr>) = same_data s t" "same_data s (t\<lparr>pw_file := x\<rparr>) = same_data s t"
  by (simp_all add: same_data_def)

lemma same_data_trans: "same_data s t \<Longrightarrow> same_data t u \<Longrightarrow> same_data s u"
  by (simp add: same_data_def)

lemma live_simps [simp]:
  "live c psz st fs (s\<lparr>d_faults := a\<rparr>) = live c psz st fs s"
  "live c psz st fs (s\<lparr>d_data := b\<rparr>) = live c psz st fs s"
  "live c psz st fs (s\<lparr>d_tmp := d\<rparr>) = live c psz st fs s"
  "live c psz st fs (s\<lparr>pw_failed := x\<rparr>) = live c psz st fs s"
  "live c psz st fs (s\<lparr>pw_pending := x\<rparr>) = live c psz st fs s"
  by (simp_all add: live_def)

lemma live_on_disk: "live c psz st fs s \<Longrightarrow> on_disk c psz st fs [] s"
  by (simp add: live_def)

lemma handle_wp:
  assumes live: "live c psz st fs s"
    and Q: "\<And>t. live c psz st fs t \<Longrightarrow> same_data s t \<Longrightarrow> pw_state t = pw_state s \<Longrightarrow>
      pw_lsn t = pw_lsn s \<Longrightarrow> pw_failed t = pw_failed s \<Longrightarrow> pw_pending t = pw_pending s \<Longrightarrow>
      d_journal t \<noteq> None \<Longrightarrow> d_meta t = d_meta s \<Longrightarrow> pw_file t \<Longrightarrow> Q () t"
    and E: "\<And>t. on_disk c psz st fs [] t \<Longrightarrow> same_data s t \<Longrightarrow> pw_failed t = pw_failed s \<Longrightarrow> E t"
  shows "wp handle Q E s"
proof (cases "pw_file s")
  case True
  then show ?thesis
    using live by (simp add: handle_def wp_simps) (intro Q, auto simp: live_def)
next
  case False
  have j: "on_disk c psz st fs [] (s\<lparr>d_journal := Some (case d_journal s of None \<Rightarrow> [] | Some j \<Rightarrow> j)\<rparr>)"
    using live by (auto simp: live_def files_hold_def journal_of_def meta_of_def split: option.splits)
  show ?thesis
    unfolding handle_def using False live j
    by (auto simp: wp_simps live_def intro!: wp_io_call wp_io_check Q E)
qed

lemma torn_tail_take:
  "frame_ok psz (q, l, p, b) \<Longrightarrow> prev < q \<Longrightarrow> k < HEADER + length b \<Longrightarrow>
   torn_tail psz prev (take k (frame_bytes q l p b))"
  by (force simp: torn_tail_def)

lemma word_less_Suc: "x \<noteq> - 1 \<Longrightarrow> (x :: 'a::len word) < x + 1"
proof -
  assume "x \<noteq> - 1"
  then have "1 + x \<noteq> 0" by (metis add.commute add_eq_0_iff)
  then show ?thesis by (simp add: word_less_nat_alt unatSuc add.commute [of x])
qed

lemma word_less_Suc_iff: "x \<noteq> - 1 \<Longrightarrow> y < x + 1 \<longleftrightarrow> y \<le> (x :: 'a::len word)"
proof -
  assume "x \<noteq> - 1"
  then have "1 + x \<noteq> 0" by (metis add.commute add_eq_0_iff)
  then have "unat (x + 1) = Suc (unat x)" by (simp add: unatSuc add.commute [of x])
  then show ?thesis by (simp add: word_less_nat_alt word_le_nat_alt less_Suc_eq_le)
qed

lemma live_append:
  assumes "live c psz st fs s" and "d_journal s \<noteq> None" and "\<not> bad_image psz (p, b)"
    and "ps_sequence (pw_state s) < q"
  shows "files_hold c psz st (fs @ [(q, l, p, b)]) [] (d_meta s)
           (map_option (\<lambda>j. j @ frame_bytes q l p b) (d_journal s))"
    and "\<exists>tl. files_hold c psz st fs tl (d_meta s)
           (map_option (\<lambda>j. j @ take k (frame_bytes q l p b)) (d_journal s))
         \<or> files_hold c psz st (fs @ [(q, l, p, b)]) tl (d_meta s)
           (map_option (\<lambda>j. j @ take k (frame_bytes q l p b)) (d_journal s))"
proof -
  have q: "last_seq 0 fs < q" using assms(1,4) by (auto simp: live_def)
  from assms q show full: "files_hold c psz st (fs @ [(q, l, p, b)]) [] (d_meta s)
           (map_option (\<lambda>j. j @ frame_bytes q l p b) (d_journal s))"
    by (auto simp: live_def files_hold_def journal_of_def meta_of_def frames_ok_snoc journal_bytes_snoc)
  show "\<exists>tl. files_hold c psz st fs tl (d_meta s)
           (map_option (\<lambda>j. j @ take k (frame_bytes q l p b)) (d_journal s))
         \<or> files_hold c psz st (fs @ [(q, l, p, b)]) tl (d_meta s)
           (map_option (\<lambda>j. j @ take k (frame_bytes q l p b)) (d_journal s))"
  proof (cases "k < HEADER + length b")
    case True
    have "torn_tail psz (last_seq 0 fs) (take k (frame_bytes q l p b))"
      using torn_tail_take [OF _ q True] assms(3) by simp
    with assms show ?thesis
      by (intro exI [of _ "take k (frame_bytes q l p b)"])
         (auto simp: live_def files_hold_def journal_of_def meta_of_def)
  next
    case False
    with full show ?thesis by auto
  qed
qed

text \<open>
  Logging one page image: on success the journal has one more frame; on failure it has
  at most that frame and otherwise a torn tail.  The data file is untouched either way.
\<close>

lemma log_image_wp:
  assumes live: "live c psz st fs s" and ok: "\<not> bad_image psz (p, b)"
    and Q: "\<And>q l t. live c psz st (fs @ [(q, l, p, b)]) t \<Longrightarrow> ps_sequence st < q \<Longrightarrow>
      same_data s t \<Longrightarrow> pw_failed t = pw_failed s \<Longrightarrow> pw_pending t \<Longrightarrow> Q () t"
    and E: "\<And>tl q l t. on_disk c psz st fs tl t \<or>
        ps_sequence st < q \<and> on_disk c psz st (fs @ [(q, l, p, b)]) tl t \<Longrightarrow> same_data s t \<Longrightarrow>
      pw_failed t = pw_failed s \<Longrightarrow> E t"
  shows "wp (log_image (p, b)) Q E s"
proof (cases "ps_sequence (pw_state s) = - 1")
  case True
  then show ?thesis
    using E [of "[]" s] live_on_disk [OF live] by (simp add: log_image_def wp_simps)
next
  case False
  define q where "q = ps_sequence (pw_state s) + 1"
  define l where "l = max (pw_lsn s) (case ps_pages (pw_state s) p of None \<Rightarrow> 0 | Some l \<Rightarrow> l)"
  have q: "ps_sequence (pw_state s) < q" unfolding q_def by (rule word_less_Suc [OF False])
  then have qst: "ps_sequence st < q" using live by (auto simp: live_def)
  let ?st = "(pw_state s)\<lparr>ps_sequence := q,
      ps_pages := if p = RESET then Map.empty else (ps_pages (pw_state s))(p \<mapsto> l)\<rparr>"
  have "wp handle (\<lambda>_. wp (append_journal (frame_bytes q l p b)) (\<lambda>_.
      wp (modM (\<lambda>t. t\<lparr>pw_state := ?st, pw_pending := True\<rparr>)) Q E) E) E s"
  proof (rule handle_wp [OF live])
    fix t assume lt: "live c psz st fs t" and sd: "same_data s t" and ps: "pw_state t = pw_state s"
      and pf: "pw_failed t = pw_failed s" and j: "d_journal t \<noteq> None" and po: "pw_file t"
    from q ps have qt: "ps_sequence (pw_state t) < q" by simp
    note app = live_append [OF lt j ok qt, where l = l]
    show "wp (append_journal (frame_bytes q l p b)) (\<lambda>_.
      wp (modM (\<lambda>t. t\<lparr>pw_state := ?st, pw_pending := True\<rparr>)) Q E) E t"
      unfolding append_journal_def
    proof (rule wp_io_call)
      fix fs'
      show "wp (modM (\<lambda>t. t\<lparr>pw_state := ?st, pw_pending := True\<rparr>)) Q E
          (t\<lparr>d_faults := fs', d_journal := map_option (\<lambda>j. j @ frame_bytes q l p b) (d_journal (t\<lparr>d_faults := fs'\<rparr>))\<rparr>)"
        unfolding wp_simps
        using app(1) lt sd pf po j qst live
        by (intro Q [of q l]) (auto simp: live_def)
    next
      fix k fs'
      from app(2) [where k = k] obtain tl where "files_hold c psz st fs tl (d_meta t)
           (map_option (\<lambda>j. j @ take k (frame_bytes q l p b)) (d_journal t))
         \<or> files_hold c psz st (fs @ [(q, l, p, b)]) tl (d_meta t)
           (map_option (\<lambda>j. j @ take k (frame_bytes q l p b)) (d_journal t))" by blast
      with sd qst pf show "E (t\<lparr>d_faults := fs', d_journal :=
          map_option (\<lambda>j. j @ take k (frame_bytes q l p b)) (d_journal (t\<lparr>d_faults := fs'\<rparr>))\<rparr>)"
        by (intro E [of tl _ q l]) auto
    qed
  qed (use E in blast)
  then show ?thesis
    using False by (simp add: log_image_def wp_simps Let_def q_def [symmetric] l_def [symmetric])
qed

abbreviation frame_image :: "frame \<Rightarrow> u64 \<times> bytes" where
  "frame_image f \<equiv> snd (snd f)"

lemma log_images_wp:
  assumes "live c psz st fs s" and "\<not> list_ex (bad_image psz) imgs"
    and "\<And>gs t. live c psz st (fs @ gs) t \<Longrightarrow> map frame_image gs = imgs \<Longrightarrow>
      \<forall>f \<in> set gs. ps_sequence st < fst f \<Longrightarrow> same_data s t \<Longrightarrow> pw_failed t = pw_failed s \<Longrightarrow>
      pw_pending t = (pw_pending s \<or> imgs \<noteq> []) \<Longrightarrow> Q () t"
    and "\<And>gs tl n t. on_disk c psz st (fs @ gs) tl t \<Longrightarrow> map frame_image gs = take n imgs \<Longrightarrow>
      \<forall>f \<in> set gs. ps_sequence st < fst f \<Longrightarrow> same_data s t \<Longrightarrow> pw_failed t = pw_failed s \<Longrightarrow> E t"
  shows "wp (forM imgs log_image) Q E s"
  using assms
proof (induction imgs arbitrary: fs s)
  case Nil
  then show ?case by (auto simp: wp_simps)
next
  case (Cons i imgs)
  obtain p b where i: "i = (p, b)" by (cases i)
  have "wp (log_image (p, b)) (\<lambda>_. wp (forM imgs log_image) Q E) E s"
  proof (rule log_image_wp [OF Cons.prems(1)])
    show "\<not> bad_image psz (p, b)" using Cons.prems(2) i by simp
  next
    fix q l t assume t: "live c psz st (fs @ [(q, l, p, b)]) t" "ps_sequence st < q"
      "same_data s t" "pw_failed t = pw_failed s" "pw_pending t"
    show "wp (forM imgs log_image) Q E t"
    proof (rule Cons.IH [OF t(1)])
      show "\<not> list_ex (bad_image psz) imgs" using Cons.prems(2) by simp
    next
      fix gs u assume u: "live c psz st ((fs @ [(q, l, p, b)]) @ gs) u" "map frame_image gs = imgs"
        "\<forall>f \<in> set gs. ps_sequence st < fst f" "same_data t u" "pw_failed u = pw_failed t"
        "pw_pending u = (pw_pending t \<or> imgs \<noteq> [])"
      show "Q () u"
        by (rule Cons.prems(3) [of "(q, l, p, b) # gs"])
           (use u t i same_data_trans [OF t(3) u(4)] in auto)
    next
      fix gs tl n u assume u: "on_disk c psz st ((fs @ [(q, l, p, b)]) @ gs) tl u"
        "map frame_image gs = take n imgs" "\<forall>f \<in> set gs. ps_sequence st < fst f" "same_data t u"
        "pw_failed u = pw_failed t"
      show "E u"
        by (rule Cons.prems(4) [of "(q, l, p, b) # gs" tl u "Suc n"])
           (use u t i same_data_trans [OF t(3) u(4)] in auto)
    qed
  next
    fix tl q l t assume t: "on_disk c psz st fs tl t \<or>
        ps_sequence st < q \<and> on_disk c psz st (fs @ [(q, l, p, b)]) tl t" and sd: "same_data s t"
      "pw_failed t = pw_failed s"
    show "E t"
    proof (cases "on_disk c psz st fs tl t")
      case True
      then show ?thesis using Cons.prems(4) [of "[]" tl t 0] sd by simp
    next
      case False
      with t show ?thesis using Cons.prems(4) [of "[(q, l, p, b)]" tl t 1] sd i by simp
    qed
  qed
  then show ?case by (simp add: wp_simps i)
qed

lemma prepare_wp:
  assumes live: "live c psz st fs s"
    and Q: "\<And>gs t. live c psz st (fs @ gs) t \<Longrightarrow> map frame_image gs = imgs \<Longrightarrow>
      \<forall>f \<in> set gs. ps_sequence st < fst f \<Longrightarrow> same_data s t \<Longrightarrow> \<not> pw_failed t \<Longrightarrow>
      pw_pending t = (pw_pending s \<or> imgs \<noteq> []) \<Longrightarrow> \<not> list_ex (bad_image psz) imgs \<Longrightarrow> Q () t"
    and E: "\<And>gs tl n t. on_disk c psz st (fs @ gs) tl t \<Longrightarrow> map frame_image gs = take n imgs \<Longrightarrow>
      \<forall>f \<in> set gs. ps_sequence st < fst f \<Longrightarrow> same_data s t \<Longrightarrow> pw_failed t \<or> t = s \<Longrightarrow> E t"
  shows "wp (prepare imgs) Q E s"
proof -
  have psz: "ps_page_size (pw_state s) = psz" using live by (simp add: live_def)
  have unchanged: "E s" using E [of "[]" "[]" s 0] live_on_disk [OF live] by simp
  show ?thesis
  proof (cases "pw_failed s \<or> list_ex (bad_image psz) imgs \<or> imgs = []")
    case True
    then show ?thesis
      using unchanged Q [of "[]" s] live by (auto simp: prepare_def wp_simps psz)
  next
    case False
    have "wp (forM imgs log_image) (\<lambda>_. wp handle (\<lambda>_. wp io_check (\<lambda>_.
        wp (modM (\<lambda>s. s\<lparr>pw_failed := False\<rparr>)) Q E) E) E) E (s\<lparr>pw_failed := True\<rparr>)"
    proof (rule log_images_wp [where fs = fs])
      fix gs t assume t: "live c psz st (fs @ gs) t" "map frame_image gs = imgs"
        "\<forall>f \<in> set gs. ps_sequence st < fst f" "same_data (s\<lparr>pw_failed := True\<rparr>) t"
        "pw_pending t = (pw_pending (s\<lparr>pw_failed := True\<rparr>) \<or> imgs \<noteq> [])"
        "pw_failed t = pw_failed (s\<lparr>pw_failed := True\<rparr>)"
      have sd: "same_data s t" using t(4) by (simp add: same_data_def)
      have err: "E u" if "on_disk c psz st (fs @ gs) [] u" "same_data t u" "pw_failed u" for u
        using E [of gs "[]" u "length imgs"] t(2,3) that same_data_trans [OF sd] by simp
      show "wp handle (\<lambda>_. wp io_check (\<lambda>_. wp (modM (\<lambda>s. s\<lparr>pw_failed := False\<rparr>)) Q E) E) E t"
      proof (rule handle_wp [OF t(1)])
        fix u assume u: "live c psz st (fs @ gs) u" "same_data t u" "pw_pending u = pw_pending t"
          "pw_failed u = pw_failed t"
        show "wp io_check (\<lambda>_. wp (modM (\<lambda>s. s\<lparr>pw_failed := False\<rparr>)) Q E) E u"
          using u t False same_data_trans [OF sd u(2)] live_on_disk [OF u(1)]
          by (intro wp_io_check) (auto simp: wp_simps intro!: Q [of gs] err)
      qed (use t(6) in \<open>auto intro: err\<close>)
    next
      fix gs tl n t assume "on_disk c psz st (fs @ gs) tl t" "map frame_image gs = take n imgs"
        "\<forall>f \<in> set gs. ps_sequence st < fst f" "same_data (s\<lparr>pw_failed := True\<rparr>) t"
        "pw_failed t = pw_failed (s\<lparr>pw_failed := True\<rparr>)"
      then show "E t" using E [of gs tl t n] by (simp add: same_data_def)
    qed (use False live in auto)
    then show ?thesis using False by (simp add: prepare_def wp_simps psz)
  qed
qed

lemma newer_none:
  assumes "frames_ok psz 0 fs" and "last_seq 0 fs \<le> q"
  shows "newer q fs = []"
  using frames_ok_le_last [OF assms(1)] assms(2)
  by (force simp: newer_def filter_empty_conv)

text \<open>
  A checkpoint taken while the data file agrees with the journal: whatever fails, a restart
  finds the same page images.
\<close>

lemma checkpoint_wp:
  assumes live: "live c psz st fs s" and nf: "\<not> pw_failed s"
    and sync: "images psz (newer (ps_sequence st) fs) (page_image psz (d_data s)) = page_image psz (d_data s)"
    and codec: "\<And>x. decode c (encode c x) = Some x"
    and Q: "\<And>st' fs' t. live c psz st' fs' t \<Longrightarrow> same_data s t \<Longrightarrow> \<not> pw_failed t \<Longrightarrow> \<not> pw_pending t \<Longrightarrow>
      (if pw_pending s then st' = pw_state s \<and> fs' = [] else st' = st \<and> fs' = fs) \<Longrightarrow> Q () t"
    and E: "\<And>t. recoverable c psz t (page_image psz (d_data s)) \<Longrightarrow> same_data s t \<Longrightarrow> pw_failed t \<Longrightarrow> E t"
  shows "wp (checkpoint c) Q E s"
proof (cases "pw_pending s")
  case False
  then show ?thesis
    using Q [OF live] nf by (simp add: checkpoint_def wp_simps)
next
  case True
  let ?st = "pw_state s"
  have od: "on_disk c psz st fs [] s" and fok: "frames_ok psz 0 fs" "last_seq 0 fs \<le> ps_sequence ?st"
    and psz: "ps_page_size ?st = psz" "ps_version ?st = 1" "psz < 2 ^ 32"
    and pf: "pw_file s \<Longrightarrow> d_journal s \<noteq> None"
    using live by (auto simp: live_def files_hold_def)
  have before: "E t" if "d_meta t = d_meta s" "d_journal t = d_journal s" "same_data s t" "pw_failed t" for t
    using that od sync by (intro E recoverableI [of _ _ st fs "[]"]) (auto simp: same_data_def)
  have held: "files_hold c psz ?st fs [] (Some (encode c ?st)) (d_journal s)"
    using od psz codec by (simp add: files_hold_def meta_of_def)
  have held': "files_hold c psz ?st [] [] (Some (encode c ?st)) (Some [])"
    using psz codec by (simp add: files_hold_def meta_of_def journal_of_def journal_bytes_def)
  have after: "E t" if "on_disk c psz ?st gs [] t" "same_data s t" "gs = fs \<or> gs = []" "pw_failed t" for t gs
  proof (rule E)
    have "newer (ps_sequence ?st) gs = []" using that(3) newer_none [OF fok] by (auto simp: newer_def)
    then show "recoverable c psz t (page_image psz (d_data s))"
      using that by (force simp: recoverable_def same_data_def images_def)
  qed (use that in auto)
  have tail: "wp handle (\<lambda>_. wp (io_call (\<lambda>s. s\<lparr>d_journal := Some []\<rparr>) (\<lambda>_. id)) (\<lambda>_. wp handle
      (\<lambda>_. wp io_check (\<lambda>_. wp (modM (\<lambda>s. s\<lparr>pw_pending := False, pw_failed := False\<rparr>)) Q E) E) E) E) E t"
    if t: "d_meta t = Some (encode c ?st)" "same_data s t" "d_journal t = d_journal s"
      "pw_state t = ?st" "pw_file t = pw_file s" "pw_failed t" for t
  proof -
    have lt: "live c psz ?st fs t" using held t fok psz pf by (simp add: live_def)
    show ?thesis
    proof (rule handle_wp [OF lt])
      fix u assume u: "live c psz ?st fs u" "same_data t u" "pw_state u = pw_state t"
        "d_journal u \<noteq> None" "d_meta u = d_meta t" "pw_file u" "pw_failed u = pw_failed t"
      have su: "same_data s u" by (rule same_data_trans [OF t(2) u(2)])
      show "wp (io_call (\<lambda>s. s\<lparr>d_journal := Some []\<rparr>) (\<lambda>_. id)) (\<lambda>_. wp handle
        (\<lambda>_. wp io_check (\<lambda>_. wp (modM (\<lambda>s. s\<lparr>pw_pending := False, pw_failed := False\<rparr>)) Q E) E) E) E u"
        using u su t held' True live_on_disk [OF u(1)] psz
        by (intro wp_io_call)
           (auto simp: handle_def wp_simps live_def intro!: wp_io_check Q [of ?st "[]"] after)
    next
      fix u assume u: "on_disk c psz ?st fs [] u" "same_data t u" "pw_failed u = pw_failed t"
      show "E u" by (rule after [OF u(1) same_data_trans [OF t(2) u(2)]]) (simp_all add: u t)
    qed
  qed
  have err: "E t" if "d_meta t = d_meta s \<or> d_meta t = Some (encode c ?st)"
      "d_journal t = d_journal s" "same_data s t" "pw_failed t" for t
    using that before after [of fs] held by auto
  show ?thesis
    unfolding checkpoint_def using True nf
    by (auto simp: wp_simps intro!: wp_io_call wp_io_check err tail [unfolded wp_simps])
qed

end
