(* ===== verification/Page_File.thy ===== *)
theory Page_File
  imports Page_Wal
begin

text \<open>
  The page file with its buffer pool (\<open>page.rs\<close>): fixed-size pages cached in memory,
  least-recently-used eviction, write-back through the page journal.  The hash tables of
  the pool are association lists in their iteration order, which Rust leaves open; no
  statement below depends on it.  The logical content of a page file is \<open>pf_view\<close>: the
  cached page, else the page on disk.  The theory shows that caching, eviction and flushing
  never change that content, that updates change exactly the page they name, and that
  whatever I/O call of a flush fails, a restart finds every page either old or new.
\<close>

record page =
  pg_id :: page_id
  pg_data :: bytes

definition new_page :: "page_id \<Rightarrow> nat \<Rightarrow> page" where
  "new_page i n = \<lparr>pg_id = i, pg_data = replicate n 0\<rparr>"

definition zero_page :: "page \<Rightarrow> page" where
  "zero_page p = p\<lparr>pg_data := replicate (length (pg_data p)) 0\<rparr>"

record page_file = page_wal +
  pf_page_size :: nat
  pf_capacity :: nat
  pf_cache :: "(page_id \<times> page) list"
  pf_last_used :: "(page_id \<times> nat) list"
  pf_clock :: nat
  pf_dirty :: "page_id list"
  pf_hits :: nat
  pf_misses :: nat
  pf_exists :: bool

section \<open>Operations\<close>

text \<open>
  \<open>PageFile::with_options\<close> on the disk that \<open>s\<close> holds; \<open>pf_exists\<close> says whether the data file is
  there, and opening creates it.
\<close>

definition with_options :: "pages_state codec \<Rightarrow> nat \<Rightarrow> nat \<Rightarrow> (page_file, unit) cmd" where
  "with_options c page_size capacity =
     seqM (io_call (\<lambda>s. s\<lparr>pf_exists := True\<rparr>) (\<lambda>_. id))
    (seqM (open_wal c page_size)
    (modM (\<lambda>s. s\<lparr>pf_page_size := page_size, pf_capacity := capacity, pf_cache := [],
                 pf_last_used := [], pf_clock := 0, pf_dirty := [], pf_hits := 0, pf_misses := 0\<rparr>)))"

definition DEFAULT_POOL_SIZE :: nat where "DEFAULT_POOL_SIZE = 64"

definition open_page_file :: "pages_state codec \<Rightarrow> nat \<Rightarrow> (page_file, unit) cmd" where
  "open_page_file c page_size = with_options c page_size DEFAULT_POOL_SIZE"

definition cached_pages :: "page_file \<Rightarrow> nat" where
  "cached_pages s = length (pf_cache s)"

definition touch :: "page_id \<Rightarrow> page_file \<Rightarrow> page_file" where
  "touch i s = s\<lparr>pf_clock := pf_clock s + 1,
                 pf_last_used := AList.update i (pf_clock s + 1) (pf_last_used s)\<rparr>"

text \<open>\<open>Iterator::min_by_key\<close>: the first element with the least key.\<close>

fun min_by_key :: "('a \<Rightarrow> 'b::linorder) \<Rightarrow> 'a list \<Rightarrow> 'a option" where
  "min_by_key f [] = None"
| "min_by_key f (x # xs) = (case min_by_key f xs of
       None \<Rightarrow> Some x
     | Some y \<Rightarrow> if f y < f x then Some y else Some x)"

text \<open>The cached pages that are dirty, in the iteration order of the dirty set.\<close>

definition dirty_pages :: "page_file \<Rightarrow> page list" where
  "dirty_pages s = List.map_filter (map_of (pf_cache s)) (pf_dirty s)"

definition page_images :: "page list \<Rightarrow> (u64 \<times> bytes) list" where
  "page_images ps = map (\<lambda>p. (pg_id p, pg_data p)) ps"

definition write_image :: "page \<Rightarrow> (page_file, unit) cmd" where
  "write_image p = bindM (getM pf_page_size) (\<lambda>psz.
     if 2 ^ 64 \<le> unat (pg_id p) * psz then panicM
     else write_data (unat (pg_id p) * psz) (pg_data p))"

definition evict_one :: "(page_file, bool) cmd" where
  "evict_one = bindM (getM id) (\<lambda>s.
     case min_by_key (\<lambda>i. case map_of (pf_last_used s) i of None \<Rightarrow> 0 | Some n \<Rightarrow> n)
            (map fst (pf_cache s)) of
       None \<Rightarrow> okM False
     | Some victim \<Rightarrow>
        seqM (if victim \<in> set (pf_dirty s)
              then seqM (prepare (page_images (dirty_pages s)))
                  (seqM (forM (dirty_pages s) write_image)
                  (modM (\<lambda>t. t\<lparr>pf_dirty := []\<rparr>)))
              else okM ())
       (seqM (modM (\<lambda>t. t\<lparr>pf_cache := AList.delete victim (pf_cache t),
                          pf_last_used := AList.delete victim (pf_last_used t)\<rparr>))
       (okM True)))"

definition read_raw :: "page_id \<Rightarrow> (page_file, page) cmd" where
  "read_raw i = bindM (getM id) (\<lambda>s.
     if 2 ^ 64 \<le> unat i * pf_page_size s then panicM
     else seqM io_check
      (if unat i * pf_page_size s + pf_page_size s \<le> length (d_data s)
       then okM \<lparr>pg_id = i, pg_data = bslice (d_data s) (unat i * pf_page_size s) (pf_page_size s)\<rparr>
       else errM (IoError UnexpectedEof ''failed to fill whole buffer'')))"

definition note_access :: "page_id \<Rightarrow> (page_file, unit) cmd" where
  "note_access i = bindM (getM id) (\<lambda>s.
     seqM (if map_of (pf_cache s) i \<noteq> None then modM (\<lambda>t. t\<lparr>pf_hits := pf_hits t + 1\<rparr>)
           else seqM (modM (\<lambda>t. t\<lparr>pf_misses := pf_misses t + 1\<rparr>))
               (bindM (read_raw i) (\<lambda>p.
                seqM (bindM (getM id) (\<lambda>t. if pf_capacity t \<le> length (pf_cache t)
                        then seqM evict_one (okM ()) else okM ()))
               (modM (\<lambda>t. t\<lparr>pf_cache := AList.update i p (pf_cache t)\<rparr>)))))
    (modM (touch i)))"

text \<open>\<open>self.cache[&id]\<close> panics if the page is not cached.\<close>

definition cached :: "page_id \<Rightarrow> (page_file, page) cmd" where
  "cached i = bindM (getM (\<lambda>s. map_of (pf_cache s) i)) (\<lambda>r.
     case r of None \<Rightarrow> panicM | Some p \<Rightarrow> okM p)"

definition read_page :: "page_id \<Rightarrow> (page_file, page) cmd" where
  "read_page i = seqM (note_access i) (cached i)"

definition with_page :: "page_id \<Rightarrow> (page \<Rightarrow> 'r) \<Rightarrow> (page_file, 'r) cmd" where
  "with_page i f = seqM (note_access i) (bindM (cached i) (\<lambda>p. okM (f p)))"

definition update_page :: "page_id \<Rightarrow> (page \<Rightarrow> 'r \<times> page) \<Rightarrow> (page_file, 'r) cmd" where
  "update_page i f = seqM (note_access i) (bindM (cached i) (\<lambda>p. case f p of (r, q) \<Rightarrow>
     seqM (modM (\<lambda>s. s\<lparr>pf_cache := AList.update i q (pf_cache s), pf_dirty := List.insert i (pf_dirty s)\<rparr>))
    (okM r)))"

definition write_page :: "page \<Rightarrow> (page_file, unit) cmd" where
  "write_page p = bindM (getM id) (\<lambda>s.
     if length (pg_data p) \<noteq> pf_page_size s
     then errM (IoError InvalidInput (''page has '' @ dec_digits (length (pg_data p)) @
            '' bytes, this file uses '' @ dec_digits (pf_page_size s)))
     else seqM (if pf_capacity s \<le> length (pf_cache s) \<and> map_of (pf_cache s) (pg_id p) = None
                then seqM evict_one (okM ()) else okM ())
         (modM (\<lambda>t. touch (pg_id p) (t\<lparr>pf_cache := AList.update (pg_id p) p (pf_cache t),
                                       pf_dirty := List.insert (pg_id p) (pf_dirty t)\<rparr>))))"

definition num_pages :: "(page_file, page_id) cmd" where
  "num_pages = seqM io_check (bindM (getM id) (\<lambda>s.
     if pf_page_size s = 0 then panicM
     else if length (d_data s) mod pf_page_size s \<noteq> 0
     then errM (IoError InvalidData (''file length '' @ dec_digits (length (d_data s)) @
            '' is not a multiple of page size '' @ dec_digits (pf_page_size s) @
            '' (did page.size change?)''))
     else (let on_disk = word_of_nat (length (d_data s) div pf_page_size s);
               keys = map fst (pf_cache s)
       in if keys = [] then okM (max on_disk 0)
          else if Max (set keys) = - 1 then panicM
          else okM (max on_disk (Max (set keys) + 1)))))"

definition append_page :: "(page_file, page) cmd" where
  "append_page = bindM num_pages (\<lambda>i. bindM (getM pf_page_size) (\<lambda>psz.
     seqM (write_page (new_page i psz)) (okM (new_page i psz))))"

definition flush :: "pages_state codec \<Rightarrow> (page_file, unit) cmd" where
  "flush c = bindM (getM dirty_pages) (\<lambda>pages.
     seqM (prepare (page_images pages))
    (seqM (forM pages write_image)
    (seqM io_check
    (seqM (checkpoint c)
    (modM (\<lambda>s. s\<lparr>pf_dirty := []\<rparr>))))))"

definition truncate_file :: "(page_file, unit) cmd" where
  "truncate_file = seqM reset
    (seqM (modM (\<lambda>s. s\<lparr>pf_cache := [], pf_last_used := [], pf_dirty := []\<rparr>))
    (seqM truncate_data io_check))"

section \<open>Logical content and invariant\<close>

definition disk_page :: "nat \<Rightarrow> bytes \<Rightarrow> page_id \<Rightarrow> bytes option" where
  "disk_page psz data i =
     (if unat i * psz + psz \<le> length data then Some (page_image psz data (unat i)) else None)"

definition pf_view :: "page_file \<Rightarrow> page_id \<Rightarrow> bytes option" where
  "pf_view s i = (case map_of (pf_cache s) i of
       Some p \<Rightarrow> Some (pg_data p)
     | None \<Rightarrow> disk_page (pf_page_size s) (d_data s) i)"

text \<open>A page that belongs in a file of this page size: right length, offset within 64 bits.\<close>

definition good_page :: "nat \<Rightarrow> page \<Rightarrow> bool" where
  "good_page psz p \<longleftrightarrow> length (pg_data p) = psz \<and> \<not> bad_image psz (pg_id p, pg_data p) \<and> pg_id p \<noteq> RESET"

text \<open>
  The pool is consistent: one good page per key, every dirty page is cached, every clean
  cached page equals the page on disk, and no page below a cached one is missing.
\<close>

definition pool_ok :: "page_file \<Rightarrow> bool" where
  "pool_ok s \<longleftrightarrow> 0 < pf_page_size s \<and> distinct (map fst (pf_cache s)) \<and> distinct (pf_dirty s) \<and>
     (\<forall>i p. map_of (pf_cache s) i = Some p \<longrightarrow> pg_id p = i \<and> good_page (pf_page_size s) p) \<and>
     (\<forall>i \<in> set (pf_dirty s). map_of (pf_cache s) i \<noteq> None) \<and>
     (\<forall>i p. map_of (pf_cache s) i = Some p \<longrightarrow> i \<notin> set (pf_dirty s) \<longrightarrow>
        disk_page (pf_page_size s) (d_data s) i = Some (pg_data p)) \<and>
     (\<forall>i j. map_of (pf_cache s) i \<noteq> None \<longrightarrow> j < i \<longrightarrow> pf_view s j \<noteq> None)"

text \<open>
  A usable page file: the pool is consistent, and what the journal would replay agrees with
  the data file on every page that is not dirty.  A journal that has failed is only known
  to be recoverable, since it may end in a torn frame.
\<close>

definition synced :: "nat \<Rightarrow> page_id list \<Rightarrow> frame list \<Rightarrow> bytes \<Rightarrow> bool" where
  "synced psz ids fs d \<longleftrightarrow> (\<forall>j. (\<forall>i \<in> set ids. unat i \<noteq> j) \<longrightarrow>
     images psz fs (page_image psz d) j = page_image psz d j)"

definition pf_inv :: "pages_state codec \<Rightarrow> page_file \<Rightarrow> bool" where
  "pf_inv c s \<longleftrightarrow> pool_ok s \<and> pf_page_size s < 2 ^ 32 \<and>
     (\<exists>st fs tl. on_disk c (pf_page_size s) st fs tl s \<and>
        (\<not> pw_failed s \<longrightarrow> live c (pf_page_size s) st fs s) \<and>
        synced (pf_page_size s) (pf_dirty s) (newer (ps_sequence st) fs) (d_data s))"

lemma page_image_bslice:
  "i * psz + psz \<le> length data \<Longrightarrow> page_image psz data i = bslice data (i * psz) psz"
  by (simp add: page_image_def bslice_def)

section \<open>Writing images back\<close>

text \<open>The data file after (some of) the pages \<open>ps\<close> have been written over \<open>d\<close>.\<close>

definition overwritten :: "nat \<Rightarrow> page list \<Rightarrow> bytes \<Rightarrow> bytes \<Rightarrow> bool" where
  "overwritten psz ps d d' \<longleftrightarrow> length d \<le> length d' \<and>
     (\<forall>n. length d \<le> n \<and> (\<forall>p \<in> set ps. unat (pg_id p) * psz + psz \<le> n) \<longrightarrow> length d' \<le> n) \<and>
     (\<forall>j. (\<forall>p \<in> set ps. unat (pg_id p) \<noteq> j) \<longrightarrow> page_image psz d' j = page_image psz d j)"

definition all_written :: "nat \<Rightarrow> page list \<Rightarrow> bytes \<Rightarrow> bytes \<Rightarrow> bool" where
  "all_written psz ps d d' \<longleftrightarrow> overwritten psz ps d d' \<and>
     (\<forall>p \<in> set ps. disk_page psz d' (pg_id p) = Some (pg_data p)) \<and>
     (length d mod psz = 0 \<longrightarrow> length d' mod psz = 0)"

lemma overwritten_Nil [simp]: "overwritten psz [] d d' \<longleftrightarrow> length d' = length d \<and> page_image psz d' = page_image psz d"
  by (auto simp: overwritten_def intro: le_antisym)

lemma overwritten_step:
  assumes "length b \<le> psz" and "overwritten psz ps (write_at d (unat (pg_id p) * psz) b) d'"
    and "unat (pg_id p) * psz + length b \<le> length (write_at d (unat (pg_id p) * psz) b)"
  shows "overwritten psz (p # ps) d d'"
  unfolding overwritten_def
proof (intro conjI allI impI)
  show "length d \<le> length d'"
    using assms(2) by (simp add: overwritten_def length_write_at)
next
  fix n assume n: "length d \<le> n \<and> (\<forall>q \<in> set (p # ps). unat (pg_id q) * psz + psz \<le> n)"
  then have "length (write_at d (unat (pg_id p) * psz) b) \<le> n"
    using assms(1) by (simp add: length_write_at)
  with assms(2) n show "length d' \<le> n" by (simp add: overwritten_def)
next
  fix j assume "\<forall>q \<in> set (p # ps). unat (pg_id q) \<noteq> j"
  then show "page_image psz d' j = page_image psz d j"
    using assms(1,2) page_image_write_other [of j "unat (pg_id p)" b psz d]
    by (auto simp: overwritten_def)
qed

lemma disk_page_overwritten:
  assumes "overwritten psz ps d d'" and "\<forall>p \<in> set ps. pg_id p \<noteq> i" and "disk_page psz d i = Some b"
  shows "disk_page psz d' i = Some b"
proof -
  have "\<forall>p \<in> set ps. unat (pg_id p) \<noteq> unat i" using assms(2) by (simp add: word_unat_eq_iff)
  with assms show ?thesis by (auto simp: overwritten_def disk_page_def split: if_splits)
qed

lemma all_written_step:
  assumes "good_page psz p" and "pg_id p \<notin> pg_id ` set ps"
    and "all_written psz ps (write_at d (unat (pg_id p) * psz) (pg_data p)) d'"
  shows "all_written psz (p # ps) d d'"
proof -
  let ?o = "unat (pg_id p) * psz"
  let ?e = "write_at d ?o (pg_data p)"
  have len: "length (pg_data p) = psz" using assms(1) by (simp add: good_page_def)
  have ow: "overwritten psz ps ?e d'" using assms(3) by (simp add: all_written_def)
  have "disk_page psz ?e (pg_id p) = Some (pg_data p)"
    using len by (simp add: disk_page_def length_write_at page_image_write)
  then have "disk_page psz d' (pg_id p) = Some (pg_data p)"
    using assms(2) by (intro disk_page_overwritten [OF ow]) (metis imageI, simp)
  moreover have "length ?e mod psz = 0" if "length d mod psz = 0"
    using that len by (auto simp: length_write_at max_def)
  ultimately show ?thesis
    using assms(3) overwritten_step [OF _ ow] len
    by (auto simp: all_written_def length_write_at)
qed

lemma write_images_wp:
  assumes "\<forall>p \<in> set ps. good_page (pf_page_size s) p" and "distinct (map pg_id ps)"
    and "\<And>d' f. all_written (pf_page_size s) ps (d_data s) d' \<Longrightarrow> Q () (s\<lparr>d_faults := f, d_data := d'\<rparr>)"
    and "\<And>d' f. overwritten (pf_page_size s) ps (d_data s) d' \<Longrightarrow> E (s\<lparr>d_faults := f, d_data := d'\<rparr>)"
  shows "wp (forM ps write_image) Q E s"
  using assms
proof (induction ps arbitrary: s)
  case Nil
  have "all_written (pf_page_size s) [] (d_data s) (d_data s)" by (simp add: all_written_def)
  from Nil.prems(3) [OF this, of "d_faults s"] show ?case by (simp add: wp_simps)
next
  case (Cons p ps)
  let ?psz = "pf_page_size s"
  let ?o = "unat (pg_id p) * ?psz"
  have good: "good_page ?psz p" using Cons.prems(1) by simp
  then have bound: "\<not> 2 ^ 64 \<le> ?o" and len: "length (pg_data p) = ?psz"
    by (auto simp: good_page_def bad_image_def)
  have "wp (write_data ?o (pg_data p)) (\<lambda>_. wp (forM ps write_image) Q E) E s"
    unfolding write_data_def
  proof (rule wp_io_call)
    fix f
    let ?t = "s\<lparr>d_faults := f, d_data := write_at (d_data (s\<lparr>d_faults := f\<rparr>)) ?o (pg_data p)\<rparr>"
    show "wp (forM ps write_image) Q E ?t"
    proof (rule Cons.IH)
      fix d' g assume w: "all_written (pf_page_size ?t) ps (d_data ?t) d'"
      have "Q () (s\<lparr>d_faults := g, d_data := d'\<rparr>)"
        using w all_written_step [OF good, of ps "d_data s" d'] Cons.prems(2)
        by (intro Cons.prems(3)) auto
      then show "Q () (?t\<lparr>d_faults := g, d_data := d'\<rparr>)" by simp
    next
      fix d' g assume w: "overwritten (pf_page_size ?t) ps (d_data ?t) d'"
      have "E (s\<lparr>d_faults := g, d_data := d'\<rparr>)"
        using w overwritten_step [of "pg_data p" ?psz ps "d_data s" p d'] len
        by (intro Cons.prems(4)) (simp add: length_write_at)
      then show "E (?t\<lparr>d_faults := g, d_data := d'\<rparr>)" by simp
    qed (use Cons.prems in auto)
  next
    fix k f
    have "overwritten ?psz (p # ps) (d_data s) (write_at (d_data s) ?o (take k (pg_data p)))"
    proof -
      have tk: "length (take k (pg_data p)) \<le> ?psz" using len by simp
      have "overwritten ?psz ps (write_at (d_data s) ?o (take k (pg_data p)))
               (write_at (d_data s) ?o (take k (pg_data p)))"
        by (auto simp: overwritten_def)
      from overwritten_step [OF tk this] show ?thesis by (simp add: length_write_at)
    qed
    from Cons.prems(4) [OF this, of f]
    show "E (s\<lparr>d_faults := f, d_data := write_at (d_data (s\<lparr>d_faults := f\<rparr>)) ?o (take k (pg_data p))\<rparr>)"
      by simp
  qed
  moreover have "wp (write_image p) R E s = wp (write_data ?o (pg_data p)) R E s" for R
    using bound by (simp add: wp_simps write_image_def)
  ultimately show ?case by (simp add: wp_simps)
qed

section \<open>The view and the pool\<close>

lemma pool_okD:
  assumes "pool_ok s"
  shows pool_psz: "0 < pf_page_size s"
    and pool_distinct: "distinct (map fst (pf_cache s))" "distinct (pf_dirty s)"
    and pool_key: "map_of (pf_cache s) i = Some p \<Longrightarrow> pg_id p = i"
    and pool_good: "map_of (pf_cache s) i = Some p \<Longrightarrow> good_page (pf_page_size s) p"
    and pool_dirty: "i \<in> set (pf_dirty s) \<Longrightarrow> \<exists>p. map_of (pf_cache s) i = Some p"
    and pool_clean: "map_of (pf_cache s) i = Some p \<Longrightarrow> i \<notin> set (pf_dirty s) \<Longrightarrow>
      disk_page (pf_page_size s) (d_data s) i = Some (pg_data p)"
    and pool_no_hole: "map_of (pf_cache s) i = Some p \<Longrightarrow> j < i \<Longrightarrow> pf_view s j \<noteq> None"
  using assms unfolding pool_ok_def by blast+

lemma dirty_pages_mem:
  "p \<in> set (dirty_pages s) \<longleftrightarrow> (\<exists>i \<in> set (pf_dirty s). map_of (pf_cache s) i = Some p)"
  by (auto simp: dirty_pages_def List.map_filter_def image_iff simp del: map_of_eq_Some_iff)

lemma dirty_pages_ids:
  assumes "pool_ok s"
  shows "map pg_id (dirty_pages s) = pf_dirty s"
proof -
  have "map pg_id (List.map_filter (map_of (pf_cache s)) ids) = ids" if "set ids \<subseteq> set (pf_dirty s)" for ids
    using that
  proof (induction ids)
    case (Cons i ids)
    then obtain p where "map_of (pf_cache s) i = Some p" using pool_dirty [OF assms, of i] by auto
    then show ?case using Cons pool_key [OF assms] by (simp add: List.map_filter_simps del: map_of_eq_Some_iff)
  qed (simp add: List.map_filter_simps)
  then show ?thesis by (simp add: dirty_pages_def)
qed

lemma dirty_pagesD:
  assumes "pool_ok s" and "p \<in> set (dirty_pages s)"
  shows "map_of (pf_cache s) (pg_id p) = Some p" and "pg_id p \<in> set (pf_dirty s)"
    and "good_page (pf_page_size s) p"
proof -
  obtain i where i: "i \<in> set (pf_dirty s)" "map_of (pf_cache s) i = Some p"
    using assms(2) by (auto simp: dirty_pages_mem)
  moreover have "pg_id p = i" by (rule pool_key [OF assms(1) i(2)])
  ultimately show "map_of (pf_cache s) (pg_id p) = Some p" "pg_id p \<in> set (pf_dirty s)" by simp_all
  show "good_page (pf_page_size s) p" by (rule pool_good [OF assms(1) i(2)])
qed

lemma dirty_pagesI:
  assumes "pool_ok s" and "i \<in> set (pf_dirty s)"
  obtains p where "p \<in> set (dirty_pages s)" "pg_id p = i" "map_of (pf_cache s) i = Some p"
proof -
  obtain p where "map_of (pf_cache s) i = Some p" using pool_dirty [OF assms] ..
  with that [of p] assms pool_key show ?thesis by (auto simp: dirty_pages_mem simp del: map_of_eq_Some_iff)
qed

text \<open>Writing dirty pages back, in full or in part, changes neither the view nor the pool.\<close>

lemma disk_page_new:
  assumes ow: "overwritten psz ps d d'" and psz: "0 < psz"
    and "disk_page psz d i = None" and "disk_page psz d' i \<noteq> None"
  shows "\<exists>p \<in> set ps. i \<le> pg_id p"
proof (rule ccontr)
  assume "\<not> ?thesis"
  then have below: "unat (pg_id p) < unat i" if "p \<in> set ps" for p
    using that by (force simp: word_less_nat_alt not_le)
  let ?n = "unat i * psz + psz - 1"
  have "unat (pg_id p) * psz + psz \<le> ?n" if "p \<in> set ps" for p
  proof -
    have "Suc (unat (pg_id p)) * psz \<le> unat i * psz"
      using below [OF that] by (intro mult_le_mono1) simp
    then show ?thesis using psz by simp
  qed
  moreover have "length d \<le> ?n" using assms(3) psz by (auto simp: disk_page_def split: if_splits)
  ultimately have "length d' \<le> ?n" using ow by (auto simp: overwritten_def)
  with assms(4) psz show False by (auto simp: disk_page_def split: if_splits)
qed

lemma view_overwritten:
  assumes ok: "pool_ok s" and ow: "overwritten (pf_page_size s) (dirty_pages s) (d_data s) d'"
    and i: "map_of (pf_cache s) i = None"
  shows "disk_page (pf_page_size s) d' i = disk_page (pf_page_size s) (d_data s) i"
proof -
  have nd: "\<forall>p \<in> set (dirty_pages s). pg_id p \<noteq> i"
    using dirty_pagesD(1) [OF ok] i by fastforce
  show ?thesis
  proof (cases "disk_page (pf_page_size s) (d_data s) i")
    case (Some b)
    then show ?thesis using disk_page_overwritten [OF ow nd] by simp
  next
    case None
    have "disk_page (pf_page_size s) d' i = None"
    proof (rule ccontr)
      assume "\<not> ?thesis"
      then obtain p where p: "p \<in> set (dirty_pages s)" "i \<le> pg_id p"
        using disk_page_new [OF ow pool_psz [OF ok] None] by blast
      then have "i < pg_id p" using nd by auto
      then have "pf_view s i \<noteq> None" by (rule pool_no_hole [OF ok dirty_pagesD(1) [OF ok p(1)]])
      with i None show False by (simp add: pf_view_def)
    qed
    with None show ?thesis by simp
  qed
qed

lemma pf_view_overwritten:
  assumes "pool_ok s" and "overwritten (pf_page_size s) (dirty_pages s) (d_data s) d'"
  shows "pf_view (s\<lparr>d_data := d'\<rparr>) = pf_view s"
  using view_overwritten [OF assms] by (auto simp: pf_view_def fun_eq_iff split: option.splits)

lemma pool_ok_overwritten:
  assumes ok: "pool_ok s" and ow: "overwritten (pf_page_size s) (dirty_pages s) (d_data s) d'"
  shows "pool_ok (s\<lparr>d_data := d'\<rparr>)"
proof -
  have clean: "\<forall>i p. map_of (pf_cache s) i = Some p \<longrightarrow> i \<notin> set (pf_dirty s) \<longrightarrow>
      disk_page (pf_page_size s) d' i = Some (pg_data p)"
    using pool_clean [OF ok] dirty_pagesD(2) [OF ok] by (blast intro: disk_page_overwritten [OF ow])
  have "pool_ok (s\<lparr>d_data := d'\<rparr>) \<longleftrightarrow> 0 < pf_page_size s \<and> distinct (map fst (pf_cache s)) \<and>
     distinct (pf_dirty s) \<and>
     (\<forall>i p. map_of (pf_cache s) i = Some p \<longrightarrow> pg_id p = i \<and> good_page (pf_page_size s) p) \<and>
     (\<forall>i \<in> set (pf_dirty s). map_of (pf_cache s) i \<noteq> None) \<and>
     (\<forall>i p. map_of (pf_cache s) i = Some p \<longrightarrow> i \<notin> set (pf_dirty s) \<longrightarrow>
        disk_page (pf_page_size s) d' i = Some (pg_data p)) \<and>
     (\<forall>i j. map_of (pf_cache s) i \<noteq> None \<longrightarrow> j < i \<longrightarrow> pf_view s j \<noteq> None)"
    unfolding pool_ok_def pf_view_overwritten [OF assms] by (simp del: map_of_eq_Some_iff)
  with ok clean show ?thesis unfolding pool_ok_def by blast
qed

text \<open>The fields of the pool, which journalling and write-back leave alone.\<close>

definition same_pool :: "page_file \<Rightarrow> page_file \<Rightarrow> bool" where
  "same_pool s t \<longleftrightarrow> page_wal.more t = page_wal.more s"

lemma same_poolD:
  assumes "same_pool s t"
  shows "pf_page_size t = pf_page_size s" "pf_capacity t = pf_capacity s" "pf_cache t = pf_cache s"
    "pf_last_used t = pf_last_used s" "pf_clock t = pf_clock s" "pf_dirty t = pf_dirty s"
    "pf_hits t = pf_hits s" "pf_misses t = pf_misses s"
  using assms by (cases s; cases t; simp add: same_pool_def)+

lemma pool_cong:
  assumes "pf_page_size t = pf_page_size s" "pf_cache t = pf_cache s" "pf_dirty t = pf_dirty s"
    "d_data t = d_data s"
  shows "pool_ok t = pool_ok s" "pf_view t = pf_view s" "dirty_pages t = dirty_pages s"
proof -
  show "pf_view t = pf_view s" by (rule ext) (simp only: pf_view_def assms)
  then show "pool_ok t = pool_ok s" by (simp only: pool_ok_def assms)
  show "dirty_pages t = dirty_pages s" by (simp only: dirty_pages_def assms)
qed

lemma pf_view_cong:
  "pf_page_size t = pf_page_size s \<Longrightarrow> pf_cache t = pf_cache s \<Longrightarrow> d_data t = d_data s \<Longrightarrow> pf_view t = pf_view s"
  by (rule ext) (simp only: pf_view_def)

lemma pf_view_simps [simp]:
  "pf_view (s\<lparr>d_faults := f\<rparr>) = pf_view s" "pf_view (s\<lparr>pf_dirty := ids\<rparr>) = pf_view s"
  "pf_view (s\<lparr>pf_hits := n\<rparr>) = pf_view s" "pf_view (s\<lparr>pf_misses := n\<rparr>) = pf_view s"
  "pf_view (s\<lparr>pf_clock := n\<rparr>) = pf_view s" "pf_view (s\<lparr>pf_last_used := l\<rparr>) = pf_view s"
  by (rule pf_view_cong; simp)+

text \<open>The counters and the clock of the pool play no part in the invariant.\<close>

lemma pool_ok_simps [simp]:
  "pool_ok (s\<lparr>d_faults := f\<rparr>) = pool_ok s"
  "pool_ok (s\<lparr>pf_hits := n\<rparr>) = pool_ok s" "pool_ok (s\<lparr>pf_misses := n\<rparr>) = pool_ok s"
  "pool_ok (s\<lparr>pf_clock := n\<rparr>) = pool_ok s" "pool_ok (s\<lparr>pf_last_used := l\<rparr>) = pool_ok s"
  by (rule pool_cong; simp)+

lemma live_pool_simps [simp]:
  "live c psz st fs (s\<lparr>pf_hits := n\<rparr>) = live c psz st fs s" "live c psz st fs (s\<lparr>pf_misses := n\<rparr>) = live c psz st fs s"
  "live c psz st fs (s\<lparr>pf_clock := n\<rparr>) = live c psz st fs s" "live c psz st fs (s\<lparr>pf_last_used := l\<rparr>) = live c psz st fs s"
  "live c psz st fs (s\<lparr>pf_cache := ca\<rparr>) = live c psz st fs s" "live c psz st fs (s\<lparr>pf_dirty := d\<rparr>) = live c psz st fs s"
  by (simp_all add: live_def)

lemma pf_inv_pool: "pf_inv c s \<Longrightarrow> pool_ok s"
  by (simp add: pf_inv_def)

lemma pf_inv_simps [simp]:
  "pf_inv c (s\<lparr>d_faults := f\<rparr>) = pf_inv c s"
  "pf_inv c (s\<lparr>pf_hits := n\<rparr>) = pf_inv c s" "pf_inv c (s\<lparr>pf_misses := n\<rparr>) = pf_inv c s"
  "pf_inv c (s\<lparr>pf_clock := n\<rparr>) = pf_inv c s" "pf_inv c (s\<lparr>pf_last_used := l\<rparr>) = pf_inv c s"
  by (simp_all add: pf_inv_def)

section \<open>Write-back under faults\<close>

definition with_pages :: "page list \<Rightarrow> (nat \<Rightarrow> bytes) \<Rightarrow> nat \<Rightarrow> bytes" where
  "with_pages ps m = foldl (\<lambda>m p. m(unat (pg_id p) := pg_data p)) m ps"

lemma with_pages_other: "(\<forall>p \<in> set ps. unat (pg_id p) \<noteq> j) \<Longrightarrow> with_pages ps m j = m j"
  by (induction ps arbitrary: m) (auto simp: with_pages_def)

lemma with_pages_mem:
  "p \<in> set ps \<Longrightarrow> distinct (map pg_id ps) \<Longrightarrow> with_pages ps m (unat (pg_id p)) = pg_data p"
proof (induction ps arbitrary: m)
  case (Cons q ps)
  show ?case
  proof (cases "p = q")
    case True
    then have "\<forall>r \<in> set ps. unat (pg_id r) \<noteq> unat (pg_id p)" using Cons.prems by (auto simp: image_iff word_unat_eq_iff)
    from with_pages_other [OF this, of "m(unat (pg_id p) := pg_data p)"]
    show ?thesis using True by (simp add: with_pages_def)
  next
    case False
    then show ?thesis using Cons by (simp add: with_pages_def)
  qed
qed simp

lemma images_with_pages:
  "map frame_image gs = page_images ps \<Longrightarrow> \<forall>p \<in> set ps. pg_id p \<noteq> RESET \<Longrightarrow>
   images psz gs m = with_pages ps m"
proof (induction ps arbitrary: gs m)
  case Nil
  then show ?case by (simp add: images_def with_pages_def page_images_def)
next
  case (Cons p ps)
  then obtain q l hs where gs: "gs = (q, l, pg_id p, pg_data p) # hs" "map frame_image hs = page_images ps"
    by (cases gs) (auto simp: page_images_def)
  from Cons.IH [OF gs(2)] Cons.prems show ?case by (simp add: gs(1) images_def with_pages_def)
qed

lemma images_pointwise: "m j = m' j \<Longrightarrow> images psz fs m j = images psz fs m' j"
  by (metis images_covered images_uncovered)

lemma newer_append: "\<forall>f \<in> set gs. q < fst f \<Longrightarrow> newer q (fs @ gs) = newer q fs @ gs"
  by (simp add: newer_def)

text \<open>
  \<open>old_or_new ps m m'\<close>: every page of \<open>m'\<close> has its image in \<open>m\<close> or its image among
  the pages \<open>ps\<close>.
\<close>

definition old_or_new :: "page list \<Rightarrow> (nat \<Rightarrow> bytes) \<Rightarrow> (nat \<Rightarrow> bytes) \<Rightarrow> bool" where
  "old_or_new ps m m' \<longleftrightarrow> (\<forall>j. m' j = m j \<or> (\<exists>p \<in> set ps. unat (pg_id p) = j \<and> m' j = pg_data p))"

lemma old_or_new_with_pages:
  assumes "distinct (map pg_id ps)" and "set qs \<subseteq> set ps" and "distinct (map pg_id qs)"
  shows "old_or_new ps m (with_pages qs m)"
  unfolding old_or_new_def
proof
  fix j
  show "with_pages qs m j = m j \<or> (\<exists>p \<in> set ps. unat (pg_id p) = j \<and> with_pages qs m j = pg_data p)"
  proof (cases "\<exists>p \<in> set qs. unat (pg_id p) = j")
    case True
    then show ?thesis using with_pages_mem [OF _ assms(3)] assms(2) by blast
  next
    case False
    then show ?thesis using with_pages_other by blast
  qed
qed

text \<open>
  The images a restart finds after the pages \<open>ps\<close> have been journalled and (in part)
  written over the data file.
\<close>

lemma journalled_images:
  assumes ow: "overwritten psz ps d d'" and gs: "map frame_image gs = page_images ps"
    and nr: "\<forall>p \<in> set ps. pg_id p \<noteq> RESET" and dist: "distinct (map pg_id ps)"
  shows "images psz (fs @ gs) (page_image psz d') = with_pages ps (images psz fs (page_image psz d))"
proof
  fix j
  let ?m = "\<lambda>d. images psz fs (page_image psz d)"
  have "with_pages ps (?m d') j = with_pages ps (?m d) j"
  proof (cases "\<exists>p \<in> set ps. unat (pg_id p) = j")
    case True
    then obtain p where p: "p \<in> set ps" "unat (pg_id p) = j" by blast
    from with_pages_mem [OF p(1) dist] show ?thesis unfolding p(2) by simp
  next
    case False
    then have "page_image psz d' j = page_image psz d j" using ow by (simp add: overwritten_def)
    then have "?m d' j = ?m d j" by (rule images_pointwise)
    with False show ?thesis using with_pages_other by metis
  qed
  then show "images psz (fs @ gs) (page_image psz d') j = with_pages ps (?m d) j"
    by (simp add: images_append images_with_pages [OF gs nr])
qed

lemma synced_with_pages:
  assumes "synced psz (map pg_id ps) fs d" and "set qs \<subseteq> set ps"
  shows "(\<forall>i \<in> set (map pg_id ps). unat i \<noteq> j) \<Longrightarrow>
    with_pages qs (images psz fs (page_image psz d)) j = page_image psz d j"
  using assms with_pages_other [of qs j "images psz fs (page_image psz d)"]
  by (fastforce simp: synced_def)

text \<open>
  What an operation of the page file may leave behind when it fails: the same pool, the same
  logical content, and a disk from which a restart recovers every page old or new.
\<close>

definition kept :: "pages_state codec \<Rightarrow> page_file \<Rightarrow> page_file \<Rightarrow> bool" where
  "kept c s t \<longleftrightarrow> pf_inv c t \<and> same_pool s t \<and> pf_view t = pf_view s \<and>
     (\<forall>m. recoverable c (pf_page_size s) s m \<longrightarrow>
       (\<exists>m'. recoverable c (pf_page_size s) t m' \<and> old_or_new (dirty_pages s) m m'))"

lemma recoverable_unique:
  assumes "recoverable c psz s m" "recoverable c psz s m'" "psz < 2 ^ 32"
    and codec: "\<And>x. decode c (encode c x) = Some x"
  shows "m = m'"
proof -
  define u :: page_wal where "u = \<lparr>d_data = d_data s, d_journal = d_journal s, d_meta = d_meta s,
    d_tmp = None, d_faults = [], pw_state = fresh_state 0, pw_lsn = 0, pw_pending = False,
    pw_failed = False, pw_file = False\<rparr>"
  have "recoverable c psz u m" "recoverable c psz u m'" "d_faults u = []"
    using assms(1,2) by (simp_all add: recoverable_def u_def)
  from open_wal_recovers [OF this(3) assms(3) this(1) codec]
    open_wal_recovers [OF this(3) assms(3) this(2) codec]
  show ?thesis by auto
qed

lemma keptI:
  assumes inv: "pf_inv c s" and codec: "\<And>x. decode c (encode c x) = Some x"
    and od: "on_disk c (pf_page_size s) st fs tail s"
    and t: "on_disk c (pf_page_size s) st gs tail' t" "same_pool s t" "\<not> pw_failed t \<Longrightarrow> live c (pf_page_size s) st gs t"
    and ow: "overwritten (pf_page_size s) (dirty_pages s) (d_data s) (d_data t)"
    and im: "images (pf_page_size s) (newer (ps_sequence st) gs) (page_image (pf_page_size s) (d_data t)) =
      with_pages qs (images (pf_page_size s) (newer (ps_sequence st) fs) (page_image (pf_page_size s) (d_data s)))"
    and sy: "synced (pf_page_size s) (pf_dirty s) (newer (ps_sequence st) fs) (d_data s)"
    and qs: "set qs \<subseteq> set (dirty_pages s)" "distinct (map pg_id qs)"
  shows "kept c s t"
proof -
  let ?psz = "pf_page_size s" and ?m = "images (pf_page_size s) (newer (ps_sequence st) fs) (page_image (pf_page_size s) (d_data s))"
  have ok: "pool_ok s" and small: "?psz < 2 ^ 32" using inv by (simp_all add: pf_inv_def)
  note ids = dirty_pages_ids [OF ok] and eq = same_poolD [OF t(2)]
  have dist: "distinct (map pg_id (dirty_pages s))" using pool_distinct(2) [OF ok] by (simp add: ids)
  have c: "pool_ok t = pool_ok (s\<lparr>d_data := d_data t\<rparr>)" "pf_view t = pf_view (s\<lparr>d_data := d_data t\<rparr>)"
    using eq by (intro pool_cong; simp)+
  have "synced ?psz (pf_dirty t) (newer (ps_sequence st) gs) (d_data t)"
    unfolding synced_def
  proof (intro allI impI)
    fix j assume j: "\<forall>i \<in> set (pf_dirty t). unat i \<noteq> j"
    then have j': "\<forall>i \<in> set (map pg_id (dirty_pages s)). unat i \<noteq> j" by (simp only: ids eq)
    then have "page_image ?psz (d_data t) j = page_image ?psz (d_data s) j"
      using ow unfolding overwritten_def by simp
    then show "images ?psz (newer (ps_sequence st) gs) (page_image ?psz (d_data t)) j = page_image ?psz (d_data t) j"
      using synced_with_pages [OF sy [folded ids] qs(1) j'] im by simp
  qed
  then have "pf_inv c t"
    using t ok small c pool_ok_overwritten [OF ok ow] eq unfolding pf_inv_def by auto
  moreover have "recoverable c ?psz t (with_pages qs ?m)"
    using recoverableI [OF t(1) im] .
  moreover have "recoverable c ?psz s ?m" by (rule recoverableI [OF od refl])
  ultimately show ?thesis
    using t(2) c(2) pf_view_overwritten [OF ok ow] old_or_new_with_pages [OF dist qs]
      recoverable_unique [OF _ _ small codec] unfolding kept_def by metis
qed

lemma kept_refl:
  assumes "pf_inv c s"
  shows "kept c s s"
  using assms unfolding kept_def same_pool_def old_or_new_def by blast

lemma map_frame_image_take:
  "map frame_image gs = take n (page_images ps) \<Longrightarrow> map frame_image gs = page_images (take n ps)"
  by (simp add: page_images_def take_map)

text \<open>
  Write-back of all dirty pages, the part that eviction and flushing share: journal every
  image, then write every image.
\<close>

lemma writeback_wp:
  assumes inv: "pf_inv c s" and codec: "\<And>x. decode c (encode c x) = Some x"
    and Q: "\<And>st gs t. live c (pf_page_size s) st gs t \<Longrightarrow> \<not> pw_failed t \<Longrightarrow> same_pool s t \<Longrightarrow>
      all_written (pf_page_size s) (dirty_pages s) (d_data s) (d_data t) \<Longrightarrow> kept c s t \<Longrightarrow>
      images (pf_page_size s) (newer (ps_sequence st) gs) (page_image (pf_page_size s) (d_data t)) =
        page_image (pf_page_size s) (d_data t) \<Longrightarrow> Q () t"
    and E: "\<And>t. kept c s t \<Longrightarrow> E t"
  shows "wp (prepare (page_images (dirty_pages s))) (\<lambda>_. wp (forM (dirty_pages s) write_image) Q E) E s"
proof (cases "pw_failed s")
  case True
  then show ?thesis using E [OF kept_refl [OF inv]] by (simp add: prepare_def wp_simps)
next
  case False
  let ?psz = "pf_page_size s" and ?ps = "dirty_pages s"
  from inv obtain st fs tail where ok: "pool_ok s" and live: "live c ?psz st fs s"
    and od: "on_disk c ?psz st fs tail s" and sy: "synced ?psz (pf_dirty s) (newer (ps_sequence st) fs) (d_data s)"
    using False by (auto simp: pf_inv_def)
  note ids = dirty_pages_ids [OF ok] and od' = live_on_disk [OF live]
  have dist: "distinct (map pg_id ?ps)" using pool_distinct(2) [OF ok] by (simp add: ids)
  have good: "\<forall>p \<in> set ?ps. good_page ?psz p" using dirty_pagesD(3) [OF ok] by blast
  then have nr: "\<forall>p \<in> set ?ps. pg_id p \<noteq> RESET" by (simp add: good_page_def)
  let ?m = "images ?psz (newer (ps_sequence st) fs) (page_image ?psz (d_data s))"
  note keep = keptI [OF inv codec od' _ _ _ _ _ sy, where gs = "fs @ gs" for gs]
  show ?thesis
  proof (rule prepare_wp [OF live])
    fix gs tl n t assume t: "on_disk c ?psz st (fs @ gs) tl t"
      "map frame_image gs = take n (page_images ?ps)"
      "\<forall>f \<in> set gs. ps_sequence st < fst f" "same_data s t" "pw_failed t \<or> t = s"
    have dt: "d_data t = d_data s" using t(4) by (simp add: same_data_def)
    have nrt: "\<forall>p \<in> set (take n ?ps). pg_id p \<noteq> RESET" using nr by (meson in_set_takeD)
    have im: "images ?psz (newer (ps_sequence st) (fs @ gs)) (page_image ?psz (d_data t)) = with_pages (take n ?ps) ?m"
      using images_with_pages [OF map_frame_image_take [OF t(2)] nrt]
      by (simp add: newer_append [OF t(3)] images_append dt)
    show "E t"
    proof (cases "t = s")
      case True
      then show ?thesis using E [OF kept_refl [OF inv]] by simp
    next
      case False
      then show ?thesis
        using t dist dt im
        by (intro E keep [where qs = "take n ?ps"])
           (auto simp: same_pool_def same_data_def overwritten_def take_map [symmetric] set_take_subset
             intro: distinct_take)
    qed
  next
    fix gs t assume t: "live c ?psz st (fs @ gs) t" "map frame_image gs = page_images ?ps"
      "\<forall>f \<in> set gs. ps_sequence st < fst f" "same_data s t" "\<not> pw_failed t"
    have dt: "d_data t = d_data s" and pt: "same_pool s t" using t(4) by (simp_all add: same_data_def same_pool_def)
    note eq = same_poolD [OF pt]
    have im: "images ?psz (newer (ps_sequence st) (fs @ gs)) (page_image ?psz d') = with_pages ?ps ?m"
      if "overwritten ?psz ?ps (d_data s) d'" for d'
      using journalled_images [OF that t(2) nr dist] by (simp add: newer_append [OF t(3)])
    have kt: "kept c s (t\<lparr>d_faults := f, d_data := d'\<rparr>)" if "overwritten ?psz ?ps (d_data s) d'" for f d'
      using t pt im [OF that] dist that
      by (intro keep [where qs = ?ps]) (auto simp: same_pool_def live_def)
    show "wp (forM ?ps write_image) Q E t"
    proof (rule write_images_wp)
      fix d' f assume w: "all_written (pf_page_size t) ?ps (d_data t) d'"
      then have w': "all_written ?psz ?ps (d_data s) d'" by (simp add: dt eq)
      then have ow: "overwritten ?psz ?ps (d_data s) d'" by (simp add: all_written_def)
      have "with_pages ?ps ?m = page_image ?psz d'"
      proof
        fix j
        show "with_pages ?ps ?m j = page_image ?psz d' j"
        proof (cases "\<exists>p \<in> set ?ps. unat (pg_id p) = j")
          case True
          then obtain p where p: "p \<in> set ?ps" "unat (pg_id p) = j" by blast
          then have "disk_page ?psz d' (pg_id p) = Some (pg_data p)" using w' by (simp add: all_written_def)
          then show ?thesis
            using with_pages_mem [OF p(1) dist, of ?m] p(2) by (auto simp: disk_page_def split: if_splits)
        next
          case False
          then show ?thesis
            using synced_with_pages [OF sy [folded ids] subset_refl, of j] ow by (auto simp: overwritten_def)
        qed
      qed
      then show "Q () (t\<lparr>d_faults := f, d_data := d'\<rparr>)"
        using t pt w' kt [OF ow] im [OF ow]
        by (intro Q [of st "fs @ gs"]) (auto simp: same_pool_def)
    next
      fix d' f assume "overwritten (pf_page_size t) ?ps (d_data t) d'"
      then show "E (t\<lparr>d_faults := f, d_data := d'\<rparr>)" using kt by (intro E) (simp add: dt eq)
    qed (use good dist eq in auto)
  qed
qed

lemma kept_same_data:
  assumes "kept c s u" and "recoverable c (pf_page_size s) u m" and "recoverable c (pf_page_size s) t m"
    and "same_data u t" and "pw_failed t" and m: "m = page_image (pf_page_size s) (d_data u)"
    and codec: "\<And>x. decode c (encode c x) = Some x"
  shows "kept c s t"
proof -
  have sp: "same_pool u t" and dt: "d_data t = d_data u" using assms(4) by (simp_all add: same_data_def same_pool_def)
  have su: "same_pool s u" and iu: "pf_inv c u" and vu: "pf_view u = pf_view s" using assms(1) by (simp_all add: kept_def)
  note eq = same_poolD [OF sp] same_poolD [OF su]
  have small: "pf_page_size s < 2 ^ 32" using iu eq by (simp add: pf_inv_def)
  have po: "pool_ok t = pool_ok u" "pf_view t = pf_view u" using eq dt by (intro pool_cong; simp)+
  have "\<exists>st fs tl. on_disk c (pf_page_size s) st fs tl t \<and>
      synced (pf_page_size s) (pf_dirty t) (newer (ps_sequence st) fs) (d_data t)"
  proof -
    from assms(3) obtain st fs tl where "on_disk c (pf_page_size s) st fs tl t"
      "m = images (pf_page_size s) (newer (ps_sequence st) fs) (page_image (pf_page_size s) (d_data t))"
      unfolding recoverable_def by blast
    then have "images (pf_page_size s) (newer (ps_sequence st) fs) (page_image (pf_page_size s) (d_data t)) =
        page_image (pf_page_size s) (d_data t)" "on_disk c (pf_page_size s) st fs tl t" using m dt by metis+
    then show ?thesis unfolding synced_def by metis
  qed
  moreover have "pool_ok t" using iu po(1) by (simp add: pf_inv_def)
  moreover have "pf_page_size t = pf_page_size s" using eq(1) eq(9) by simp
  ultimately have "pf_inv c t" using assms(5) small by (simp add: pf_inv_def)
  moreover have "old_or_new (dirty_pages s) m0 m" if "recoverable c (pf_page_size s) s m0" for m0
  proof -
    from assms(1) that obtain m' where "recoverable c (pf_page_size s) u m'" "old_or_new (dirty_pages s) m0 m'"
      unfolding kept_def by blast
    then show ?thesis using recoverable_unique [OF _ assms(2) small codec] by blast
  qed
  moreover have "same_pool s t" "pf_view t = pf_view s" using sp su po vu by (simp_all add: same_pool_def)
  ultimately show ?thesis using assms(3) unfolding kept_def by blast
qed

text \<open>A flush that succeeds has put the whole logical content on disk and has no dirty page left.\<close>

lemma flushed_pool:
  assumes ok: "pool_ok s" and w: "all_written (pf_page_size s) (dirty_pages s) (d_data s) d'"
  shows "map_of (pf_cache s) i = Some p \<Longrightarrow> disk_page (pf_page_size s) d' i = Some (pg_data p)"
    and "pool_ok (s\<lparr>d_data := d', pf_dirty := []\<rparr>)"
    and "pf_view (s\<lparr>d_data := d', pf_dirty := []\<rparr>) = pf_view s"
    and "pf_view s j = disk_page (pf_page_size s) d' j"
proof -
  let ?t = "s\<lparr>d_data := d', pf_dirty := []\<rparr>"
  have ow: "overwritten (pf_page_size s) (dirty_pages s) (d_data s) d'" using w by (simp add: all_written_def)
  show disk: "disk_page (pf_page_size s) d' i = Some (pg_data p)" if "map_of (pf_cache s) i = Some p" for i p
  proof (cases "i \<in> set (pf_dirty s)")
    case True
    then obtain q where "q \<in> set (dirty_pages s)" "pg_id q = i" "map_of (pf_cache s) i = Some q"
      by (rule dirty_pagesI [OF ok])
    with that w show ?thesis by (auto simp: all_written_def)
  next
    case False
    then show ?thesis
      using dirty_pagesD(2) [OF ok] pool_clean [OF ok that] by (intro disk_page_overwritten [OF ow]) auto
  qed
  show v: "pf_view ?t = pf_view s"
    using pf_view_overwritten [OF ok ow] by simp
  show "pf_view s j = disk_page (pf_page_size s) d' j"
    using disk view_overwritten [OF ok ow] by (auto simp: pf_view_def split: option.split simp del: map_of_eq_Some_iff)
  have "0 < pf_page_size s \<and> distinct (map fst (pf_cache s)) \<and>
     (\<forall>i p. map_of (pf_cache s) i = Some p \<longrightarrow> pg_id p = i \<and> good_page (pf_page_size s) p) \<and>
     (\<forall>i p. map_of (pf_cache s) i = Some p \<longrightarrow> disk_page (pf_page_size s) d' i = Some (pg_data p)) \<and>
     (\<forall>i j. map_of (pf_cache s) i \<noteq> None \<longrightarrow> j < i \<longrightarrow> pf_view s j \<noteq> None)"
    using ok disk unfolding pool_ok_def by blast
  then show "pool_ok ?t"
    unfolding pool_ok_def v by (simp del: map_of_eq_Some_iff)
qed

lemma flush_wp:
  assumes inv: "pf_inv c s" and codec: "\<And>x. decode c (encode c x) = Some x"
    and Q: "\<And>t. pf_inv c t \<Longrightarrow> pf_view t = pf_view s \<Longrightarrow> pf_dirty t = [] \<Longrightarrow> \<not> pw_failed t \<Longrightarrow>
      pf_page_size t = pf_page_size s \<Longrightarrow> pf_cache t = pf_cache s \<Longrightarrow> pf_capacity t = pf_capacity s \<Longrightarrow>
      disk_page (pf_page_size s) (d_data t) = pf_view s \<Longrightarrow>
      recoverable c (pf_page_size s) t (page_image (pf_page_size s) (d_data t)) \<Longrightarrow> Q () t"
    and E: "\<And>t. kept c s t \<Longrightarrow> E t"
  shows "wp (flush c) Q E s"
proof -
  let ?psz = "pf_page_size s"
  have ok: "pool_ok s" and small: "?psz < 2 ^ 32" using inv by (simp_all add: pf_inv_def)
  have "wp (prepare (page_images (dirty_pages s))) (\<lambda>_. wp (forM (dirty_pages s) write_image)
     (\<lambda>_. wp io_check (\<lambda>_. wp (checkpoint c) (\<lambda>_ t. Q () (t\<lparr>pf_dirty := []\<rparr>)) E) E) E) E s"
  proof (rule writeback_wp [OF inv codec])
    fix st gs t assume t: "live c ?psz st gs t" "\<not> pw_failed t" "same_pool s t"
      "all_written ?psz (dirty_pages s) (d_data s) (d_data t)" "kept c s t"
      and sync: "images ?psz (newer (ps_sequence st) gs) (page_image ?psz (d_data t)) = page_image ?psz (d_data t)"
    show "wp io_check (\<lambda>_. wp (checkpoint c) (\<lambda>_ t. Q () (t\<lparr>pf_dirty := []\<rparr>)) E) E t"
    proof (rule wp_io_check)
      fix f
      have ku: "kept c s (t\<lparr>d_faults := f\<rparr>)"
        using t(5) by (simp add: kept_def same_pool_def recoverable_def)
      have ru: "recoverable c ?psz (t\<lparr>d_faults := f\<rparr>) (page_image ?psz (d_data (t\<lparr>d_faults := f\<rparr>)))"
        using recoverableI [OF live_on_disk [OF t(1)] sync] by (simp add: recoverable_def)
      show "E (t\<lparr>d_faults := f\<rparr>)" by (rule E [OF ku])
      show "wp (checkpoint c) (\<lambda>_ t. Q () (t\<lparr>pf_dirty := []\<rparr>)) E (t\<lparr>d_faults := f\<rparr>)"
      proof (rule checkpoint_wp [where st = st and fs = gs and psz = ?psz])
        fix u assume "recoverable c ?psz u (page_image ?psz (d_data (t\<lparr>d_faults := f\<rparr>)))"
          "same_data (t\<lparr>d_faults := f\<rparr>) u" "pw_failed u"
        then show "E u" using kept_same_data [OF ku ru _ _ _ _ codec] by (intro E) auto
      next
        fix st' fs' u assume u: "live c ?psz st' fs' u" "same_data (t\<lparr>d_faults := f\<rparr>) u" "\<not> pw_failed u"
          "if pw_pending (t\<lparr>d_faults := f\<rparr>) then st' = pw_state (t\<lparr>d_faults := f\<rparr>) \<and> fs' = []
           else st' = st \<and> fs' = gs"
        have du: "d_data u = d_data t" and su: "same_pool s u"
          using u(2) t(3) by (simp_all add: same_data_def same_pool_def)
        note eq = same_poolD [OF su] and fl = flushed_pool [OF ok t(4)]
        have sy: "images ?psz (newer (ps_sequence st') fs') (page_image ?psz (d_data u)) = page_image ?psz (d_data u)"
          using u(4) sync du by (auto simp: newer_def images_def split: if_splits)
        let ?v = "u\<lparr>pf_dirty := []\<rparr>"
        have po: "pool_ok ?v" "pf_view ?v = pf_view s"
          using fl(2,3) pool_cong(1,2) [of ?v "s\<lparr>d_data := d_data t, pf_dirty := []\<rparr>"] eq du by simp_all
        have "on_disk c ?psz st' fs' [] ?v" "live c ?psz st' fs' ?v"
          using u(1) live_on_disk [OF u(1)] by (simp_all add: live_def)
        moreover from this sy have "pf_inv c ?v"
          unfolding pf_inv_def using po small eq
          by (intro conjI exI [of _ st'] exI [of _ fs'] exI [of _ "[]"]) (simp_all add: synced_def)
        ultimately show "Q () ?v"
          using po u(3) fl(4) eq du sy recoverableI [of c ?psz st' fs' "[]" ?v]
          by (intro Q) (auto simp: fun_eq_iff)
      qed (use t sync codec in auto)
    qed
  qed (rule E)
  then show ?thesis by (simp add: flush_def wp_simps)
qed

section \<open>Caching is invisible\<close>

text \<open>A page number whose byte offset fits a file offset.\<close>

definition addressable :: "nat \<Rightarrow> page_id \<Rightarrow> bool" where
  "addressable psz i \<longleftrightarrow> i \<noteq> RESET \<and> unat i * psz < 2 ^ 64"

lemma good_page_iff: "good_page psz p \<longleftrightarrow> length (pg_data p) = psz \<and> addressable psz (pg_id p)"
  by (auto simp: good_page_def addressable_def bad_image_def)

text \<open>The logical content, the page size and the invariant survive.\<close>

definition safe :: "pages_state codec \<Rightarrow> page_file \<Rightarrow> page_file \<Rightarrow> bool" where
  "safe c s t \<longleftrightarrow> pf_inv c t \<and> pf_view t = pf_view s \<and> pf_page_size t = pf_page_size s \<and>
     pf_capacity t = pf_capacity s"

lemma kept_safe: "kept c s t \<Longrightarrow> safe c s t"
  by (auto simp: kept_def safe_def dest: same_poolD)

lemma safe_refl: "pf_inv c s \<Longrightarrow> safe c s s"
  by (simp add: safe_def)

lemma safe_trans: "safe c s t \<Longrightarrow> safe c t u \<Longrightarrow> safe c s u"
  by (simp add: safe_def)

lemma min_by_key_mem: "min_by_key f xs = Some x \<Longrightarrow> x \<in> set xs"
  by (induction xs arbitrary: x) (auto split: option.splits if_splits)

lemma min_by_key_least: "min_by_key f xs = Some x \<Longrightarrow> y \<in> set xs \<Longrightarrow> f x \<le> f y"
proof (induction xs arbitrary: x y)
  case (Cons z xs)
  show ?case
  proof (cases "min_by_key f xs")
    case None
    then have "xs = []" by (cases xs) (auto split: option.splits if_splits)
    with Cons.prems show ?thesis by simp
  next
    case (Some w)
    with Cons show ?thesis by (fastforce split: if_splits)
  qed
qed simp

lemma evict_page:
  assumes inv: "pf_inv c s" and clean: "i \<notin> set (pf_dirty s)"
  shows "pf_inv c (s\<lparr>pf_cache := AList.delete i (pf_cache s), pf_last_used := l\<rparr>)"
    and "pf_view (s\<lparr>pf_cache := AList.delete i (pf_cache s), pf_last_used := l\<rparr>) = pf_view s"
proof -
  let ?t = "s\<lparr>pf_cache := AList.delete i (pf_cache s)\<rparr>"
  have ok: "pool_ok s" using inv by (simp add: pf_inv_def)
  show v: "pf_view (s\<lparr>pf_cache := AList.delete i (pf_cache s), pf_last_used := l\<rparr>) = pf_view s"
  proof
    fix j
    show "pf_view (s\<lparr>pf_cache := AList.delete i (pf_cache s), pf_last_used := l\<rparr>) j = pf_view s j"
      using pool_clean [OF ok _ clean]
      by (cases "map_of (pf_cache s) i") (auto simp: pf_view_def delete_conv' cong: option.case_cong simp del: map_of_eq_Some_iff)
  qed
  have "pool_ok ?t"
    unfolding pool_ok_def
  proof (intro conjI allI ballI impI)
    fix k j assume "map_of (pf_cache ?t) k \<noteq> None" and "j < k"
    then show "pf_view ?t j \<noteq> None"
      using pool_no_hole [OF ok] v by (auto simp: delete_conv' split: if_splits simp del: map_of_eq_Some_iff)
  qed (use pool_okD [OF ok] clean in
      \<open>auto simp: delete_conv' distinct_delete split: if_splits simp del: map_of_eq_Some_iff\<close>)
  then show "pf_inv c (s\<lparr>pf_cache := AList.delete i (pf_cache s), pf_last_used := l\<rparr>)"
    using inv by (simp add: pf_inv_def)
qed

lemma evict_one_wp:
  assumes inv: "pf_inv c s" and codec: "\<And>x. decode c (encode c x) = Some x"
    and Q: "\<And>b t. safe c s t \<Longrightarrow> (\<And>j. map_of (pf_cache s) j = None \<Longrightarrow> map_of (pf_cache t) j = None) \<Longrightarrow> Q b t"
    and E: "\<And>t. safe c s t \<Longrightarrow> E t"
  shows "wp evict_one Q E s"
proof (cases "min_by_key (\<lambda>i. case map_of (pf_last_used s) i of None \<Rightarrow> 0 | Some n \<Rightarrow> n) (map fst (pf_cache s))")
  case None
  then show ?thesis using Q [OF safe_refl [OF inv]] by (simp add: evict_one_def wp_simps)
next
  case (Some victim)
  have drop: "Q True (t\<lparr>pf_cache := AList.delete victim (pf_cache t), pf_last_used := AList.delete victim (pf_last_used t)\<rparr>)"
    if "safe c s t" "victim \<notin> set (pf_dirty t)" "pf_cache t = pf_cache s" for t
    using that evict_page [of c t victim "AList.delete victim (pf_last_used t)"]
    by (intro Q) (auto simp: safe_def delete_conv' simp del: map_of_eq_None_iff map_of_eq_Some_iff)
  show ?thesis
  proof (cases "victim \<in> set (pf_dirty s)")
    case False
    then show ?thesis using Some drop [OF safe_refl [OF inv]] by (simp add: evict_one_def wp_simps)
  next
    case True
    have "wp (prepare (page_images (dirty_pages s))) (\<lambda>_. wp (forM (dirty_pages s) write_image)
      (\<lambda>_ t. Q True (t\<lparr>pf_dirty := [], pf_cache := AList.delete victim (pf_cache t),
        pf_last_used := AList.delete victim (pf_last_used t)\<rparr>)) E) E s"
    proof (rule writeback_wp [OF inv codec])
      fix st gs t assume t: "live c (pf_page_size s) st gs t" "same_pool s t" "kept c s t"
        "all_written (pf_page_size s) (dirty_pages s) (d_data s) (d_data t)"
        "images (pf_page_size s) (newer (ps_sequence st) gs) (page_image (pf_page_size s) (d_data t)) =
          page_image (pf_page_size s) (d_data t)"
      have ok: "pool_ok s" and small: "pf_page_size s < 2 ^ 32" using inv by (simp_all add: pf_inv_def)
      note eq = same_poolD [OF t(2)] and fl = flushed_pool [OF ok t(4)]
      let ?u = "t\<lparr>pf_dirty := []\<rparr>"
      have "pool_ok ?u" "pf_view ?u = pf_view s"
        using fl(2,3) pool_cong(1,2) [of ?u "s\<lparr>d_data := d_data t, pf_dirty := []\<rparr>"] eq by simp_all
      moreover have "synced (pf_page_size s) [] (newer (ps_sequence st) gs) (d_data t)"
        using t(5) by (simp add: synced_def)
      moreover have "on_disk c (pf_page_size s) st gs [] ?u" "live c (pf_page_size s) st gs ?u"
        using t(1) live_on_disk [OF t(1)] by simp_all
      ultimately have "safe c s ?u"
        unfolding safe_def pf_inv_def using small eq
        by (intro conjI exI [of _ st] exI [of _ gs] exI [of _ "[]"]) simp_all
      from drop [OF this] show "Q True (t\<lparr>pf_dirty := [], pf_cache := AList.delete victim (pf_cache t),
        pf_last_used := AList.delete victim (pf_last_used t)\<rparr>)" by (simp add: eq)
    qed (rule E [OF kept_safe])
    with Some True show ?thesis by (simp add: evict_one_def wp_simps)
  qed
qed

text \<open>Adding a page to the pool, clean or dirty.\<close>

lemma pool_insert:
  assumes inv: "pf_inv c s" and good: "good_page (pf_page_size s) p" and key: "pg_id p = i"
    and holes: "\<And>j. j < i \<Longrightarrow> pf_view s j \<noteq> None"
    and dirty: "set ids = set (pf_dirty s) \<or> set ids = insert i (set (pf_dirty s))" "distinct ids"
      "i \<notin> set ids \<Longrightarrow> disk_page (pf_page_size s) (d_data s) i = Some (pg_data p)"
  shows "pf_inv c (s\<lparr>pf_cache := AList.update i p (pf_cache s), pf_dirty := ids\<rparr>)"
    and "pf_view (s\<lparr>pf_cache := AList.update i p (pf_cache s), pf_dirty := ids\<rparr>) = (pf_view s)(i \<mapsto> pg_data p)"
proof -
  let ?t = "s\<lparr>pf_cache := AList.update i p (pf_cache s), pf_dirty := ids\<rparr>"
  have ok: "pool_ok s" using inv by (simp add: pf_inv_def)
  show v: "pf_view ?t = (pf_view s)(i \<mapsto> pg_data p)"
    by (rule ext) (simp add: pf_view_def update_conv' cong: option.case_cong del: map_of_eq_Some_iff)
  have "pool_ok ?t"
    unfolding pool_ok_def
  proof (intro conjI allI ballI impI)
    fix k j assume "map_of (pf_cache ?t) k \<noteq> None" and "j < k"
    then show "pf_view ?t j \<noteq> None"
      using pool_no_hole [OF ok] holes v by (auto simp: update_conv' split: if_splits simp del: map_of_eq_Some_iff)
  next
    fix k assume "k \<in> set (pf_dirty ?t)"
    then show "map_of (pf_cache ?t) k \<noteq> None"
      using pool_dirty [OF ok] dirty(1) by (auto simp: update_conv' simp del: map_of_eq_Some_iff)
  next
    fix k q assume "map_of (pf_cache ?t) k = Some q" and "k \<notin> set (pf_dirty ?t)"
    then show "disk_page (pf_page_size ?t) (d_data ?t) k = Some (pg_data q)"
      using pool_clean [OF ok] dirty by (auto simp: update_conv' split: if_splits simp del: map_of_eq_Some_iff)
  qed (use pool_okD [OF ok] good key dirty(2) in
      \<open>auto simp: update_conv' distinct_update split: if_splits simp del: map_of_eq_Some_iff\<close>)
  moreover have "synced psz ids fs d" if "synced psz (pf_dirty s) fs d" for psz fs d
    using that dirty(1) unfolding synced_def by auto
  ultimately show "pf_inv c ?t" using inv unfolding pf_inv_def by simp blast
qed

lemma touch_simps [simp]:
  "pf_inv c (touch i s) = pf_inv c s" "pf_view (touch i s) = pf_view s"
  "pf_page_size (touch i s) = pf_page_size s" "pf_capacity (touch i s) = pf_capacity s"
  "pf_cache (touch i s) = pf_cache s" "pf_dirty (touch i s) = pf_dirty s" "d_data (touch i s) = d_data s"
  by (simp_all add: touch_def)

lemma cached_view: "map_of (pf_cache s) i = Some p \<Longrightarrow> pf_view s i = Some (pg_data p)"
  by (simp add: pf_view_def del: map_of_eq_Some_iff)

lemma uncached_view: "map_of (pf_cache s) i = None \<Longrightarrow> pf_view s i = disk_page (pf_page_size s) (d_data s) i"
  by (simp add: pf_view_def del: map_of_eq_None_iff)

lemma disk_page_below:
  assumes "disk_page psz d i \<noteq> None" and "j < i"
  shows "disk_page psz d j \<noteq> None"
proof -
  have "unat j * psz + psz \<le> unat i * psz"
    using assms(2) mult_le_mono1 [of "Suc (unat j)" "unat i" psz] by (simp add: word_less_nat_alt)
  with assms(1) show ?thesis by (auto simp: disk_page_def split: if_splits)
qed

text \<open>
  Access to a page: on success it is cached with its logical content; a page that is not
  there is an error.  Nothing else changes.
\<close>

lemma note_access_wp:
  assumes inv: "pf_inv c s" and codec: "\<And>x. decode c (encode c x) = Some x"
    and addr: "addressable (pf_page_size s) i"
    and Q: "\<And>b t. safe c s t \<Longrightarrow> map_of (pf_cache t) i = Some \<lparr>pg_id = i, pg_data = b\<rparr> \<Longrightarrow>
      pf_view s i = Some b \<Longrightarrow> Q () t"
    and E: "\<And>t. safe c s t \<Longrightarrow> E t"
  shows "wp (note_access i) Q E s"
proof -
  have ok: "pool_ok s" using inv by (simp add: pf_inv_def)
  note psz = pool_psz [OF ok]
  show ?thesis
  proof (cases "map_of (pf_cache s) i")
    case (Some p)
    then have "p = \<lparr>pg_id = i, pg_data = pg_data p\<rparr>" using pool_key [OF ok Some] by simp
    with Some show ?thesis
      using Q [of "touch i (s\<lparr>pf_hits := pf_hits s + 1\<rparr>)" "pg_data p"] inv cached_view [OF Some]
      by (simp add: note_access_def wp_simps safe_def del: map_of_eq_Some_iff)
  next
    case None
    let ?s = "s\<lparr>pf_misses := Suc (pf_misses s)\<rparr>"
    let ?p = "\<lparr>pg_id = i, pg_data = bslice (d_data s) (unat i * pf_page_size s) (pf_page_size s)\<rparr>"
    have fin: "Q () (touch i (t\<lparr>pf_cache := AList.update i ?p (pf_cache t)\<rparr>))"
      if t: "safe c s t" "map_of (pf_cache t) i = None"
        and len: "unat i * pf_page_size s + pf_page_size s \<le> length (d_data s)" for t
    proof -
      have d: "disk_page (pf_page_size s) (d_data s) i = Some (pg_data ?p)"
        using len by (simp add: disk_page_def page_image_bslice)
      with None have v: "pf_view s i = Some (pg_data ?p)" by (simp add: uncached_view del: map_of_eq_None_iff)
      moreover have dt: "disk_page (pf_page_size t) (d_data t) i = Some (pg_data ?p)"
        using t v uncached_view [OF t(2)] by (simp add: safe_def)
      moreover have "pf_view t j \<noteq> None" if "j < i" for j
      proof -
        have "pf_view t j = (case map_of (pf_cache t) j of Some p \<Rightarrow> Some (pg_data p)
            | None \<Rightarrow> disk_page (pf_page_size t) (d_data t) j)" by (simp add: pf_view_def)
        then show ?thesis using disk_page_below [OF _ that] dt by (auto split: option.splits)
      qed
      moreover have "pf_inv c t" "distinct (pf_dirty t)"
        using t pool_distinct(2) pf_inv_pool by (auto simp: safe_def)
      moreover have "good_page (pf_page_size t) ?p"
        using t addr len by (simp add: safe_def good_page_iff)
      ultimately have "pf_inv c (t\<lparr>pf_cache := AList.update i ?p (pf_cache t)\<rparr>)"
          "pf_view (t\<lparr>pf_cache := AList.update i ?p (pf_cache t)\<rparr>) = (pf_view t)(i \<mapsto> pg_data ?p)"
        using pool_insert [of c t ?p i "pf_dirty t"] by simp_all
      then show ?thesis
        using t v by (intro Q [of _ "pg_data ?p"]) (auto simp: safe_def update_conv' fun_upd_idem)
    qed
    have raw: "wp (read_raw i) R E ?s" if R: "\<And>f. unat i * pf_page_size s + pf_page_size s \<le> length (d_data s) \<Longrightarrow> R ?p (?s\<lparr>d_faults := f\<rparr>)" for R
      using addr R inv E by (auto simp: read_raw_def wp_simps addressable_def safe_def intro!: wp_io_check)
    have start: "safe c s (?s\<lparr>d_faults := f\<rparr>)" for f using inv by (simp add: safe_def)
    have rest: "wp (if pf_capacity s \<le> length (pf_cache s) then seqM evict_one (okM ()) else okM ())
       (\<lambda>_ t. Q () (touch i (t\<lparr>pf_cache := AList.update i ?p (pf_cache t)\<rparr>))) E (?s\<lparr>d_faults := f\<rparr>)"
      if len: "unat i * pf_page_size s + pf_page_size s \<le> length (d_data s)" for f
    proof (cases "pf_capacity s \<le> length (pf_cache s)")
      case True
      have "wp evict_one (\<lambda>_ t. Q () (touch i (t\<lparr>pf_cache := AList.update i ?p (pf_cache t)\<rparr>))) E (?s\<lparr>d_faults := f\<rparr>)"
        using start safe_trans [OF start] None inv len
        by (intro evict_one_wp [OF _ codec]) (auto intro: fin E simp del: map_of_eq_None_iff)
      with True show ?thesis by (simp add: wp_simps)
    next
      case False
      then show ?thesis using fin [OF start _ len] None by (simp add: wp_simps del: map_of_eq_None_iff)
    qed
    have "wp (read_raw i) (\<lambda>p. wp (bindM (getM id) (\<lambda>t. if pf_capacity t \<le> length (pf_cache t)
                        then seqM evict_one (okM ()) else okM ())) (\<lambda>_ t. Q () (touch i (t\<lparr>pf_cache := AList.update i p (pf_cache t)\<rparr>))) E) E ?s"
      using rest by (intro raw) (simp add: wp_simps split del: if_split)
    with None show ?thesis by (simp add: note_access_def wp_simps del: map_of_eq_None_iff)
  qed
qed

lemma cached_wp: "map_of (pf_cache s) i = Some p \<Longrightarrow> wp (cached i) Q E s = Q p s"
  by (simp add: cached_def wp_simps del: map_of_eq_Some_iff)

lemma with_page_wp:
  assumes inv: "pf_inv c s" and codec: "\<And>x. decode c (encode c x) = Some x"
    and addr: "addressable (pf_page_size s) i"
    and Q: "\<And>b t. safe c s t \<Longrightarrow> pf_view s i = Some b \<Longrightarrow> Q (f \<lparr>pg_id = i, pg_data = b\<rparr>) t"
    and E: "\<And>t. safe c s t \<Longrightarrow> E t"
  shows "wp (with_page i f) Q E s"
  unfolding with_page_def wp_simps
  by (rule note_access_wp [OF inv codec addr]) (auto simp: cached_wp wp_simps intro: Q E simp del: map_of_eq_Some_iff)

lemma read_page_with_page: "read_page i = with_page i (\<lambda>p. p)"
  by (rule ext) (simp add: read_page_def with_page_def seqM_def bindM_def okM_def split: prod.split outcome.split)

lemma update_page_view_wp:
  assumes inv: "pf_inv c s" and codec: "\<And>x. decode c (encode c x) = Some x"
    and addr: "addressable (pf_page_size s) i"
    and f: "\<And>b. pf_view s i = Some b \<Longrightarrow> length b = pf_page_size s \<Longrightarrow> pg_id (snd (f \<lparr>pg_id = i, pg_data = b\<rparr>)) = i \<and>
      length (pg_data (snd (f \<lparr>pg_id = i, pg_data = b\<rparr>))) = pf_page_size s"
    and Q: "\<And>b t. pf_inv c t \<Longrightarrow> pf_view s i = Some b \<Longrightarrow>
      pf_view t = (pf_view s)(i \<mapsto> pg_data (snd (f \<lparr>pg_id = i, pg_data = b\<rparr>))) \<Longrightarrow>
      pf_page_size t = pf_page_size s \<Longrightarrow> pf_capacity t = pf_capacity s \<Longrightarrow>
      Q (fst (f \<lparr>pg_id = i, pg_data = b\<rparr>)) t"
    and E: "\<And>t. safe c s t \<Longrightarrow> E t"
  shows "wp (update_page i f) Q E s"
  unfolding update_page_def wp_simps
proof (rule note_access_wp [OF inv codec addr])
  fix b t assume t: "safe c s t" "map_of (pf_cache t) i = Some \<lparr>pg_id = i, pg_data = b\<rparr>" "pf_view s i = Some b"
  let ?p = "\<lparr>pg_id = i, pg_data = b\<rparr>" and ?q = "snd (f \<lparr>pg_id = i, pg_data = b\<rparr>)"
  have it: "pf_inv c t" and eq: "pf_view t = pf_view s" "pf_page_size t = pf_page_size s" "pf_capacity t = pf_capacity s"
    using t(1) by (simp_all add: safe_def)
  have ok: "pool_ok t" by (rule pf_inv_pool [OF it])
  have q: "good_page (pf_page_size t) ?q" "pg_id ?q = i"
    using pool_good [OF ok t(2)] f [OF t(3)] eq by (simp_all add: good_page_iff)
  have "pf_view t j \<noteq> None" if "j < i" for j by (rule pool_no_hole [OF ok t(2) that])
  then have "pf_inv c (t\<lparr>pf_cache := AList.update i ?q (pf_cache t), pf_dirty := List.insert i (pf_dirty t)\<rparr>)"
    "pf_view (t\<lparr>pf_cache := AList.update i ?q (pf_cache t), pf_dirty := List.insert i (pf_dirty t)\<rparr>) = (pf_view t)(i \<mapsto> pg_data ?q)"
    using pool_insert [OF it q, of "List.insert i (pf_dirty t)"] pool_distinct(2) [OF ok] by simp_all
  then show "wp (cached i) (\<lambda>p. wp (case f p of (r, q) \<Rightarrow> seqM (modM (\<lambda>s. s\<lparr>pf_cache := AList.update i q (pf_cache s),
      pf_dirty := List.insert i (pf_dirty s)\<rparr>)) (okM r)) Q E) E t"
    using Q [OF _ t(3)] eq t(2) by (simp add: cached_wp wp_simps split_beta del: map_of_eq_Some_iff)
qed (rule E)

lemma write_page_wp:
  assumes inv: "pf_inv c s" and codec: "\<And>x. decode c (encode c x) = Some x"
    and good: "good_page (pf_page_size s) p" and holes: "\<And>j. j < pg_id p \<Longrightarrow> pf_view s j \<noteq> None"
    and Q: "\<And>t. pf_inv c t \<Longrightarrow> pf_view t = (pf_view s)(pg_id p \<mapsto> pg_data p) \<Longrightarrow>
      pf_page_size t = pf_page_size s \<Longrightarrow> pf_capacity t = pf_capacity s \<Longrightarrow> Q () t"
    and E: "\<And>t. safe c s t \<Longrightarrow> E t"
  shows "wp (write_page p) Q E s"
proof -
  let ?i = "pg_id p"
  let ?R = "\<lambda>t. touch ?i (t\<lparr>pf_cache := AList.update ?i p (pf_cache t), pf_dirty := List.insert ?i (pf_dirty t)\<rparr>)"
  have fin: "Q () (?R t)" if t: "safe c s t" for t
  proof -
    have it: "pf_inv c t" and eq: "pf_view t = pf_view s" "pf_page_size t = pf_page_size s" "pf_capacity t = pf_capacity s"
      using t by (simp_all add: safe_def)
    have "good_page (pf_page_size t) p" "\<And>j. j < ?i \<Longrightarrow> pf_view t j \<noteq> None" using good holes eq by simp_all
    then show ?thesis
      using pool_insert [OF it _ refl, of p "List.insert ?i (pf_dirty t)"] pool_distinct(2) [OF pf_inv_pool [OF it]] eq
      by (intro Q) simp_all
  qed
  have "wp evict_one (\<lambda>_ t. Q () (?R t)) E s"
    by (rule evict_one_wp [OF inv codec]) (auto intro: fin E)
  then show ?thesis
    using fin [OF safe_refl [OF inv]] good by (simp add: write_page_def wp_simps good_page_def)
qed

lemma word_of_nat_less_iff:
  fixes i :: "'a::len word"
  assumes "n < 2 ^ LENGTH('a)"
  shows "i < word_of_nat n \<longleftrightarrow> unat i < n"
  using assms by (simp add: word_less_nat_alt unat_of_nat)

lemma disk_page_iff:
  assumes "length d mod psz = 0" and "0 < psz"
  shows "disk_page psz d i \<noteq> None \<longleftrightarrow> unat i < length d div psz"
proof -
  have d: "length d = length d div psz * psz" using assms(1) by auto
  have "unat i * psz + psz \<le> length d \<longleftrightarrow> Suc (unat i) * psz \<le> length d div psz * psz" using d by (simp add: ac_simps)
  also have "\<dots> \<longleftrightarrow> unat i < length d div psz" using assms(2) by (simp only: mult_le_cancel2) auto
  finally show ?thesis by (simp add: disk_page_def)
qed

text \<open>\<open>num_pages\<close> is the number of pages of the logical content.\<close>

lemma num_pages_wp:
  assumes inv: "pf_inv c s" and len: "length (d_data s) < 2 ^ 64"
    and Q: "\<And>n f. (\<And>i. pf_view s i \<noteq> None \<longleftrightarrow> i < n) \<Longrightarrow> Q n (s\<lparr>d_faults := f\<rparr>)"
    and E: "\<And>f. E (s\<lparr>d_faults := f\<rparr>)"
  shows "wp num_pages Q E s"
proof -
  let ?psz = "pf_page_size s" and ?keys = "map fst (pf_cache s)"
  note ok = pf_inv_pool [OF inv] and psz = pool_psz [OF pf_inv_pool [OF inv]]
  define d where "d = (word_of_nat (length (d_data s) div ?psz) :: page_id)"
  have key: "i \<in> set ?keys \<longleftrightarrow> map_of (pf_cache s) i \<noteq> None" for i by (simp add: map_of_eq_None_iff)
  have nr: "i \<noteq> - 1" if "i \<in> set ?keys" for i
    using that pool_key [OF ok] pool_good [OF ok] unfolding key by (fastforce simp: good_page_iff addressable_def RESET_def)
  have main: "pf_view s i \<noteq> None \<longleftrightarrow> i < (if ?keys = [] then max d 0 else max d (Max (set ?keys) + 1))"
    if m: "length (d_data s) mod ?psz = 0" for i
  proof -
    have lt: "length (d_data s) div ?psz < 2 ^ 64" using len by (meson div_le_dividend le_less_trans)
    have disk: "disk_page ?psz (d_data s) i \<noteq> None \<longleftrightarrow> i < d"
      using disk_page_iff [OF m psz] word_of_nat_less_iff [of _ i] lt by (simp add: d_def)
    show ?thesis
    proof (cases "?keys = []")
      case True
      then show ?thesis using disk by (simp add: pf_view_def)
    next
      case False
      define M where "M = Max (set ?keys)"
      have M: "M \<in> set ?keys" "\<And>k. k \<in> set ?keys \<Longrightarrow> k \<le> M" using False by (simp_all add: M_def)
      then have succ: "i < M + 1 \<longleftrightarrow> i \<le> M" by (intro word_less_Suc_iff nr)
      obtain p where p: "map_of (pf_cache s) M = Some p" using M(1) unfolding key by blast
      have "pf_view s i \<noteq> None" if "i \<le> M"
        using that pool_no_hole [OF ok p] cached_view [OF p] by (cases "i = M") auto
      moreover have "i \<le> M \<or> i < d" if "pf_view s i \<noteq> None"
        using that disk M(2) key uncached_view by metis
      moreover have "pf_view s i \<noteq> None" if "i < d"
        using that disk by (auto simp: pf_view_def split: option.splits)
      ultimately have "pf_view s i \<noteq> None \<longleftrightarrow> i < d \<or> i < M + 1" using succ by blast
      then show ?thesis using False by (simp add: less_max_iff_disj M_def)
    qed
  qed
  show ?thesis
    unfolding num_pages_def wp_simps
    by (rule wp_io_check) (use psz E Q main nr [of "Max (set ?keys)"] in \<open>simp_all add: wp_simps Let_def d_def\<close>)
qed

lemma append_page_wp:
  assumes inv: "pf_inv c s" and codec: "\<And>x. decode c (encode c x) = Some x"
    and len: "length (d_data s) < 2 ^ 64"
    and room: "\<And>n. (\<And>i. pf_view s i \<noteq> None \<longleftrightarrow> i < n) \<Longrightarrow> addressable (pf_page_size s) n"
    and Q: "\<And>n t. (\<And>i. pf_view s i \<noteq> None \<longleftrightarrow> i < n) \<Longrightarrow> pf_inv c t \<Longrightarrow>
      pf_view t = (pf_view s)(n \<mapsto> replicate (pf_page_size s) 0) \<Longrightarrow> pf_page_size t = pf_page_size s \<Longrightarrow>
      pf_capacity t = pf_capacity s \<Longrightarrow> Q (new_page n (pf_page_size s)) t"
    and E: "\<And>t. safe c s t \<Longrightarrow> E t"
  shows "wp append_page Q E s"
  unfolding append_page_def wp_simps
proof (rule num_pages_wp [OF inv len])
  fix n f assume n: "\<And>i. pf_view s i \<noteq> None \<longleftrightarrow> i < n"
  have "wp (write_page (new_page n (pf_page_size s))) (\<lambda>_. Q (new_page n (pf_page_size s))) E (s\<lparr>d_faults := f\<rparr>)"
  proof (rule write_page_wp [OF _ codec])
    show "good_page (pf_page_size (s\<lparr>d_faults := f\<rparr>)) (new_page n (pf_page_size s))"
      using room [OF n] by (simp add: good_page_iff new_page_def)
  next
    fix j assume "j < pg_id (new_page n (pf_page_size s))"
    then show "pf_view (s\<lparr>d_faults := f\<rparr>) j \<noteq> None" using n by (simp add: new_page_def)
  qed (use inv Q [OF n] E in \<open>auto simp: new_page_def safe_def\<close>)
  then show "wp (write_page (new_page n (pf_page_size (s\<lparr>d_faults := f\<rparr>)))) (\<lambda>_. Q (new_page n (pf_page_size (s\<lparr>d_faults := f\<rparr>)))) E
      (s\<lparr>d_faults := f\<rparr>)" by simp
qed (use E inv in \<open>simp add: safe_def\<close>)

section \<open>Opening and truncating\<close>

text \<open>
  Opening a page file whose disk is recoverable, with no further I/O failure: the pool is
  empty, the invariant holds and the data file has exactly the recovered images.
\<close>

lemma open_recovers:
  assumes "d_faults s = []" and psz: "0 < psz" "psz < 2 ^ 32" and rec: "recoverable c psz s m"
    and codec: "\<And>x. decode c (encode c x) = Some x"
  shows "\<exists>t. with_options c psz cap s = (Ok (), t) \<and> pf_inv c t \<and> page_image psz (d_data t) = m \<and>
    d_faults t = [] \<and> pf_page_size t = psz \<and> pf_cache t = [] \<and> pf_dirty t = [] \<and> \<not> pw_failed t"
proof -
  let ?s = "s\<lparr>pf_exists := True\<rparr>"
  have "d_faults ?s = []" "recoverable c psz ?s m" using assms(1) rec by (simp_all add: recoverable_def)
  from open_wal_recovers [OF this(1) psz(2) this(2) codec] obtain t where
    t: "open_wal c psz ?s = (Ok (), t)" "page_image psz (d_data t) = m" "d_faults t = []" "\<not> pw_failed t"
      "live c psz (pw_state t) [] t" by blast
  let ?t = "t\<lparr>pf_page_size := psz, pf_capacity := cap, pf_cache := [],
                 pf_last_used := [], pf_clock := 0, pf_dirty := [], pf_hits := 0, pf_misses := 0\<rparr>"
  have "with_options c psz cap s = (Ok (), ?t)"
    using t assms(1) by (simp add: with_options_def cmd_defs io_check_def io_call_def)
  moreover have "on_disk c psz (pw_state t) [] [] ?t" "live c psz (pw_state t) [] ?t"
    using t(5) live_on_disk [OF t(5)] by (simp_all add: live_def)
  moreover from this have "pf_inv c ?t"
    unfolding pf_inv_def using psz
    by (intro conjI exI [of _ "pw_state t"] exI [of _ "[]"]) (simp_all add: pool_ok_def synced_def newer_def images_def)
  ultimately show ?thesis using t by simp
qed

lemma pf_inv_recoverable:
  assumes "pf_inv c s"
  obtains m where "recoverable c (pf_page_size s) s m"
    and "\<And>j. (\<forall>i \<in> set (pf_dirty s). unat i \<noteq> j) \<Longrightarrow> m j = page_image (pf_page_size s) (d_data s) j"
proof -
  from assms obtain st fs tl where "on_disk c (pf_page_size s) st fs tl s"
    "synced (pf_page_size s) (pf_dirty s) (newer (ps_sequence st) fs) (d_data s)"
    by (auto simp: pf_inv_def)
  then show ?thesis using recoverableI that by (simp add: synced_def) blast
qed

text \<open>A restart: the process and its pool are gone, the four files remain, I/O works again.\<close>

definition restarted :: "pages_state codec \<Rightarrow> page_file \<Rightarrow> page_file" where
  "restarted c s = snd (open_page_file c (pf_page_size s) (s\<lparr>d_faults := []\<rparr>))"

lemma restart_recovers:
  assumes "pool_ok s" and "pf_page_size s < 2 ^ 32" and "recoverable c (pf_page_size s) s m"
    and codec: "\<And>x. decode c (encode c x) = Some x"
  shows "fst (open_page_file c (pf_page_size s) (s\<lparr>d_faults := []\<rparr>)) = Ok ()"
    and "pf_inv c (restarted c s)" and "page_image (pf_page_size s) (d_data (restarted c s)) = m"
proof -
  have "recoverable c (pf_page_size s) (s\<lparr>d_faults := []\<rparr>) m" using assms(3) by (simp add: recoverable_def)
  from open_recovers [OF _ pool_psz [OF assms(1)] assms(2) this codec, of DEFAULT_POOL_SIZE]
  obtain t where "open_page_file c (pf_page_size s) (s\<lparr>d_faults := []\<rparr>) = (Ok (), t)" "pf_inv c t"
    "page_image (pf_page_size s) (d_data t) = m" by (auto simp: open_page_file_def)
  then show "fst (open_page_file c (pf_page_size s) (s\<lparr>d_faults := []\<rparr>)) = Ok ()"
    "pf_inv c (restarted c s)" "page_image (pf_page_size s) (d_data (restarted c s)) = m"
    by (simp_all add: restarted_def)
qed

section \<open>A concrete metadata codec\<close>

text \<open>
  A metadata codec that satisfies the round trip the theorems ask of the JSON library:
  fixed-width fields, one nine-byte slot per page number, and the page size in unary.
\<close>

definition slot_bytes :: "u64 option \<Rightarrow> bytes" where
  "slot_bytes r = (case r of None \<Rightarrow> 0 # u64_le 0 | Some v \<Rightarrow> 1 # u64_le v)"

definition slot_value :: "bytes \<Rightarrow> u64 option" where
  "slot_value bs = (if hd bs = 0 then None else Some (le_u64 (tl bs)))"

definition table_codec :: "pages_state codec" where
  "table_codec = \<lparr>
     encode = (\<lambda>st. u32_le (ps_version st) @ u64_le (ps_sequence st) @
       concat (map (\<lambda>i. slot_bytes (ps_pages st (word_of_nat i))) [0..<2 ^ 64]) @
       replicate (ps_page_size st) 0),
     decode = (\<lambda>bs. Some \<lparr>ps_version = le_u32 (bslice bs 0 4), ps_page_size = length bs - (12 + 9 * 2 ^ 64),
       ps_sequence = le_u64 (bslice bs 4 8),
       ps_pages = (\<lambda>i. slot_value (bslice (drop 12 bs) (9 * unat i) 9))\<rparr>)\<rparr>"

lemma length_slots: "length (concat (map (\<lambda>i. slot_bytes (f i)) xs)) = 9 * length xs"
  by (induction xs) (auto simp: slot_bytes_def split: option.split)

lemma bslice_slots:
  "i < length xs \<Longrightarrow> bslice (concat (map (\<lambda>i. slot_bytes (f i)) xs) @ ys) (9 * i) 9 = slot_bytes (f (xs ! i))"
proof (induction xs arbitrary: i)
  case (Cons x xs)
  have l: "length (slot_bytes (f x)) = 9" by (simp add: slot_bytes_def split: option.split)
  show ?case
  proof (cases i)
    case 0
    then show ?thesis using l by (simp add: bslice_def)
  next
    case (Suc k)
    then show ?thesis using Cons l by (simp add: bslice_append_skip)
  qed
qed simp

lemma table_codec_round_trip: "decode table_codec (encode table_codec st) = Some st"
proof -
  define slots where "slots = concat (map (\<lambda>i. slot_bytes (ps_pages st (word_of_nat i))) [0..<2 ^ 64])"
  have len: "length slots = 9 * 2 ^ 64"
    unfolding slots_def length_slots by simp
  have slot: "slot_value (bslice (slots @ ys) (9 * unat i) 9) = ps_pages st i" for i :: u64 and ys
  proof -
    have b: "unat i < 2 ^ 64" using unat_bound [of i] by simp
    then have "bslice (slots @ ys) (9 * unat i) 9 = slot_bytes (ps_pages st (word_of_nat ([0..<2 ^ 64] ! unat i)))"
      unfolding slots_def by (intro bslice_slots) simp
    also have "[0..<2 ^ 64] ! unat i = unat i" using b by simp
    finally show ?thesis by (simp add: slot_bytes_def slot_value_def split: option.split)
  qed
  show ?thesis
    unfolding table_codec_def codec.simps slots_def [symmetric]
    using len slot by (simp add: bslice_append_skip bslice_append_first)
qed

section \<open>Properties of the page file\<close>

text \<open>
  Property (C6).  A flush never panics.  If it succeeds, the invariant and the logical content
  are unchanged, no page is dirty, and a restart at that moment opens the file and finds every
  page of the logical content.  If any of its I/O calls fails, leaving any prefix of a write
  behind, the page file in memory is unchanged, and a restart still opens the file, with every
  page either as a restart before the flush would have found it or as the flush meant to
  write it: no page is torn.
\<close>

theorem flush_crash_atomic:
  assumes inv: "pf_inv c s" and codec: "\<And>x. decode c (encode c x) = Some x"
  shows "wp (flush c)
    (\<lambda>_ t. pf_inv c t \<and> pf_view t = pf_view s \<and> pf_dirty t = [] \<and>
      fst (open_page_file c (pf_page_size s) (t\<lparr>d_faults := []\<rparr>)) = Ok () \<and>
      (\<forall>i b. pf_view s i = Some b \<longrightarrow>
        page_image (pf_page_size s) (d_data (restarted c t)) (unat i) = b))
    (\<lambda>t. pf_inv c t \<and> pf_view t = pf_view s \<and> pf_dirty t = pf_dirty s \<and>
      fst (open_page_file c (pf_page_size s) (t\<lparr>d_faults := []\<rparr>)) = Ok () \<and>
      old_or_new (dirty_pages s) (page_image (pf_page_size s) (d_data (restarted c s)))
        (page_image (pf_page_size s) (d_data (restarted c t)))) s"
proof (rule flush_wp [OF inv codec], goal_cases)
  case (1 t)
  note t = this
  have ok: "pool_ok t" and sm: "pf_page_size t < 2 ^ 32" using t(1) by (simp_all add: pf_inv_def)
  have "recoverable c (pf_page_size t) t (page_image (pf_page_size t) (d_data t))" using t by simp
  note r = restart_recovers [OF ok sm this codec, unfolded t(5)]
  have "page_image (pf_page_size s) (d_data t) (unat i) = b" if "pf_view s i = Some b" for i b
    using that t(8) by (auto simp: disk_page_def fun_eq_iff split: if_splits dest: spec [of _ i])
  with t r show ?case by simp
next
  case (2 t)
  note eq = same_poolD
  have sp: "same_pool s t" and it: "pf_inv c t" using 2 by (simp_all add: kept_def)
  obtain m where m: "recoverable c (pf_page_size s) s m" using pf_inv_recoverable [OF inv] by blast
  then obtain m' where m': "recoverable c (pf_page_size s) t m'" "old_or_new (dirty_pages s) m m'"
    using 2 by (auto simp: kept_def)
  have pz: "pf_page_size t = pf_page_size s" by (rule same_poolD [OF sp])
  have sm: "pf_page_size s < 2 ^ 32" "pf_page_size t < 2 ^ 32" using inv it by (simp_all add: pf_inv_def)
  note r = restart_recovers [OF pf_inv_pool [OF inv] sm(1) m codec]
    restart_recovers [OF pf_inv_pool [OF it] sm(2) m'(1) [folded pz] codec]
  show ?case using 2 r m'(2) pz same_poolD [OF sp] by (simp add: kept_def)
qed

text \<open>A page file with one dirty page over an empty disk, and a failing journal write.\<close>

definition sample_file :: "fault list \<Rightarrow> page_file" where
  "sample_file fs = \<lparr>d_data = [], d_journal = None, d_meta = None, d_tmp = None, d_faults = fs,
     pw_state = fresh_state 8, pw_lsn = 0, pw_pending = False, pw_failed = False, pw_file = False,
     pf_page_size = 8, pf_capacity = 1, pf_cache = [(0, \<lparr>pg_id = 0, pg_data = replicate 8 7\<rparr>)],
     pf_last_used = [(0, 1)], pf_clock = 1, pf_dirty = [0], pf_hits = 0, pf_misses = 0, pf_exists = True\<rparr>"

lemma sample_file_inv: "pf_inv table_codec (sample_file fs)"
proof -
  have "on_disk table_codec 8 (fresh_state 8) [] [] (sample_file fs)"
    by (simp add: sample_file_def files_hold_def meta_of_def fresh_state_def journal_of_def journal_bytes_def)
  then have "live table_codec 8 (fresh_state 8) [] (sample_file fs)"
    "on_disk table_codec 8 (fresh_state 8) [] [] (sample_file fs)"
    by (simp_all add: live_def) (simp_all add: sample_file_def fresh_state_def)
  moreover have "pool_ok (sample_file fs)"
    by (simp add: pool_ok_def sample_file_def good_page_def bad_image_def RESET_def)
  ultimately show ?thesis
    unfolding pf_inv_def by (intro conjI exI [of _ "fresh_state 8"] exI [of _ "[]"])
      (simp_all add: sample_file_def synced_def images_def newer_def)
qed

theorem flush_crash_atomic_witness:
  "wp (flush table_codec)
    (\<lambda>_ t. pf_inv table_codec t \<and> pf_view t = pf_view (sample_file [NoFault, NoFault, Fault 50]) \<and> pf_dirty t = [] \<and>
      fst (open_page_file table_codec (pf_page_size (sample_file [NoFault, NoFault, Fault 50])) (t\<lparr>d_faults := []\<rparr>)) = Ok () \<and>
      (\<forall>i b. pf_view (sample_file [NoFault, NoFault, Fault 50]) i = Some b \<longrightarrow>
        page_image (pf_page_size (sample_file [NoFault, NoFault, Fault 50])) (d_data (restarted table_codec t)) (unat i) = b))
    (\<lambda>t. pf_inv table_codec t \<and> pf_view t = pf_view (sample_file [NoFault, NoFault, Fault 50]) \<and>
      pf_dirty t = pf_dirty (sample_file [NoFault, NoFault, Fault 50]) \<and>
      fst (open_page_file table_codec (pf_page_size (sample_file [NoFault, NoFault, Fault 50])) (t\<lparr>d_faults := []\<rparr>)) = Ok () \<and>
      old_or_new (dirty_pages (sample_file [NoFault, NoFault, Fault 50]))
        (page_image (pf_page_size (sample_file [NoFault, NoFault, Fault 50]))
          (d_data (restarted table_codec (sample_file [NoFault, NoFault, Fault 50]))))
        (page_image (pf_page_size (sample_file [NoFault, NoFault, Fault 50])) (d_data (restarted table_codec t))))
    (sample_file [NoFault, NoFault, Fault 50])"
  by (rule flush_crash_atomic [OF sample_file_inv table_codec_round_trip])

text \<open>
  Property (C7).  Reading a page through the buffer pool returns the page's logical content, and
  neither the read, nor the eviction and write-back it may cause, nor a failure of either changes
  the logical content of any page.
\<close>

theorem read_page_returns_view:
  assumes "pf_inv c s" and "\<And>x. decode c (encode c x) = Some x" and "addressable (pf_page_size s) i"
  shows "wp (read_page i)
    (\<lambda>p t. pf_inv c t \<and> pf_view t = pf_view s \<and> pg_id p = i \<and> pf_view s i = Some (pg_data p))
    (\<lambda>t. pf_inv c t \<and> pf_view t = pf_view s) s"
  unfolding read_page_with_page
  by (rule with_page_wp [OF assms]) (simp_all add: safe_def)

theorem read_page_returns_view_witness:
  "wp (read_page 3)
    (\<lambda>p t. pf_inv table_codec t \<and> pf_view t = pf_view (sample_file []) \<and> pg_id p = 3 \<and>
      pf_view (sample_file []) 3 = Some (pg_data p))
    (\<lambda>t. pf_inv table_codec t \<and> pf_view t = pf_view (sample_file [])) (sample_file [])"
  by (rule read_page_returns_view [OF sample_file_inv table_codec_round_trip])
     (simp add: addressable_def sample_file_def RESET_def)

text \<open>
  Property (C8).  An in-place update of a page changes the logical content of exactly that page,
  and only if it succeeds.
\<close>

theorem update_page_one_page:
  assumes "pf_inv c s" and "\<And>x. decode c (encode c x) = Some x" and "addressable (pf_page_size s) i"
    and "\<And>p. length (pg_data p) = pf_page_size s \<Longrightarrow> pg_id (snd (f p)) = pg_id p \<and>
      length (pg_data (snd (f p))) = pf_page_size s"
  shows "wp (update_page i f)
    (\<lambda>r t. pf_inv c t \<and> (\<exists>b. pf_view s i = Some b \<and> r = fst (f \<lparr>pg_id = i, pg_data = b\<rparr>) \<and>
       pf_view t = (pf_view s)(i \<mapsto> pg_data (snd (f \<lparr>pg_id = i, pg_data = b\<rparr>)))))
    (\<lambda>t. pf_inv c t \<and> pf_view t = pf_view s) s"
  by (rule update_page_view_wp [OF assms(1-3)]) (auto simp: safe_def assms(4))

theorem update_page_one_page_witness:
  "wp (update_page 0 (\<lambda>p. ((), p\<lparr>pg_data := rev (pg_data p)\<rparr>)))
    (\<lambda>r t. pf_inv table_codec t \<and> (\<exists>b. pf_view (sample_file []) 0 = Some b \<and>
       r = fst ((\<lambda>p. ((), p\<lparr>pg_data := rev (pg_data p)\<rparr>)) \<lparr>pg_id = 0, pg_data = b\<rparr>) \<and>
       pf_view t = (pf_view (sample_file []))(0 \<mapsto>
         pg_data (snd ((\<lambda>p. ((), p\<lparr>pg_data := rev (pg_data p)\<rparr>)) \<lparr>pg_id = 0, pg_data = b\<rparr>)))))
    (\<lambda>t. pf_inv table_codec t \<and> pf_view t = pf_view (sample_file [])) (sample_file [])"
  by (rule update_page_one_page [OF sample_file_inv table_codec_round_trip])
     (simp_all add: addressable_def sample_file_def RESET_def)

text \<open>
  Property (C9).  Appending a page adds one zero-filled page right after the last one and leaves
  the others alone.
\<close>

theorem append_page_adds_last:
  assumes "pf_inv c s" and "\<And>x. decode c (encode c x) = Some x" and "length (d_data s) < 2 ^ 64"
    and "\<And>n. (\<And>i. pf_view s i \<noteq> None \<longleftrightarrow> i < n) \<Longrightarrow> addressable (pf_page_size s) n"
  shows "wp append_page
    (\<lambda>p t. pf_inv c t \<and> (\<forall>i. pf_view s i \<noteq> None \<longleftrightarrow> i < pg_id p) \<and>
       pf_view t = (pf_view s)(pg_id p \<mapsto> replicate (pf_page_size s) 0))
    (\<lambda>t. pf_inv c t \<and> pf_view t = pf_view s) s"
  by (rule append_page_wp [OF assms]) (auto simp: safe_def new_page_def)

theorem append_page_adds_last_witness:
  "wp append_page
    (\<lambda>p t. pf_inv table_codec t \<and> (\<forall>i. pf_view (sample_file []) i \<noteq> None \<longleftrightarrow> i < pg_id p) \<and>
       pf_view t = (pf_view (sample_file []))(pg_id p \<mapsto> replicate (pf_page_size (sample_file [])) 0))
    (\<lambda>t. pf_inv table_codec t \<and> pf_view t = pf_view (sample_file [])) (sample_file [])"
proof (rule append_page_adds_last [OF sample_file_inv table_codec_round_trip])
  fix n assume "\<And>i. pf_view (sample_file []) i \<noteq> None \<longleftrightarrow> i < n"
  from this [of 1] have "n \<le> 1" by (simp add: pf_view_def sample_file_def disk_page_def)
  then have "unat n \<le> 1" by (simp add: word_le_nat_alt)
  then show "addressable (pf_page_size (sample_file [])) n"
    by (auto simp: addressable_def sample_file_def RESET_def unsigned_minus_1_eq_mask mask_eq_exp_minus_1)
qed (simp add: sample_file_def)

end
