(* ===== verification/Heap_Page.thy ===== *)
theory Heap_Page
  imports Page_File "HOL-Library.List_Lexorder"
begin

text \<open>
  The slotted heap page of \<open>heap.rs\<close>: a slot count, a directory of (offset, length) pairs
  growing upwards and the row bytes growing downwards, all in one byte buffer.  A page is
  well formed when the rows lie apart from the directory and from each other.  The theory
  shows that inserting, deleting and compacting act on the list of rows as they should, keep
  pages well formed and never panic on one; it also has the row position codec and the
  order-preserving integer key codec.
\<close>

unbundle bit_operations_syntax

section \<open>Fields of a page\<close>

definition HEADER_SIZE :: nat where "HEADER_SIZE = 2"
definition SLOT_SIZE :: nat where "SLOT_SIZE = 8"
definition SLOT_DIR_START :: nat where "SLOT_DIR_START = HEADER_SIZE"

definition read_u16 :: "bytes \<Rightarrow> nat \<Rightarrow> u16" where "read_u16 buf off = le_u16 (bslice buf off 2)"
definition write_u16 :: "bytes \<Rightarrow> nat \<Rightarrow> u16 \<Rightarrow> bytes" where "write_u16 buf off v = bwrite buf off (u16_le v)"
definition read_u32 :: "bytes \<Rightarrow> nat \<Rightarrow> u32" where "read_u32 buf off = le_u32 (bslice buf off 4)"
definition write_u32 :: "bytes \<Rightarrow> nat \<Rightarrow> u32 \<Rightarrow> bytes" where "write_u32 buf off v = bwrite buf off (u32_le v)"

definition slot_count :: "page \<Rightarrow> u16" where
  "slot_count p = read_u16 (pg_data p) 0"

definition set_slot_count :: "u16 \<Rightarrow> page \<Rightarrow> page" where
  "set_slot_count v p = p\<lparr>pg_data := write_u16 (pg_data p) 0 v\<rparr>"

definition slot_off :: "nat \<Rightarrow> nat" where
  "slot_off i = SLOT_DIR_START + i * SLOT_SIZE"

definition free_start :: "page \<Rightarrow> nat" where
  "free_start p = SLOT_DIR_START + unat (slot_count p) * SLOT_SIZE"

abbreviation row_off :: "bytes \<Rightarrow> nat \<Rightarrow> u32" where "row_off d i \<equiv> read_u32 d (slot_off i)"
abbreviation row_len :: "bytes \<Rightarrow> nat \<Rightarrow> u32" where "row_len d i \<equiv> read_u32 d (slot_off i + 4)"

text \<open>
  Every function below reads the slot count at offset 0 and directory entries up to it; an
  index outside the buffer panics.  \<open>dir_ok\<close> is the condition under which none does.
\<close>

definition dir_ok :: "page \<Rightarrow> bool" where
  "dir_ok p \<longleftrightarrow> HEADER_SIZE \<le> length (pg_data p) \<and> free_start p \<le> length (pg_data p)"

definition min_off :: "bytes \<Rightarrow> u32 \<Rightarrow> nat \<Rightarrow> u32" where
  "min_off d m i = (if 0 < row_len d i \<and> row_off d i < m then row_off d i else m)"

definition free_end :: "page \<Rightarrow> nat" where
  "free_end p = unat (foldl (min_off (pg_data p)) (word_of_nat (length (pg_data p)))
     [0..<unat (slot_count p)])"

section \<open>Operations\<close>

definition insert_tuple :: "bytes \<Rightarrow> page \<Rightarrow> (u16 option \<times> page) outcome" where
  "insert_tuple tuple p =
     (if \<not> dir_ok p then Panic
      else if free_start p + SLOT_SIZE + length tuple > free_end p then Ok (None, p)
      else (let n = slot_count p;
                tuple_off = free_end p - length tuple;
                d1 = bwrite (pg_data p) tuple_off tuple;
                d2 = write_u32 d1 (slot_off (unat n)) (word_of_nat tuple_off);
                d3 = write_u32 d2 (slot_off (unat n) + 4) (word_of_nat (length tuple))
        in if n = - 1 then Panic
           else Ok (Some n, set_slot_count (n + 1) (p\<lparr>pg_data := d3\<rparr>))))"

definition delete_tuple :: "u16 \<Rightarrow> page \<Rightarrow> (bool \<times> page) outcome" where
  "delete_tuple slot p =
     (if length (pg_data p) < HEADER_SIZE then Panic
      else if slot_count p \<le> slot then Ok (False, p)
      else if length (pg_data p) < slot_off (unat slot) + 8 then Panic
      else if row_len (pg_data p) (unat slot) = 0 then Ok (False, p)
      else Ok (True, p\<lparr>pg_data := write_u32 (pg_data p) (slot_off (unat slot) + 4) 0\<rparr>))"

definition tuple_bytes :: "page \<Rightarrow> u16 \<Rightarrow> bytes option outcome" where
  "tuple_bytes p slot =
     (if length (pg_data p) < HEADER_SIZE then Panic
      else if slot_count p \<le> slot then Ok None
      else if length (pg_data p) < slot_off (unat slot) + 8 then Panic
      else (let off = unat (row_off (pg_data p) (unat slot));
                len = unat (row_len (pg_data p) (unat slot))
        in if len = 0 then Ok None
           else if length (pg_data p) < off + len then Panic
           else Ok (Some (bslice (pg_data p) off len))))"

definition iter_slots :: "page \<Rightarrow> nat list" where
  "iter_slots p = [0..<unat (slot_count p)]"

definition dead_bytes :: "page \<Rightarrow> nat outcome" where
  "dead_bytes p =
     (if \<not> dir_ok p then Panic
      else Ok ((length (pg_data p) - free_end p) -
             sum_list (map (\<lambda>i. unat (row_len (pg_data p) i)) [0..<unat (slot_count p)])))"

text \<open>The two loops of \<open>compact_page\<close>: collect the live rows, then lay them out from the end.\<close>

fun collect_live :: "nat list \<Rightarrow> bytes \<Rightarrow> ((nat \<times> bytes) list \<times> bytes) outcome" where
  "collect_live [] d = Ok ([], d)"
| "collect_live (i # is) d =
     (if 0 < row_len d i
      then (if length d < unat (row_off d i) + unat (row_len d i) then Panic
            else (case collect_live is d of
                Ok (rows, d') \<Rightarrow> Ok ((i, bslice d (unat (row_off d i)) (unat (row_len d i))) # rows, d')
              | r \<Rightarrow> r))
      else collect_live is (write_u32 d (slot_off i) 0))"

fun place_live :: "(nat \<times> bytes) list \<Rightarrow> nat \<Rightarrow> bytes \<Rightarrow> bytes outcome" where
  "place_live [] e d = Ok d"
| "place_live ((i, bs) # rows) e d =
     (if e < length bs then Panic
      else place_live rows (e - length bs)
             (write_u32 (bwrite d (e - length bs) bs) (slot_off i) (word_of_nat (e - length bs))))"

definition compact_page :: "page \<Rightarrow> (nat \<times> page) outcome" where
  "compact_page p = (case dead_bytes p of
       Ok reclaimed \<Rightarrow>
        (if reclaimed = 0 then Ok (0, p)
         else (case collect_live [0..<unat (slot_count p)] (pg_data p) of
             Ok (rows, d) \<Rightarrow>
              (case place_live rows (length d) d of
                 Ok d' \<Rightarrow> Ok (reclaimed, p\<lparr>pg_data := d'\<rparr>)
               | Err e \<Rightarrow> Err e
               | Panic \<Rightarrow> Panic)
           | Err e \<Rightarrow> Err e
           | Panic \<Rightarrow> Panic))
     | Err e \<Rightarrow> Err e
     | Panic \<Rightarrow> Panic)"

definition compact_if_fragmented :: "page \<Rightarrow> (nat \<times> page) outcome" where
  "compact_if_fragmented p = (case dead_bytes p of
       Ok dead \<Rightarrow> if length (pg_data p) \<le> dead * 4 then compact_page p else Ok (0, p)
     | Err e \<Rightarrow> Err e
     | Panic \<Rightarrow> Panic)"

section \<open>Positions and keys\<close>

definition pack_position :: "page_id \<Rightarrow> u16 \<Rightarrow> u64" where
  "pack_position page slot = push_bit 16 page OR ucast slot"

definition unpack_position :: "u64 \<Rightarrow> page_id \<times> u16" where
  "unpack_position v = (drop_bit 16 v, ucast (v AND 0xFFFF))"

text \<open>An \<open>i64\<close> is the 64-bit word of its two's complement.\<close>

definition key_of :: "u64 \<Rightarrow> bytes" where
  "key_of value = u64_be (value XOR push_bit 63 1)"

lemma unpack_pack_position:
  assumes "page < 2 ^ 48"
  shows "unpack_position (pack_position page slot) = (page, slot)"
proof -
  have "drop_bit 16 (push_bit 16 page OR ucast slot :: u64) = page"
  proof (rule bit_word_eqI)
    fix n assume "n < LENGTH(64)"
    have "unat page < 2 ^ 48" using assms by (simp add: word_less_nat_alt)
    then have "take_bit 48 page = page"
      by (simp add: word_unat_eq_iff unsigned_take_bit_eq take_bit_nat_eq_self)
    then have "\<not> bit page n" if "48 \<le> n" using that by (metis bit_take_bit_iff not_le)
    then show "bit (drop_bit 16 (push_bit 16 page OR ucast slot :: u64)) n = bit page n"
      by (auto simp: bit_simps not_le [symmetric] dest: bit_imp_le_length)
  qed
  moreover have "ucast ((push_bit 16 page OR ucast slot :: u64) AND 0xFFFF) = slot"
  proof (rule bit_word_eqI)
    fix n assume n: "n < LENGTH(16)"
    have m: "(0xFFFF :: u64) = mask 16" by (simp add: mask_eq_exp_minus_1)
    from n show "bit (ucast ((push_bit 16 page OR ucast slot :: u64) AND 0xFFFF) :: u16) n = bit slot n"
      unfolding m by (auto simp: bit_simps)
  qed
  ultimately show ?thesis by (simp add: unpack_position_def pack_position_def)
qed

text \<open>Big-endian bytes compare like the numbers they encode.\<close>

lemma lex_snoc:
  "length xs = length ys \<Longrightarrow> (xs @ [a] < ys @ [b]) = (xs < ys \<or> xs = ys \<and> a < (b :: 'a::linorder))"
  by (induction xs ys rule: list_induct2) auto

lemma be_bytes_inj: "v < 256 ^ n \<Longrightarrow> w < 256 ^ n \<Longrightarrow> le_bytes n v = le_bytes n w \<longleftrightarrow> v = w"
  by (metis le_value_le_bytes mod_less)

lemma be_bytes_less:
  "v < 256 ^ n \<Longrightarrow> w < 256 ^ n \<Longrightarrow> rev (le_bytes n v) < rev (le_bytes n w) \<longleftrightarrow> v < w"
proof (induction n arbitrary: v w)
  case (Suc n)
  let ?v = "v div 256" and ?w = "w div 256"
  have b: "?v < 256 ^ n" "?w < 256 ^ n" using Suc.prems by (simp_all add: less_mult_imp_div_less mult.commute)
  have "(word_of_nat (v mod 256) :: u8) < word_of_nat (w mod 256) \<longleftrightarrow> v mod 256 < w mod 256"
    by (simp add: word_less_nat_alt)
  then have "rev (le_bytes (Suc n) v) < rev (le_bytes (Suc n) w) \<longleftrightarrow>
      ?v < ?w \<or> ?v = ?w \<and> v mod 256 < w mod 256"
    using Suc.IH [OF b] be_bytes_inj [OF b] by (simp add: lex_snoc)
  also have "\<dots> \<longleftrightarrow> v < w"
  proof -
    have "v = 256 * ?v + v mod 256" "w = 256 * ?w + w mod 256" "v mod 256 < 256" "w mod 256 < 256" by simp_all
    then show ?thesis by linarith
  qed
  finally show ?case .
qed simp

lemma u64_be_less: "u64_be v < u64_be w \<longleftrightarrow> v < w"
  using be_bytes_less [of "unat v" 8 "unat w"] unat_bound [of v] unat_bound [of w]
  by (simp add: u64_be_def word_less_nat_alt)

lemma sign_flip: "uint (x XOR push_bit 63 1 :: u64) = sint x + 2 ^ 63"
proof -
  have "uint (x XOR push_bit 63 1 :: u64) = flip_bit 63 (uint x)"
    by (simp add: unsigned_xor_eq flip_bit_eq_xor)
  also have "\<dots> = (if bit x 63 then uint x - 2 ^ 63 else uint x + 2 ^ 63)"
    by (simp add: flip_bit_eq_if set_bit_eq unset_bit_eq bit_simps)
  also have "\<dots> = sint x + 2 ^ 63"
    using take_bit_int_eq_self [of "uint x" 64] uint_lt2p [of x]
    by (simp add: sint_uint signed_take_bit_eq_take_bit_minus bit_simps)
  finally show ?thesis .
qed

section \<open>Rows of a page\<close>

abbreviation cnt :: "bytes \<Rightarrow> nat" where "cnt d \<equiv> unat (read_u16 d 0)"
abbreviation live_row :: "bytes \<Rightarrow> nat \<Rightarrow> bool" where "live_row d i \<equiv> 0 < row_len d i"
abbreviation off_nat :: "bytes \<Rightarrow> nat \<Rightarrow> nat" where "off_nat d i \<equiv> unat (row_off d i)"
abbreviation len_nat :: "bytes \<Rightarrow> nat \<Rightarrow> nat" where "len_nat d i \<equiv> unat (row_len d i)"

text \<open>The rows by slot number; a deleted slot holds nothing.\<close>

definition row_at :: "bytes \<Rightarrow> nat \<Rightarrow> bytes option" where
  "row_at d i = (if live_row d i then Some (bslice d (off_nat d i) (len_nat d i)) else None)"

definition rows_of :: "page \<Rightarrow> bytes option list" where
  "rows_of p = map (row_at (pg_data p)) [0..<cnt (pg_data p)]"

definition apart :: "bytes \<Rightarrow> nat \<Rightarrow> nat \<Rightarrow> bool" where
  "apart d i j \<longleftrightarrow> off_nat d i + len_nat d i \<le> off_nat d j \<or> off_nat d j + len_nat d j \<le> off_nat d i"

definition wf_data :: "bytes \<Rightarrow> bool" where
  "wf_data d \<longleftrightarrow> 2 \<le> length d \<and> length d < 2 ^ 32 \<and> slot_off (cnt d) \<le> length d \<and>
     (\<forall>i < cnt d. live_row d i \<longrightarrow> slot_off (cnt d) \<le> off_nat d i \<and> off_nat d i + len_nat d i \<le> length d) \<and>
     (\<forall>i < cnt d. \<forall>j < cnt d. i \<noteq> j \<longrightarrow> live_row d i \<longrightarrow> live_row d j \<longrightarrow> apart d i j)"

definition heap_wf :: "page \<Rightarrow> bool" where
  "heap_wf p \<longleftrightarrow> wf_data (pg_data p)"

lemma slot_off_simps: "slot_off i = 2 + 8 * i"
  by (simp add: slot_off_def SLOT_DIR_START_def HEADER_SIZE_def SLOT_SIZE_def)

lemma free_start_slot_off: "free_start p = slot_off (cnt (pg_data p))"
  by (simp add: free_start_def slot_off_def slot_count_def)

lemma bslice_bwrite_other:
  "a + n \<le> b \<or> b + length xs \<le> a \<Longrightarrow> b + length xs \<le> length d \<Longrightarrow> bslice (bwrite d b xs) a n = bslice d a n"
  by auto

lemma read_bwrite_other:
  "a + 4 \<le> b \<or> b + length xs \<le> a \<Longrightarrow> b + length xs \<le> length d \<Longrightarrow> read_u32 (bwrite d b xs) a = read_u32 d a"
  "2 \<le> b \<Longrightarrow> b + length xs \<le> length d \<Longrightarrow> read_u16 (bwrite d b xs) 0 = read_u16 d 0"
  by (simp_all only: read_u32_def read_u16_def) (subst bslice_bwrite_other; simp)+

lemma read_write_u32:
  "a = b \<Longrightarrow> b + 4 \<le> length d \<Longrightarrow> read_u32 (write_u32 d b v) a = v"
  "a + 4 \<le> b \<or> b + 4 \<le> a \<Longrightarrow> b + 4 \<le> length d \<Longrightarrow> read_u32 (write_u32 d b v) a = read_u32 d a"
  "2 \<le> b \<Longrightarrow> b + 4 \<le> length d \<Longrightarrow> read_u16 (write_u32 d b v) 0 = read_u16 d 0"
  "b + 4 \<le> length d \<Longrightarrow> length (write_u32 d b v) = length d"
  by (simp_all add: write_u32_def read_bwrite_other) (simp add: read_u32_def)

lemma bslice_write_u32:
  "a + n \<le> b \<or> b + 4 \<le> a \<Longrightarrow> b + 4 \<le> length d \<Longrightarrow> bslice (write_u32 d b v) a n = bslice d a n"
  by (simp add: write_u32_def bslice_bwrite_other)

lemma free_end_fold:
  fixes m :: u32
  shows "foldl (min_off d) m is \<le> m"
    and "i \<in> set is \<Longrightarrow> live_row d i \<Longrightarrow> foldl (min_off d) m is \<le> row_off d i"
    and "foldl (min_off d) m is = m \<or> (\<exists>i \<in> set is. live_row d i \<and> foldl (min_off d) m is = row_off d i)"
proof -
  let ?P = "\<lambda>m is. foldl (min_off d) m is \<le> m \<and>
    (\<forall>i \<in> set is. live_row d i \<longrightarrow> foldl (min_off d) m is \<le> row_off d i) \<and>
    (foldl (min_off d) m is = m \<or> (\<exists>i \<in> set is. live_row d i \<and> foldl (min_off d) m is = row_off d i))"
  have "?P m is"
  proof (induction "is" arbitrary: m)
    case (Cons k ks)
    let ?m = "min_off d m k"
    have "?m \<le> m" "live_row d k \<Longrightarrow> ?m \<le> row_off d k" "?m = m \<or> live_row d k \<and> ?m = row_off d k"
      by (auto simp: min_off_def)
    with Cons.IH [of ?m] show ?case by (auto intro: order_trans)
  qed simp
  then show "foldl (min_off d) m is \<le> m"
    "i \<in> set is \<Longrightarrow> live_row d i \<Longrightarrow> foldl (min_off d) m is \<le> row_off d i"
    "foldl (min_off d) m is = m \<or> (\<exists>i \<in> set is. live_row d i \<and> foldl (min_off d) m is = row_off d i)"
    by blast+
qed

lemma free_end_props:
  assumes "wf_data (pg_data p)"
  shows "free_end p \<le> length (pg_data p)" and "slot_off (cnt (pg_data p)) \<le> free_end p"
    and "i < cnt (pg_data p) \<Longrightarrow> live_row (pg_data p) i \<Longrightarrow> free_end p \<le> off_nat (pg_data p) i"
proof -
  let ?d = "pg_data p"
  let ?f = "foldl (min_off ?d) (word_of_nat (length ?d)) [0..<cnt ?d]"
  have len: "unat (word_of_nat (length ?d) :: u32) = length ?d"
    using assms by (simp add: unat_of_nat wf_data_def)
  have f: "free_end p = unat ?f" by (simp add: free_end_def slot_count_def)
  show "free_end p \<le> length ?d"
    using free_end_fold(1) [of ?d "word_of_nat (length ?d)" "[0..<cnt ?d]"] len f
    by (simp add: word_le_nat_alt)
  show "free_end p \<le> off_nat ?d i" if "i < cnt ?d" "live_row ?d i"
    using free_end_fold(2) [of i "[0..<cnt ?d]" ?d] that f by (simp add: word_le_nat_alt)
  show "slot_off (cnt ?d) \<le> free_end p"
    using free_end_fold(3) [of ?d "word_of_nat (length ?d)" "[0..<cnt ?d]"] len f assms
    by (auto simp: wf_data_def)
qed

lemma heap_wf_dir_ok: "heap_wf p \<Longrightarrow> dir_ok p"
  by (auto simp: heap_wf_def wf_data_def dir_ok_def free_start_slot_off HEADER_SIZE_def)

lemma length_rows_of [simp]: "length (rows_of p) = unat (slot_count p)"
  by (simp add: rows_of_def slot_count_def)

text \<open>Reading a slot returns its row.\<close>

lemma tuple_bytes_rows:
  assumes "heap_wf p"
  shows "tuple_bytes p slot = Ok (if slot < slot_count p then rows_of p ! unat slot else None)"
proof -
  let ?d = "pg_data p"
  have wf: "wf_data ?d" using assms by (simp add: heap_wf_def)
  show ?thesis
  proof (cases "slot < slot_count p")
    case False
    then show ?thesis using wf by (auto simp: tuple_bytes_def wf_data_def HEADER_SIZE_def)
  next
    case True
    then have i: "unat slot < cnt ?d" by (simp add: slot_count_def word_less_nat_alt)
    then have "slot_off (unat slot) + 8 \<le> length ?d"
      using wf by (auto simp: wf_data_def slot_off_simps)
    moreover have "off_nat ?d (unat slot) + len_nat ?d (unat slot) \<le> length ?d" if "live_row ?d (unat slot)"
      using wf i that by (simp add: wf_data_def)
    ultimately show ?thesis
      using True i wf by (auto simp: tuple_bytes_def rows_of_def row_at_def Let_def wf_data_def HEADER_SIZE_def
          unat_eq_0 word_neq_0_conv not_le)
  qed
qed

section \<open>Insertion and deletion\<close>

lemma rows_of_eqI:
  assumes "cnt d' = cnt d" and "\<And>i. i < cnt d \<Longrightarrow> row_at d' i = row_at d i"
  shows "map (row_at d') [0..<cnt d'] = map (row_at d) [0..<cnt d]"
  using assms by simp

lemma insert_tuple_wf:
  assumes wf: "heap_wf p" and small: "length (pg_data p) \<le> 524290" and ne: "tuple \<noteq> []"
    and fits: "free_start p + SLOT_SIZE + length tuple \<le> free_end p"
  shows "\<exists>q. insert_tuple tuple p = Ok (Some (slot_count p), q) \<and> heap_wf q \<and> pg_id q = pg_id p \<and>
    length (pg_data q) = length (pg_data p) \<and> rows_of q = rows_of p @ [Some tuple]"
proof -
  let ?d = "pg_data p" and ?n = "cnt (pg_data p)" and ?o = "free_end p - length tuple"
  define d1 where "d1 = bwrite ?d ?o tuple"
  define d2 where "d2 = write_u32 d1 (slot_off ?n) (word_of_nat ?o)"
  define d3 where "d3 = write_u32 d2 (slot_off ?n + 4) (word_of_nat (length tuple))"
  define d4 where "d4 = write_u16 d3 0 (slot_count p + 1)"
  have w: "wf_data ?d" using wf by (simp add: heap_wf_def)
  note fe = free_end_props [OF w]
  have fit: "slot_off ?n + 8 + length tuple \<le> free_end p" using fits by (simp add: free_start_slot_off SLOT_SIZE_def)
  have o: "slot_off ?n + 8 \<le> ?o" "?o + length tuple = free_end p" "?o + length tuple \<le> length ?d" using fit fe(1) by simp_all
  have n: "?n < 65535" using fit fe(1) small ne by (cases tuple) (simp_all add: slot_off_simps)
  then have nm: "slot_count p \<noteq> - 1" by (auto simp: slot_count_def unsigned_minus_1_eq_mask mask_eq_exp_minus_1)
  have c: "cnt d4 = Suc ?n"
  proof -
    have "1 + read_u16 ?d 0 \<noteq> 0" using n by (metis add.commute add_eq_0_iff nm slot_count_def)
    then have "unat (read_u16 ?d 0 + 1) = Suc ?n" by (simp add: unatSuc add.commute)
    then show ?thesis using o by (simp add: d4_def d3_def d2_def d1_def read_u16_def write_u16_def slot_count_def
          read_write_u32 slot_off_simps)
  qed
  have len: "length d1 = length ?d" "length d2 = length ?d" "length d3 = length ?d" "length d4 = length ?d"
    using o by (simp_all add: d1_def d2_def d3_def d4_def read_write_u32 write_u16_def slot_off_simps)
  have r4: "read_u32 d4 a = read_u32 d3 a" if "2 \<le> a" for a
    using that len o by (simp add: d4_def write_u16_def read_bwrite_other slot_off_simps)
  have old: "row_off d4 i = row_off ?d i" "row_len d4 i = row_len ?d i" if "i < ?n" for i
    using that o len by (simp_all add: r4 slot_off_simps d3_def d2_def read_write_u32) (simp_all add: d1_def read_bwrite_other)
  have new: "row_off d4 ?n = word_of_nat ?o" "row_len d4 ?n = word_of_nat (length tuple)"
    using o len by (simp_all add: r4 slot_off_simps d3_def d2_def read_write_u32)
  have small32: "length ?d < 2 ^ 32" using w by (simp add: wf_data_def)
  have u: "off_nat d4 ?n = ?o" "len_nat d4 ?n = length tuple" "live_row d4 ?n"
  proof -
    have "unat (word_of_nat ?o :: u32) = ?o" "unat (word_of_nat (length tuple) :: u32) = length tuple"
      using o small32 by (simp_all only: unat_of_nat) simp_all
    then show "off_nat d4 ?n = ?o" "len_nat d4 ?n = length tuple" "live_row d4 ?n"
      using new ne by (simp_all only: word_less_nat_alt) simp_all
  qed
  have sl: "bslice d4 a m = bslice d1 a m" if "slot_off ?n + 8 \<le> a" for a m
    using that o len by (simp add: d4_def d3_def d2_def write_u16_def bslice_bwrite_other bslice_write_u32 slot_off_simps read_write_u32)
  have tup: "bslice d4 ?o (length tuple) = tuple" using o sl by (simp add: d1_def)
  have keep: "bslice d4 (off_nat ?d i) m = bslice ?d (off_nat ?d i) m" if "i < ?n" "live_row ?d i" for i m
    using fe(3) [OF that] o sl by (simp add: d1_def bslice_bwrite_other)
  have "wf_data d4"
  proof -
    have "slot_off (Suc ?n) \<le> off_nat d4 i \<and> off_nat d4 i + len_nat d4 i \<le> length d4"
      if "i < Suc ?n" "live_row d4 i" for i
    proof (cases "i = ?n")
      case True
      then show ?thesis using u o len by (simp add: slot_off_simps)
    next
      case False
      then have i: "i < ?n" "live_row ?d i" using that old by auto
      then show ?thesis using w fe(3) [OF i] old [OF i(1)] o len by (auto simp: wf_data_def slot_off_simps)
    qed
    moreover have "apart d4 i j" if ij: "i < Suc ?n" "j < Suc ?n" "i \<noteq> j" "live_row d4 i" "live_row d4 j" for i j
    proof -
      have lt: "free_end p \<le> off_nat d4 k" if "k < ?n" "live_row d4 k" for k using fe(3) [of k] old [OF that(1)] that by simp
      consider "i = ?n" "j < ?n" | "j = ?n" "i < ?n" | "i < ?n" "j < ?n" using ij by linarith
      then show ?thesis
      proof cases
        case 3
        then show ?thesis using ij w old by (simp add: wf_data_def apart_def)
      qed (use lt ij u o in \<open>auto simp: apart_def\<close>)
    qed
    ultimately show ?thesis using w c o len by (auto simp: wf_data_def slot_off_simps)
  qed
  moreover have "rows_of (p\<lparr>pg_data := d4\<rparr>) = rows_of p @ [Some tuple]"
    using c u tup old keep by (simp add: rows_of_def row_at_def)
  moreover have "insert_tuple tuple p = Ok (Some (slot_count p), p\<lparr>pg_data := d4\<rparr>)"
    using fits nm heap_wf_dir_ok [OF wf] unfolding insert_tuple_def
    by (simp add: Let_def set_slot_count_def d4_def d3_def d2_def d1_def slot_count_def)
  ultimately show ?thesis using len by (intro exI [of _ "p\<lparr>pg_data := d4\<rparr>"]) (simp add: heap_wf_def)
qed

lemma insert_tuple_full:
  assumes "heap_wf p" and "\<not> free_start p + SLOT_SIZE + length tuple \<le> free_end p"
  shows "insert_tuple tuple p = Ok (None, p)"
  using assms heap_wf_dir_ok [OF assms(1)] by (simp add: insert_tuple_def)

text \<open>A change of the directory that only forgets rows keeps a page well formed.\<close>

lemma wf_data_fewer:
  assumes "wf_data d" and "length d' = length d" and "cnt d' = cnt d"
    and "\<And>i. i < cnt d \<Longrightarrow> live_row d' i \<Longrightarrow> live_row d i \<and> row_off d' i = row_off d i \<and> row_len d' i = row_len d i"
  shows "wf_data d'"
proof -
  have "apart d' i j" if "i < cnt d" "j < cnt d" "i \<noteq> j" "live_row d' i" "live_row d' j" for i j
  proof -
    have "live_row d i" "live_row d j" "row_off d' i = row_off d i" "row_len d' i = row_len d i"
      "row_off d' j = row_off d j" "row_len d' j = row_len d j" using assms(4) that by blast+
    moreover from this have "apart d i j" using assms(1) that by (simp add: wf_data_def)
    ultimately show ?thesis by (simp add: apart_def)
  qed
  moreover have "slot_off (cnt d) \<le> off_nat d' i \<and> off_nat d' i + len_nat d' i \<le> length d"
    if "i < cnt d" "live_row d' i" for i
  proof -
    have "live_row d i" "row_off d' i = row_off d i" "row_len d' i = row_len d i" using assms(4) that by blast+
    then show ?thesis using assms(1) that(1) by (simp add: wf_data_def)
  qed
  moreover have "2 \<le> length d" "length d < 2 ^ 32" "slot_off (cnt d) \<le> length d"
    using assms(1) by (simp_all add: wf_data_def)
  ultimately show ?thesis unfolding wf_data_def assms(2,3) by blast
qed

lemma delete_tuple_wf:
  assumes wf: "heap_wf p" and i: "slot < slot_count p"
  shows "\<exists>q. delete_tuple slot p = Ok (rows_of p ! unat slot \<noteq> None, q) \<and> heap_wf q \<and> pg_id q = pg_id p \<and>
    length (pg_data q) = length (pg_data p) \<and> rows_of q = (rows_of p)[unat slot := None]"
proof -
  let ?d = "pg_data p" and ?k = "unat slot"
  have w: "wf_data ?d" using wf by (simp add: heap_wf_def)
  have k: "?k < cnt ?d" using i by (simp add: slot_count_def word_less_nat_alt)
  have len: "slot_off ?k + 8 \<le> length ?d" using w k by (auto simp: wf_data_def slot_off_simps)
  define d' where "d' = write_u32 ?d (slot_off ?k + 4) 0"
  have l': "length d' = length ?d" and c': "cnt d' = cnt ?d"
    using len by (simp_all add: d'_def read_write_u32 slot_off_simps)
  have off': "row_off d' j = row_off ?d j" and len': "row_len d' j = (if j = ?k then 0 else row_len ?d j)"
    if "j < cnt ?d" for j
  proof -
    consider "j < ?k" | "j = ?k" | "?k < j" by linarith
    then have "row_off d' j = row_off ?d j \<and> row_len d' j = (if j = ?k then 0 else row_len ?d j)"
      using len by cases (simp_all add: d'_def read_write_u32 slot_off_simps)
    then show "row_off d' j = row_off ?d j" "row_len d' j = (if j = ?k then 0 else row_len ?d j)" by simp_all
  qed
  have wf': "wf_data d'" by (rule wf_data_fewer [OF w l' c']) (use off' len' in \<open>auto split: if_splits\<close>)
  have same: "bslice d' (off_nat ?d j) m = bslice ?d (off_nat ?d j) m" if "j < cnt ?d" "live_row ?d j" for j m
  proof -
    have "slot_off (cnt ?d) \<le> off_nat ?d j" using w that by (simp add: wf_data_def)
    then show ?thesis using k len by (simp add: d'_def bslice_write_u32 slot_off_simps)
  qed
  have rows': "rows_of (p\<lparr>pg_data := d'\<rparr>) = (rows_of p)[?k := None]"
    by (rule nth_equalityI)
       (use c' off' len' same in \<open>auto simp: rows_of_def row_at_def nth_list_update slot_count_def\<close>)
  show ?thesis
  proof (cases "row_len ?d ?k = 0")
    case True
    then have "rows_of p ! ?k = None" using k by (simp add: rows_of_def row_at_def)
    then have "(rows_of p)[?k := None] = rows_of p" by (metis list_update_id)
    then show ?thesis
      using True i len w wf \<open>rows_of p ! ?k = None\<close>
      by (auto simp: delete_tuple_def HEADER_SIZE_def wf_data_def intro!: exI [of _ p])
  next
    case False
    then have "rows_of p ! ?k \<noteq> None" using k by (simp add: rows_of_def row_at_def word_neq_0_conv)
    then show ?thesis
      using False i len w wf' rows' l'
      by (auto simp: delete_tuple_def HEADER_SIZE_def wf_data_def heap_wf_def d'_def
          intro!: exI [of _ "p\<lparr>pg_data := d'\<rparr>"])
  qed
qed

section \<open>Compaction\<close>

lemma sum_of_disjoint:
  fixes off len :: "nat \<Rightarrow> nat"
  assumes "finite I" and "\<And>i. i \<in> I \<Longrightarrow> a \<le> off i \<and> off i + len i \<le> b"
    and "\<And>i j. i \<in> I \<Longrightarrow> j \<in> I \<Longrightarrow> i \<noteq> j \<Longrightarrow> off i + len i \<le> off j \<or> off j + len j \<le> off i"
  shows "sum len I \<le> b - a"
proof -
  have "sum len I = (\<Sum>i \<in> I. card {off i..<off i + len i})" by simp
  also have "\<dots> = card (\<Union>i \<in> I. {off i..<off i + len i})"
    using assms(1,3) by (subst card_UN_disjoint) (auto, fastforce)
  also have "\<dots> \<le> card {a..<b}"
    using assms(2) by (intro card_mono) fastforce+
  finally show ?thesis by simp
qed

definition live_total :: "bytes \<Rightarrow> nat" where
  "live_total d = sum_list (map (len_nat d) [0..<cnt d])"

lemma live_total_sum: "live_total d = (\<Sum>i | i < cnt d \<and> live_row d i. len_nat d i)"
proof -
  have "live_total d = (\<Sum>i < cnt d. len_nat d i)"
    by (simp add: live_total_def interv_sum_list_conv_sum_set_nat atLeast0LessThan)
  also have "\<dots> = (\<Sum>i | i < cnt d \<and> live_row d i. len_nat d i)"
    by (rule sum.mono_neutral_cong_right) (auto simp: word_neq_0_conv [symmetric])
  finally show ?thesis .
qed

lemma live_total_le:
  assumes "wf_data (pg_data p)"
  shows "live_total (pg_data p) \<le> length (pg_data p) - free_end p"
  unfolding live_total_sum
proof (rule sum_of_disjoint)
  fix i assume "i \<in> {i. i < cnt (pg_data p) \<and> live_row (pg_data p) i}"
  then show "free_end p \<le> off_nat (pg_data p) i \<and> off_nat (pg_data p) i + len_nat (pg_data p) i \<le> length (pg_data p)"
    using free_end_props(3) [OF assms] assms by (auto simp: wf_data_def)
qed (use assms in \<open>auto simp: wf_data_def apart_def\<close>)

lemma dead_bytes_eq:
  "heap_wf p \<Longrightarrow> dead_bytes p = Ok (length (pg_data p) - free_end p - live_total (pg_data p))"
  using heap_wf_dir_ok by (simp add: dead_bytes_def live_total_def slot_count_def)

text \<open>The first loop collects the live rows and clears the offsets of the dead slots.\<close>

lemma collect_live_ok:
  assumes "distinct is" and "\<forall>i \<in> set is. slot_off i + 8 \<le> length d"
    and "\<forall>i \<in> set is. live_row d i \<longrightarrow> off_nat d i + len_nat d i \<le> length d"
    and "\<forall>i \<in> set is. \<forall>j \<in> set is. live_row d i \<longrightarrow> slot_off j + 8 \<le> off_nat d i"
  shows "\<exists>d'. collect_live is d =
      Ok (List.map_filter (\<lambda>i. map_option (Pair i) (row_at d i)) is, d') \<and> length d' = length d \<and>
      read_u16 d' 0 = read_u16 d 0 \<and>
      (\<forall>j. row_len d' j = row_len d j) \<and> (\<forall>j. live_row d j \<or> j \<notin> set is \<longrightarrow> row_off d' j = row_off d j)"
  using assms
proof (induction "is" arbitrary: d)
  case (Cons k ks)
  show ?case
  proof (cases "live_row d k")
    case True
    have "\<exists>d'. collect_live ks d =
      Ok (List.map_filter (\<lambda>i. map_option (Pair i) (row_at d i)) ks, d') \<and> length d' = length d \<and>
      read_u16 d' 0 = read_u16 d 0 \<and>
      (\<forall>j. row_len d' j = row_len d j) \<and> (\<forall>j. live_row d j \<or> j \<notin> set ks \<longrightarrow> row_off d' j = row_off d j)"
      by (rule Cons.IH) (use Cons.prems in simp_all)
    then obtain d' where "collect_live ks d =
        Ok (List.map_filter (\<lambda>i. map_option (Pair i) (row_at d i)) ks, d')" "length d' = length d"
        "read_u16 d' 0 = read_u16 d 0"
        "\<forall>j. row_len d' j = row_len d j" "\<forall>j. live_row d j \<or> j \<notin> set ks \<longrightarrow> row_off d' j = row_off d j"
      by blast
    then show ?thesis using True Cons.prems(3) by (auto simp: List.map_filter_simps row_at_def not_less)
  next
    case False
    let ?e = "write_u32 d (slot_off k) 0"
    have in_range: "slot_off k + 4 \<le> length d" using Cons.prems(2) by simp
    have off: "row_off ?e j = row_off d j" if "j \<noteq> k" for j
    proof -
      consider "j < k" | "k < j" using \<open>j \<noteq> k\<close> by linarith
      then show ?thesis using in_range by cases (simp_all add: read_write_u32 slot_off_simps)
    qed
    have len: "row_len ?e j = row_len d j" for j
    proof -
      consider "j < k" | "k \<le> j" by linarith
      then show ?thesis using in_range by cases (simp_all add: read_write_u32 slot_off_simps)
    qed
    have row: "row_at ?e j = row_at d j" if "j \<in> set ks" for j
    proof -
      have "j \<noteq> k" "live_row d j \<Longrightarrow> slot_off k + 8 \<le> off_nat d j" using that Cons.prems(1,4) by auto
      then show ?thesis using off [of j] len in_range by (auto simp: row_at_def bslice_write_u32)
    qed
    have "\<exists>d'. collect_live ks ?e =
        Ok (List.map_filter (\<lambda>i. map_option (Pair i) (row_at ?e i)) ks, d') \<and> length d' = length ?e \<and>
        read_u16 d' 0 = read_u16 ?e 0 \<and>
        (\<forall>j. row_len d' j = row_len ?e j) \<and> (\<forall>j. live_row ?e j \<or> j \<notin> set ks \<longrightarrow> row_off d' j = row_off ?e j)"
    proof (rule Cons.IH)
      have same: "row_off ?e j = row_off d j" if "j \<in> set ks" for j using that Cons.prems(1) by (intro off) auto
      show "\<forall>i \<in> set ks. live_row ?e i \<longrightarrow> off_nat ?e i + len_nat ?e i \<le> length ?e"
        using Cons.prems(3) same len in_range by (simp add: read_write_u32)
      show "\<forall>i \<in> set ks. \<forall>j \<in> set ks. live_row ?e i \<longrightarrow> slot_off j + 8 \<le> off_nat ?e i"
        using Cons.prems(4) same len by simp
    qed (use Cons.prems in_range in \<open>auto simp: read_write_u32\<close>)
    moreover have "List.map_filter (\<lambda>i. map_option (Pair i) (row_at ?e i)) ks =
        List.map_filter (\<lambda>i. map_option (Pair i) (row_at d i)) ks"
      using row by (auto simp: List.map_filter_def intro!: map_cong filter_cong)
    moreover have "read_u16 ?e 0 = read_u16 d 0" "length ?e = length d"
      using in_range by (simp_all add: read_write_u32 slot_off_simps)
    ultimately obtain d' where d': "collect_live ks ?e =
        Ok (List.map_filter (\<lambda>i. map_option (Pair i) (row_at d i)) ks, d')" "length d' = length d"
        "read_u16 d' 0 = read_u16 d 0"
        "\<forall>j. row_len d' j = row_len ?e j" "\<forall>j. live_row ?e j \<or> j \<notin> set ks \<longrightarrow> row_off d' j = row_off ?e j"
      by auto
    have "row_off d' j = row_off d j" if "live_row d j \<or> j \<notin> set (k # ks)" for j
    proof -
      have "j \<noteq> k" using that False by auto
      then show ?thesis using that d'(5) off len by auto
    qed
    moreover have "collect_live (k # ks) d = collect_live ks ?e" "row_at d k = None" using False by (simp_all add: row_at_def)
    ultimately show ?thesis using d'(1-4) len by (simp add: List.map_filter_simps)
  qed
qed (simp add: List.map_filter_simps)

text \<open>The second loop lays the rows out downwards from the end of the page.\<close>

definition placed :: "bytes \<Rightarrow> nat \<Rightarrow> nat \<Rightarrow> nat \<times> bytes \<Rightarrow> bool" where
  "placed d lo hi r = (case r of (i, bs) \<Rightarrow> lo \<le> off_nat d i \<and> off_nat d i + length bs \<le> hi \<and>
     bslice d (off_nat d i) (length bs) = bs)"

lemma place_live_ok:
  assumes "distinct (map fst rows)" and "\<forall>(i, bs) \<in> set rows. i < n"
    and "slot_off n + sum_list (map (\<lambda>(i, bs). length bs) rows) \<le> e" and "e \<le> length d" and "length d < 2 ^ 32"
  shows "\<exists>d'. place_live rows e d = Ok d' \<and> length d' = length d \<and> read_u16 d' 0 = read_u16 d 0 \<and>
    (\<forall>a m. e \<le> a \<longrightarrow> bslice d' a m = bslice d a m) \<and> (\<forall>j < n. row_len d' j = row_len d j) \<and>
    (\<forall>j < n. j \<notin> fst ` set rows \<longrightarrow> row_off d' j = row_off d j) \<and>
    (\<forall>r \<in> set rows. placed d' (e - sum_list (map (\<lambda>(i, bs). length bs) rows)) e r) \<and>
    (\<forall>(i, bs) \<in> set rows. \<forall>(j, cs) \<in> set rows. i \<noteq> j \<longrightarrow>
       off_nat d' i + length bs \<le> off_nat d' j \<or> off_nat d' j + length cs \<le> off_nat d' i)"
  using assms
proof (induction rows arbitrary: e d)
  case (Cons r rows)
  obtain k bs where r: "r = (k, bs)" by (cases r)
  let ?total = "sum_list (map (\<lambda>(i, bs). length bs) rows)" and ?o = "e - length bs"
  let ?b = "bwrite d ?o bs" and ?e = "write_u32 (bwrite d ?o bs) (slot_off k) (word_of_nat ?o)"
  have k: "slot_off k + 8 \<le> slot_off n" using Cons.prems(2) by (simp add: r slot_off_simps)
  have fit: "slot_off n + ?total \<le> ?o" "?o + length bs = e" "length bs \<le> e" using Cons.prems(3) by (simp_all add: r)
  have lb: "length ?b = length d" using fit Cons.prems(4) by simp
  have le: "length ?e = length d" using lb k fit Cons.prems(4) by (simp add: read_write_u32)
  have u16: "read_u16 ?e 0 = read_u16 d 0"
    using lb k fit Cons.prems(4) by (simp add: read_write_u32 read_bwrite_other slot_off_simps)
  have dir: "read_u32 ?b a = read_u32 d a" if "a + 4 \<le> slot_off n" for a
    using that fit Cons.prems(4) by (simp add: read_bwrite_other)
  have off: "row_off ?e j = (if j = k then word_of_nat ?o else row_off d j)" and len: "row_len ?e j = row_len d j" if "j < n" for j
  proof -
    have b: "slot_off j + 8 \<le> slot_off n" using that by (simp add: slot_off_simps)
    consider "j < k" | "j = k" | "k < j" by linarith
    then have "row_off ?e j = (if j = k then word_of_nat ?o else row_off d j) \<and> row_len ?e j = row_len d j"
    proof cases
      case 1
      then show ?thesis using b dir lb k fit Cons.prems(4) by (simp add: read_write_u32) (simp add: slot_off_simps read_write_u32)
    next
      case 2
      then show ?thesis using b dir lb k fit Cons.prems(4) by (simp add: read_write_u32)
    next
      case 3
      then have "slot_off k + 8 \<le> slot_off j" by (simp add: slot_off_simps)
      then show ?thesis using 3 b dir lb k fit Cons.prems(4) by (simp add: read_write_u32)
    qed
    then show "row_off ?e j = (if j = k then word_of_nat ?o else row_off d j)" "row_len ?e j = row_len d j" by simp_all
  qed
  have above: "bslice ?e a m = bslice ?b a m" if "slot_off n \<le> a" for a m
    using that lb k fit Cons.prems(4) by (simp add: bslice_write_u32)
  have "\<exists>d'. place_live rows ?o ?e = Ok d' \<and> length d' = length ?e \<and> read_u16 d' 0 = read_u16 ?e 0 \<and>
    (\<forall>a m. ?o \<le> a \<longrightarrow> bslice d' a m = bslice ?e a m) \<and> (\<forall>j < n. row_len d' j = row_len ?e j) \<and>
    (\<forall>j < n. j \<notin> fst ` set rows \<longrightarrow> row_off d' j = row_off ?e j) \<and>
    (\<forall>r \<in> set rows. placed d' (?o - ?total) ?o r) \<and>
    (\<forall>(i, bs) \<in> set rows. \<forall>(j, cs) \<in> set rows. i \<noteq> j \<longrightarrow>
       off_nat d' i + length bs \<le> off_nat d' j \<or> off_nat d' j + length cs \<le> off_nat d' i)"
    by (rule Cons.IH) (use Cons.prems fit le in \<open>auto simp: r\<close>)
  then obtain d' where d0: "place_live rows ?o ?e = Ok d'" "length d' = length ?e" "read_u16 d' 0 = read_u16 ?e 0"
    "\<forall>a m. ?o \<le> a \<longrightarrow> bslice d' a m = bslice ?e a m" "\<forall>j < n. row_len d' j = row_len ?e j"
    "\<forall>j < n. j \<notin> fst ` set rows \<longrightarrow> row_off d' j = row_off ?e j"
    "\<forall>r \<in> set rows. placed d' (?o - ?total) ?o r"
    "\<forall>(i, bs) \<in> set rows. \<forall>(j, cs) \<in> set rows. i \<noteq> j \<longrightarrow>
       off_nat d' i + length bs \<le> off_nat d' j \<or> off_nat d' j + length cs \<le> off_nat d' i"
    by (elim exE conjE) (rule that)
  have d5: "row_len d' j = row_len d j" if "j < n" for j using d0(5) len that by simp
  have d8: "off_nat d' i + length bs \<le> off_nat d' j \<or> off_nat d' j + length cs \<le> off_nat d' i"
    if "(i, bs) \<in> set rows" "(j, cs) \<in> set rows" "i \<noteq> j" for i bs j cs
    using bspec [OF bspec [OF d0(8) [unfolded split_beta] that(1)] that(2)] that(3) by simp
  note d' = d0(1) d0(2) [unfolded le] d0(3) [unfolded u16] d0(4) [rule_format] d5 d0(6) [rule_format]
    d0(7) [rule_format] d8
  have kn: "k < n" "k \<notin> fst ` set rows" using Cons.prems(1,2) by (auto simp: r)
  have ok: "off_nat d' k = ?o"
  proof -
    have "unat (word_of_nat ?o :: u32) = ?o" using fit Cons.prems(4,5) by (simp only: unat_of_nat) simp
    then show ?thesis using d'(6) [OF kn] off [OF kn(1)] by simp
  qed
  have pk: "placed d' (?o - ?total) e (k, bs)"
    using d'(4) [of ?o "length bs"] above [of ?o "length bs"] fit Cons.prems(4) by (simp add: placed_def ok)
  have pr: "placed d' (?o - ?total) e q" if "q \<in> set rows" for q
    using d'(7) [OF that] fit by (auto simp: placed_def)
  have below: "off_nat d' j + length cs \<le> off_nat d' k" if "(j, cs) \<in> set rows" for j cs
    using d'(7) [OF that] ok by (simp add: placed_def)
  have "bslice d' a m = bslice d a m" if "e \<le> a" for a m
    using that d'(4) [of a m] above [of a m] fit Cons.prems(4) by (simp add: bslice_bwrite_other)
  moreover have "row_off d' j = row_off d j" if "j < n" "j \<notin> fst ` set (r # rows)" for j
    using that d'(6) [of j] off [of j] by (simp add: r)
  moreover have "place_live (r # rows) e d = Ok d'" using d'(1) fit by (simp add: r)
  ultimately show ?case using d'(2,3,5) pk pr below by (intro exI [of _ d']) (auto simp: r, meson d8)
qed simp

lemma live_rows_length:
  "sum_list (map (\<lambda>(i, bs). length bs) (List.map_filter (\<lambda>i. map_option (Pair i) (row_at d i)) is)) =
     sum_list (map (len_nat d) is)"
  if "\<forall>i \<in> set is. live_row d i \<longrightarrow> off_nat d i + len_nat d i \<le> length d"
  using that by (induction "is") (auto simp: List.map_filter_simps row_at_def word_neq_0_conv [symmetric])

lemma live_rows_mem:
  "(i, bs) \<in> set (List.map_filter (\<lambda>i. map_option (Pair i) (row_at d i)) is) \<longleftrightarrow> i \<in> set is \<and> row_at d i = Some bs"
  by (force simp: List.map_filter_def)

lemma distinct_live_rows:
  "distinct is \<Longrightarrow> distinct (map fst (List.map_filter (\<lambda>i. map_option (Pair i) (row_at d i)) is))"
proof (induction "is")
  case (Cons k ks)
  then show ?case using live_rows_mem [of _ _ d ks]
    by (auto simp: List.map_filter_simps split: option.split)
qed (simp add: List.map_filter_simps)

text \<open>
  Compaction of a well-formed page: no panic, the same rows in the same slots, and the
  rows packed against the end of the page.
\<close>

lemma compacted_data:
  assumes w: "wf_data d"
  shows "\<exists>rows d1 d2. collect_live [0..<cnt d] d = Ok (rows, d1) \<and> place_live rows (length d1) d1 = Ok d2 \<and>
    length d2 = length d \<and> cnt d2 = cnt d \<and> wf_data d2 \<and> (\<forall>i < cnt d. row_at d2 i = row_at d i) \<and>
    (\<forall>i < cnt d. len_nat d2 i = len_nat d i) \<and>
    (\<forall>i < cnt d. live_row d2 i \<longrightarrow> length d - live_total d \<le> off_nat d2 i)"
proof -
  let ?n = "cnt d" and ?rows = "List.map_filter (\<lambda>i. map_option (Pair i) (row_at d i)) [0..<cnt d]"
  have range: "slot_off ?n \<le> off_nat d i" "off_nat d i + len_nat d i \<le> length d" if "i < ?n" "live_row d i" for i
    using w that by (simp_all add: wf_data_def)
  have dir: "slot_off ?n \<le> length d" "length d < 2 ^ 32" using w by (simp_all add: wf_data_def)
  have slot: "slot_off i + 8 \<le> slot_off ?n" if "i < ?n" for i using that by (simp add: slot_off_simps)
  have "\<exists>d'. collect_live [0..<?n] d = Ok (?rows, d') \<and> length d' = length d \<and> read_u16 d' 0 = read_u16 d 0 \<and>
      (\<forall>j. row_len d' j = row_len d j) \<and> (\<forall>j. live_row d j \<or> j \<notin> set [0..<?n] \<longrightarrow> row_off d' j = row_off d j)"
  proof (rule collect_live_ok)
    show "\<forall>i \<in> set [0..<?n]. slot_off i + 8 \<le> length d" using order_trans [OF slot dir(1)] by simp
    show "\<forall>i \<in> set [0..<?n]. \<forall>j \<in> set [0..<?n]. live_row d i \<longrightarrow> slot_off j + 8 \<le> off_nat d i"
      using order_trans [OF slot range(1)] by simp
  qed (use range in auto)
  then obtain d1 where d1: "collect_live [0..<?n] d = Ok (?rows, d1)" "length d1 = length d"
    "read_u16 d1 0 = read_u16 d 0" "\<And>j. row_len d1 j = row_len d j" by blast
  have total: "sum_list (map (\<lambda>(i, bs). length bs) ?rows) = live_total d"
    using range by (subst live_rows_length) (auto simp: live_total_def)
  have room: "live_total d \<le> length d - slot_off ?n"
    using live_total_le [of "\<lparr>pg_id = 0, pg_data = d\<rparr>"] free_end_props(2) [of "\<lparr>pg_id = 0, pg_data = d\<rparr>"] w by simp
  have "\<exists>d'. place_live ?rows (length d1) d1 = Ok d' \<and> length d' = length d1 \<and> read_u16 d' 0 = read_u16 d1 0 \<and>
    (\<forall>a m. length d1 \<le> a \<longrightarrow> bslice d' a m = bslice d1 a m) \<and> (\<forall>j < ?n. row_len d' j = row_len d1 j) \<and>
    (\<forall>j < ?n. j \<notin> fst ` set ?rows \<longrightarrow> row_off d' j = row_off d1 j) \<and>
    (\<forall>r \<in> set ?rows. placed d' (length d1 - sum_list (map (\<lambda>(i, bs). length bs) ?rows)) (length d1) r) \<and>
    (\<forall>(i, bs) \<in> set ?rows. \<forall>(j, cs) \<in> set ?rows. i \<noteq> j \<longrightarrow>
       off_nat d' i + length bs \<le> off_nat d' j \<or> off_nat d' j + length cs \<le> off_nat d' i)"
    by (rule place_live_ok) (use distinct_live_rows total room dir d1(2) in \<open>auto simp: live_rows_mem\<close>)
  then obtain d2 where d2: "place_live ?rows (length d1) d1 = Ok d2" "length d2 = length d" "read_u16 d2 0 = read_u16 d 0"
    "\<forall>j < ?n. row_len d2 j = row_len d j"
    "\<forall>r \<in> set ?rows. placed d2 (length d - live_total d) (length d) r"
    "\<forall>(i, bs) \<in> set ?rows. \<forall>(j, cs) \<in> set ?rows. i \<noteq> j \<longrightarrow>
       off_nat d2 i + length bs \<le> off_nat d2 j \<or> off_nat d2 j + length cs \<le> off_nat d2 i"
    unfolding total d1(2,3) d1(4) by blast
  have mem: "(i, bslice d (off_nat d i) (len_nat d i)) \<in> set ?rows" "length (bslice d (off_nat d i) (len_nat d i)) = len_nat d i"
    if "i < ?n" "live_row d i" for i
    using that range [OF that] live_rows_mem [of i _ d "[0..<?n]"] by (simp add: row_at_def, simp)
  have pl: "length d - live_total d \<le> off_nat d2 i" "off_nat d2 i + len_nat d i \<le> length d"
      "bslice d2 (off_nat d2 i) (len_nat d i) = bslice d (off_nat d i) (len_nat d i)"
    if "i < ?n" "live_row d i" for i
    using bspec [OF d2(5) mem(1) [OF that]] mem(2) [OF that] by (simp_all add: placed_def)
  have ap: "apart d2 i j" if "i < ?n" "j < ?n" "i \<noteq> j" "live_row d i" "live_row d j" for i j
    using bspec [OF bspec [OF d2(6) [unfolded split_beta] mem(1) [OF that(1,4)]] mem(1) [OF that(2,5)]]
      mem(2) [OF that(1,4)] mem(2) [OF that(2,5)] that d2(4) by (simp add: apart_def)
  have c2: "cnt d2 = ?n" by (simp add: d2(3))
  have "wf_data d2"
    unfolding wf_data_def c2 d2(2)
    using w d2(4) pl(1,2) room ap dir by (auto simp: wf_data_def) (metis diff_diff_cancel diff_le_mono2 order_trans)
  moreover have "row_at d2 i = row_at d i" if "i < ?n" for i
    using that pl(3) d2(4) by (simp add: row_at_def)
  ultimately show ?thesis
    using d1(1) d2(1,2,4) c2 pl(1) by (intro exI [of _ ?rows] exI [of _ d1] exI [of _ d2]) simp
qed

lemma compact_page_wf:
  assumes wf: "heap_wf p"
  shows "\<exists>q n. compact_page p = Ok (n, q) \<and> dead_bytes p = Ok n \<and> heap_wf q \<and> pg_id q = pg_id p \<and>
    length (pg_data q) = length (pg_data p) \<and> rows_of q = rows_of p \<and> dead_bytes q = Ok 0 \<and>
    free_start q = free_start p \<and> free_end q = free_end p + n"
proof -
  let ?d = "pg_data p"
  have w: "wf_data ?d" using wf by (simp add: heap_wf_def)
  note dead = dead_bytes_eq [OF wf] and le = live_total_le [OF w] and fe = free_end_props [OF w]
  show ?thesis
  proof (cases "length ?d - free_end p - live_total ?d = 0")
    case True
    then show ?thesis using dead wf by (simp add: compact_page_def)
  next
    case False
    from compacted_data [OF w] obtain rows d1 d2 where
      d: "collect_live [0..<cnt ?d] ?d = Ok (rows, d1)" "place_live rows (length d1) d1 = Ok d2"
        "length d2 = length ?d" "cnt d2 = cnt ?d" "wf_data d2" "\<forall>i < cnt ?d. row_at d2 i = row_at ?d i"
        "\<forall>i < cnt ?d. len_nat d2 i = len_nat ?d i"
        "\<forall>i < cnt ?d. live_row d2 i \<longrightarrow> length ?d - live_total ?d \<le> off_nat d2 i" by blast
    let ?q = "p\<lparr>pg_data := d2\<rparr>"
    have wq: "heap_wf ?q" using d(5) by (simp add: heap_wf_def)
    have tot: "live_total d2 = live_total ?d" unfolding live_total_def d(4) using d(7) by (intro arg_cong [of _ _ sum_list] map_cong) auto
    have "length ?d - live_total ?d \<le> free_end ?q"
    proof -
      let ?f = "foldl (min_off d2) (word_of_nat (length d2)) [0..<cnt d2]"
      have "unat (word_of_nat (length d2) :: u32) = length d2"
        using d(5) by (simp add: unat_of_nat wf_data_def)
      then have "length ?d - live_total ?d \<le> unat ?f"
        using free_end_fold(3) [of d2 "word_of_nat (length d2)" "[0..<cnt d2]"] d(3,4,8) by auto
      then show ?thesis by (simp add: free_end_def slot_count_def)
    qed
    moreover have "live_total ?d \<le> length ?d - free_end ?q"
      using live_total_le [of ?q] d(3,5) tot by simp
    moreover have "free_end ?q \<le> length ?d" using free_end_props(1) [of ?q] d(3,5) by simp
    ultimately have "free_end ?q = length ?d - live_total ?d" using le fe(1) by linarith
    then have "free_end ?q = free_end p + (length ?d - free_end p - live_total ?d)"
      "length d2 - free_end ?q - live_total d2 = 0" using le fe(1) d(3) tot by simp_all
    moreover have "rows_of ?q = rows_of p" using d(4,6) by (simp add: rows_of_def)
    moreover have "compact_page p = Ok (length ?d - free_end p - live_total ?d, ?q)"
      using dead False d(1,2) by (simp add: compact_page_def slot_count_def)
    ultimately show ?thesis
      using dead wq d(3,4) dead_bytes_eq [OF wq] by (simp add: free_start_slot_off)
  qed
qed

section \<open>Properties of heap pages\<close>

text \<open>
  Property (C10).  Inserting a row into a well-formed page of a supported size never panics.
  Either the row gets the next slot number, every earlier slot keeps its row and reading the
  new slot returns the row; or the free space is too small and the page is unchanged.
\<close>

theorem insert_tuple_refines:
  assumes wf: "heap_wf p" and small: "length (pg_data p) \<le> 65536" and ne: "tuple \<noteq> []"
  shows "(\<exists>q. insert_tuple tuple p = Ok (Some (slot_count p), q) \<and> heap_wf q \<and> pg_id q = pg_id p \<and>
           length (pg_data q) = length (pg_data p) \<and> rows_of q = rows_of p @ [Some tuple] \<and>
           tuple_bytes q (slot_count p) = Ok (Some tuple)) \<or>
         (insert_tuple tuple p = Ok (None, p) \<and> free_end p < free_start p + SLOT_SIZE + length tuple)"
proof (cases "free_start p + SLOT_SIZE + length tuple \<le> free_end p")
  case True
  have "length (pg_data p) \<le> 524290" using small by simp
  from insert_tuple_wf [OF wf this ne True] obtain q where
    q: "insert_tuple tuple p = Ok (Some (slot_count p), q)" "heap_wf q" "pg_id q = pg_id p"
      "length (pg_data q) = length (pg_data p)" "rows_of q = rows_of p @ [Some tuple]" by blast
  have "length (rows_of q) = Suc (unat (slot_count p))" by (simp add: q(5))
  then have "slot_count p < slot_count q" by (simp add: word_less_nat_alt)
  then have "tuple_bytes q (slot_count p) = Ok (Some tuple)"
    using tuple_bytes_rows [OF q(2), of "slot_count p"] q(5) by (simp add: nth_append)
  with q show ?thesis by blast
qed (use insert_tuple_full [OF wf] in auto)

text \<open>A page with two rows, the first one deleted.\<close>

definition sample_heap :: page where
  "sample_heap = \<lparr>pg_id = 3, pg_data =
     [2, 0,  30, 0, 0, 0, 0, 0, 0, 0,  26, 0, 0, 0, 4, 0, 0, 0] @ replicate 8 0 @ [1, 2, 3, 4, 9, 9]\<rparr>"

lemma sample_heap_wf: "heap_wf sample_heap"
proof -
  have d: "read_u16 (pg_data sample_heap) 0 = 2" "row_off (pg_data sample_heap) 0 = 30" "row_len (pg_data sample_heap) 0 = 0"
    "row_off (pg_data sample_heap) 1 = 26" "row_len (pg_data sample_heap) 1 = 4" "length (pg_data sample_heap) = 32"
    by (simp_all add: sample_heap_def read_u16_def read_u32_def le_u16_def le_u32_def bslice_def slot_off_simps)
  have two: "i < 2 \<longleftrightarrow> i = 0 \<or> i = 1" for i :: nat by auto
  show ?thesis
    unfolding heap_wf_def wf_data_def using d by (auto simp: two slot_off_simps)
qed

theorem insert_tuple_refines_witness:
  "(\<exists>q. insert_tuple [7, 7] sample_heap = Ok (Some (slot_count sample_heap), q) \<and> heap_wf q \<and> pg_id q = pg_id sample_heap \<and>
       length (pg_data q) = length (pg_data sample_heap) \<and> rows_of q = rows_of sample_heap @ [Some [7, 7]] \<and>
       tuple_bytes q (slot_count sample_heap) = Ok (Some [7, 7])) \<or>
     (insert_tuple [7, 7] sample_heap = Ok (None, sample_heap) \<and>
       free_end sample_heap < free_start sample_heap + SLOT_SIZE + length ([7, 7] :: bytes))"
  by (rule insert_tuple_refines [OF sample_heap_wf]) (simp_all add: sample_heap_def)

text \<open>
  Property (C11).  Deleting a slot of a well-formed page empties that slot and no other, and
  reports whether the slot held a row; it never panics.
\<close>

theorem delete_tuple_refines:
  assumes "heap_wf p"
  shows "\<exists>q. delete_tuple slot p = Ok (slot < slot_count p \<and> rows_of p ! unat slot \<noteq> None, q) \<and> heap_wf q \<and>
    pg_id q = pg_id p \<and> length (pg_data q) = length (pg_data p) \<and> rows_of q = (rows_of p)[unat slot := None]"
proof (cases "slot < slot_count p")
  case True
  then show ?thesis using delete_tuple_wf [OF assms True] by simp
next
  case False
  then have "length (rows_of p) \<le> unat slot" by (simp add: word_le_nat_alt not_less)
  then have "(rows_of p)[unat slot := None] = rows_of p" by (rule list_update_beyond)
  moreover have "delete_tuple slot p = Ok (False, p)"
    using False assms by (simp add: delete_tuple_def heap_wf_def wf_data_def HEADER_SIZE_def not_less)
  ultimately show ?thesis using False assms by simp
qed

theorem delete_tuple_refines_witness:
  "\<exists>q. delete_tuple 1 sample_heap = Ok (1 < slot_count sample_heap \<and> rows_of sample_heap ! unat (1 :: u16) \<noteq> None, q) \<and>
    heap_wf q \<and> pg_id q = pg_id sample_heap \<and> length (pg_data q) = length (pg_data sample_heap) \<and>
    rows_of q = (rows_of sample_heap)[unat (1 :: u16) := None]"
  by (rule delete_tuple_refines [OF sample_heap_wf])

text \<open>
  Property (C12).  Compacting a well-formed page never panics, keeps every row in its slot,
  reclaims exactly the dead bytes it reports, adds them to the free space and leaves no dead
  byte behind.
\<close>

theorem compact_page_refines:
  assumes "heap_wf p"
  shows "\<exists>q n. compact_page p = Ok (n, q) \<and> dead_bytes p = Ok n \<and> heap_wf q \<and> pg_id q = pg_id p \<and>
    length (pg_data q) = length (pg_data p) \<and> rows_of q = rows_of p \<and> dead_bytes q = Ok 0 \<and>
    free_start q = free_start p \<and> free_end q = free_end p + n"
  by (rule compact_page_wf [OF assms])

theorem compact_page_refines_witness:
  "\<exists>q n. compact_page sample_heap = Ok (n, q) \<and> dead_bytes sample_heap = Ok n \<and> heap_wf q \<and> pg_id q = pg_id sample_heap \<and>
    length (pg_data q) = length (pg_data sample_heap) \<and> rows_of q = rows_of sample_heap \<and> dead_bytes q = Ok 0 \<and>
    free_start q = free_start sample_heap \<and> free_end q = free_end sample_heap + n"
  by (rule compact_page_refines [OF sample_heap_wf])

text \<open>
  Property (C19).  The index key of an integer column sorts, byte by byte, exactly as the
  signed integers do, so an index range scan over keys is a range scan over values.
\<close>

theorem key_of_order: "key_of v < key_of w \<longleftrightarrow> sint v < sint w"
proof -
  have "key_of v < key_of w \<longleftrightarrow> uint (v XOR push_bit 63 1 :: u64) < uint (w XOR push_bit 63 1 :: u64)"
    unfolding key_of_def u64_be_less by (simp add: word_less_def)
  then show ?thesis by (simp only: sign_flip) simp
qed

text \<open>
  A row position survives packing into an index value whenever its page number
  has at most 48 bits, which any file within the address range of page offsets satisfies for
  pages of at least 64 KiB and any realistic file for smaller ones.
\<close>

theorem position_round_trip:
  assumes "page < 2 ^ 48"
  shows "unpack_position (pack_position page slot) = (page, slot)"
  by (rule unpack_pack_position [OF assms])

theorem position_round_trip_witness: "unpack_position (pack_position 5 7) = (5, 7)"
  by (rule position_round_trip) (simp add: word_less_nat_alt)

end
