(* ===== verification/Btree.thy ===== *)
theory Btree
  imports Heap_Page
begin

text \<open>
  The disk B+ tree of \<open>btree.rs\<close>: variable-length byte keys, duplicates allowed, leaves
  chained for range scans, one node per page of a page file.  The node codec, the file
  header, node splitting and the tree operations are modelled on the page file of
  \<open>Page_File\<close>.  Recursion down the tree and the walks along the leaf chain carry a fuel
  argument, since a damaged file may contain a cycle; running out of it stands for the stack
  overflow or the endless loop of the code and is the outcome \<open>Panic\<close>.
\<close>

section \<open>Layout\<close>

definition META_PAGE :: page_id where "META_PAGE = 0"

text \<open>\<open>b"CBK2"\<close>\<close>

definition META_MAGIC :: bytes where "META_MAGIC = [0x43, 0x42, 0x4B, 0x32]"
definition OFF_PAGE_SIZE :: nat where "OFF_PAGE_SIZE = 4"
definition OFF_MAX_KEY :: nat where "OFF_MAX_KEY = 8"
definition OFF_ROOT :: nat where "OFF_ROOT = 10"
definition OFF_ORDER :: nat where "OFF_ORDER = 18"
definition NODE_LEAF :: u8 where "NODE_LEAF = 0"
definition NODE_INTERNAL :: u8 where "NODE_INTERNAL = 1"
definition OFF_KIND :: nat where "OFF_KIND = 0"
definition OFF_COUNT :: nat where "OFF_COUNT = 1"
definition OFF_NEXT :: nat where "OFF_NEXT = 3"
definition NODE_HEADER :: nat where "NODE_HEADER = 11"
definition SLOT :: nat where "SLOT = 2"
definition CELL_FIXED :: nat where "CELL_FIXED = 10"
definition MAX_KEY_BYTES :: nat where "MAX_KEY_BYTES = 128"
definition LEGACY_KEY_BYTES :: nat where "LEGACY_KEY_BYTES = 64"

lemmas layout_defs = META_PAGE_def META_MAGIC_def OFF_PAGE_SIZE_def OFF_MAX_KEY_def OFF_ROOT_def OFF_ORDER_def
  NODE_LEAF_def NODE_INTERNAL_def OFF_KIND_def OFF_COUNT_def OFF_NEXT_def NODE_HEADER_def SLOT_def
  CELL_FIXED_def MAX_KEY_BYTES_def LEGACY_KEY_BYTES_def

text \<open>
  The arithmetic of \<open>usize\<close> is that of the release build, which does not check overflow: it is
  modulo \<open>2 ^ 64\<close>.  \<open>max_keys\<close> is exact for every order but 0, and every caller has checked
  \<open>order >= 2\<close>; the product in \<open>fits_in_page\<close> wraps around for an order above \<open>2 ^ 57\<close>.  The other
  functions only divide and subtract with saturation.
\<close>

definition usize :: "nat \<Rightarrow> nat" where "usize n = n mod 2 ^ 64"

definition max_keys :: "nat \<Rightarrow> nat" where "max_keys order = order - 1"
definition max_cell_bytes :: nat where "max_cell_bytes = CELL_FIXED + LEGACY_KEY_BYTES"

definition fits_in_page :: "nat \<Rightarrow> nat \<Rightarrow> bool" where
  "fits_in_page page_size order \<longleftrightarrow>
     2 \<le> order \<and> usize (NODE_HEADER + usize (max_keys order * (SLOT + max_cell_bytes))) \<le> page_size"

definition max_order :: "nat \<Rightarrow> nat" where
  "max_order page_size = (page_size - NODE_HEADER) div (SLOT + max_cell_bytes) + 1"

definition key_limit :: "nat \<Rightarrow> nat \<Rightarrow> nat" where
  "key_limit page_size order =
     (if order < 2 then 0
      else min ((page_size - NODE_HEADER) div (order - 1) - (SLOT + CELL_FIXED)) MAX_KEY_BYTES)"

definition read_u64 :: "bytes \<Rightarrow> nat \<Rightarrow> u64" where "read_u64 d off = le_u64 (bslice d off 8)"
definition write_u64 :: "bytes \<Rightarrow> nat \<Rightarrow> u64 \<Rightarrow> bytes" where "write_u64 d off v = bwrite d off (u64_le v)"

section \<open>File header\<close>

text \<open>A page shorter than the header panics in both functions; \<open>OFF_ORDER + 2\<close> bytes are used.\<close>

definition write_meta :: "nat \<Rightarrow> nat \<Rightarrow> page_id \<Rightarrow> page \<Rightarrow> page outcome" where
  "write_meta page_size order root p =
     (if length (pg_data p) < OFF_ORDER + 2 then Panic
      else (let d0 = pg_data (zero_page p);
                d1 = bwrite d0 0 META_MAGIC;
                d2 = write_u32 d1 OFF_PAGE_SIZE (word_of_nat page_size);
                d3 = write_u16 d2 OFF_MAX_KEY (word_of_nat (key_limit page_size order));
                d4 = write_u64 d3 OFF_ROOT root;
                d5 = write_u16 d4 OFF_ORDER (word_of_nat order)
            in Ok (p\<lparr>pg_data := d5\<rparr>)))"

definition check_meta :: "page \<Rightarrow> nat \<Rightarrow> nat \<Rightarrow> unit outcome" where
  "check_meta p page_size order = (let d = pg_data p in
     if length d < 4 then Panic
     else if bslice d 0 4 \<noteq> META_MAGIC
       then Err (IoError InvalidData ''not a chusql index file (bad magic)'')
     else if length d < OFF_ORDER + 2 then Panic
     else (let stored_page = unat (read_u32 d OFF_PAGE_SIZE); stored_order = unat (read_u16 d OFF_ORDER) in
       if stored_page \<noteq> page_size \<or> stored_order \<noteq> order
       then Err (IoError InvalidData (''index file was built with page.size='' @ dec_digits stored_page @
              '' btree.order='' @ dec_digits stored_order @ '', config says page.size='' @
              dec_digits page_size @ '' btree.order='' @ dec_digits order))
       else (let stored_key = unat (read_u16 d OFF_MAX_KEY) in
         if stored_key < LEGACY_KEY_BYTES \<or> key_limit page_size order < stored_key
         then Err (IoError InvalidData ''unsupported index key limit'')
         else Ok ())))"

section \<open>Nodes\<close>

record node =
  nd_kind :: u8
  nd_next :: page_id
  nd_keys :: "bytes list"
  nd_values :: "u64 list"

definition cell_bytes :: "bytes \<Rightarrow> nat" where "cell_bytes key = CELL_FIXED + length key"

definition node_bytes :: "node \<Rightarrow> nat" where
  "node_bytes nd = NODE_HEADER + length (nd_keys nd) * SLOT + sum_list (map cell_bytes (nd_keys nd))"

text \<open>The loop of \<open>put_node\<close>; \<open>node.values[i]\<close> panics when there are too few values.\<close>

fun put_cells :: "nat \<Rightarrow> nat \<Rightarrow> bytes list \<Rightarrow> u64 list \<Rightarrow> bytes \<Rightarrow> bytes outcome" where
  "put_cells i cursor [] vs d = Ok d"
| "put_cells i cursor (key # keys) [] d = Panic"
| "put_cells i cursor (key # keys) (v # vs) d =
     (if cursor < cell_bytes key then Panic
      else (let cur = cursor - cell_bytes key;
                d1 = write_u16 d cur (word_of_nat (length key));
                d2 = bwrite d1 (cur + 2) key;
                d3 = write_u64 d2 (cur + 2 + length key) v;
                d4 = write_u16 d3 (NODE_HEADER + i * SLOT) (word_of_nat cur)
            in put_cells (Suc i) cur keys vs d4))"

definition put_node :: "node \<Rightarrow> page \<Rightarrow> unit outcome \<times> page" where
  "put_node nd p =
     (if 65535 < length (nd_keys nd) \<or> length (pg_data p) < node_bytes nd
      then (Err (IoError InvalidInput ''index node does not fit in a page''), p)
      else (let d0 = pg_data (zero_page p);
                d1 = bwrite d0 OFF_KIND [nd_kind nd];
                d2 = write_u16 d1 OFF_COUNT (word_of_nat (length (nd_keys nd)));
                trailer = (if nd_kind nd = NODE_INTERNAL
                           then (if nd_values nd = [] then 0 else last (nd_values nd))
                           else nd_next nd);
                d3 = write_u64 d2 OFF_NEXT trailer
            in case put_cells 0 (length d3) (nd_keys nd) (nd_values nd) d3 of
                 Ok d4 \<Rightarrow> (Ok (), p\<lparr>pg_data := d4\<rparr>)
               | Err e \<Rightarrow> (Err e, p)
               | Panic \<Rightarrow> (Panic, p)))"

text \<open>The loop of \<open>get_node\<close> over the slot numbers.\<close>

fun get_cells :: "bytes \<Rightarrow> nat \<Rightarrow> nat list \<Rightarrow> nat \<Rightarrow> (bytes \<times> u64) list outcome" where
  "get_cells d slots_end [] cell_end = Ok []"
| "get_cells d slots_end (i # is) cell_end =
     (let off = unat (read_u16 d (NODE_HEADER + i * SLOT)) in
      if off < slots_end \<or> length d < off + CELL_FIXED
      then Err (IoError InvalidData ''invalid index cell offset'')
      else (let klen = unat (read_u16 d off) in
        if MAX_KEY_BYTES < klen \<or> length d < off + CELL_FIXED + klen
        then Err (IoError InvalidData ''invalid index key length'')
        else if cell_end < off + CELL_FIXED + klen
        then Err (IoError InvalidData ''overlapping index cells'')
        else (case get_cells d slots_end is off of
            Ok cells \<Rightarrow> Ok ((bslice d (off + 2) klen, read_u64 d (off + 2 + klen)) # cells)
          | r \<Rightarrow> r)))"

text \<open>\<open>keys.windows(2).any(|pair| pair[0] > pair[1])\<close>\<close>

fun unsorted_pair :: "'a::linorder list \<Rightarrow> bool" where
  "unsorted_pair (x # y # xs) = (y < x \<or> unsorted_pair (y # xs))"
| "unsorted_pair xs = False"

definition get_node :: "page \<Rightarrow> node outcome" where
  "get_node p = (let d = pg_data p in
     if length d < NODE_HEADER then Err (IoError InvalidData ''truncated index node header'')
     else (let kind = d ! OFF_KIND; count = unat (read_u16 d OFF_COUNT);
               slots_end = NODE_HEADER + count * SLOT in
       if kind \<noteq> NODE_LEAF \<and> kind \<noteq> NODE_INTERNAL \<or> length d < slots_end
       then Err (IoError InvalidData ''invalid index node kind or slot count'')
       else (let trailer = read_u64 d OFF_NEXT in
         case get_cells d slots_end [0..<count] (length d) of
           Ok cells \<Rightarrow> (let keys = map fst cells; values = map snd cells in
             if unsorted_pair keys then Err (IoError InvalidData ''index keys are not sorted'')
             else if kind = NODE_INTERNAL then
               (if META_PAGE \<in> set (values @ [trailer])
                then Err (IoError InvalidData ''invalid index child page'')
                else Ok \<lparr>nd_kind = kind, nd_next = 0, nd_keys = keys, nd_values = values @ [trailer]\<rparr>)
             else Ok \<lparr>nd_kind = kind, nd_next = trailer, nd_keys = keys, nd_values = values\<rparr>)
         | Err e \<Rightarrow> Err e
         | Panic \<Rightarrow> Panic)))"

text \<open>\<open>partition_point\<close> on a list partitioned by the predicate.\<close>

definition partition_point :: "('a \<Rightarrow> bool) \<Rightarrow> 'a list \<Rightarrow> nat" where
  "partition_point f xs = length (takeWhile f xs)"

fun skip_smaller :: "(bytes \<times> u64) list \<Rightarrow> bytes \<Rightarrow> u64 \<Rightarrow> nat" where
  "skip_smaller [] key value = 0"
| "skip_smaller ((k, v) # cells) key value =
     (if k = key \<and> v < value then Suc (skip_smaller cells key value) else 0)"

definition leaf_slot :: "bytes list \<Rightarrow> u64 list \<Rightarrow> bytes \<Rightarrow> u64 \<Rightarrow> nat" where
  "leaf_slot keys values key value = (let i = partition_point (\<lambda>k. k < key) keys in
     i + skip_smaller (drop i (zip keys values)) key value)"

definition child_slot :: "bytes list \<Rightarrow> bytes \<Rightarrow> nat" where
  "child_slot keys key = partition_point (\<lambda>k. k \<le> key) keys"

text \<open>\<open>Vec::insert\<close> and \<open>Vec::remove\<close> within range.\<close>

definition vec_insert :: "nat \<Rightarrow> 'a \<Rightarrow> 'a list \<Rightarrow> 'a list" where
  "vec_insert i x xs = take i xs @ x # drop i xs"

definition vec_remove :: "nat \<Rightarrow> 'a list \<Rightarrow> 'a list" where
  "vec_remove i xs = take i xs @ drop (Suc i) xs"

text \<open>\<open>split_node\<close>: the left half, the key to move up and the right half.\<close>

definition split_node :: "node \<Rightarrow> node \<times> bytes \<times> node" where
  "split_node nd = (let mid = length (nd_keys nd) div 2; sep = nd_keys nd ! mid in
     if nd_kind nd = NODE_LEAF
     then (nd\<lparr>nd_keys := take mid (nd_keys nd), nd_values := take mid (nd_values nd)\<rparr>, sep,
           \<lparr>nd_kind = NODE_LEAF, nd_next = nd_next nd, nd_keys = drop mid (nd_keys nd),
            nd_values = drop mid (nd_values nd)\<rparr>)
     else (nd\<lparr>nd_keys := take mid (nd_keys nd), nd_values := take (mid + 1) (nd_values nd)\<rparr>, sep,
           \<lparr>nd_kind = NODE_INTERNAL, nd_next = 0, nd_keys = drop (mid + 1) (nd_keys nd),
            nd_values = drop (mid + 1) (nd_values nd)\<rparr>))"

section \<open>The tree in its page file\<close>

text \<open>
  \<open>DiskBTree\<close> is a page file and the order; the order never changes, so it is an argument.
  A closure that returns a result is run by \<open>with_page\<close> or \<open>update_page\<close> and its result
  is then examined (the second question mark of the code).
\<close>

definition check_key :: "bytes \<Rightarrow> nat \<Rightarrow> nat \<Rightarrow> unit outcome" where
  "check_key key page_size order = (let limit = key_limit page_size order in
     if limit < length key
     then Err (IoError InvalidInput (''index key is '' @ dec_digits (length key) @ '' bytes, at most '' @
            dec_digits limit @ '' are supported''))
     else Ok ())"

definition validate_key :: "nat \<Rightarrow> bytes \<Rightarrow> (page_file, unit) cmd" where
  "validate_key order key = bindM (getM pf_page_size) (\<lambda>psz. liftM (check_key key psz order))"

definition open_btree :: "pages_state codec \<Rightarrow> nat \<Rightarrow> nat \<Rightarrow> nat \<Rightarrow> (page_file, unit) cmd" where
  "open_btree c page_size order pool_size =
     (if \<not> fits_in_page page_size order
      then errM (IoError InvalidInput (''btree order '' @ dec_digits order @ '' does not fit in a '' @
             dec_digits page_size @ ''-byte page (max '' @ dec_digits (max_order page_size) @ '')''))
      else seqM (with_options c page_size pool_size)
          (bindM num_pages (\<lambda>n.
             if n = 0
             then bindM (liftM (write_meta page_size order 0 (new_page META_PAGE page_size))) write_page
             else bindM (read_page META_PAGE) (\<lambda>meta. liftM (check_meta meta page_size order)))))"

definition root :: "(page_file, page_id option) cmd" where
  "root = bindM (with_page META_PAGE (\<lambda>p. read_u64 (pg_data p) OFF_ROOT)) (\<lambda>r.
     okM (if r = 0 then None else Some r))"

definition set_root :: "page_id option \<Rightarrow> (page_file, unit) cmd" where
  "set_root r = update_page META_PAGE (\<lambda>p.
     ((), p\<lparr>pg_data := write_u64 (pg_data p) OFF_ROOT (case r of None \<Rightarrow> 0 | Some i \<Rightarrow> i)\<rparr>))"

definition load :: "page_id \<Rightarrow> (page_file, node) cmd" where
  "load i = bindM (with_page i get_node) liftM"

definition store :: "page_id \<Rightarrow> node \<Rightarrow> (page_file, unit) cmd" where
  "store i nd = bindM (update_page i (put_node nd)) liftM"

definition alloc :: "node \<Rightarrow> (page_file, page_id) cmd" where
  "alloc nd = bindM append_page (\<lambda>p.
     seqM (bindM (update_page (pg_id p) (put_node nd)) liftM) (okM (pg_id p)))"

definition clear :: "nat \<Rightarrow> (page_file, unit) cmd" where
  "clear order = bindM (getM pf_page_size) (\<lambda>psz. seqM truncate_file
     (bindM (liftM (write_meta psz order 0 (new_page META_PAGE psz))) write_page))"

text \<open>\<open>xs[i]\<close>\<close>

definition index_of :: "'a list \<Rightarrow> nat \<Rightarrow> ('s, 'a) cmd" where
  "index_of xs i = (if i < length xs then okM (xs ! i) else panicM)"

fun leftmost_empty :: "nat \<Rightarrow> page_id \<Rightarrow> (page_file, bool) cmd" where
  "leftmost_empty 0 i = panicM"
| "leftmost_empty (Suc n) i = bindM (load i) (\<lambda>nd.
     if nd_kind nd = NODE_LEAF then okM (nd_keys nd = [])
     else bindM (index_of (nd_values nd) 0) (leftmost_empty n))"

definition is_empty :: "nat \<Rightarrow> (page_file, bool) cmd" where
  "is_empty fuel = bindM root (\<lambda>r. case r of None \<Rightarrow> okM True | Some i \<Rightarrow> leftmost_empty fuel i)"

text \<open>The descent of \<open>scan\<close> to the leaf where it starts, and the walk along the leaf chain.\<close>

fun find_leaf :: "nat \<Rightarrow> bytes option \<Rightarrow> page_id \<Rightarrow> (page_file, page_id) cmd" where
  "find_leaf 0 lo i = panicM"
| "find_leaf (Suc n) lo i = bindM (load i) (\<lambda>nd.
     if nd_kind nd = NODE_LEAF
     then okM (case lo of None \<Rightarrow> i
          | Some start \<Rightarrow> if partition_point (\<lambda>k. k < start) (nd_keys nd) < length (nd_keys nd)
                          then i else nd_next nd)
     else bindM (index_of (nd_values nd) (case lo of None \<Rightarrow> 0
                  | Some start \<Rightarrow> partition_point (\<lambda>k. k < start) (nd_keys nd))) (find_leaf n lo))"

text \<open>The cells of one leaf: what is pushed, and whether the upper bound ended the scan.\<close>

fun take_range :: "bytes option \<Rightarrow> bytes option \<Rightarrow> (bytes \<times> u64) list \<Rightarrow> (bytes \<times> u64) list \<times> bool" where
  "take_range lo hi [] = ([], False)"
| "take_range lo hi ((k, v) # cells) =
     (if (case lo of None \<Rightarrow> False | Some start \<Rightarrow> k < start) then take_range lo hi cells
      else if (case hi of None \<Rightarrow> False | Some end \<Rightarrow> end < k) then ([], True)
      else (case take_range lo hi cells of (out, stop) \<Rightarrow> ((k, v) # out, stop)))"

fun walk_leaves :: "nat \<Rightarrow> bytes option \<Rightarrow> bytes option \<Rightarrow> page_id \<Rightarrow> (page_file, (bytes \<times> u64) list) cmd" where
  "walk_leaves 0 lo hi i = panicM"
| "walk_leaves (Suc n) lo hi i =
     (if i = 0 then okM []
      else bindM (load i) (\<lambda>nd.
        if length (nd_values nd) < length (nd_keys nd) then panicM
        else (case take_range lo hi (zip (nd_keys nd) (nd_values nd)) of (out, stop) \<Rightarrow>
          if stop then okM out
          else bindM (walk_leaves n lo hi (nd_next nd)) (\<lambda>rest. okM (out @ rest)))))"

definition scan_tree :: "nat \<Rightarrow> bytes option \<Rightarrow> bytes option \<Rightarrow> (page_file, (bytes \<times> u64) list) cmd" where
  "scan_tree fuel lo hi = bindM root (\<lambda>r. case r of
       None \<Rightarrow> okM []
     | Some i \<Rightarrow> bindM (find_leaf fuel lo i) (walk_leaves fuel lo hi))"

definition get_all :: "nat \<Rightarrow> bytes \<Rightarrow> (page_file, u64 list) cmd" where
  "get_all fuel key = bindM (scan_tree fuel (Some key) (Some key)) (\<lambda>cells. okM (sort (map snd cells)))"

definition get_first :: "nat \<Rightarrow> bytes \<Rightarrow> (page_file, u64 option) cmd" where
  "get_first fuel key = bindM (get_all fuel key) (\<lambda>vs. okM (case vs of [] \<Rightarrow> None | v # _ \<Rightarrow> Some v))"

definition iter_all :: "nat \<Rightarrow> (page_file, (bytes \<times> u64) list) cmd" where
  "iter_all fuel = scan_tree fuel None None"

text \<open>
  \<open>insert_rec\<close>: \<open>finish_insert\<close> is its second half, from the overflow test on.
\<close>

definition finish_insert :: "nat \<Rightarrow> page_id \<Rightarrow> node \<Rightarrow> (page_file, (bytes \<times> page_id) option) cmd" where
  "finish_insert order i nd =
     (if length (nd_keys nd) \<le> max_keys order then seqM (store i nd) (okM None)
      else (case split_node nd of (left, sep, right) \<Rightarrow>
        bindM (alloc right) (\<lambda>right_id.
        seqM (store i (if nd_kind left = NODE_LEAF then left\<lparr>nd_next := right_id\<rparr> else left))
             (okM (Some (sep, right_id))))))"

fun insert_rec :: "nat \<Rightarrow> nat \<Rightarrow> page_id \<Rightarrow> bytes \<Rightarrow> u64 \<Rightarrow> (page_file, (bytes \<times> page_id) option) cmd" where
  "insert_rec 0 order i key value = panicM"
| "insert_rec (Suc n) order i key value = bindM (load i) (\<lambda>nd.
     if nd_kind nd = NODE_LEAF
     then (let at = leaf_slot (nd_keys nd) (nd_values nd) key value in
           finish_insert order i (nd\<lparr>nd_keys := vec_insert at key (nd_keys nd),
                                      nd_values := vec_insert at value (nd_values nd)\<rparr>))
     else bindM (index_of (nd_values nd) (child_slot (nd_keys nd) key)) (\<lambda>child.
          bindM (insert_rec n order child key value) (\<lambda>r. case r of
            None \<Rightarrow> finish_insert order i nd
          | Some (sep, right_id) \<Rightarrow>
             (let at = partition_point (\<lambda>k. k \<le> sep) (nd_keys nd) in
              if length (nd_values nd) < at + 1 then panicM
              else finish_insert order i (nd\<lparr>nd_keys := vec_insert at sep (nd_keys nd),
                                             nd_values := vec_insert (at + 1) right_id (nd_values nd)\<rparr>)))))"

definition insert_tree :: "nat \<Rightarrow> nat \<Rightarrow> bytes \<Rightarrow> u64 \<Rightarrow> (page_file, unit) cmd" where
  "insert_tree fuel order key value = seqM (validate_key order key)
    (seqM (if LEGACY_KEY_BYTES < length key
           then bindM (getM pf_page_size) (\<lambda>psz. bindM (read_page META_PAGE) (\<lambda>meta.
             if unat (read_u16 (pg_data meta) OFF_MAX_KEY) \<noteq> key_limit psz order
             then write_page (meta\<lparr>pg_data := write_u16 (pg_data meta) OFF_MAX_KEY
                                     (word_of_nat (key_limit psz order))\<rparr>)
             else okM ()))
           else okM ())
    (bindM root (\<lambda>r. case r of
       None \<Rightarrow> bindM (alloc \<lparr>nd_kind = NODE_LEAF, nd_next = 0, nd_keys = [key], nd_values = [value]\<rparr>)
                (\<lambda>i. set_root (Some i))
     | Some r0 \<Rightarrow> bindM (insert_rec fuel order r0 key value) (\<lambda>split. case split of
           None \<Rightarrow> okM ()
         | Some (sep, right_id) \<Rightarrow>
             bindM (alloc \<lparr>nd_kind = NODE_INTERNAL, nd_next = 0, nd_keys = [sep], nd_values = [r0, right_id]\<rparr>)
               (\<lambda>i. set_root (Some i))))))"

text \<open>The loop over the candidate children of \<open>delete_rec\<close>.\<close>

fun try_children :: "(page_id \<Rightarrow> (page_file, bool) cmd) \<Rightarrow> page_id list \<Rightarrow> (page_file, bool) cmd" where
  "try_children f [] = okM False"
| "try_children f (i # is) = bindM (f i) (\<lambda>found. if found then okM True else try_children f is)"

fun delete_rec :: "nat \<Rightarrow> page_id \<Rightarrow> bytes \<Rightarrow> u64 \<Rightarrow> (page_file, bool) cmd" where
  "delete_rec 0 i key value = panicM"
| "delete_rec (Suc n) i key value = bindM (load i) (\<lambda>nd.
     if nd_kind nd = NODE_LEAF
     then (let at = leaf_slot (nd_keys nd) (nd_values nd) key value in
       if at < length (nd_keys nd) \<and> nd_keys nd ! at = key \<and> nd_values nd ! at = value
       then seqM (store i (nd\<lparr>nd_keys := vec_remove at (nd_keys nd), nd_values := vec_remove at (nd_values nd)\<rparr>))
                 (okM True)
       else okM False)
     else (let first = partition_point (\<lambda>k. k < key) (nd_keys nd);
               last = child_slot (nd_keys nd) key in
       if length (nd_values nd) \<le> last \<or> last + 1 < first then panicM
       else try_children (\<lambda>child. delete_rec n child key value)
              (take (last + 1 - first) (drop first (nd_values nd)))))"

definition delete_tree :: "nat \<Rightarrow> bytes \<Rightarrow> u64 \<Rightarrow> (page_file, bool) cmd" where
  "delete_tree fuel key value = bindM root (\<lambda>r. case r of
       None \<Rightarrow> okM False
     | Some i \<Rightarrow> delete_rec fuel i key value)"

section \<open>Layout arithmetic\<close>

text \<open>Up to order \<open>2 ^ 57\<close> nothing wraps around.\<close>

lemma fits_in_page_small:
  assumes "order \<le> 2 ^ 57"
  shows "fits_in_page page_size order \<longleftrightarrow> 2 \<le> order \<and> 11 + (order - 1) * 76 \<le> page_size"
proof -
  have "(order - 1) * 76 < 2 ^ 64 - 11" using assms by simp
  then show ?thesis by (simp add: fits_in_page_def usize_def max_keys_def max_cell_bytes_def layout_defs)
qed

text \<open>
  A node within the limits fits: at most \<open>max_keys\<close> keys, none longer than the key limit.
\<close>

lemma node_fits:
  assumes fit: "fits_in_page page_size order" "order \<le> 2 ^ 57" and n: "length (nd_keys nd) \<le> max_keys order"
    and k: "\<forall>key \<in> set (nd_keys nd). length key \<le> key_limit page_size order"
  shows "node_bytes nd \<le> page_size"
proof -
  let ?m = "order - 1" and ?q = "(page_size - NODE_HEADER) div (order - 1)"
  have o: "2 \<le> order" and base: "11 + ?m * 76 \<le> page_size"
    using fit by (simp_all add: fits_in_page_small)
  then have "?m * 76 \<le> page_size - 11" by simp
  then have "76 \<le> ?q" using o by (simp add: less_eq_div_iff_mult_less_eq NODE_HEADER_def mult.commute)
  have "cell_bytes key + SLOT \<le> ?q" if "key \<in> set (nd_keys nd)" for key
  proof -
    have "length key \<le> ?q - 12" using k that o by (auto simp: key_limit_def layout_defs)
    then show ?thesis using \<open>76 \<le> ?q\<close> by (simp add: cell_bytes_def layout_defs)
  qed
  then have "sum_list (map (\<lambda>key. cell_bytes key + SLOT) (nd_keys nd)) \<le> sum_list (map (\<lambda>_. ?q) (nd_keys nd))"
    by (intro sum_list_mono) auto
  also have "\<dots> = length (nd_keys nd) * ?q" by (simp add: map_replicate_const sum_list_replicate)
  also have "\<dots> \<le> ?m * ?q" using n by (intro mult_le_mono1) (simp add: max_keys_def)
  also have "\<dots> \<le> page_size - NODE_HEADER" by (simp add: mult.commute)
  finally have "sum_list (map cell_bytes (nd_keys nd)) + length (nd_keys nd) * SLOT \<le> page_size - NODE_HEADER"
    by (simp add: sum_list_addf map_replicate_const sum_list_replicate)
  then show ?thesis using base by (simp add: node_bytes_def NODE_HEADER_def)
qed

lemma fits_in_page_max_order:
  assumes "2 \<le> order" and "order \<le> 2 ^ 57"
  shows "fits_in_page page_size order \<longleftrightarrow> order \<le> max_order page_size \<and> NODE_HEADER \<le> page_size"
proof -
  have "order - 1 \<le> (page_size - 11) div 76 \<longleftrightarrow> (order - 1) * 76 \<le> page_size - 11"
    by (simp add: less_eq_div_iff_mult_less_eq)
  moreover have "11 + (order - 1) * 76 \<le> page_size \<longleftrightarrow> (order - 1) * 76 \<le> page_size - 11 \<and> 11 \<le> page_size"
    by auto
  ultimately show ?thesis
    using assms by (auto simp: fits_in_page_small max_order_def max_cell_bytes_def layout_defs)
qed

section \<open>The node codec\<close>

lemma read_bwrite_u16:
  "a + 2 \<le> b \<or> b + length xs \<le> a \<Longrightarrow> b + length xs \<le> length d \<Longrightarrow> read_u16 (bwrite d b xs) a = read_u16 d a"
  by (simp only: read_u16_def) (subst bslice_bwrite_other; simp)

lemma read_bwrite_u64:
  "a + 8 \<le> b \<or> b + length xs \<le> a \<Longrightarrow> b + length xs \<le> length d \<Longrightarrow> read_u64 (bwrite d b xs) a = read_u64 d a"
  by (simp only: read_u64_def) (subst bslice_bwrite_other; simp)

lemma read_back:
  "b + 2 \<le> length d \<Longrightarrow> read_u16 (write_u16 d b v) b = v"
  "b + 8 \<le> length d \<Longrightarrow> read_u64 (write_u64 d b w) b = w"
  by (simp_all add: read_u16_def write_u16_def read_u64_def write_u64_def)

lemmas write_defs = write_u16_def write_u64_def

text \<open>
  Writing the cells downwards from \<open>cursor\<close> touches only the slots from \<open>i\<close> on and the
  bytes below \<open>cursor\<close>, and reading the slots back returns keys and values.
\<close>

lemma put_cells_ok:
  assumes "length vs \<ge> length ks" and "\<forall>k \<in> set ks. length k \<le> MAX_KEY_BYTES"
    and "NODE_HEADER + (i + length ks) * SLOT + sum_list (map cell_bytes ks) \<le> cursor"
    and "cursor \<le> length d" and "length d \<le> 65536"
    and "slots_end = NODE_HEADER + (i + length ks) * SLOT"
  shows "\<exists>d'. put_cells i cursor ks vs d = Ok d' \<and> length d' = length d \<and>
    (\<forall>a n. a + n \<le> NODE_HEADER + i * SLOT \<or> cursor \<le> a \<longrightarrow> bslice d' a n = bslice d a n) \<and>
    get_cells d' slots_end [i..<i + length ks] cursor = Ok (zip ks vs)"
  using assms
proof (induction ks arbitrary: i cursor vs d)
  case (Cons k ks)
  then obtain v ws where vs: "vs = v # ws" by (cases vs) auto
  define cur where "cur = cursor - cell_bytes k"
  define d1 where "d1 = write_u16 d cur (word_of_nat (length k))"
  define d2 where "d2 = bwrite d1 (cur + 2) k"
  define d3 where "d3 = write_u64 d2 (cur + 2 + length k) v"
  define d4 where "d4 = write_u16 d3 (NODE_HEADER + i * SLOT) (word_of_nat cur)"
  have klen: "length k \<le> 128" using Cons.prems(2) by (simp add: layout_defs)
  have cb: "cell_bytes k = 10 + length k" by (simp add: cell_bytes_def layout_defs)
  have sp: "NODE_HEADER + (i + Suc (length ks)) * SLOT + sum_list (map cell_bytes ks) \<le> cur" "cell_bytes k \<le> cursor"
    "cur + cell_bytes k = cursor" using Cons.prems(3) by (simp_all add: cur_def)
  then have sp': "11 + i * 2 + 2 \<le> cur" "cur + 10 + length k = cursor" "11 + i * 2 + 2 \<le> slots_end"
    "slots_end \<le> cur" using Cons.prems(6) by (simp_all add: layout_defs cb)
  have l: "length d1 = length d" "length d2 = length d" "length d3 = length d" "length d4 = length d"
    using sp' Cons.prems(4) by (simp_all add: d1_def d2_def d3_def d4_def write_defs layout_defs)
  have keep: "bslice d4 a n = bslice d a n" if "a + n \<le> NODE_HEADER + i * SLOT \<or> cursor \<le> a" for a n
    using that sp' l Cons.prems(4)
    by (auto simp: d4_def d3_def d2_def d1_def write_defs layout_defs bslice_bwrite_other)
  have small: "unat (word_of_nat cur :: u16) = cur" "unat (word_of_nat (length k) :: u16) = length k"
    using sp' Cons.prems(4,5) klen by (simp_all only: unat_of_nat) simp_all
  have r4: "unat (read_u16 d4 (NODE_HEADER + i * SLOT)) = cur"
    using sp' l Cons.prems(4) small by (simp add: d4_def read_back layout_defs)
  have klen4: "unat (read_u16 d4 cur) = length k"
    using sp' l Cons.prems(4) small
    by (simp add: d4_def d3_def d2_def d1_def write_u64_def write_u16_def layout_defs read_bwrite_u16)
       (simp add: read_u16_def)
  have key4: "bslice d4 (cur + 2) (length k) = k"
    using sp' l Cons.prems(4) by (simp add: d4_def d3_def d2_def write_defs layout_defs)
  have val4: "read_u64 d4 (cur + 2 + length k) = v"
    using sp' l Cons.prems(4)
    by (simp add: d4_def write_u16_def layout_defs read_bwrite_u64) (simp add: d3_def read_back)
  have "\<exists>d'. put_cells (Suc i) cur ks ws d4 = Ok d' \<and> length d' = length d4 \<and>
    (\<forall>a n. a + n \<le> NODE_HEADER + Suc i * SLOT \<or> cur \<le> a \<longrightarrow> bslice d' a n = bslice d4 a n) \<and>
    get_cells d' slots_end [Suc i..<Suc i + length ks] cur = Ok (zip ks ws)"
    by (rule Cons.IH) (use Cons.prems sp l in \<open>auto simp: vs\<close>)
  then obtain d' where d': "put_cells (Suc i) cur ks ws d4 = Ok d'" "length d' = length d"
    "\<And>a n. a + n \<le> NODE_HEADER + Suc i * SLOT \<or> cur \<le> a \<Longrightarrow> bslice d' a n = bslice d4 a n"
    "get_cells d' slots_end [Suc i..<Suc i + length ks] cur = Ok (zip ks ws)"
    using l by auto
  have same: "read_u16 d' (NODE_HEADER + i * SLOT) = read_u16 d4 (NODE_HEADER + i * SLOT)"
    "read_u16 d' cur = read_u16 d4 cur" "bslice d' (cur + 2) (length k) = bslice d4 (cur + 2) (length k)"
    "read_u64 d' (cur + 2 + length k) = read_u64 d4 (cur + 2 + length k)"
    using d'(3) by (simp_all add: read_u16_def read_u64_def SLOT_def)
  have "put_cells i cursor (k # ks) vs d = Ok d'"
    using d'(1) sp(2) by (simp add: vs Let_def d4_def d3_def d2_def d1_def cur_def)
  moreover have "bslice d' a n = bslice d a n" if "a + n \<le> NODE_HEADER + i * SLOT \<or> cursor \<le> a" for a n
    using that keep [OF that] d'(3) [of a n] sp(3) by (auto simp: SLOT_def)
  moreover have "get_cells d' slots_end [i..<i + length (k # ks)] cursor = Ok (zip (k # ks) vs)"
  proof -
    have "[i..<i + length (k # ks)] = i # [Suc i..<Suc i + length ks]" using upt_conv_Cons [of i "Suc i + length ks"] by simp
    then show ?thesis
      using r4 klen4 key4 val4 same d'(2,4) sp' klen Cons.prems(4) by (simp add: vs Let_def CELL_FIXED_def MAX_KEY_BYTES_def)
  qed
  ultimately show ?case using d'(2) by blast
qed simp

lemma unsorted_pair_sorted: "unsorted_pair xs \<longleftrightarrow> \<not> sorted xs"
  by (induction xs rule: unsorted_pair.induct) (auto simp: sorted0 sorted1 sorted2 not_le not_less simp del: sorted_wrt.simps)

text \<open>What a node in memory has to satisfy to be stored: the shape \<open>get_node\<close> produces.\<close>

definition node_ok :: "node \<Rightarrow> bool" where
  "node_ok nd \<longleftrightarrow> sorted (nd_keys nd) \<and> (\<forall>k \<in> set (nd_keys nd). length k \<le> MAX_KEY_BYTES) \<and>
     (nd_kind nd = NODE_LEAF \<and> length (nd_values nd) = length (nd_keys nd) \<or>
      nd_kind nd = NODE_INTERNAL \<and> length (nd_values nd) = Suc (length (nd_keys nd)) \<and>
      META_PAGE \<notin> set (nd_values nd) \<and> nd_next nd = 0)"

lemma put_node_ok:
  assumes ok: "node_ok nd" and fit: "node_bytes nd \<le> length (pg_data p)" and small: "length (pg_data p) \<le> 65536"
  shows "\<exists>q. put_node nd p = (Ok (), q) \<and> pg_id q = pg_id p \<and> length (pg_data q) = length (pg_data p) \<and>
    get_node q = Ok nd"
proof -
  let ?n = "length (nd_keys nd)" and ?k = "nd_kind nd"
  define trailer where "trailer = (if ?k = NODE_INTERNAL then (if nd_values nd = [] then 0 else last (nd_values nd)) else nd_next nd)"
  define d0 where "d0 = pg_data (zero_page p)"
  define d1 where "d1 = bwrite d0 OFF_KIND [?k]"
  define d2 where "d2 = write_u16 d1 OFF_COUNT (word_of_nat ?n)"
  define d3 where "d3 = write_u64 d2 OFF_NEXT trailer"
  have hdr: "11 + ?n * 2 + sum_list (map cell_bytes (nd_keys nd)) \<le> length (pg_data p)"
    using fit by (simp add: node_bytes_def layout_defs)
  have n: "?n < 65536" using hdr small by simp
  have l: "length d0 = length (pg_data p)" "length d1 = length (pg_data p)" "length d2 = length (pg_data p)"
    "length d3 = length (pg_data p)"
    using hdr by (simp_all add: d0_def d1_def d2_def d3_def zero_page_def write_defs layout_defs)
  have vs: "?n \<le> length (nd_values nd)" and key: "\<forall>k \<in> set (nd_keys nd). length k \<le> MAX_KEY_BYTES"
    using ok by (auto simp: node_ok_def)
  have "\<exists>d'. put_cells 0 (length d3) (nd_keys nd) (nd_values nd) d3 = Ok d' \<and> length d' = length d3 \<and>
    (\<forall>a n. a + n \<le> NODE_HEADER + 0 * SLOT \<or> length d3 \<le> a \<longrightarrow> bslice d' a n = bslice d3 a n) \<and>
    get_cells d' (NODE_HEADER + ?n * SLOT) [0..<0 + ?n] (length d3) = Ok (zip (nd_keys nd) (nd_values nd))"
    by (rule put_cells_ok) (use vs key hdr small l in \<open>simp_all add: layout_defs\<close>)
  then obtain d4 where d4: "put_cells 0 (length d3) (nd_keys nd) (nd_values nd) d3 = Ok d4" "length d4 = length (pg_data p)"
    "\<And>a n. a + n \<le> NODE_HEADER \<Longrightarrow> bslice d4 a n = bslice d3 a n"
    "get_cells d4 (NODE_HEADER + ?n * SLOT) [0..<?n] (length (pg_data p)) = Ok (zip (nd_keys nd) (nd_values nd))"
    using l by auto
  have kind: "d4 ! OFF_KIND = ?k"
  proof -
    have one: "bslice d 0 1 = [d ! 0]" if "d \<noteq> []" for d :: bytes using that by (cases d) (simp_all add: bslice_def)
    have "bslice d4 0 1 = bslice d1 0 1"
      using d4(3) [of 0 1] l hdr by (simp add: d3_def d2_def write_defs layout_defs bslice_bwrite_other)
    also have "\<dots> = [?k]" using l hdr by (simp add: d1_def OFF_KIND_def bslice_bwrite_same)
    finally have "bslice d4 0 1 = [?k]" .
    moreover have "d4 \<noteq> []" using d4(2) hdr by auto
    ultimately show ?thesis using one [of d4] by (simp add: OFF_KIND_def)
  qed
  have count: "unat (read_u16 d4 OFF_COUNT) = ?n"
  proof -
    have "read_u16 d4 OFF_COUNT = read_u16 d3 OFF_COUNT" using d4(3) [of 1 2] by (simp add: read_u16_def layout_defs)
    also have "\<dots> = read_u16 d2 OFF_COUNT" using l hdr by (simp add: d3_def write_defs layout_defs read_bwrite_u16)
    also have "\<dots> = word_of_nat ?n" using l hdr by (simp add: d2_def read_back layout_defs)
    finally show ?thesis using n by (simp add: unat_of_nat)
  qed
  have next': "read_u64 d4 OFF_NEXT = trailer"
    using d4(3) [of 3 8] l hdr read_back(2) [of OFF_NEXT d2 trailer] by (simp add: d3_def read_u64_def layout_defs)
  let ?q = "p\<lparr>pg_data := d4\<rparr>"
  have "put_node nd p = (Ok (), ?q)"
    using fit n d4(1) by (simp add: put_node_def Let_def trailer_def d3_def d2_def d1_def d0_def)
  moreover have "get_node ?q = Ok nd"
  proof (cases "?k = NODE_LEAF")
    case True
    then have "length (nd_values nd) = ?n" "trailer = nd_next nd" "sorted (nd_keys nd)"
      using ok by (auto simp: node_ok_def trailer_def layout_defs)
    then show ?thesis
      using True kind count next' d4(2,4) hdr
      by (simp add: get_node_def Let_def unsorted_pair_sorted) (simp add: layout_defs)
  next
    case False
    then have i: "?k = NODE_INTERNAL" "length (nd_values nd) = Suc ?n" "META_PAGE \<notin> set (nd_values nd)"
      "nd_next nd = 0" "sorted (nd_keys nd)" using ok by (auto simp: node_ok_def)
    then obtain ws w where ws: "nd_values nd = ws @ [w]" "length ws = ?n"
      by (cases "nd_values nd" rule: rev_cases) auto
    then have "map snd (zip (nd_keys nd) (nd_values nd)) = ws" "map fst (zip (nd_keys nd) (nd_values nd)) = nd_keys nd" "trailer = w"
      using i by (simp_all add: trailer_def zip_append2)
    then show ?thesis
      using i ws kind count next' d4(2,4) hdr
      by (simp add: get_node_def Let_def unsorted_pair_sorted) (simp add: layout_defs)
  qed
  ultimately show ?thesis using d4(2) by simp
qed

section \<open>Properties of the B+ tree pages\<close>

text \<open>
  Property (C20).  A node that \<open>put_node\<close> accepts is read back unchanged by \<open>get_node\<close>,
  which validates it: writing never panics and the page keeps its number and size.
\<close>

theorem node_round_trip:
  assumes "node_ok nd" and "node_bytes nd \<le> length (pg_data p)" and "length (pg_data p) \<le> 65536"
  shows "\<exists>q. put_node nd p = (Ok (), q) \<and> pg_id q = pg_id p \<and> length (pg_data q) = length (pg_data p) \<and>
    get_node q = Ok nd"
  by (rule put_node_ok [OF assms])

theorem node_round_trip_witness:
  "\<exists>q. put_node \<lparr>nd_kind = NODE_LEAF, nd_next = 4, nd_keys = [[1], [2, 2]], nd_values = [10, 20]\<rparr> (new_page 3 64) = (Ok (), q) \<and>
    pg_id q = pg_id (new_page 3 64) \<and> length (pg_data q) = length (pg_data (new_page 3 64)) \<and>
    get_node q = Ok \<lparr>nd_kind = NODE_LEAF, nd_next = 4, nd_keys = [[1], [2, 2]], nd_values = [10, 20]\<rparr>"
  by (rule node_round_trip) (simp_all add: node_ok_def node_bytes_def cell_bytes_def new_page_def layout_defs)

text \<open>
  Property (C21).  Every layout that \<open>fits_in_page\<close> accepts with an order up to \<open>2 ^ 57\<close> leaves
  room for a full node: a node with at most \<open>order - 1\<close> keys, none longer than the key limit that
  inserts enforce, always fits in a page, and the limit is at least the 64 bytes of older files.
  Above that order the check itself wraps around (\<open>order_overflow_accepted\<close>).
\<close>

theorem full_node_fits:
  assumes fit: "fits_in_page page_size order" "order \<le> 2 ^ 57" and "length (nd_keys nd) \<le> max_keys order"
    and "\<forall>key \<in> set (nd_keys nd). check_key key page_size order = Ok ()"
  shows "node_bytes nd \<le> page_size \<and> LEGACY_KEY_BYTES \<le> key_limit page_size order"
proof
  have "length key \<le> key_limit page_size order" if "key \<in> set (nd_keys nd)" for key
    using assms(4) that by (auto simp: check_key_def Let_def not_less split: if_splits)
  then show "node_bytes nd \<le> page_size" using node_fits [OF assms(1-3)] by blast
  have o: "2 \<le> order" and base: "11 + (order - 1) * 76 \<le> page_size" using fit by (simp_all add: fits_in_page_small)
  then have "76 \<le> (page_size - 11) div (order - 1)" by (simp add: less_eq_div_iff_mult_less_eq mult.commute)
  then show "LEGACY_KEY_BYTES \<le> key_limit page_size order"
    using o by (simp add: key_limit_def layout_defs)
qed

theorem full_node_fits_witness:
  "node_bytes \<lparr>nd_kind = NODE_LEAF, nd_next = 0, nd_keys = [replicate 60 1, replicate 64 2], nd_values = [1, 2]\<rparr> \<le> 256 \<and>
    LEGACY_KEY_BYTES \<le> key_limit 256 4"
  by (rule full_node_fits)
     (simp_all add: fits_in_page_small max_keys_def check_key_def key_limit_def layout_defs)

text \<open>
  The header written for a new index file passes the check made when the
  file is opened again with the same configuration, and holds the root page number.
\<close>

theorem meta_round_trip:
  assumes fit: "fits_in_page page_size order" and len: "length (pg_data p) = page_size"
    and small: "page_size \<le> 65536" "order \<le> 2 ^ 57"
  shows "\<exists>q. write_meta page_size order rt p = Ok q \<and> check_meta q page_size order = Ok () \<and>
    read_u64 (pg_data q) OFF_ROOT = rt"
proof -
  have o: "2 \<le> order" and base: "11 + (order - 1) * 76 \<le> page_size"
    using fit small(2) by (simp_all add: fits_in_page_small)
  then have ps: "87 \<le> page_size" and os: "order < 65536" using small(1) by (auto simp: Suc_le_eq intro: order_trans)
  have kl: "64 \<le> key_limit page_size order" "key_limit page_size order \<le> 128"
  proof -
    have "76 \<le> (page_size - 11) div (order - 1)" using o base by (simp add: less_eq_div_iff_mult_less_eq mult.commute)
    then show "64 \<le> key_limit page_size order" "key_limit page_size order \<le> 128"
      using o by (simp_all add: key_limit_def layout_defs)
  qed
  define d1 where "d1 = bwrite (pg_data (zero_page p)) 0 META_MAGIC"
  define d2 where "d2 = write_u32 d1 OFF_PAGE_SIZE (word_of_nat page_size)"
  define d3 where "d3 = write_u16 d2 OFF_MAX_KEY (word_of_nat (key_limit page_size order))"
  define d4 where "d4 = write_u64 d3 OFF_ROOT rt"
  define d5 where "d5 = write_u16 d4 OFF_ORDER (word_of_nat order)"
  have l: "length d1 = page_size" "length d2 = page_size" "length d3 = page_size" "length d4 = page_size" "length d5 = page_size"
    using ps len by (simp_all add: d1_def d2_def d3_def d4_def d5_def zero_page_def write_defs write_u32_def layout_defs)
  have f: "bslice d5 0 4 = META_MAGIC" "read_u32 d5 OFF_PAGE_SIZE = word_of_nat page_size"
    "read_u16 d5 OFF_MAX_KEY = word_of_nat (key_limit page_size order)" "read_u64 d5 OFF_ROOT = rt"
    "read_u16 d5 OFF_ORDER = word_of_nat order"
    using ps l len
    by (simp_all add: read_u32_def read_u16_def read_u64_def d5_def d4_def d3_def d2_def write_defs write_u32_def layout_defs)
       (simp add: d1_def zero_page_def layout_defs)
  have u: "unat (word_of_nat page_size :: u32) = page_size" "unat (word_of_nat order :: u16) = order"
    "unat (word_of_nat (key_limit page_size order) :: u16) = key_limit page_size order"
    using small os kl by (simp_all add: unat_of_nat)
  have "write_meta page_size order rt p = Ok (p\<lparr>pg_data := d5\<rparr>)"
    using ps len by (simp add: write_meta_def Let_def OFF_ORDER_def d5_def d4_def d3_def d2_def d1_def)
  moreover have "check_meta (p\<lparr>pg_data := d5\<rparr>) page_size order = Ok ()"
    using f u l ps kl by (simp add: check_meta_def Let_def LEGACY_KEY_BYTES_def) (simp add: OFF_ORDER_def)
  ultimately show ?thesis using f by simp
qed

theorem meta_round_trip_witness:
  "\<exists>q. write_meta 256 4 9 (new_page 0 256) = Ok q \<and> check_meta q 256 4 = Ok () \<and> read_u64 (pg_data q) OFF_ROOT = 9"
  by (rule meta_round_trip) (simp_all add: fits_in_page_small new_page_def)

text \<open>
  Property (C22).  Splitting an overfull node loses nothing and leaves two storable nodes
  within the order: a leaf is cut into its two halves and the first key on the right moves
  up as a copy; an internal node gives up its middle key.
\<close>

theorem split_node_halves:
  assumes ok: "node_ok nd" and n: "length (nd_keys nd) = Suc (max_keys order)" and o: "2 \<le> order"
    and s: "split_node nd = (left, sep, right)"
  shows "node_ok left \<and> node_ok right \<and> nd_kind left = nd_kind nd \<and> nd_kind right = nd_kind nd \<and>
    length (nd_keys left) \<le> max_keys order \<and> length (nd_keys right) \<le> max_keys order \<and>
    nd_values nd = nd_values left @ nd_values right \<and>
    nd_keys nd = nd_keys left @ (if nd_kind nd = NODE_LEAF then [] else [sep]) @ nd_keys right \<and>
    (\<forall>k \<in> set (nd_keys left). k \<le> sep) \<and> (\<forall>k \<in> set (nd_keys right). sep \<le> k) \<and>
    (nd_kind nd = NODE_LEAF \<longrightarrow> nd_next right = nd_next nd \<and> hd (nd_keys right) = sep)"
proof -
  let ?mid = "length (nd_keys nd) div 2" and ?ks = "nd_keys nd"
  have mid: "?mid < length ?ks" "0 < ?mid" using n o by (simp_all add: max_keys_def)
  have cut: "?ks = take ?mid ?ks @ ?ks ! ?mid # drop (Suc ?mid) ?ks" by (rule id_take_nth_drop [OF mid(1)])
  have sorted: "sorted ?ks" using ok by (simp add: node_ok_def)
  then have st: "sorted (take ?mid ?ks @ ?ks ! ?mid # drop (Suc ?mid) ?ks)" using cut by simp
  then have le: "\<forall>k \<in> set (take ?mid ?ks). k \<le> ?ks ! ?mid" "\<forall>k \<in> set (drop (Suc ?mid) ?ks). ?ks ! ?mid \<le> k"
    by (auto simp: sorted_append)
  have "drop ?mid ?ks = ?ks ! ?mid # drop (Suc ?mid) ?ks" using mid(1) by (simp add: Cons_nth_drop_Suc)
  then have dr: "\<forall>k \<in> set (drop ?mid ?ks). ?ks ! ?mid \<le> k" "hd (drop ?mid ?ks) = ?ks ! ?mid" using le(2) by auto
  have sub: "set (take m ?ks) \<subseteq> set ?ks" "set (drop m ?ks) \<subseteq> set ?ks" "sorted (take m ?ks)" "sorted (drop m ?ks)" for m
    using sorted by (auto dest: in_set_takeD in_set_dropD simp: sorted_wrt_take sorted_wrt_drop)
  have len: "length (take ?mid ?ks) \<le> max_keys order" "length (drop ?mid ?ks) \<le> max_keys order"
    using mid n by simp_all
  show ?thesis
  proof (cases "nd_kind nd = NODE_LEAF")
    case True
    then have "left = nd\<lparr>nd_keys := take ?mid ?ks, nd_values := take ?mid (nd_values nd)\<rparr>" "sep = ?ks ! ?mid"
      "right = \<lparr>nd_kind = NODE_LEAF, nd_next = nd_next nd, nd_keys = drop ?mid ?ks, nd_values = drop ?mid (nd_values nd)\<rparr>"
      using s by (simp_all add: split_node_def Let_def)
    then show ?thesis
      using True ok len le(1) dr sub [of ?mid] by (auto simp: node_ok_def NODE_LEAF_def NODE_INTERNAL_def)
  next
    case False
    then have i: "nd_kind nd = NODE_INTERNAL" "length (nd_values nd) = Suc (length ?ks)" "META_PAGE \<notin> set (nd_values nd)"
      "nd_next nd = 0" using ok by (auto simp: node_ok_def)
    have "left = nd\<lparr>nd_keys := take ?mid ?ks, nd_values := take (?mid + 1) (nd_values nd)\<rparr>" "sep = ?ks ! ?mid"
      "right = \<lparr>nd_kind = NODE_INTERNAL, nd_next = 0, nd_keys = drop (?mid + 1) ?ks, nd_values = drop (?mid + 1) (nd_values nd)\<rparr>"
      using s False by (simp_all add: split_node_def Let_def)
    moreover have "META_PAGE \<notin> set (take (?mid + 1) (nd_values nd))" "META_PAGE \<notin> set (drop (?mid + 1) (nd_values nd))"
      using i(3) by (auto dest: in_set_takeD in_set_dropD)
    ultimately show ?thesis
      using False i ok len le cut mid sub [of ?mid] sub [of "Suc ?mid"] by (auto simp: node_ok_def)
  qed
qed

theorem split_node_halves_witness:
  "\<exists>left right. split_node \<lparr>nd_kind = NODE_LEAF, nd_next = 4, nd_keys = [[1], [2], [3], [4]], nd_values = [10, 20, 30, 40]\<rparr> =
      (left, [3], right) \<and> node_ok left \<and> node_ok right"
proof -
  let ?nd = "\<lparr>nd_kind = NODE_LEAF, nd_next = 4, nd_keys = [[1], [2], [3], [4]], nd_values = [10, 20, 30, 40]\<rparr>"
  obtain left sep right where s: "split_node ?nd = (left, sep, right)" by (cases "split_node ?nd") auto
  moreover have "sep = [3]" using s by (simp add: split_node_def Let_def)
  moreover have "node_ok ?nd" "length (nd_keys ?nd) = Suc (max_keys 4)"
    by (simp_all add: node_ok_def max_keys_def layout_defs)
  ultimately show ?thesis using split_node_halves [of ?nd 4 left sep right] by auto
qed

end
