(* ===== verification/Protocol.thy ===== *)
theory Protocol
  imports Chu_Prelude
begin

text \<open>
  The wire types of \<open>protocol.rs\<close> and the name checks that guard the request channel.  A
  Rust string is the list of its UTF-8 bytes; a JSON object and a row (a hash map) are
  association lists in iteration order.  A floating-point number is its IEEE 754 bit pattern.
\<close>

section \<open>JSON values and rows\<close>

text \<open>
  \<open>serde_json::Number\<close>: a non-negative integer, a negative integer (the 64-bit word of its
  two's complement) or a finite double.
\<close>

datatype number = PosInt u64 | NegInt u64 | Float u64

datatype json =
    JNull
  | JBool bool
  | JNumber number
  | JString string
  | JArray "json list"
  | JObject "(string \<times> json) list"

type_synonym row = "(string \<times> json) list"

definition as_str :: "json \<Rightarrow> string option" where
  "as_str v = (case v of JString s \<Rightarrow> Some s | _ \<Rightarrow> None)"

definition as_bool :: "json \<Rightarrow> bool option" where
  "as_bool v = (case v of JBool b \<Rightarrow> Some b | _ \<Rightarrow> None)"

definition as_array :: "json \<Rightarrow> json list option" where
  "as_array v = (case v of JArray xs \<Rightarrow> Some xs | _ \<Rightarrow> None)"

definition as_object :: "json \<Rightarrow> (string \<times> json) list option" where
  "as_object v = (case v of JObject fs \<Rightarrow> Some fs | _ \<Rightarrow> None)"

definition json_get :: "string \<Rightarrow> json \<Rightarrow> json option" where
  "json_get k v = (case v of JObject fs \<Rightarrow> map_of fs k | _ \<Rightarrow> None)"

section \<open>Wire records\<close>

definition USERS_TABLE :: string where "USERS_TABLE = ''__system_users''"
definition IDENTITIES_TABLE :: string where "IDENTITIES_TABLE = ''__system_identities''"
definition TYPES_TABLE :: string where "TYPES_TABLE = ''__system_types''"

record account =
  ac_id :: u64
  ac_user :: string
  ac_password_hash :: string
  ac_revision :: u64
  ac_registered_at :: string
  ac_last_login_at :: "string option"
  ac_can_login :: bool
  ac_is_superuser :: bool
  ac_system_catalog_manager :: bool
  ac_enabled :: bool
  ac_identity_version :: u8

record schema_column =
  sc_name :: string
  sc_ty :: string
  sc_nullable :: bool
  sc_default :: "json option"
  sc_auto_increment :: bool
  sc_primary_key :: bool
  sc_unique :: bool
  sc_check :: "string option"

definition default_column :: schema_column where
  "default_column = \<lparr>sc_name = [], sc_ty = [], sc_nullable = True, sc_default = None,
     sc_auto_increment = False, sc_primary_key = False, sc_unique = False, sc_check = None\<rparr>"

record column_stat =
  cs_name :: string
  cs_distinct :: u64
  cs_capped :: bool
  cs_lo :: "u64 option"
  cs_hi :: "u64 option"
  cs_hist :: "u64 list"

record table_schema =
  ts_table :: string
  ts_database_id :: u64
  ts_object_id :: u64
  ts_schema_version :: u64
  ts_columns :: "schema_column list"
  ts_row_count :: u64
  ts_indexes :: "string list"
  ts_stats :: "column_stat list"

datatype storage_op =
    Upsert string "row list"
  | Delete string "u64 list"
  | Replace string "row list"

text \<open>The requests, with the fields of each variant in the order of the source.\<close>

datatype request =
    CatalogManage request
  | AccountsList
  | IdentityInitialize string
  | RoleCreate string
  | IdentityAlter string "bool option" "bool option" "bool option" "bool option"
  | AccountCreate string string
  | AccountReset string string
  | AccountLogin string "string option"
  | AccountDrop string
  | BootstrapSystem "string option" "string option"
  | SystemStatus
  | BootstrapTypes "row list"
  | Ping
  | Scan string "string list option"
  | ValidateWrite string
  | ScanShard string "string list option" u32 u32
  | Insert string row
  | InsertBatch string "row list"
  | DeleteKeys string "u64 list"
  | LookupByIndex string string json
  | RangeByIndex string string "json option" bool "json option" bool
  | ReplaceAll string "row list"
  | ListTables
  | DescribeTable string
  | CreateTable string "schema_column list"
  | DropTable string
  | ListCatalog
  | DomainSnapshot
  | MvccBegin bool "string list option"
  | MvccRead string "string list" "(string \<times> string list) list"
  | MvccLock string "storage_op list" "string list"
  | MvccPreview string "string list option"
  | MvccCommit string string "storage_op list"
  | MvccRollback string
  | DatabaseSnapshot "string option"
  | AlterDomain string "schema_column list" string
  | CreateIndex string string
  | DropIndex string string
  | DropColumn string string
  | Compact string
  | ReplaceSchema string "schema_column list" "row list"
  | ApplyTransaction "storage_op list"

datatype response =
    Guarded response
  | RAccounts "account list"
  | Pong
  | Rows "row list"
  | Tables "string list"
  | Schema string u64 "schema_column list" u64 "string list" "column_stat list"
  | NoIndex
  | ROk
  | System bool u64
  | RError string
  | Catalog "table_schema list"
  | RDomainSnapshot "table_schema list" "(string \<times> row list) list" string
  | MvccSnapshot string "table_schema list" "(string \<times> row list) list" string
  | SnapshotUnchanged string
  | Object u64 "u64 option"

section \<open>Names\<close>

text \<open>\<open>is_ascii_alphanumeric\<close>, \<open>is_ascii_digit\<close> and \<open>to_ascii_lowercase\<close> on bytes.\<close>

definition ascii_digit :: "char \<Rightarrow> bool" where
  "ascii_digit c \<longleftrightarrow> 48 \<le> (of_char c :: nat) \<and> (of_char c :: nat) \<le> 57"

definition ascii_upper :: "char \<Rightarrow> bool" where
  "ascii_upper c \<longleftrightarrow> 65 \<le> (of_char c :: nat) \<and> (of_char c :: nat) \<le> 90"

definition ascii_lower :: "char \<Rightarrow> bool" where
  "ascii_lower c \<longleftrightarrow> 97 \<le> (of_char c :: nat) \<and> (of_char c :: nat) \<le> 122"

definition ascii_alphanumeric :: "char \<Rightarrow> bool" where
  "ascii_alphanumeric c \<longleftrightarrow> ascii_digit c \<or> ascii_upper c \<or> ascii_lower c"

definition ascii_lowercase :: "string \<Rightarrow> string" where
  "ascii_lowercase s = map (\<lambda>c. if ascii_upper c then char_of (of_char c + 32 :: nat) else c) s"

definition starts_with :: "string \<Rightarrow> string \<Rightarrow> bool" where
  "starts_with p s \<longleftrightarrow> take (length p) s = p"

definition valid_storage_name :: "string \<Rightarrow> bool" where
  "valid_storage_name name \<longleftrightarrow> name \<noteq> [] \<and> list_all (\<lambda>c. ascii_alphanumeric c \<or> c = CHR ''_'') name"

definition valid_row_columns :: "row \<Rightarrow> bool" where
  "valid_row_columns r \<longleftrightarrow> list_all (\<lambda>f. valid_storage_name (fst f)) r"

fun valid_op_columns :: "storage_op \<Rightarrow> bool" where
  "valid_op_columns (Upsert t rows) = list_all valid_row_columns rows"
| "valid_op_columns (Replace t rows) = list_all valid_row_columns rows"
| "valid_op_columns (Delete t ids) = True"

definition valid_schema_names :: "schema_column list \<Rightarrow> bool" where
  "valid_schema_names cs \<longleftrightarrow> list_all (\<lambda>c. valid_storage_name (sc_name c)) cs"

fun valid_columns :: "request \<Rightarrow> bool" where
  "valid_columns (CreateIndex t c) = valid_storage_name c"
| "valid_columns (DropIndex t c) = valid_storage_name c"
| "valid_columns (DropColumn t c) = valid_storage_name c"
| "valid_columns (LookupByIndex t c k) = valid_storage_name c"
| "valid_columns (RangeByIndex t c lo li hi hi') = valid_storage_name c"
| "valid_columns (CreateTable t cs) = valid_schema_names cs"
| "valid_columns (AlterDomain t cs k) = valid_schema_names cs"
| "valid_columns (ReplaceSchema t cs rows) = (valid_schema_names cs \<and> list_all valid_row_columns rows)"
| "valid_columns (Insert t r) = valid_row_columns r"
| "valid_columns (InsertBatch t rows) = list_all valid_row_columns rows"
| "valid_columns (ReplaceAll t rows) = list_all valid_row_columns rows"
| "valid_columns (ApplyTransaction ops) = list_all valid_op_columns ops"
| "valid_columns (MvccLock tx ops reads) = list_all valid_op_columns ops"
| "valid_columns (MvccCommit tx k ops) = list_all valid_op_columns ops"
| "valid_columns _ = True"

text \<open>\<open>Request::table\<close>: the one table of an ordinary table request.\<close>

fun request_table :: "request \<Rightarrow> string option" where
  "request_table (Scan t _) = Some t"
| "request_table (ScanShard t _ _ _) = Some t"
| "request_table (ValidateWrite t) = Some t"
| "request_table (Insert t _) = Some t"
| "request_table (InsertBatch t _) = Some t"
| "request_table (DeleteKeys t _) = Some t"
| "request_table (LookupByIndex t _ _) = Some t"
| "request_table (ReplaceAll t _) = Some t"
| "request_table (RangeByIndex t _ _ _ _ _) = Some t"
| "request_table (DescribeTable t) = Some t"
| "request_table (CreateTable t _) = Some t"
| "request_table (DropTable t) = Some t"
| "request_table (CreateIndex t _) = Some t"
| "request_table (DropIndex t _) = Some t"
| "request_table (DropColumn t _) = Some t"
| "request_table (Compact t) = Some t"
| "request_table (ReplaceSchema t _ _) = Some t"
| "request_table (AlterDomain t _ _) = Some t"
| "request_table _ = None"

definition reserved_table :: "string \<Rightarrow> bool" where
  "reserved_table t \<longleftrightarrow> starts_with ''__system_'' (ascii_lowercase t)"

definition PRIVILEGE_TABLES :: "string list" where
  "PRIVILEGE_TABLES =
     [''__system_roles'', ''__system_grants'', ''__system_grant_options'', ''__system_members'']"

definition internal_table :: "string \<Rightarrow> bool" where
  "internal_table t \<longleftrightarrow> ascii_lowercase t \<in> set PRIVILEGE_TABLES \<or>
     starts_with ''__system_domain_'' (ascii_lowercase t)"

definition blocked_table :: "string \<Rightarrow> bool" where
  "blocked_table t \<longleftrightarrow> reserved_table t \<and> \<not> internal_table t"

definition default_id_column :: string where "default_id_column = ''id''"

section \<open>Schema versions on the wire\<close>

definition serialize_version :: "u64 \<Rightarrow> json" where
  "serialize_version v = JString (dec_digits (unat v))"

text \<open>\<open>str::parse::<u64>\<close> on a non-empty string of decimal digits.\<close>

fun parse_digits :: "nat \<Rightarrow> string \<Rightarrow> nat" where
  "parse_digits acc [] = acc"
| "parse_digits acc (c # cs) = parse_digits (10 * acc + (of_char c - 48)) cs"

definition parse_u64 :: "string \<Rightarrow> u64 option" where
  "parse_u64 s = (if parse_digits 0 s < 2 ^ 64 then Some (word_of_nat (parse_digits 0 s)) else None)"

definition deserialize_version :: "json \<Rightarrow> u64 option" where
  "deserialize_version v = (case v of
       JString s \<Rightarrow> if s \<noteq> [] \<and> length s \<le> 20 \<and> list_all ascii_digit s then parse_u64 s else None
     | JNumber (PosInt n) \<Rightarrow> Some n
     | _ \<Rightarrow> None)"

section \<open>Decimal digits\<close>

lemma digit_char: "n < 10 \<Longrightarrow> of_char (char_of (48 + n) :: char) = (48 + n :: nat)"
  by simp

lemma parse_digits_append: "parse_digits acc (xs @ [c]) = 10 * parse_digits acc xs + (of_char c - 48)"
  by (induction xs arbitrary: acc) auto

lemma dec_digits_facts:
  "parse_digits 0 (dec_digits n) = n \<and> list_all ascii_digit (dec_digits n) \<and> dec_digits n \<noteq> []"
proof (induction n rule: dec_digits.induct)
  case (1 n)
  show ?case
  proof (cases "n < 10")
    case True
    then show ?thesis by (simp add: dec_digits.simps [of n] ascii_digit_def)
  next
    case False
    have "n mod 10 < 10" by simp
    then have "of_char (char_of (48 + n mod 10) :: char) = 48 + n mod 10" by (rule digit_char)
    with 1 False show ?thesis
      by (simp add: dec_digits.simps [of n] parse_digits_append ascii_digit_def)
  qed
qed

lemma length_dec_digits: "n < 10 ^ k \<Longrightarrow> 0 < k \<Longrightarrow> length (dec_digits n) \<le> k"
proof (induction n arbitrary: k rule: dec_digits.induct)
  case (1 n)
  show ?case
  proof (cases "n < 10")
    case True
    then show ?thesis using "1.prems" by (simp add: dec_digits.simps [of n])
  next
    case False
    then obtain m where k: "k = Suc m" "0 < m" using "1.prems" by (cases k; cases "k - 1") auto
    then have "n div 10 < 10 ^ m" using "1.prems" by (simp add: less_mult_imp_div_less mult.commute)
    from "1.IH" [OF False this k(2)] show ?thesis using False k by (simp add: dec_digits.simps [of n])
  qed
qed

section \<open>Properties of names and versions\<close>

lemma starts_with_iff: "starts_with p s \<longleftrightarrow> (\<exists>w. s = p @ w)"
  by (auto simp: starts_with_def intro: append_take_drop_id [symmetric] dest: sym)
     (metis append_take_drop_id)

lemma ascii_lowercase_idem: "ascii_lowercase (ascii_lowercase t) = ascii_lowercase t"
proof -
  have "(if ascii_upper (if ascii_upper c then char_of (of_char c + 32 :: nat) else c)
         then char_of (of_char (if ascii_upper c then char_of (of_char c + 32 :: nat) else c) + 32 :: nat)
         else (if ascii_upper c then char_of (of_char c + 32 :: nat) else c))
       = (if ascii_upper c then char_of (of_char c + 32 :: nat) else c)" for c :: char
  proof (cases "ascii_upper c")
    case True
    then have "of_char (char_of (of_char c + 32 :: nat) :: char) = (of_char c + 32 :: nat)"
      by (auto simp: ascii_upper_def)
    with True show ?thesis by (simp add: ascii_upper_def)
  qed simp
  then show ?thesis by (simp add: ascii_lowercase_def)
qed

text \<open>
  The table guard does not depend on the case of the name, every table the
  service keeps for itself is a reserved one, and so each name is of exactly one class: an
  ordinary table, an internal system table the request channel may touch, or a blocked one.
\<close>

theorem table_classes:
  "blocked_table (ascii_lowercase t) = blocked_table t \<and> (internal_table t \<longrightarrow> reserved_table t) \<and>
   (\<not> reserved_table t \<and> \<not> internal_table t \<and> \<not> blocked_table t \<or>
    reserved_table t \<and> internal_table t \<and> \<not> blocked_table t \<or>
    reserved_table t \<and> \<not> internal_table t \<and> blocked_table t)"
proof -
  have "reserved_table t" if "internal_table t"
  proof -
    have "starts_with ''__system_'' u" if d: "starts_with ''__system_domain_'' u" for u
    proof -
      obtain w where "u = ''__system_domain_'' @ w" using d unfolding starts_with_iff ..
      then have "u = ''__system_'' @ (''domain_'' @ w)" by simp
      then show ?thesis unfolding starts_with_iff ..
    qed
    then show ?thesis
      using that by (auto simp: internal_table_def reserved_table_def PRIVILEGE_TABLES_def starts_with_def)
  qed
  then show ?thesis
    by (auto simp: blocked_table_def reserved_table_def internal_table_def ascii_lowercase_idem)
qed

theorem table_classes_witness:
  "blocked_table (ascii_lowercase ''__System_Users'') = blocked_table ''__System_Users'' \<and>
   reserved_table ''__System_Users''"
proof -
  have "reserved_table ''__System_Users''" by code_simp
  then show ?thesis using table_classes [of "''__System_Users''"] by blast
qed

text \<open>
  Property (C23).  A name accepted for a table or a column contains no byte with a meaning in
  a path: no separator, dot, drive colon or NUL, so it names a file inside its directory.
\<close>

theorem valid_storage_name_safe:
  assumes "valid_storage_name name"
  shows "name \<noteq> [] \<and> set name \<inter> {CHR ''/'', CHR 0x5C, CHR ''.'', CHR '':'', CHR 0x00} = {}"
proof -
  have "ascii_alphanumeric c \<or> c = CHR ''_''" if "c \<in> set name" for c
    using assms that by (auto simp: valid_storage_name_def list_all_iff)
  then have "c \<notin> {CHR ''/'', CHR 0x5C, CHR ''.'', CHR '':'', CHR 0x00}" if "c \<in> set name" for c
    using that by (fastforce simp: ascii_alphanumeric_def ascii_digit_def ascii_upper_def ascii_lower_def)
  then show ?thesis using assms by (auto simp: valid_storage_name_def)
qed

theorem valid_storage_name_safe_witness:
  "''t_1'' \<noteq> [] \<and> set ''t_1'' \<inter> {CHR ''/'', CHR 0x5C, CHR ''.'', CHR '':'', CHR 0x00} = {}"
  by (rule valid_storage_name_safe)
     (simp add: valid_storage_name_def ascii_alphanumeric_def ascii_digit_def ascii_upper_def ascii_lower_def)

text \<open>
  A schema version survives the wire exactly, whatever its value: it is sent
  as at most twenty decimal digits and parsed back to the same 64-bit number.
\<close>

theorem version_round_trip: "deserialize_version (serialize_version v) = Some v"
proof -
  have "unat v < 2 ^ 64" using unat_bound [of v] by simp
  then have "unat v < 10 ^ 20" by simp
  then have "length (dec_digits (unat v)) \<le> 20" by (rule length_dec_digits) simp
  then show ?thesis
    using dec_digits_facts [of "unat v"] \<open>unat v < 2 ^ 64\<close>
    by (simp add: deserialize_version_def serialize_version_def parse_u64_def)
qed

end
