(* ===== verification/Heap_Keys.thy ===== *)
theory Heap_Keys
  imports Protocol Heap_Page "HOL-Library.Char_ord"
begin

text \<open>
  The keys that \<open>heap.rs\<close> derives from JSON values: integers (also integral floating-point
  numbers, read from their IEEE 754 bits), strings, booleans and the rank of an enum value; the
  projection of a stored row; and the equality of JSON values and rows, which ignores the order
  of fields and the sign of a floating-point zero.
\<close>

section \<open>Equality of values\<close>

definition number_eq :: "number \<Rightarrow> number \<Rightarrow> bool" where
  "number_eq a b = (case (a, b) of
       (Float x, Float y) \<Rightarrow> x = y \<or> x + x = 0 \<and> y + y = 0
     | _ \<Rightarrow> a = b)"

fun json_eq :: "json \<Rightarrow> json \<Rightarrow> bool"
  and jsons_eq :: "json list \<Rightarrow> json list \<Rightarrow> bool"
  and fields_eq :: "(string \<times> json) list \<Rightarrow> (string \<times> json) list \<Rightarrow> bool" where
  "json_eq (JNumber a) w = (case w of JNumber b \<Rightarrow> number_eq a b | _ \<Rightarrow> False)"
| "json_eq (JArray xs) w = (case w of JArray ys \<Rightarrow> jsons_eq xs ys | _ \<Rightarrow> False)"
| "json_eq (JObject xs) w = (case w of JObject ys \<Rightarrow> length xs = length ys \<and> fields_eq xs ys | _ \<Rightarrow> False)"
| "json_eq v w = (v = w)"
| "jsons_eq [] ys = (ys = [])"
| "jsons_eq (x # xs) ys = (case ys of [] \<Rightarrow> False | y # ys' \<Rightarrow> json_eq x y \<and> jsons_eq xs ys')"
| "fields_eq [] ys = True"
| "fields_eq ((k, v) # xs) ys = ((case map_of ys k of None \<Rightarrow> False | Some w \<Rightarrow> json_eq v w) \<and> fields_eq xs ys)"

text \<open>\<open>==\<close> of two rows, which are hash maps.\<close>

definition row_eq :: "row \<Rightarrow> row \<Rightarrow> bool" where
  "row_eq r s \<longleftrightarrow> length r = length s \<and> fields_eq r s"

text \<open>\<open>==\<close> of two column lists.  (Only a list with a repeated object key, which no map holds, is unequal to itself.)\<close>

definition column_eq :: "schema_column \<Rightarrow> schema_column \<Rightarrow> bool" where
  "column_eq c d \<longleftrightarrow> c\<lparr>sc_default := None\<rparr> = d\<lparr>sc_default := None\<rparr> \<and> (case (sc_default c, sc_default d) of
       (None, None) \<Rightarrow> True
     | (Some v, Some w) \<Rightarrow> json_eq v w
     | _ \<Rightarrow> False)"

definition columns_eq :: "schema_column list \<Rightarrow> schema_column list \<Rightarrow> bool" where
  "columns_eq cs ds \<longleftrightarrow> cs = ds \<or> list_all2 column_eq cs ds"

section \<open>Integers in JSON numbers\<close>

text \<open>
  A double with exponent field \<open>e\<close> and fraction \<open>m\<close>: it is integral and at most \<open>2 ^ 53\<close> in
  absolute value in the cases below, and the magnitude is the result.
\<close>

definition f64_magnitude :: "u64 \<Rightarrow> nat option" where
  "f64_magnitude bits = (let e = unat (drop_bit 52 bits AND 0x7FF); m = unat (bits AND mask 52) in
     if e = 0 \<and> m = 0 then Some 0
     else if e < 1023 then None
     else if e < 1075 then
       (let p = 2 ^ (1075 - e); n = 2 ^ 52 + m in if n mod p = 0 then Some (n div p) else None)
     else if e = 1075 then Some (2 ^ 52 + m)
     else if e = 1076 \<and> m = 0 then Some (2 ^ 53)
     else None)"

definition f64_int :: "u64 \<Rightarrow> u64 option" where
  "f64_int bits = map_option (\<lambda>n. if bit bits 63 then - word_of_nat n else word_of_nat n) (f64_magnitude bits)"

text \<open>An integer of \<open>i64\<close> is its 64-bit word.\<close>

definition scalar_int :: "json \<Rightarrow> u64 option" where
  "scalar_int v = (case v of
       JNumber (PosInt n) \<Rightarrow> if unat n < 2 ^ 63 then Some n else None
     | JNumber (NegInt n) \<Rightarrow> Some n
     | JNumber (Float bits) \<Rightarrow> f64_int bits
     | _ \<Rightarrow> None)"

definition row_int :: "row \<Rightarrow> string \<Rightarrow> u64 option" where
  "row_int r column = Option.bind (map_of r column) scalar_int"

section \<open>Index keys\<close>

fun position :: "('a \<Rightarrow> bool) \<Rightarrow> 'a list \<Rightarrow> nat option" where
  "position P [] = None"
| "position P (x # xs) = (if P x then Some 0 else map_option Suc (position P xs))"

text \<open>The labels of an enum type: text without a zero byte, at most 63 bytes, all different.\<close>

fun labels_ok :: "string list \<Rightarrow> json list \<Rightarrow> bool" where
  "labels_ok seen [] = True"
| "labels_ok seen (v # vs) = (case as_str v of
       None \<Rightarrow> False
     | Some label \<Rightarrow> length label \<le> 63 \<and> CHR 0x00 \<notin> set label \<and> label \<notin> set seen \<and> labels_ok (label # seen) vs)"

definition enum_rank :: "json \<Rightarrow> u64 option" where
  "enum_rank v = (case as_object v of
       Some [(field, payload)] \<Rightarrow>
        (if field \<noteq> ''__chusql_enum_v1'' then None
         else (case as_array payload of
           Some [type_name, labels, value] \<Rightarrow>
             (case (as_str type_name, as_array labels, as_str value) of
               (Some t, Some ls, Some label) \<Rightarrow>
                 if t = [] \<or> \<not> labels_ok [] ls then None
                 else Option.bind (position (\<lambda>l. as_str l = Some label) ls)
                        (\<lambda>rank. if rank < 2 ^ 63 then Some (word_of_nat rank) else None)
             | _ \<Rightarrow> None)
         | _ \<Rightarrow> None))
     | _ \<Rightarrow> None)"

definition string_bytes :: "string \<Rightarrow> bytes" where
  "string_bytes s = map of_char s"

definition value_key :: "json \<Rightarrow> bytes option" where
  "value_key v = (case v of
       JNumber _ \<Rightarrow> map_option key_of (scalar_int v)
     | JString s \<Rightarrow> Some (string_bytes s)
     | JBool b \<Rightarrow> Some [if b then 1 else 0]
     | JObject _ \<Rightarrow> map_option key_of (enum_rank v)
     | _ \<Rightarrow> None)"

definition row_key :: "row \<Rightarrow> string \<Rightarrow> bytes option" where
  "row_key r column = Option.bind (map_of r column) value_key"

section \<open>Projection\<close>

text \<open>
  \<open>decode_row\<close> after the JSON library has split the object into its fields, which may repeat a
  key: the selected fields that are not hidden, a later field replacing an earlier one.
\<close>

definition decode_row :: "row codec \<Rightarrow> bytes \<Rightarrow> string list option \<Rightarrow> string list \<Rightarrow> row outcome" where
  "decode_row object bytes columns hidden = (case decode object bytes of
       None \<Rightarrow> Err (other_error ''row'')
     | Some fs \<Rightarrow> Ok (foldl (\<lambda>r f. AList.update (fst f) (snd f) r) []
         (filter (\<lambda>f. fst f \<notin> set hidden \<and> (case columns of None \<Rightarrow> True | Some cs \<Rightarrow> fst f \<in> set cs)) fs)))"

section \<open>Properties\<close>

lemma fields_eq_iff:
  "fields_eq xs ys \<longleftrightarrow> (\<forall>(k, v) \<in> set xs. \<exists>w. map_of ys k = Some w \<and> json_eq v w)"
  by (induction xs) (auto split: option.splits)

lemma number_eq_trans: "number_eq a b \<Longrightarrow> number_eq b c \<Longrightarrow> number_eq a c"
  by (auto simp: number_eq_def split: number.splits)

lemma json_eq_trans: "json_eq a b \<Longrightarrow> json_eq b c \<Longrightarrow> json_eq a c"
  and jsons_eq_trans: "jsons_eq xs ys \<Longrightarrow> jsons_eq ys zs \<Longrightarrow> jsons_eq xs zs"
  and fields_eq_trans: "fields_eq fs gs \<Longrightarrow> fields_eq gs hs \<Longrightarrow> fields_eq fs hs"
proof (induction a b and xs ys and fs gs arbitrary: c and zs and hs rule: json_eq_jsons_eq_fields_eq.induct)
  case (1 a w)
  then show ?case using number_eq_trans by (auto split: json.splits)
next
  case (6 x xs ys)
  then show ?case by (auto split: list.splits)
next
  case (8 k v xs ys)
  then obtain w where w: "map_of ys k = Some w" "json_eq v w" "fields_eq xs ys" by (auto split: option.splits)
  then obtain u where "map_of hs k = Some u" "json_eq w u"
    using fields_eq_iff [of ys hs] 8(4) map_of_SomeD [OF w(1)] by blast
  then show ?case using 8 w by auto
qed (auto split: json.splits)

lemma column_eq_trans: "column_eq a b \<Longrightarrow> column_eq b c \<Longrightarrow> column_eq a c"
  using json_eq_trans by (auto simp: column_eq_def split: option.splits)

lemma columns_eq_refl [simp]: "columns_eq cs cs"
  by (simp add: columns_eq_def)

lemma columns_eq_trans: "columns_eq a b \<Longrightarrow> columns_eq b c \<Longrightarrow> columns_eq a c"
  unfolding columns_eq_def using list_all2_trans [of column_eq column_eq column_eq] column_eq_trans by metis

end
