(* ===== verification/Heap_Table.thy ===== *)
theory Heap_Table
  imports Btree Heap_Keys
begin

text \<open>
  The heap table of \<open>heap.rs\<close>: a page file of slotted pages, the hidden columns, and the B+ tree
  indexes.  A position is a page number and a slot.  The operations on the heap file alone are
  commands on its page file and are lifted to the table; an index operation is a command on the page
  file of its tree.  \<open>object\<close> is the JSON library's codec of rows, \<open>c\<close> that of the page metadata,
  \<open>fuel\<close> bounds the walk through a tree.  Files are passed as the disk state found at their path.
\<close>

section \<open>The table\<close>

record named_index =
  ni_column :: string
  ni_order :: nat
  ni_tree :: page_file

record heap_table =
  ht_hidden :: "string list"
  ht_file :: page_file
  ht_indexes :: "named_index list"

definition DUPLICATE_ID :: string where
  "DUPLICATE_ID = ''duplicate value on the id index''"

definition on_file :: "(page_file, 'a) cmd \<Rightarrow> (heap_table, 'a) cmd" where
  "on_file m t = (case m (ht_file t) of (r, f) \<Rightarrow> (r, t\<lparr>ht_file := f\<rparr>))"

text \<open>\<open>self.indexes[i].tree\<close>; the command gets the order of the tree.\<close>

definition on_index :: "nat \<Rightarrow> (nat \<Rightarrow> (page_file, 'a) cmd) \<Rightarrow> (heap_table, 'a) cmd" where
  "on_index i m t = (if length (ht_indexes t) \<le> i then (Panic, t)
     else (let x = ht_indexes t ! i in case m (ni_order x) (ni_tree x) of
       (r, f) \<Rightarrow> (r, t\<lparr>ht_indexes := (ht_indexes t)[i := x\<lparr>ni_tree := f\<rparr>]\<rparr>)))"

text \<open>A loop that collects one value per element.\<close>

fun mapM :: "'a list \<Rightarrow> ('a \<Rightarrow> ('s, 'b) cmd) \<Rightarrow> ('s, 'b list) cmd" where
  "mapM [] f = okM []"
| "mapM (x # xs) f = bindM (f x) (\<lambda>y. bindM (mapM xs f) (\<lambda>ys. okM (y # ys)))"

text \<open>A closure on a page that may panic, as the argument of \<open>update_page\<close>.\<close>

definition edit :: "(page \<Rightarrow> ('r \<times> page) outcome) \<Rightarrow> page \<Rightarrow> 'r outcome \<times> page" where
  "edit f p = (case f p of Ok (r, q) \<Rightarrow> (Ok r, q) | Err e \<Rightarrow> (Err e, p) | Panic \<Rightarrow> (Panic, p))"

section \<open>Rows in the heap file\<close>

definition encode_row :: "row codec \<Rightarrow> row \<Rightarrow> nat \<Rightarrow> bytes outcome" where
  "encode_row object r page_size = (let tuple = encode object r in
     if page_size < HEADER_SIZE + SLOT_SIZE + length tuple
     then Err (other_error (''tuple too large: '' @ dec_digits (length tuple) @ '' bytes''))
     else Ok tuple)"

definition compact_insert :: "bytes \<Rightarrow> page \<Rightarrow> (u16 option \<times> page) outcome" where
  "compact_insert tuple p = (case compact_page p of
       Ok (_, q) \<Rightarrow> insert_tuple tuple q
     | Err e \<Rightarrow> Err e
     | Panic \<Rightarrow> Panic)"

definition insert_last :: "bytes \<Rightarrow> page_id \<Rightarrow> (page_file, u16 option) cmd" where
  "insert_last tuple n = (if n = 0 then okM None
     else bindM (update_page (n - 1) (edit (compact_insert tuple))) liftM)"

definition insert_new :: "bytes \<Rightarrow> (page_file, page_id \<times> u16) cmd" where
  "insert_new tuple = bindM append_page (\<lambda>p. bindM (liftM (insert_tuple tuple p)) (\<lambda>(slot, q).
     case slot of
       None \<Rightarrow> panicM
     | Some s \<Rightarrow> seqM (write_page q) (okM (pg_id p, s))))"

definition insert_returning_position :: "row codec \<Rightarrow> row \<Rightarrow> (page_file, page_id \<times> u16) cmd" where
  "insert_returning_position object r = bindM (getM pf_page_size) (\<lambda>psz.
     bindM (liftM (encode_row object r psz)) (\<lambda>tuple.
     bindM num_pages (\<lambda>n.
     bindM (insert_last tuple n) (\<lambda>slot. case slot of
         Some s \<Rightarrow> okM (n - 1, s)
       | None \<Rightarrow> insert_new tuple))))"

definition read_slot :: "row codec \<Rightarrow> string list \<Rightarrow> u16 \<Rightarrow> page \<Rightarrow> row option outcome" where
  "read_slot object hidden slot p = (case tuple_bytes p slot of
       Ok None \<Rightarrow> Ok None
     | Ok (Some bs) \<Rightarrow> (case decode_row object bs None hidden of
           Ok r \<Rightarrow> Ok (Some r)
         | Err e \<Rightarrow> Err e
         | Panic \<Rightarrow> Panic)
     | Err e \<Rightarrow> Err e
     | Panic \<Rightarrow> Panic)"

definition read_at :: "row codec \<Rightarrow> string list \<Rightarrow> page_id \<Rightarrow> u16 \<Rightarrow> (page_file, row option) cmd" where
  "read_at object hidden i slot = bindM (with_page i (read_slot object hidden slot)) liftM"

definition delete_compact :: "u16 \<Rightarrow> page \<Rightarrow> (bool \<times> page) outcome" where
  "delete_compact slot p = (case delete_tuple slot p of
       Ok (False, q) \<Rightarrow> Ok (False, q)
     | Ok (True, q) \<Rightarrow> (case compact_if_fragmented q of
           Ok (_, q') \<Rightarrow> Ok (True, q')
         | Err e \<Rightarrow> Err e
         | Panic \<Rightarrow> Panic)
     | Err e \<Rightarrow> Err e
     | Panic \<Rightarrow> Panic)"

definition delete_slot :: "page_id \<Rightarrow> u16 \<Rightarrow> (page_file, bool) cmd" where
  "delete_slot i slot = bindM (update_page i (edit (delete_compact slot))) liftM"

text \<open>The closure of a scan on the page \<open>i\<close> of the loop: the live slots in order, decoded.\<close>

fun page_rows :: "row codec \<Rightarrow> string list option \<Rightarrow> string list \<Rightarrow> page_id \<Rightarrow> page \<Rightarrow> u16 list \<Rightarrow>
    (page_id \<times> u16 \<times> row) list outcome" where
  "page_rows object columns hidden i p [] = Ok []"
| "page_rows object columns hidden i p (slot # slots) = (case tuple_bytes p slot of
       Ok None \<Rightarrow> page_rows object columns hidden i p slots
     | Ok (Some bs) \<Rightarrow> (case decode_row object bs columns hidden of
           Ok r \<Rightarrow> (case page_rows object columns hidden i p slots of
               Ok rs \<Rightarrow> Ok ((i, slot, r) # rs)
             | e \<Rightarrow> e)
         | Err e \<Rightarrow> Err e
         | Panic \<Rightarrow> Panic)
     | Err e \<Rightarrow> Err e
     | Panic \<Rightarrow> Panic)"

definition scan_page :: "row codec \<Rightarrow> string list option \<Rightarrow> string list \<Rightarrow> page_id \<Rightarrow>
    (page_file, (page_id \<times> u16 \<times> row) list) cmd" where
  "scan_page object columns hidden i = bindM (with_page i (\<lambda>p.
     if length (pg_data p) < HEADER_SIZE then Panic
     else page_rows object columns hidden i p (map word_of_nat (iter_slots p)))) liftM"

text \<open>The pages \<open>from..to\<close> of the range loop.\<close>

definition page_range :: "page_id \<Rightarrow> page_id \<Rightarrow> page_id list" where
  "page_range from to = map word_of_nat [unat from..<unat to]"

definition scan_pages_with_positions :: "row codec \<Rightarrow> string list \<Rightarrow> string list option \<Rightarrow> page_id \<Rightarrow> page_id \<Rightarrow>
    (page_file, (page_id \<times> u16 \<times> row) list) cmd" where
  "scan_pages_with_positions object hidden columns from to = bindM num_pages (\<lambda>n.
     bindM (mapM (page_range from (min to n)) (scan_page object columns hidden)) (\<lambda>parts. okM (concat parts)))"

definition scan_projected_with_positions :: "row codec \<Rightarrow> string list \<Rightarrow> string list option \<Rightarrow>
    (page_file, (page_id \<times> u16 \<times> row) list) cmd" where
  "scan_projected_with_positions object hidden columns =
     bindM num_pages (\<lambda>n. scan_pages_with_positions object hidden columns 0 n)"

definition scan_with_positions :: "row codec \<Rightarrow> string list \<Rightarrow> (page_file, (page_id \<times> u16 \<times> row) list) cmd" where
  "scan_with_positions object hidden = scan_projected_with_positions object hidden None"

definition row_part :: "page_id \<times> u16 \<times> row \<Rightarrow> row" where
  "row_part e = snd (snd e)"

definition scan_columns :: "row codec \<Rightarrow> string list \<Rightarrow> string list option \<Rightarrow> (page_file, row list) cmd" where
  "scan_columns object hidden columns =
     bindM (scan_projected_with_positions object hidden columns) (\<lambda>es. okM (map row_part es))"

definition scan_table :: "row codec \<Rightarrow> string list \<Rightarrow> (page_file, row list) cmd" where
  "scan_table object hidden = scan_columns object hidden None"

definition scan_columns_pages :: "row codec \<Rightarrow> string list \<Rightarrow> string list option \<Rightarrow> page_id \<Rightarrow> page_id \<Rightarrow>
    (page_file, row list) cmd" where
  "scan_columns_pages object hidden columns from to =
     bindM (scan_pages_with_positions object hidden columns from to) (\<lambda>es. okM (map row_part es))"

text \<open>The body of the loop of \<open>compact_pages\<close>: the bytes reclaimed on one page.\<close>

definition compact_one :: "page_id \<Rightarrow> (page_file, nat) cmd" where
  "compact_one i = bindM (bindM (with_page i dead_bytes) liftM) (\<lambda>dead.
     if dead = 0 then okM 0 else bindM (update_page i (edit compact_page)) liftM)"

definition compact_pages :: "(page_file, nat) cmd" where
  "compact_pages = bindM num_pages (\<lambda>n.
     bindM (mapM (page_range 0 n) compact_one) (\<lambda>ns. okM (sum_list ns)))"

section \<open>Indexes\<close>

definition has_index :: "string \<Rightarrow> heap_table \<Rightarrow> bool" where
  "has_index column t = list_ex (\<lambda>x. ni_column x = column) (ht_indexes t)"

definition find_index :: "string \<Rightarrow> heap_table \<Rightarrow> nat option" where
  "find_index column t = position (\<lambda>x. ni_column x = column) (ht_indexes t)"

text \<open>\<open>attach_index\<close> on the files at the path of the index and the table.\<close>

definition attach_index :: "pages_state codec \<Rightarrow> string \<Rightarrow> nat \<Rightarrow> nat \<Rightarrow> nat \<Rightarrow> (page_file \<times> heap_table, unit) cmd" where
  "attach_index c column page_size order pool_size s = (case s of (files, t) \<Rightarrow>
     (case open_btree c page_size order pool_size files of
        (Ok _, f) \<Rightarrow> (Ok (), f, t\<lparr>ht_indexes := ht_indexes t @ [\<lparr>ni_column = column, ni_order = order, ni_tree = f\<rparr>]\<rparr>)
      | (Err e, f) \<Rightarrow> (Err e, f, t)
      | (Panic, f) \<Rightarrow> (Panic, f, t)))"

definition on_table :: "(heap_table, 'a) cmd \<Rightarrow> (page_file \<times> heap_table, 'a) cmd" where
  "on_table m s = (case m (snd s) of (r, t) \<Rightarrow> (r, fst s, t))"

definition on_files :: "(page_file, 'a) cmd \<Rightarrow> (page_file \<times> heap_table, 'a) cmd" where
  "on_files m s = (case m (fst s) of (r, f) \<Rightarrow> (r, f, snd s))"

text \<open>\<open>page_wal::remove\<close>: the three files beside the data file, then the data file.\<close>

definition remove_sidecars :: "('z disk_scheme, unit) cmd" where
  "remove_sidecars = seqM (io_call (\<lambda>s. s\<lparr>d_journal := None\<rparr>) (\<lambda>_. id))
    (seqM (io_call (\<lambda>s. s\<lparr>d_meta := None\<rparr>) (\<lambda>_. id))
          (io_call (\<lambda>s. s\<lparr>d_tmp := None\<rparr>) (\<lambda>_. id)))"

definition remove_files :: "(page_file, unit) cmd" where
  "remove_files = seqM remove_sidecars
    (seqM (io_call (\<lambda>s. s\<lparr>d_data := [], pf_exists := False\<rparr>) (\<lambda>_. id)) io_check)"

text \<open>The loop of \<open>build_index\<close> that collects the entries.\<close>

fun index_entries :: "string \<Rightarrow> nat \<Rightarrow> nat \<Rightarrow> bytes list \<Rightarrow> (page_id \<times> u16 \<times> row) list \<Rightarrow> (bytes \<times> u64) list outcome" where
  "index_entries column page_size order seen [] = Ok []"
| "index_entries column page_size order seen ((i, slot, r) # es) = (case row_key r column of
       None \<Rightarrow> index_entries column page_size order seen es
     | Some k \<Rightarrow> (case check_key k page_size order of
           Ok _ \<Rightarrow>
            (if column = ''id'' \<and> k \<in> set seen
             then Err (IoError InvalidInput (''column '' @ [CHR 0x22] @ column @ [CHR 0x22] @ '' has duplicate values''))
             else (case index_entries column page_size order (k # seen) es of
                 Ok rest \<Rightarrow> Ok ((k, pack_position i slot) # rest)
               | e \<Rightarrow> e))
         | Err e \<Rightarrow> Err e
         | Panic \<Rightarrow> Panic))"

definition insert_entries :: "nat \<Rightarrow> nat \<Rightarrow> (bytes \<times> u64) list \<Rightarrow> (heap_table, unit) cmd" where
  "insert_entries fuel i es = forM es (\<lambda>(k, pos). on_index i (\<lambda>order. insert_tree fuel order k pos))"

definition build_index :: "pages_state codec \<Rightarrow> row codec \<Rightarrow> nat \<Rightarrow> string \<Rightarrow> nat \<Rightarrow> nat \<Rightarrow> nat \<Rightarrow>
    (page_file \<times> heap_table, unit) cmd" where
  "build_index c object fuel column page_size order pool_size = bindM (getM snd) (\<lambda>t.
     if has_index column t
     then errM (IoError AlreadyExists (''index on column '' @ [CHR 0x22] @ column @ [CHR 0x22] @ '' already exists''))
     else bindM (on_table (on_file (scan_with_positions object (ht_hidden t)))) (\<lambda>rows.
          bindM (liftM (index_entries column page_size order [] rows)) (\<lambda>entries.
          seqM (attach_index c column page_size order pool_size)
         (bindM (getM (\<lambda>s. length (ht_indexes (snd s)) - 1)) (\<lambda>i.
          seqM (on_table (on_index i clear))
               (on_table (insert_entries fuel i entries)))))))"

definition index_empty :: "nat \<Rightarrow> string \<Rightarrow> (heap_table, bool) cmd" where
  "index_empty fuel column = bindM (getM (find_index column)) (\<lambda>r. case r of
       None \<Rightarrow> okM False
     | Some i \<Rightarrow> on_index i (\<lambda>_. is_empty fuel))"

definition key_entries :: "string \<Rightarrow> (page_id \<times> u16 \<times> row) list \<Rightarrow> (bytes \<times> u64) list" where
  "key_entries column = List.map_filter (\<lambda>(i, slot, r). map_option (\<lambda>k. (k, pack_position i slot)) (row_key r column))"

definition fill_index :: "row codec \<Rightarrow> nat \<Rightarrow> string \<Rightarrow> (heap_table, unit) cmd" where
  "fill_index object fuel column = bindM (getM ht_hidden) (\<lambda>hidden.
     bindM (on_file (scan_with_positions object hidden)) (\<lambda>rows.
     bindM (getM (find_index column)) (\<lambda>r. case r of
       None \<Rightarrow> okM ()
     | Some i \<Rightarrow> insert_entries fuel i (key_entries column rows))))"

definition detach_index :: "string \<Rightarrow> heap_table \<Rightarrow> bool \<times> heap_table" where
  "detach_index column t = (case find_index column t of
       None \<Rightarrow> (False, t)
     | Some i \<Rightarrow> (True, t\<lparr>ht_indexes := vec_remove i (ht_indexes t)\<rparr>))"

definition set_hidden_columns :: "string list \<Rightarrow> heap_table \<Rightarrow> heap_table" where
  "set_hidden_columns columns t = t\<lparr>ht_hidden := columns\<rparr>"

definition hide_column :: "string \<Rightarrow> heap_table \<Rightarrow> heap_table" where
  "hide_column column t = (let t' = snd (detach_index column t) in t'\<lparr>ht_hidden := List.insert column (ht_hidden t')\<rparr>)"

definition flush_table :: "pages_state codec \<Rightarrow> (heap_table, unit) cmd" where
  "flush_table c = bindM (getM (\<lambda>t. length (ht_indexes t))) (\<lambda>n.
     seqM (forM [0..<n] (\<lambda>i. on_index i (\<lambda>_. flush c))) (on_file (flush c)))"

text \<open>One index of \<open>open_with_indexes\<close>: reopened from nothing if its format is unknown; filled if empty.\<close>

definition open_one :: "pages_state codec \<Rightarrow> row codec \<Rightarrow> nat \<Rightarrow> nat \<Rightarrow> nat \<Rightarrow> nat \<Rightarrow> string \<Rightarrow>
    (page_file \<times> heap_table, bool) cmd" where
  "open_one c object fuel page_size order pool_size column s =
     seqM (\<lambda>s. case attach_index c column page_size order pool_size s of
             (Err e, s') \<Rightarrow> if err_kind e = InvalidData
               then seqM (on_files remove_files) (attach_index c column page_size order pool_size) s'
               else (Err e, s')
           | r \<Rightarrow> r)
    (bindM (on_table (index_empty fuel column)) (\<lambda>fresh.
       if fresh then seqM (on_table (fill_index object fuel column)) (okM True) else okM False)) s"

text \<open>
  The result of opening carries the table and the index files left over: none on success, the one
  that failed and those not reached otherwise.
\<close>

fun open_indexes :: "pages_state codec \<Rightarrow> row codec \<Rightarrow> nat \<Rightarrow> nat \<Rightarrow> nat \<Rightarrow> nat \<Rightarrow> heap_table \<Rightarrow>
    (string \<times> page_file) list \<Rightarrow> bool outcome \<times> heap_table \<times> (string \<times> page_file) list" where
  "open_indexes c object fuel page_size order pool_size t [] = (Ok False, t, [])"
| "open_indexes c object fuel page_size order pool_size t ((column, files) # xs) =
     (case open_one c object fuel page_size order pool_size column (files, t) of
        (Ok filled, _, t') \<Rightarrow> (case open_indexes c object fuel page_size order pool_size t' xs of
            (Ok later, r) \<Rightarrow> (Ok (filled \<or> later), r)
          | (Err e, r) \<Rightarrow> (Err e, r)
          | (Panic, r) \<Rightarrow> (Panic, r))
      | (Err e, f, t') \<Rightarrow> (Err e, t', (column, f) # xs)
      | (Panic, f, t') \<Rightarrow> (Panic, t', (column, f) # xs))"

definition open_heap :: "pages_state codec \<Rightarrow> nat \<Rightarrow> nat \<Rightarrow> page_file \<Rightarrow> unit outcome \<times> heap_table" where
  "open_heap c page_size pool_size files = (case with_options c page_size pool_size files of
       (r, f) \<Rightarrow> (r, \<lparr>ht_hidden = [], ht_file = f, ht_indexes = []\<rparr>))"

definition open_with_indexes :: "pages_state codec \<Rightarrow> row codec \<Rightarrow> nat \<Rightarrow> nat \<Rightarrow> nat \<Rightarrow> nat \<Rightarrow> page_file \<Rightarrow>
    (string \<times> page_file) list \<Rightarrow> unit outcome \<times> heap_table \<times> (string \<times> page_file) list" where
  "open_with_indexes c object fuel page_size order pool_size files indexes =
     (case open_heap c page_size pool_size files of
        (Ok _, t) \<Rightarrow> (case open_indexes c object fuel page_size order pool_size t indexes of
            (Ok filled, t', xs) \<Rightarrow> (case (if filled then flush_table c else okM ()) t' of (r, t'') \<Rightarrow> (r, t'', xs))
          | (Err e, t', xs) \<Rightarrow> (Err e, t', xs)
          | (Panic, t', xs) \<Rightarrow> (Panic, t', xs))
      | (Err e, t) \<Rightarrow> (Err e, t, indexes)
      | (Panic, t) \<Rightarrow> (Panic, t, indexes))"

definition open_indexed :: "pages_state codec \<Rightarrow> row codec \<Rightarrow> nat \<Rightarrow> nat \<Rightarrow> nat \<Rightarrow> nat \<Rightarrow> page_file \<Rightarrow> page_file \<Rightarrow>
    unit outcome \<times> heap_table \<times> (string \<times> page_file) list" where
  "open_indexed c object fuel page_size order pool_size files index_files =
     open_with_indexes c object fuel page_size order pool_size files [(''id'', index_files)]"

definition check_index_key :: "row \<Rightarrow> string \<Rightarrow> nat \<Rightarrow> nat \<Rightarrow> unit outcome" where
  "check_index_key r column page_size order = (case row_key r column of
       None \<Rightarrow> Ok ()
     | Some k \<Rightarrow> check_key k page_size order)"

section \<open>Rows with their indexes\<close>

text \<open>The first loop of \<open>insert_row_returning_position\<close>: the keys to add, checked.\<close>

fun pending_keys :: "nat \<Rightarrow> row \<Rightarrow> nat \<Rightarrow> string list \<Rightarrow> (heap_table, (nat \<times> bytes) list) cmd" where
  "pending_keys fuel r i [] = okM []"
| "pending_keys fuel r i (column # columns) = (case row_key r column of
       None \<Rightarrow> pending_keys fuel r (Suc i) columns
     | Some k \<Rightarrow> seqM (on_index i (\<lambda>order. validate_key order k))
         (bindM (if column = ''id'' then on_index i (\<lambda>_. get_first fuel k) else okM None) (\<lambda>found.
          if found \<noteq> None then errM (IoError InvalidInput DUPLICATE_ID)
          else bindM (pending_keys fuel r (Suc i) columns) (\<lambda>ks. okM ((i, k) # ks)))))"

definition insert_row_returning_position :: "row codec \<Rightarrow> nat \<Rightarrow> row \<Rightarrow> (heap_table, page_id \<times> u16) cmd" where
  "insert_row_returning_position object fuel r = bindM (getM (\<lambda>t. map ni_column (ht_indexes t))) (\<lambda>columns.
     bindM (pending_keys fuel r 0 columns) (\<lambda>pending.
     bindM (on_file (insert_returning_position object r)) (\<lambda>(i, slot).
     seqM (forM pending (\<lambda>(x, k). on_index x (\<lambda>order. insert_tree fuel order k (pack_position i slot))))
          (okM (i, slot)))))"

definition insert_row :: "row codec \<Rightarrow> nat \<Rightarrow> row \<Rightarrow> (heap_table, unit) cmd" where
  "insert_row object fuel r = seqM (insert_row_returning_position object fuel r) (okM ())"

definition insert_rows :: "row codec \<Rightarrow> nat \<Rightarrow> row list \<Rightarrow> (heap_table, unit) cmd" where
  "insert_rows object fuel rs = forM rs (insert_row object fuel)"

definition id_key_count :: "nat \<Rightarrow> bytes \<Rightarrow> (heap_table, nat) cmd" where
  "id_key_count fuel key = bindM (getM (find_index ''id'')) (\<lambda>r. case r of
       None \<Rightarrow> errM (other_error ''missing id index'')
     | Some i \<Rightarrow> bindM (on_index i (\<lambda>_. get_all fuel key)) (\<lambda>vs. okM (length vs)))"

text \<open>The rows at the given packed positions; a position without a row is skipped.\<close>

definition rows_at :: "row codec \<Rightarrow> u64 list \<Rightarrow> (heap_table, row list) cmd" where
  "rows_at object ps = bindM (getM ht_hidden) (\<lambda>hidden.
     bindM (mapM ps (\<lambda>pos. case unpack_position pos of (i, slot) \<Rightarrow> on_file (read_at object hidden i slot)))
       (\<lambda>rs. okM (List.map_filter id rs)))"

definition get_all_by_bytes :: "row codec \<Rightarrow> nat \<Rightarrow> string \<Rightarrow> bytes \<Rightarrow> (heap_table, row list) cmd" where
  "get_all_by_bytes object fuel column key = bindM (getM (find_index column)) (\<lambda>r. case r of
       None \<Rightarrow> okM []
     | Some i \<Rightarrow> bindM (on_index i (\<lambda>_. get_all fuel key)) (rows_at object))"

definition get_by_bytes :: "row codec \<Rightarrow> nat \<Rightarrow> string \<Rightarrow> bytes \<Rightarrow> (heap_table, row option) cmd" where
  "get_by_bytes object fuel column key =
     bindM (get_all_by_bytes object fuel column key) (\<lambda>rs. okM (case rs of [] \<Rightarrow> None | r # _ \<Rightarrow> Some r))"

definition get_by_column_key :: "row codec \<Rightarrow> nat \<Rightarrow> string \<Rightarrow> u64 \<Rightarrow> (heap_table, row option) cmd" where
  "get_by_column_key object fuel column key = get_by_bytes object fuel column (key_of key)"

definition get_by_key :: "row codec \<Rightarrow> nat \<Rightarrow> u64 \<Rightarrow> (heap_table, row option) cmd" where
  "get_by_key object fuel key = get_by_column_key object fuel ''id'' key"

definition get_by_string_key :: "row codec \<Rightarrow> nat \<Rightarrow> string \<Rightarrow> string \<Rightarrow> (heap_table, row option) cmd" where
  "get_by_string_key object fuel column key = get_by_bytes object fuel column (string_bytes key)"

definition get_all_by_column_key :: "row codec \<Rightarrow> nat \<Rightarrow> string \<Rightarrow> u64 \<Rightarrow> (heap_table, row list) cmd" where
  "get_all_by_column_key object fuel column key = get_all_by_bytes object fuel column (key_of key)"

definition get_all_by_string_key :: "row codec \<Rightarrow> nat \<Rightarrow> string \<Rightarrow> string \<Rightarrow> (heap_table, row list) cmd" where
  "get_all_by_string_key object fuel column key = get_all_by_bytes object fuel column (string_bytes key)"

text \<open>A bound of \<open>scan_range\<close>: its key and whether the key itself belongs to the range.\<close>

definition bound_key :: "(json \<times> bool) option \<Rightarrow> (bytes \<times> bool) option" where
  "bound_key b = Option.bind b (\<lambda>(v, inclusive). map_option (\<lambda>k. (k, inclusive)) (value_key v))"

definition below :: "(bytes \<times> bool) option \<Rightarrow> bytes \<Rightarrow> bool" where
  "below lo key = (case lo of None \<Rightarrow> False | Some (bound, inclusive) \<Rightarrow> if inclusive then key < bound else key \<le> bound)"

definition above :: "(bytes \<times> bool) option \<Rightarrow> bytes \<Rightarrow> bool" where
  "above hi key = (case hi of None \<Rightarrow> False | Some (bound, inclusive) \<Rightarrow> if inclusive then bound < key else bound \<le> key)"

definition scan_range :: "row codec \<Rightarrow> nat \<Rightarrow> string \<Rightarrow> (json \<times> bool) option \<Rightarrow> (json \<times> bool) option \<Rightarrow>
    (heap_table, row list option) cmd" where
  "scan_range object fuel column lo hi = bindM (getM (find_index column)) (\<lambda>r. case r of
       None \<Rightarrow> okM None
     | Some i \<Rightarrow> (let lo_bound = bound_key lo; hi_bound = bound_key hi in
         bindM (on_index i (\<lambda>_. scan_tree fuel (map_option fst lo_bound) (map_option fst hi_bound))) (\<lambda>pairs.
         bindM (rows_at object (map snd (filter (\<lambda>e. \<not> below lo_bound (fst e) \<and> \<not> above hi_bound (fst e)) pairs)))
           (\<lambda>rows. okM (Some rows)))))"

definition delete_at :: "row codec \<Rightarrow> nat \<Rightarrow> page_id \<Rightarrow> u16 \<Rightarrow> (heap_table, row option) cmd" where
  "delete_at object fuel i slot = bindM (getM ht_hidden) (\<lambda>hidden.
     bindM (on_file (read_at object hidden i slot)) (\<lambda>r.
     bindM (on_file (delete_slot i slot)) (\<lambda>existed.
       if \<not> existed then okM None
       else seqM (case r of
           None \<Rightarrow> okM ()
         | Some found \<Rightarrow> bindM (getM (\<lambda>t. map ni_column (ht_indexes t))) (\<lambda>columns.
             forM (zip [0..<length columns] columns) (\<lambda>(x, column). case row_key found column of
               None \<Rightarrow> okM ()
             | Some k \<Rightarrow> seqM (on_index x (\<lambda>_. delete_tree fuel k (pack_position i slot))) (okM ()))))
         (okM r))))"

definition delete_by_keys :: "row codec \<Rightarrow> nat \<Rightarrow> u64 list \<Rightarrow> (heap_table, row list) cmd" where
  "delete_by_keys object fuel keys = bindM (getM id) (\<lambda>t.
     bindM (case find_index ''id'' t of
         Some x \<Rightarrow> bindM (mapM keys (\<lambda>k. on_index x (\<lambda>_. get_first fuel (key_of k))))
             (\<lambda>ps. okM (map unpack_position (List.map_filter id ps)))
       | None \<Rightarrow> bindM (on_file (scan_with_positions object (ht_hidden t))) (\<lambda>es.
           okM (map (\<lambda>(i, slot, r). (i, slot))
             (filter (\<lambda>(i, slot, r). case row_int r ''id'' of None \<Rightarrow> False | Some k \<Rightarrow> k \<in> set keys) es))))
      (\<lambda>ps. bindM (mapM ps (\<lambda>(i, slot). delete_at object fuel i slot)) (\<lambda>rs. okM (List.map_filter id rs))))"

text \<open>The validation loop of \<open>replace_all\<close> and the insertion of one row.\<close>

definition check_row :: "row codec \<Rightarrow> row \<Rightarrow> (heap_table, unit) cmd" where
  "check_row object r = bindM (getM id) (\<lambda>t. seqM (liftM (encode_row object r (pf_page_size (ht_file t))))
     (forM [0..<length (ht_indexes t)] (\<lambda>x. case row_key r (ni_column (ht_indexes t ! x)) of
         None \<Rightarrow> okM ()
       | Some k \<Rightarrow> on_index x (\<lambda>order. validate_key order k))))"

definition replace_one :: "row codec \<Rightarrow> nat \<Rightarrow> row \<Rightarrow> (heap_table, unit) cmd" where
  "replace_one object fuel r = bindM (on_file (insert_returning_position object r)) (\<lambda>(i, slot).
     bindM (getM (\<lambda>t. map ni_column (ht_indexes t))) (\<lambda>columns.
     forM (zip [0..<length columns] columns) (\<lambda>(x, column). case row_key r column of
         None \<Rightarrow> okM ()
       | Some k \<Rightarrow> on_index x (\<lambda>order. insert_tree fuel order k (pack_position i slot)))))"

definition replace_all :: "row codec \<Rightarrow> nat \<Rightarrow> row list \<Rightarrow> (heap_table, unit) cmd" where
  "replace_all object fuel rs = seqM (forM rs (check_row object))
    (seqM (on_file truncate_file)
    (seqM (bindM (getM (\<lambda>t. length (ht_indexes t))) (\<lambda>n. forM [0..<n] (\<lambda>x. on_index x clear)))
    (forM rs (replace_one object fuel))))"

definition set_lsn_table :: "u64 \<Rightarrow> heap_table \<Rightarrow> heap_table" where
  "set_lsn_table lsn t = t\<lparr>ht_file := set_lsn lsn (ht_file t),
     ht_indexes := map (\<lambda>x. x\<lparr>ni_tree := set_lsn lsn (ni_tree x)\<rparr>) (ht_indexes t)\<rparr>"

end
