(* ===== verification/Heap_Rows.thy ===== *)
theory Heap_Rows
  imports Heap_Table
begin

text \<open>
  The heap file as a store of rows.  \<open>stored s\<close> maps a position (page number and slot) to the bytes
  of its row.  The slotted page and the row store are stated as interfaces: \<open>slotted\<close> is what a page
  offers, interpreted on the heap page; \<open>row_store\<close> is what the file offers, interpreted on the
  commands of the heap table.  Every statement holds for every sequence of I/O failures.
\<close>

section \<open>Loops\<close>

lemma wp_liftM [wp_simps]:
  "wp (liftM r) Q E = (\<lambda>s. case r of Ok a \<Rightarrow> Q a s | Err e \<Rightarrow> E s | Panic \<Rightarrow> False)"
  by (simp add: fun_eq_iff wp_def liftM_def split: outcome.splits)

text \<open>A collecting loop whose body keeps an invariant and relates each element to its value.\<close>

lemma mapM_wp:
  assumes step: "\<And>x s Q. x \<in> set xs \<Longrightarrow> I s \<Longrightarrow> (\<And>y t. I t \<Longrightarrow> R x y \<Longrightarrow> Q y t) \<Longrightarrow> wp (f x) Q E s"
    and I: "I s" and Q: "\<And>ys t. I t \<Longrightarrow> list_all2 R xs ys \<Longrightarrow> Q ys t"
  shows "wp (mapM xs f) Q E s"
  using assms
proof (induction xs arbitrary: s Q)
  case (Cons x xs)
  show ?case
    unfolding mapM.simps wp_simps
    by (rule Cons.prems(1) [OF _ Cons.prems(2)])
       (auto intro!: Cons.IH Cons.prems(1) Cons.prems(3))
qed (simp add: wp_simps)

section \<open>The page interface\<close>

text \<open>
  Pages with numbered slots.  \<open>same p q\<close>: \<open>q\<close> may replace \<open>p\<close> in its file.  \<open>fits r p\<close>: the page
  may hold \<open>r\<close> at all.
\<close>

locale slotted =
  fixes wf :: "'p \<Rightarrow> bool" and same :: "'p \<Rightarrow> 'p \<Rightarrow> bool" and fits :: "'r \<Rightarrow> 'p \<Rightarrow> bool"
    and rows :: "'p \<Rightarrow> 'r option list"
    and insert :: "'r \<Rightarrow> 'p \<Rightarrow> (u16 option \<times> 'p) outcome"
    and delete :: "u16 \<Rightarrow> 'p \<Rightarrow> (bool \<times> 'p) outcome"
    and compact :: "'p \<Rightarrow> (nat \<times> 'p) outcome"
  assumes same_trans: "same p q \<Longrightarrow> same q q' \<Longrightarrow> same p q'"
    and fits_same: "same p q \<Longrightarrow> fits r p \<Longrightarrow> fits r q"
    and insert_law: "wf p \<Longrightarrow> fits r p \<Longrightarrow> \<exists>slot q. insert r p = Ok (slot, q) \<and> wf q \<and> same p q \<and>
      (slot = None \<and> rows q = rows p \<or>
       (\<exists>k. slot = Some k \<and> unat k = length (rows p) \<and> rows q = rows p @ [Some r]))"
    and delete_law: "wf p \<Longrightarrow> \<exists>q. delete k p = Ok (unat k < length (rows p) \<and> rows p ! unat k \<noteq> None, q) \<and>
      wf q \<and> same p q \<and> rows q = (rows p)[unat k := None]"
    and compact_law: "wf p \<Longrightarrow> \<exists>n q. compact p = Ok (n, q) \<and> wf q \<and> same p q \<and> rows q = rows p"
begin

lemma compact_then_insert:
  assumes "wf p" and "fits r p"
  shows "\<exists>slot q. (case compact p of Ok (_, q) \<Rightarrow> insert r q | Err e \<Rightarrow> Err e | Panic \<Rightarrow> Panic) = Ok (slot, q) \<and>
    wf q \<and> same p q \<and> (slot = None \<and> rows q = rows p \<or>
      (\<exists>k. slot = Some k \<and> unat k = length (rows p) \<and> rows q = rows p @ [Some r]))"
proof -
  obtain n q where q: "compact p = Ok (n, q)" "wf q" "same p q" "rows q = rows p" using compact_law [OF assms(1)] by blast
  then show ?thesis using insert_law [OF q(2) fits_same [OF q(3) assms(2)]] by (auto intro: same_trans)
qed

lemma delete_then_compact:
  assumes "wf p" and tidy: "\<And>q. wf q \<Longrightarrow> \<exists>n q'. tidy q = Ok (n :: nat, q') \<and> wf q' \<and> same q q' \<and> rows q' = rows q"
  shows "\<exists>q. (case delete k p of
       Ok (False, q) \<Rightarrow> Ok (False, q)
     | Ok (True, q) \<Rightarrow> (case tidy q of Ok (_, q') \<Rightarrow> Ok (True, q') | Err e \<Rightarrow> Err e | Panic \<Rightarrow> Panic)
     | Err e \<Rightarrow> Err e
     | Panic \<Rightarrow> Panic) = Ok (unat k < length (rows p) \<and> rows p ! unat k \<noteq> None, q) \<and>
    wf q \<and> same p q \<and> rows q = (rows p)[unat k := None]"
proof -
  obtain q where q: "delete k p = Ok (unat k < length (rows p) \<and> rows p ! unat k \<noteq> None, q)"
    "wf q" "same p q" "rows q = (rows p)[unat k := None]" using delete_law [OF assms(1)] by blast
  obtain n q' where q': "tidy q = Ok (n, q')" "wf q'" "same q q'" "rows q' = rows q" using tidy [OF q(2)] by blast
  obtain b where b: "(unat k < length (rows p) \<and> rows p ! unat k \<noteq> None) = b" by blast
  show ?thesis unfolding b using q(1) q(2-4) q' same_trans [OF q(3) q'(3)] unfolding b by (cases b) simp_all
qed

end

definition same_frame :: "page \<Rightarrow> page \<Rightarrow> bool" where
  "same_frame p q \<longleftrightarrow> pg_id q = pg_id p \<and> length (pg_data q) = length (pg_data p)"

definition may_hold :: "bytes \<Rightarrow> page \<Rightarrow> bool" where
  "may_hold tuple p \<longleftrightarrow> tuple \<noteq> [] \<and> length (pg_data p) \<le> 65536"

lemma insert_tuple_slotted:
  assumes wf: "heap_wf p" and fit: "may_hold tuple p"
  shows "\<exists>slot q. insert_tuple tuple p = Ok (slot, q) \<and> heap_wf q \<and> same_frame p q \<and>
    (slot = None \<and> rows_of q = rows_of p \<or>
     (\<exists>k. slot = Some k \<and> unat k = length (rows_of p) \<and> rows_of q = rows_of p @ [Some tuple]))"
proof (cases "free_start p + SLOT_SIZE + length tuple \<le> free_end p")
  case True
  have "length (pg_data p) \<le> 524290" "tuple \<noteq> []" using fit by (simp_all add: may_hold_def)
  from insert_tuple_wf [OF wf this True] show ?thesis by (auto simp: same_frame_def)
next
  case False
  then show ?thesis using insert_tuple_full [OF wf] wf by (auto simp: same_frame_def)
qed

lemma delete_tuple_slotted:
  assumes "heap_wf p"
  shows "\<exists>q. delete_tuple k p = Ok (unat k < length (rows_of p) \<and> rows_of p ! unat k \<noteq> None, q) \<and> heap_wf q \<and>
    same_frame p q \<and> rows_of q = (rows_of p)[unat k := None]"
proof (cases "k < slot_count p")
  case True
  then have lt: "unat k < length (rows_of p)" by (simp add: word_less_nat_alt)
  have "\<exists>q. delete_tuple k p = Ok (rows_of p ! unat k \<noteq> None, q) \<and> heap_wf q \<and> pg_id q = pg_id p \<and>
      length (pg_data q) = length (pg_data p) \<and> rows_of q = (rows_of p)[unat k := None]"
    using delete_tuple_wf [OF assms True] by simp
  with lt show ?thesis by (auto simp: same_frame_def)
next
  case False
  then have ge: "length (rows_of p) \<le> unat k" by (simp add: word_le_nat_alt not_less)
  moreover have "delete_tuple k p = Ok (False, p)"
    using False assms by (simp add: delete_tuple_def heap_wf_def wf_data_def HEADER_SIZE_def not_less)
  moreover have "(rows_of p)[unat k := None] = rows_of p" using ge by (rule list_update_beyond)
  ultimately show ?thesis using assms by (intro exI [of _ p]) (simp add: same_frame_def del: length_rows_of)
qed

interpretation hp: slotted heap_wf same_frame may_hold rows_of insert_tuple delete_tuple compact_page
proof unfold_locales
  fix p assume "heap_wf p"
  from compact_page_wf [OF this] show "\<exists>n q. compact_page p = Ok (n, q) \<and> heap_wf q \<and> same_frame p q \<and> rows_of q = rows_of p"
    by (auto simp: same_frame_def)
qed (use insert_tuple_slotted delete_tuple_slotted in \<open>auto simp: same_frame_def may_hold_def\<close>)

lemma compact_if_fragmented_slotted:
  assumes "heap_wf p"
  shows "\<exists>n q. compact_if_fragmented p = Ok (n, q) \<and> heap_wf q \<and> same_frame p q \<and> rows_of q = rows_of p"
  using compact_page_wf [OF assms] assms by (auto simp: compact_if_fragmented_def same_frame_def)

lemmas compact_insert_slotted = hp.compact_then_insert [folded compact_insert_def]

lemma delete_compact_slotted:
  "heap_wf p \<Longrightarrow> \<exists>q. delete_compact k p = Ok (unat k < length (rows_of p) \<and> rows_of p ! unat k \<noteq> None, q) \<and> heap_wf q \<and>
    same_frame p q \<and> rows_of q = (rows_of p)[unat k := None]"
  unfolding delete_compact_def by (rule hp.delete_then_compact [OF _ compact_if_fragmented_slotted])

section \<open>The heap file\<close>

definition heap_inv :: "pages_state codec \<Rightarrow> page_file \<Rightarrow> bool" where
  "heap_inv c s \<longleftrightarrow> pf_inv c s \<and> 2 \<le> pf_page_size s \<and> pf_page_size s \<le> 65536 \<and>
     (\<forall>i b. pf_view s i = Some b \<longrightarrow> wf_data b \<and> length b = pf_page_size s)"

text \<open>The file has room for \<open>k\<close> more pages within the 64-bit file offsets.\<close>

definition room :: "nat \<Rightarrow> page_file \<Rightarrow> bool" where
  "room k s \<longleftrightarrow> (\<exists>n. (\<forall>i. pf_view s i \<noteq> None \<longleftrightarrow> i < n) \<and> (unat n + k) * pf_page_size s < 2 ^ 64)"

definition page_row :: "page_id \<Rightarrow> bytes \<Rightarrow> u16 \<Rightarrow> bytes option" where
  "page_row i b k = (let rows = rows_of \<lparr>pg_id = i, pg_data = b\<rparr> in if unat k < length rows then rows ! unat k else None)"

definition stored :: "page_file \<Rightarrow> page_id \<times> u16 \<Rightarrow> bytes option" where
  "stored s = (\<lambda>(i, k). case pf_view s i of None \<Rightarrow> None | Some b \<Rightarrow> page_row i b k)"

lemma stored_cong: "pf_view t = pf_view s \<Longrightarrow> stored t = stored s"
  by (simp add: stored_def)

lemma room_mono: "room (Suc k) s \<Longrightarrow> room k s"
  by (auto simp: room_def elim!: ex_forward)

lemma room_cong: "pf_view t = pf_view s \<Longrightarrow> pf_page_size t = pf_page_size s \<Longrightarrow> room k s \<Longrightarrow> room k t"
  by (simp add: room_def)

lemma heap_inv_safe: "heap_inv c s \<Longrightarrow> safe c s t \<Longrightarrow> heap_inv c t"
  by (simp add: heap_inv_def safe_def)

lemma page_count_unique: "\<forall>i :: page_id. P i \<longleftrightarrow> i < m \<Longrightarrow> \<forall>i. P i \<longleftrightarrow> i < n \<Longrightarrow> m = n"
  by (metis linorder_neq_iff)

text \<open>Room for one more page bounds every offset the page file computes.\<close>

lemma room_bounds:
  assumes inv: "pf_inv c s" and room: "room (Suc k) s"
  shows "length (d_data s) < 2 ^ 64"
    and "(\<And>i. pf_view s i \<noteq> None \<longleftrightarrow> i < n) \<Longrightarrow> addressable (pf_page_size s) n"
    and "pf_view s i \<noteq> None \<Longrightarrow> addressable (pf_page_size s) i"
proof -
  obtain m where m: "\<forall>i. pf_view s i \<noteq> None \<longleftrightarrow> i < m" "(unat m + Suc k) * pf_page_size s < 2 ^ 64"
    using room by (auto simp: room_def)
  have psz: "0 < pf_page_size s" using inv by (simp add: pf_inv_def pool_ok_def)
  have lt: "(unat m + 1) * pf_page_size s < 2 ^ 64"
    by (rule le_less_trans [OF mult_le_mono1 m(2)]) simp
  have le: "unat m < 2 ^ 64 - 1"
  proof -
    have "(unat m + 1) * 1 \<le> (unat m + 1) * pf_page_size s" using psz by (intro mult_le_mono2) simp
    then show ?thesis using lt by simp
  qed
  have addr: "addressable (pf_page_size s) i" if "i \<le> m" for i
  proof -
    have im: "unat i \<le> unat m" using that by (simp add: word_le_nat_alt)
    then have "i \<noteq> RESET"
      using le by (auto simp: RESET_def unsigned_minus_1_eq_mask mask_eq_exp_minus_1)
    moreover have "unat i * pf_page_size s < 2 ^ 64"
      by (rule le_less_trans [OF mult_le_mono1 lt]) (use im in simp)
    ultimately show ?thesis by (simp add: addressable_def)
  qed
  show "length (d_data s) < 2 ^ 64"
  proof (rule ccontr)
    assume "\<not> length (d_data s) < 2 ^ 64"
    then have "pf_view s m \<noteq> None" using lt by (auto simp: pf_view_def disk_page_def split: option.splits)
    then show False using m(1) by blast
  qed
  show "addressable (pf_page_size s) n" if "\<And>i. pf_view s i \<noteq> None \<longleftrightarrow> i < n"
    using page_count_unique [OF m(1), of n] that addr by blast
  show "addressable (pf_page_size s) i" if "pf_view s i \<noteq> None"
    by (rule addr, rule less_imp_le) (use m(1) that in blast)
qed

lemma heap_inv_upd:
  assumes "heap_inv c s" and "pf_inv c t" and "pf_view t = (pf_view s)(i \<mapsto> b)" and "pf_page_size t = pf_page_size s"
    and "wf_data b" and "length b = pf_page_size s"
  shows "heap_inv c t"
  using assms by (auto simp: heap_inv_def)

lemma room_upd:
  assumes "room k s" and "pf_view t = (pf_view s)(i \<mapsto> b)" and "pf_page_size t = pf_page_size s"
    and "pf_view s i \<noteq> None"
  shows "room k t"
  using assms by (auto simp: room_def)

lemma page_row_append:
  assumes "rows_of \<lparr>pg_id = i, pg_data = b'\<rparr> = rows_of \<lparr>pg_id = i, pg_data = b\<rparr> @ [Some tuple]"
    and "unat k = length (rows_of \<lparr>pg_id = i, pg_data = b\<rparr>)"
  shows "page_row i b' = (page_row i b)(k \<mapsto> tuple)" and "page_row i b k = None"
proof -
  have "page_row i b' j = ((page_row i b)(k \<mapsto> tuple)) j" for j
    unfolding page_row_def Let_def assms(1) using assms(2)
    by (auto simp: nth_append word_unat_eq_iff less_Suc_eq simp del: length_rows_of)
  then show "page_row i b' = (page_row i b)(k \<mapsto> tuple)" by (rule ext)
  show "page_row i b k = None" using assms(2) by (simp add: page_row_def del: length_rows_of)
qed

lemma stored_upd:
  assumes "pf_view t = (pf_view s)(i \<mapsto> b')"
  shows "stored t (j, k) = (if j = i then page_row i b' k else stored s (j, k))"
  by (simp add: stored_def assms)

lemma stored_append:
  assumes "pf_view t = (pf_view s)(i \<mapsto> b')" and "pf_view s i = Some b"
    and "rows_of \<lparr>pg_id = i, pg_data = b'\<rparr> = rows_of \<lparr>pg_id = i, pg_data = b\<rparr> @ [Some tuple]"
    and "unat k = length (rows_of \<lparr>pg_id = i, pg_data = b\<rparr>)"
  shows "stored t = (stored s)((i, k) \<mapsto> tuple)" and "stored s (i, k) = None"
proof -
  note row = page_row_append [OF assms(3,4)]
  have "stored t (j, l) = ((stored s)((i, k) \<mapsto> tuple)) (j, l)" for j l
    unfolding stored_upd [OF assms(1)] row(1) using assms(2) by (simp add: stored_def)
  then show "stored t = (stored s)((i, k) \<mapsto> tuple)" by (auto simp: fun_eq_iff)
  show "stored s (i, k) = None" using row(2) assms(2) by (simp add: stored_def)
qed

lemma stored_same_rows:
  assumes "pf_view t = (pf_view s)(i \<mapsto> b')" and "pf_view s i = Some b"
    and "rows_of \<lparr>pg_id = i, pg_data = b'\<rparr> = rows_of \<lparr>pg_id = i, pg_data = b\<rparr>"
  shows "stored t = stored s"
proof -
  have "stored t (j, l) = stored s (j, l)" for j l
    unfolding stored_upd [OF assms(1)] using assms(2,3) by (simp add: stored_def page_row_def)
  then show ?thesis by (auto simp: fun_eq_iff)
qed

text \<open>Editing a page in place, by a closure that keeps the page well formed.\<close>

lemma heap_edit_wp:
  assumes inv: "heap_inv c s" and codec: "\<And>x. decode c (encode c x) = Some x" and room: "room (Suc k) s"
    and addr: "addressable (pf_page_size s) i"
    and law: "\<And>p. heap_wf p \<Longrightarrow> length (pg_data p) \<le> 65536 \<Longrightarrow>
      \<exists>r q. f p = Ok (r, q) \<and> heap_wf q \<and> same_frame p q \<and> R (rows_of p) r (rows_of q)"
    and Q: "\<And>b b' r t. heap_inv c t \<Longrightarrow> room (Suc k) t \<Longrightarrow> pf_page_size t = pf_page_size s \<Longrightarrow>
      pf_view s i = Some b \<Longrightarrow> pf_view t = (pf_view s)(i \<mapsto> b') \<Longrightarrow>
      R (rows_of \<lparr>pg_id = i, pg_data = b\<rparr>) r (rows_of \<lparr>pg_id = i, pg_data = b'\<rparr>) \<Longrightarrow> Q r t"
    and E: "\<And>t. safe c s t \<Longrightarrow> E t"
  shows "wp (bindM (update_page i (edit f)) liftM) Q E s"
proof -
  have pf: "pf_inv c s" using inv by (simp add: heap_inv_def)
  have edit: "\<exists>r b'. f \<lparr>pg_id = i, pg_data = b\<rparr> = Ok (r, \<lparr>pg_id = i, pg_data = b'\<rparr>) \<and> wf_data b' \<and>
      length b' = pf_page_size s \<and> R (rows_of \<lparr>pg_id = i, pg_data = b\<rparr>) r (rows_of \<lparr>pg_id = i, pg_data = b'\<rparr>)"
    if "pf_view s i = Some b" for b
  proof -
    have "heap_wf \<lparr>pg_id = i, pg_data = b\<rparr>" "length b = pf_page_size s" "length b \<le> 65536"
      using inv that by (auto simp: heap_inv_def heap_wf_def)
    then obtain r q where q: "f \<lparr>pg_id = i, pg_data = b\<rparr> = Ok (r, q)" "heap_wf q" "pg_id q = i"
      "length (pg_data q) = pf_page_size s" "R (rows_of \<lparr>pg_id = i, pg_data = b\<rparr>) r (rows_of q)"
      using law [of "\<lparr>pg_id = i, pg_data = b\<rparr>"] by (auto simp: same_frame_def)
    moreover have "q = \<lparr>pg_id = i, pg_data = pg_data q\<rparr>" using q(3) by simp
    ultimately show ?thesis unfolding heap_wf_def by metis
  qed
  show ?thesis
    unfolding wp_simps
  proof (rule update_page_view_wp [OF pf codec addr])
    fix b t
    assume t: "pf_inv c t" "pf_view s i = Some b" "pf_page_size t = pf_page_size s"
      "pf_view t = (pf_view s)(i \<mapsto> pg_data (snd (edit f \<lparr>pg_id = i, pg_data = b\<rparr>)))"
    obtain r b' where b': "f \<lparr>pg_id = i, pg_data = b\<rparr> = Ok (r, \<lparr>pg_id = i, pg_data = b'\<rparr>)" "wf_data b'"
      "length b' = pf_page_size s" "R (rows_of \<lparr>pg_id = i, pg_data = b\<rparr>) r (rows_of \<lparr>pg_id = i, pg_data = b'\<rparr>)"
      using edit [OF t(2)] by blast
    have view: "pf_view t = (pf_view s)(i \<mapsto> b')" using t(4) by (simp add: edit_def b'(1))
    have here: "pf_view s i \<noteq> None" using t(2) by simp
    show "case fst (edit f \<lparr>pg_id = i, pg_data = b\<rparr>) of Ok a \<Rightarrow> Q a t | Err e \<Rightarrow> E t | Panic \<Rightarrow> False"
      using Q [OF heap_inv_upd [OF inv t(1) view t(3) b'(2,3)] room_upd [OF room view t(3) here] t(3,2) view b'(4)]
      by (simp add: edit_def b'(1))
  next
    fix b assume "pf_view s i = Some b"
    from edit [OF this] show "pg_id (snd (edit f \<lparr>pg_id = i, pg_data = b\<rparr>)) = i \<and>
        length (pg_data (snd (edit f \<lparr>pg_id = i, pg_data = b\<rparr>))) = pf_page_size s"
      by (auto simp: edit_def)
  qed (rule E)
qed

text \<open>Inserting into the last page.\<close>

lemma insert_last_wp:
  assumes inv: "heap_inv c s" and codec: "\<And>x. decode c (encode c x) = Some x" and room: "room (Suc k) s"
    and n: "\<And>i. pf_view s i \<noteq> None \<longleftrightarrow> i < n" and ne: "tuple \<noteq> []"
    and None: "\<And>t. heap_inv c t \<Longrightarrow> room (Suc k) t \<Longrightarrow> stored t = stored s \<Longrightarrow> pf_page_size t = pf_page_size s \<Longrightarrow> Q None t"
    and Some: "\<And>slot t. heap_inv c t \<Longrightarrow> room (Suc k) t \<Longrightarrow> stored s (n - 1, slot) = None \<Longrightarrow>
      stored t = (stored s)((n - 1, slot) \<mapsto> tuple) \<Longrightarrow> Q (Some slot) t"
    and E: "\<And>t. safe c s t \<Longrightarrow> E t"
  shows "wp (insert_last tuple n) Q E s"
proof (cases "n = 0")
  case True
  then show ?thesis using None [OF inv room] by (simp add: insert_last_def wp_simps)
next
  case False
  then have "n - 1 < n" by (simp add: word_less_nat_alt unat_minus_one unat_gt_0)
  then have here: "pf_view s (n - 1) \<noteq> None" using n by simp
  have pf: "pf_inv c s" using inv by (simp add: heap_inv_def)
  let ?R = "\<lambda>rows (slot :: u16 option) rows'. slot = None \<and> rows' = rows \<or>
    (\<exists>k. slot = Some k \<and> unat k = length rows \<and> rows' = rows @ [Some tuple])"
  have "wp (bindM (update_page (n - 1) (edit (compact_insert tuple))) liftM) Q E s"
  proof (rule heap_edit_wp [OF inv codec room room_bounds(3) [OF pf room here], where R = ?R])
    fix b b' t and slot :: "u16 option"
    assume t: "heap_inv c t" "room (Suc k) t" "pf_page_size t = pf_page_size s" and b: "pf_view s (n - 1) = Some b"
      "pf_view t = (pf_view s)(n - 1 \<mapsto> b')"
    assume "?R (rows_of \<lparr>pg_id = n - 1, pg_data = b\<rparr>) slot (rows_of \<lparr>pg_id = n - 1, pg_data = b'\<rparr>)"
    then show "Q slot t"
    proof (elim disjE exE conjE)
      fix j assume j: "slot = Some j" "unat j = length (rows_of \<lparr>pg_id = n - 1, pg_data = b\<rparr>)"
        "rows_of \<lparr>pg_id = n - 1, pg_data = b'\<rparr> = rows_of \<lparr>pg_id = n - 1, pg_data = b\<rparr> @ [Some tuple]"
      from stored_append [OF b(2,1) j(3,2)] show ?thesis using Some [OF t(1,2)] j(1) by simp
    qed (use None [OF t(1,2) stored_same_rows [OF b(2,1)] t(3)] in simp)
  next
    fix p assume "heap_wf p" "length (pg_data p) \<le> 65536"
    then show "\<exists>r q. compact_insert tuple p = Ok (r, q) \<and> heap_wf q \<and> same_frame p q \<and> ?R (rows_of p) r (rows_of q)"
      using compact_insert_slotted ne unfolding may_hold_def by blast
  qed (rule E)
  then show ?thesis using False by (simp add: insert_last_def)
qed

text \<open>A fresh page takes any row that passed the size check.\<close>

lemma read_zeros: "read_u16 (replicate n 0) 0 = 0"
proof -
  have "le_value (replicate k 0) = 0" for k by (induction k) simp_all
  then show ?thesis by (simp add: read_u16_def bslice_def le_u16_def)
qed

lemma zero_page_rows:
  assumes "2 \<le> n" and "n < 2 ^ 32"
  shows "wf_data (replicate n 0)" and "rows_of (new_page i n) = []"
    and "free_start (new_page i n) = 2" and "free_end (new_page i n) = n"
proof -
  have n: "unat (word_of_nat n :: u32) = n" using assms(2) by (simp add: unat_of_nat)
  show "wf_data (replicate n 0)" "rows_of (new_page i n) = []" "free_start (new_page i n) = 2" "free_end (new_page i n) = n"
    using assms n by (simp_all add: wf_data_def rows_of_def new_page_def read_zeros slot_off_simps free_start_def
        slot_count_def SLOT_DIR_START_def HEADER_SIZE_def free_end_def)
qed

lemma new_page_id: "pg_id (new_page i n) = i"
  by (simp add: new_page_def)

lemma insert_fresh:
  assumes "tuple \<noteq> []" and "HEADER_SIZE + SLOT_SIZE + length tuple \<le> n" and "n \<le> 65536"
  shows "\<exists>b. insert_tuple tuple (new_page i n) = Ok (Some 0, \<lparr>pg_id = i, pg_data = b\<rparr>) \<and> wf_data b \<and> length b = n \<and>
    rows_of \<lparr>pg_id = i, pg_data = b\<rparr> = [Some tuple]"
proof -
  have n: "2 \<le> n" "n < 2 ^ 32" using assms by (simp_all add: HEADER_SIZE_def)
  have c: "slot_count (new_page i n) = 0" using length_rows_of [of "new_page i n"] zero_page_rows(2) [OF n, of i]
    by (metis list.size(3) unat_eq_0)
  have wf: "heap_wf (new_page i n)" using zero_page_rows [OF n] by (simp add: heap_wf_def new_page_def)
  have "length (pg_data (new_page i n)) \<le> 524290" using assms(3) by (simp add: new_page_def)
  moreover have "free_start (new_page i n) + SLOT_SIZE + length tuple \<le> free_end (new_page i n)"
    using zero_page_rows [OF n] assms(2) by (simp add: HEADER_SIZE_def)
  ultimately obtain q where q: "insert_tuple tuple (new_page i n) = Ok (Some 0, q)" "heap_wf q" "pg_id q = i"
    "length (pg_data q) = n" "rows_of q = [Some tuple]"
    using insert_tuple_wf [OF wf _ assms(1)] zero_page_rows [OF n] c by (auto simp: new_page_def)
  moreover have "q = \<lparr>pg_id = i, pg_data = pg_data q\<rparr>" using q(3) by simp
  ultimately show ?thesis unfolding heap_wf_def by metis
qed

lemma room_add:
  assumes "room (Suc k) s" and n: "\<And>i. pf_view s i \<noteq> None \<longleftrightarrow> i < n" and "addressable (pf_page_size s) n"
    and "pf_view t = (pf_view s)(n \<mapsto> b)" and "pf_page_size t = pf_page_size s"
  shows "room k t"
proof -
  obtain m where m: "\<forall>i. pf_view s i \<noteq> None \<longleftrightarrow> i < m" "(unat m + Suc k) * pf_page_size s < 2 ^ 64"
    using assms(1) by (auto simp: room_def)
  have "m = n" using page_count_unique [OF m(1)] n by blast
  have nn: "n \<noteq> - 1" using assms(3) by (simp add: addressable_def RESET_def)
  then have "unat (n + 1) = Suc (unat n)" using unatSuc [of n] by (simp add: add.commute eq_neg_iff_add_eq_0)
  moreover have "pf_view t i \<noteq> None \<longleftrightarrow> i < n + 1" for i
    unfolding word_less_Suc_iff [OF nn] le_less assms(4) fun_upd_apply using n [of i] by (simp add: disj_commute)
  ultimately show ?thesis using m(2) \<open>m = n\<close> assms(5) unfolding room_def by (intro exI [of _ "n + 1"]) simp
qed

lemma stored_fresh:
  assumes "pf_view t = (pf_view s)(n \<mapsto> b)" and "pf_view s n = None"
    and "rows_of \<lparr>pg_id = n, pg_data = b\<rparr> = (case r of None \<Rightarrow> [] | Some tuple \<Rightarrow> [Some tuple])"
  shows "stored t = (stored s)((n, 0) := r)" and "stored s (n, 0) = None"
proof -
  have "stored t (j, l) = ((stored s)((n, 0) := r)) (j, l)" for j l
    unfolding stored_upd [OF assms(1)] page_row_def Let_def assms(3)
    using assms(2) by (cases "unat l = 0") (auto simp: stored_def unat_eq_0 split: option.splits)
  then show "stored t = (stored s)((n, 0) := r)" by (auto simp: fun_eq_iff)
  show "stored s (n, 0) = None" using assms(2) by (simp add: stored_def)
qed

lemma insert_new_wp:
  assumes inv: "heap_inv c s" and codec: "\<And>x. decode c (encode c x) = Some x" and room: "room (Suc k) s"
    and fit: "tuple \<noteq> []" "HEADER_SIZE + SLOT_SIZE + length tuple \<le> pf_page_size s"
    and Q: "\<And>p t. heap_inv c t \<Longrightarrow> room k t \<Longrightarrow> stored s p = None \<Longrightarrow> stored t = (stored s)(p \<mapsto> tuple) \<Longrightarrow> Q p t"
    and E: "\<And>t. heap_inv c t \<Longrightarrow> room k t \<Longrightarrow> stored t = stored s \<Longrightarrow> E t"
  shows "wp (insert_new tuple) Q E s"
proof -
  have pf: "pf_inv c s" and psz: "2 \<le> pf_page_size s" "pf_page_size s \<le> 65536" "pf_page_size s < 2 ^ 32"
    using inv by (simp_all add: heap_inv_def)
  note bounds = room_bounds [OF pf room]
  show ?thesis
    unfolding insert_new_def wp_simps
  proof (rule append_page_wp [OF pf codec bounds(1) bounds(2)])
    fix n t
    assume n: "\<And>i. pf_view s i \<noteq> None \<longleftrightarrow> i < n" and t: "pf_inv c t" "pf_page_size t = pf_page_size s"
      and view: "pf_view t = (pf_view s)(n \<mapsto> replicate (pf_page_size s) 0)"
    note addr = bounds(2) [OF n]
    have none: "pf_view s n = None" using n [of n] by blast
    obtain b where b: "insert_tuple tuple (new_page n (pf_page_size s)) = Ok (Some 0, \<lparr>pg_id = n, pg_data = b\<rparr>)"
      "wf_data b" "length b = pf_page_size s" "rows_of \<lparr>pg_id = n, pg_data = b\<rparr> = [Some tuple]"
      using insert_fresh [OF fit psz(2)] by blast
    have hi: "heap_inv c t"
      using heap_inv_upd [OF inv t(1) view t(2)] zero_page_rows(1) [OF psz(1,3)] by simp
    have rm: "room k t" by (rule room_add [OF room n addr view t(2)])
    have st: "stored t = stored s"
      using stored_fresh [OF view none, of None] zero_page_rows(2) [OF psz(1,3)] by (simp add: new_page_def fun_upd_idem)
    have "wp (write_page \<lparr>pg_id = n, pg_data = b\<rparr>) (\<lambda>_. Q (n, 0)) E t"
    proof (rule write_page_wp [OF t(1) codec])
      fix u assume u: "pf_inv c u" "pf_page_size u = pf_page_size t"
        "pf_view u = (pf_view t)(pg_id \<lparr>pg_id = n, pg_data = b\<rparr> \<mapsto> pg_data \<lparr>pg_id = n, pg_data = b\<rparr>)"
      have vu: "pf_view u = (pf_view s)(n \<mapsto> b)" "pf_page_size u = pf_page_size s" using u view t(2) by simp_all
      show "Q (n, 0) u"
        using Q [OF heap_inv_upd [OF inv u(1) vu b(2,3)] room_add [OF room n addr vu], of "(n, 0)"]
          stored_fresh [OF vu(1) none, of "Some tuple"] b(4) by simp
    next
      fix u assume "safe c t u"
      then have "heap_inv c u" "pf_view u = pf_view t" "pf_page_size u = pf_page_size t"
        using heap_inv_safe [OF hi] by (simp_all add: safe_def)
      then show "E u" using E [of u] room_cong [of u t k] rm stored_cong [of u t] st by simp
    qed (use addr b(3) t(2) n view in \<open>auto simp: good_page_iff\<close>)
    then show "case insert_tuple tuple (new_page n (pf_page_size s)) of
        Ok a \<Rightarrow> wp (case a of (slot, q) \<Rightarrow> case slot of None \<Rightarrow> panicM
            | Some sl \<Rightarrow> seqM (write_page q) (okM (pg_id (new_page n (pf_page_size s)), sl))) Q E t
      | Err e \<Rightarrow> E t | Panic \<Rightarrow> False"
      using new_page_id [of n "pf_page_size s"] by (simp add: b(1) wp_simps)
  next
    fix t assume "safe c s t"
    then have "heap_inv c t" "pf_view t = pf_view s" "pf_page_size t = pf_page_size s"
      using heap_inv_safe [OF inv] by (simp_all add: safe_def)
    then show "E t" using E [of t] room_cong [of t s k] room_mono [OF room] stored_cong [of t s] by simp
  qed
qed

definition heap_ready :: "pages_state codec \<Rightarrow> nat \<Rightarrow> page_file \<Rightarrow> bool" where
  "heap_ready c k s \<longleftrightarrow> heap_inv c s \<and> room (Suc k) s"

lemma heap_ready_cong:
  "heap_ready c k s \<Longrightarrow> safe c s t \<Longrightarrow> heap_ready c k t"
  using heap_inv_safe [of c s t] room_cong [of t s "Suc k"] by (simp add: heap_ready_def safe_def)

lemma heap_ready_mono: "heap_ready c (Suc k) s \<Longrightarrow> heap_ready c k s"
  using room_mono by (simp add: heap_ready_def)

lemma heap_ready_faults [simp]:
  "heap_inv c (s\<lparr>d_faults := f\<rparr>) = heap_inv c s" "room k (s\<lparr>d_faults := f\<rparr>) = room k s"
  "heap_ready c k (s\<lparr>d_faults := f\<rparr>) = heap_ready c k s" "stored (s\<lparr>d_faults := f\<rparr>) = stored s"
  by (simp_all add: heap_ready_def heap_inv_def room_def stored_def)

lemma insert_wp:
  assumes ready: "heap_ready c (Suc k) s" and codec: "\<And>x. decode c (encode c x) = Some x" and ne: "encode object r \<noteq> []"
    and Q: "\<And>p t. heap_ready c k t \<Longrightarrow> stored s p = None \<Longrightarrow> stored t = (stored s)(p \<mapsto> encode object r) \<Longrightarrow> Q p t"
    and E: "\<And>t. heap_ready c k t \<Longrightarrow> stored t = stored s \<Longrightarrow> E t"
  shows "wp (insert_returning_position object r) Q E s"
proof -
  have inv: "heap_inv c s" and room: "room (Suc (Suc k)) s" and pf: "pf_inv c s"
    using ready by (simp_all add: heap_ready_def heap_inv_def)
  have err: "E t" if "safe c s t" for t
    using heap_ready_cong [OF heap_ready_mono [OF ready] that] stored_cong [of t s] that by (intro E) (simp_all add: safe_def)
  show ?thesis
  proof (cases "HEADER_SIZE + SLOT_SIZE + length (encode object r) \<le> pf_page_size s")
    case False
    then show ?thesis using err [OF safe_refl [OF pf]]
      by (simp add: insert_returning_position_def wp_simps encode_row_def)
  next
    case fits: True
    have "wp num_pages (\<lambda>n. wp (bindM (insert_last (encode object r) n) (\<lambda>slot. case slot of
        Some s \<Rightarrow> okM (n - 1, s) | None \<Rightarrow> insert_new (encode object r))) Q E) E s"
    proof (rule num_pages_wp [OF pf room_bounds(1) [OF pf room]])
      fix n f assume n: "\<And>i. pf_view s i \<noteq> None \<longleftrightarrow> i < n"
      show "wp (bindM (insert_last (encode object r) n) (\<lambda>slot. case slot of
        Some s \<Rightarrow> okM (n - 1, s) | None \<Rightarrow> insert_new (encode object r))) Q E (s\<lparr>d_faults := f\<rparr>)"
        unfolding wp_simps
      proof (rule insert_last_wp [OF _ codec _ _ ne, where k = "Suc k"])
        fix t assume t: "heap_inv c t" "room (Suc (Suc k)) t" "stored t = stored (s\<lparr>d_faults := f\<rparr>)"
          "pf_page_size t = pf_page_size (s\<lparr>d_faults := f\<rparr>)"
        have "wp (insert_new (encode object r)) Q E t"
          by (rule insert_new_wp [OF t(1) codec t(2) ne]) (use fits t Q E in \<open>auto simp: heap_ready_def\<close>)
        then show "wp (case None of None \<Rightarrow> insert_new (encode object r) | Some s \<Rightarrow> okM (n - 1, s)) Q E t" by simp
      next
        fix slot t assume "heap_inv c t" "room (Suc (Suc k)) t" "stored (s\<lparr>d_faults := f\<rparr>) (n - 1, slot) = None"
          "stored t = (stored (s\<lparr>d_faults := f\<rparr>))((n - 1, slot) \<mapsto> encode object r)"
        then show "wp (case Some slot of None \<Rightarrow> insert_new (encode object r) | Some s \<Rightarrow> okM (n - 1, s)) Q E t"
          using Q room_mono [of "Suc k" t] by (simp add: heap_ready_def wp_simps)
      next
        fix t assume "safe c (s\<lparr>d_faults := f\<rparr>) t"
        then show "E t" by (intro err) (simp add: safe_def)
      qed (use inv room n in simp_all)
    qed (use err pf in \<open>simp add: safe_def\<close>)
    then show ?thesis using fits by (simp add: insert_returning_position_def wp_simps encode_row_def)
  qed
qed

section \<open>Deleting and reading\<close>

lemma page_row_delete:
  assumes "rows_of \<lparr>pg_id = i, pg_data = b'\<rparr> = (rows_of \<lparr>pg_id = i, pg_data = b\<rparr>)[unat k := None]"
  shows "page_row i b' = (page_row i b)(k := None)"
proof -
  have "page_row i b' j = ((page_row i b)(k := None)) j" for j
    unfolding page_row_def Let_def assms by (auto simp: nth_list_update word_unat_eq_iff simp del: length_rows_of)
  then show ?thesis by (rule ext)
qed

lemma delete_wp:
  assumes ready: "heap_ready c k s" and codec: "\<And>x. decode c (encode c x) = Some x"
    and addr: "addressable (pf_page_size s) i"
    and Q: "\<And>t. heap_ready c k t \<Longrightarrow> stored t = (stored s)((i, slot) := None) \<Longrightarrow> Q (stored s (i, slot) \<noteq> None) t"
    and E: "\<And>t. heap_ready c k t \<Longrightarrow> stored t = stored s \<Longrightarrow> E t"
  shows "wp (delete_slot i slot) Q E s"
proof -
  have inv: "heap_inv c s" and room: "room (Suc k) s" using ready by (simp_all add: heap_ready_def)
  let ?R = "\<lambda>rows found rows'. found = (unat slot < length rows \<and> rows ! unat slot \<noteq> None) \<and> rows' = rows[unat slot := None]"
  show ?thesis
    unfolding delete_slot_def
  proof (rule heap_edit_wp [OF inv codec room addr, where R = ?R])
    fix p assume "heap_wf p"
    then show "\<exists>r q. delete_compact slot p = Ok (r, q) \<and> heap_wf q \<and> same_frame p q \<and> ?R (rows_of p) r (rows_of q)"
      using delete_compact_slotted by blast
  next
    fix b b' t and found :: bool
    assume t: "heap_inv c t" "room (Suc k) t" and b: "pf_view s i = Some b" "pf_view t = (pf_view s)(i \<mapsto> b')"
      and R: "?R (rows_of \<lparr>pg_id = i, pg_data = b\<rparr>) found (rows_of \<lparr>pg_id = i, pg_data = b'\<rparr>)"
    have "stored t (j, l) = ((stored s)((i, slot) := None)) (j, l)" for j l
      unfolding stored_upd [OF b(2)] page_row_delete [OF conjunct2 [OF R]] using b(1) by (simp add: stored_def)
    then have "stored t = (stored s)((i, slot) := None)" by (auto simp: fun_eq_iff)
    moreover have "found = (stored s (i, slot) \<noteq> None)"
      using R b(1) by (simp add: stored_def page_row_def Let_def del: length_rows_of)
    ultimately show "Q found t" using Q t by (simp add: heap_ready_def)
  next
    fix t assume t: "safe c s t"
    show "E t" by (rule E [OF heap_ready_cong [OF ready t] stored_cong]) (use t in \<open>simp add: safe_def\<close>)
  qed
qed

lemma heap_page_slot:
  assumes "heap_inv c s" and "pf_view s i = Some b"
  shows "tuple_bytes \<lparr>pg_id = i, pg_data = b\<rparr> slot = Ok (stored s (i, slot))"
proof -
  have "heap_wf \<lparr>pg_id = i, pg_data = b\<rparr>" using assms by (auto simp: heap_inv_def heap_wf_def)
  from tuple_bytes_rows [OF this] show ?thesis
    by (simp add: stored_def assms(2) page_row_def Let_def word_less_nat_alt)
qed

lemma decode_row_total: "decode_row object bs columns hidden \<noteq> Panic"
  by (simp add: decode_row_def split: option.splits)

text \<open>What a reader sees of a stored row.\<close>

definition decoded :: "row codec \<Rightarrow> string list option \<Rightarrow> string list \<Rightarrow> page_file \<Rightarrow> page_id \<times> u16 \<Rightarrow> row \<Rightarrow> bool" where
  "decoded object columns hidden s p r \<longleftrightarrow> (\<exists>bs. stored s p = Some bs \<and> decode_row object bs columns hidden = Ok r)"

lemma read_at_wp:
  assumes ready: "heap_ready c k s" and codec: "\<And>x. decode c (encode c x) = Some x"
    and addr: "addressable (pf_page_size s) i"
    and None: "\<And>t. safe c s t \<Longrightarrow> stored s (i, slot) = None \<Longrightarrow> Q None t"
    and Some: "\<And>t r. safe c s t \<Longrightarrow> decoded object None hidden s (i, slot) r \<Longrightarrow> Q (Some r) t"
    and E: "\<And>t. safe c s t \<Longrightarrow> E t"
  shows "wp (read_at object hidden i slot) Q E s"
proof -
  have inv: "heap_inv c s" and pf: "pf_inv c s" using ready by (simp_all add: heap_ready_def heap_inv_def)
  show ?thesis
    unfolding read_at_def wp_simps
  proof (rule with_page_wp [OF pf codec addr])
    fix b t assume t: "safe c s t" and b: "pf_view s i = Some b"
    show "case read_slot object hidden slot \<lparr>pg_id = i, pg_data = b\<rparr> of Ok a \<Rightarrow> Q a t | Err e \<Rightarrow> E t | Panic \<Rightarrow> False"
      using None [OF t] Some [OF t] E [OF t] decode_row_total
      by (auto simp: read_slot_def heap_page_slot [OF inv b] decoded_def split: option.splits outcome.splits)
  qed (rule E)
qed

section \<open>Scanning\<close>

lemma word_range:
  assumes "b \<le> 2 ^ LENGTH('a)"
  shows "sorted_wrt (<) (map word_of_nat [a..<b] :: 'a::len word list)"
    and "set (map word_of_nat [a..<b] :: 'a::len word list) = {w. a \<le> unat w \<and> unat w < b}"
proof -
  have u: "unat (word_of_nat n :: 'a word) = n" if "n < b" for n
    using that assms by (simp add: unat_of_nat)
  have "sorted_wrt (\<lambda>m n. (word_of_nat m :: 'a word) < word_of_nat n) [a..<b]"
    by (rule sorted_wrt_mono_rel [OF _ sorted_wrt_upt [of a b]])
       (auto simp: word_less_nat_alt u)
  then show "sorted_wrt (<) (map word_of_nat [a..<b] :: 'a word list)" by (simp add: sorted_wrt_map)
  show "set (map word_of_nat [a..<b] :: 'a word list) = {w. a \<le> unat w \<and> unat w < b}"
  proof (intro set_eqI iffI)
    fix w :: "'a word" assume "w \<in> {w. a \<le> unat w \<and> unat w < b}"
    then show "w \<in> set (map word_of_nat [a..<b])" by (auto intro!: image_eqI [of _ _ "unat w"])
  qed (auto simp: u)
qed

text \<open>The rows of one page, in slot order.\<close>

definition slot_of :: "page_id \<times> u16 \<times> row \<Rightarrow> u16" where "slot_of e = fst (snd e)"

definition shows_row :: "row codec \<Rightarrow> string list option \<Rightarrow> string list \<Rightarrow> page_file \<Rightarrow> page_id \<times> u16 \<times> row \<Rightarrow> bool" where
  "shows_row object columns hidden s e = decoded object columns hidden s (fst e, slot_of e) (row_part e)"

definition page_listed :: "row codec \<Rightarrow> string list option \<Rightarrow> string list \<Rightarrow> page_file \<Rightarrow> page_id \<Rightarrow>
    (page_id \<times> u16 \<times> row) list \<Rightarrow> bool" where
  "page_listed object columns hidden s i out \<longleftrightarrow> sorted_wrt (<) (map slot_of out) \<and>
     (\<forall>e \<in> set out. fst e = i \<and> shows_row object columns hidden s e) \<and>
     (\<forall>k. stored s (i, k) \<noteq> None \<longrightarrow> k \<in> slot_of ` set out)"

lemma page_rows_listed:
  assumes "heap_inv c s" and "pf_view s i = Some b" and "sorted_wrt (<) slots"
  shows "page_rows object columns hidden i \<lparr>pg_id = i, pg_data = b\<rparr> slots \<noteq> Panic \<and>
    (\<forall>out. page_rows object columns hidden i \<lparr>pg_id = i, pg_data = b\<rparr> slots = Ok out \<longrightarrow>
      sorted_wrt (<) (map slot_of out) \<and> slot_of ` set out = {k \<in> set slots. stored s (i, k) \<noteq> None} \<and>
      (\<forall>e \<in> set out. fst e = i \<and> shows_row object columns hidden s e))"
  using assms(3)
proof (induction slots)
  case (Cons k slots)
  let ?p = "\<lparr>pg_id = i, pg_data = b\<rparr>"
  have tb: "tuple_bytes ?p k = Ok (stored s (i, k))" by (rule heap_page_slot [OF assms(1,2)])
  from Cons have IH: "page_rows object columns hidden i ?p slots \<noteq> Panic"
    "\<And>out. page_rows object columns hidden i ?p slots = Ok out \<Longrightarrow> sorted_wrt (<) (map slot_of out)"
    "\<And>out. page_rows object columns hidden i ?p slots = Ok out \<Longrightarrow>
      slot_of ` set out = {k \<in> set slots. stored s (i, k) \<noteq> None}"
    "\<And>out. page_rows object columns hidden i ?p slots = Ok out \<Longrightarrow>
      (\<forall>e \<in> set out. fst e = i \<and> shows_row object columns hidden s e)" by auto
  show ?case
  proof (cases "stored s (i, k)")
    case None
    then show ?thesis using IH by (auto simp: tb)
  next
    case (Some bs)
    have less: "k < slot_of e" if "page_rows object columns hidden i ?p slots = Ok out" "e \<in> set out" for out e
      using IH(3) [OF that(1)] that(2) Cons.prems by auto
    show ?thesis
    proof (cases "decode_row object bs columns hidden")
      case (Ok r)
      then have dec: "shows_row object columns hidden s (i, k, r)"
        using Some by (simp add: decoded_def shows_row_def slot_of_def row_part_def)
      show ?thesis
      proof (cases "page_rows object columns hidden i ?p slots")
        case out: (Ok out)
        have "slot_of ` set ((i, k, r) # out) = {l \<in> set (k # slots). stored s (i, l) \<noteq> None}"
          using IH(3) [OF out] Some by (auto simp: slot_of_def)
        moreover have "slot_of (i, k, r) = k" by (simp add: slot_of_def)
        ultimately show ?thesis using IH(2,4) [OF out] less [OF out] dec Some Ok by (simp add: tb out)
      qed (use IH(1) Some Ok in \<open>simp_all add: tb\<close>)
    qed (use decode_row_total [of object bs columns hidden] Some in \<open>simp_all add: tb\<close>)
  qed
qed simp

lemma scan_page_wp:
  assumes ready: "heap_ready c k s" and codec: "\<And>x. decode c (encode c x) = Some x" and here: "pf_view s i \<noteq> None"
    and Q: "\<And>out t. safe c s t \<Longrightarrow> page_listed object columns hidden s i out \<Longrightarrow> Q out t"
    and E: "\<And>t. safe c s t \<Longrightarrow> E t"
  shows "wp (scan_page object columns hidden i) Q E s"
proof -
  have inv: "heap_inv c s" and pf: "pf_inv c s" and room: "room (Suc k) s"
    using ready by (simp_all add: heap_ready_def heap_inv_def)
  show ?thesis
    unfolding scan_page_def wp_simps
  proof (rule with_page_wp [OF pf codec room_bounds(3) [OF pf room here]])
    fix b t assume t: "safe c s t" and b: "pf_view s i = Some b"
    let ?p = "\<lparr>pg_id = i, pg_data = b\<rparr>"
    have "cnt b \<le> 2 ^ LENGTH(16)" using unat_bound [of "read_u16 b 0"] by simp
    note slots = word_range [OF this, of 0]
    have wf: "heap_wf ?p" "\<not> length b < HEADER_SIZE"
      using inv b by (auto simp: heap_inv_def heap_wf_def HEADER_SIZE_def)
    have iter: "iter_slots ?p = [0..<cnt b]" by (simp add: iter_slots_def slot_count_def)
    have in_range: "k \<in> set (map word_of_nat (iter_slots ?p))" if "stored s (i, k) \<noteq> None" for k
      unfolding iter slots(2)
      using that b by (auto simp: stored_def page_row_def Let_def slot_count_def split: if_splits)
    note rows = page_rows_listed [OF inv b slots(1)]
    have "page_listed object columns hidden s i out"
      if "page_rows object columns hidden i ?p (map word_of_nat (iter_slots ?p)) = Ok out" for out
      using rows [of object columns hidden] that in_range unfolding iter page_listed_def by blast
    then show "case if length (pg_data ?p) < HEADER_SIZE then Panic
        else page_rows object columns hidden i ?p (map word_of_nat (iter_slots ?p)) of
        Ok a \<Rightarrow> Q a t | Err e \<Rightarrow> E t | Panic \<Rightarrow> False"
      using conjunct1 [OF rows [of object columns hidden]] wf(2) Q [OF t] E [OF t] unfolding iter
      by (simp split: outcome.splits)
  qed (rule E)
qed

text \<open>The result of scanning the pages of \<open>I\<close>: their rows, each once, in the order of positions.\<close>

definition pos_less :: "page_id \<times> u16 \<times> row \<Rightarrow> page_id \<times> u16 \<times> row \<Rightarrow> bool" where
  "pos_less e f \<longleftrightarrow> fst e < fst f \<or> fst e = fst f \<and> slot_of e < slot_of f"

definition listed :: "row codec \<Rightarrow> string list option \<Rightarrow> string list \<Rightarrow> page_file \<Rightarrow> page_id set \<Rightarrow>
    (page_id \<times> u16 \<times> row) list \<Rightarrow> bool" where
  "listed object columns hidden s I out \<longleftrightarrow> sorted_wrt pos_less out \<and>
     (\<forall>e \<in> set out. fst e \<in> I \<and> shows_row object columns hidden s e) \<and>
     (\<forall>i \<in> I. \<forall>k. stored s (i, k) \<noteq> None \<longrightarrow> (\<exists>e \<in> set out. fst e = i \<and> slot_of e = k))"

lemma page_listed_sorted:
  assumes "page_listed object columns hidden s i out"
  shows "sorted_wrt pos_less out"
proof -
  have fst: "\<forall>e \<in> set out. fst e = i" and "sorted_wrt (\<lambda>e f. slot_of e < slot_of f) out"
    using assms by (simp_all add: page_listed_def sorted_wrt_map)
  then show ?thesis by (rule_tac sorted_wrt_mono_rel) (simp_all add: pos_less_def)
qed

lemma concat_listed:
  assumes "list_all2 (page_listed object columns hidden s) is parts" and "sorted_wrt (<) is"
  shows "listed object columns hidden s (set is) (concat parts)"
  using assms
proof (induction rule: list_all2_induct)
  case (Cons i "is" out parts)
  then have IH: "listed object columns hidden s (set is) (concat parts)" by simp
  note here = Cons.hyps(1) [unfolded page_listed_def] and rest = IH [unfolded listed_def]
  have "pos_less e f" if "e \<in> set out" "f \<in> set (concat parts)" for e f
  proof -
    have "fst e = i" "fst f \<in> set is" using here rest that by blast+
    then show ?thesis using Cons.prems by (simp add: pos_less_def)
  qed
  then have "sorted_wrt pos_less (concat (out # parts))"
    using page_listed_sorted [OF Cons.hyps(1)] rest by (simp add: sorted_wrt_append)
  moreover have "\<exists>e \<in> set (concat (out # parts)). fst e = j \<and> slot_of e = k"
    if j: "j \<in> set (i # is)" "stored s (j, k) \<noteq> None" for j k
  proof (cases "j = i")
    case True
    then have "k \<in> slot_of ` set out" using here j(2) by blast
    then show ?thesis using here True by auto
  next
    case False
    then have "\<exists>e \<in> set (concat parts). fst e = j \<and> slot_of e = k" using rest j by simp
    then show ?thesis by auto
  qed
  moreover have "fst e \<in> set (i # is) \<and> shows_row object columns hidden s e" if "e \<in> set (concat (out # parts))" for e
  proof -
    have "e \<in> set out \<or> e \<in> set (concat parts)" using that by simp
    then show ?thesis using here rest by (elim disjE) (simp, metis list.set_intros(2))
  qed
  ultimately show ?case unfolding listed_def by blast
qed (simp add: listed_def)

lemma scan_pages_wp:
  assumes ready: "heap_ready c k s" and codec: "\<And>x. decode c (encode c x) = Some x"
    and Q: "\<And>n out t. safe c s t \<Longrightarrow> (\<And>i. pf_view s i \<noteq> None \<longleftrightarrow> i < n) \<Longrightarrow>
      listed object columns hidden s {i. from \<le> i \<and> i < min to n} out \<Longrightarrow> Q out t"
    and E: "\<And>t. safe c s t \<Longrightarrow> E t"
  shows "wp (scan_pages_with_positions object hidden columns from to) Q E s"
proof -
  have pf: "pf_inv c s" and room: "room (Suc k) s"
    using ready by (simp_all add: heap_ready_def heap_inv_def)
  show ?thesis
    unfolding scan_pages_with_positions_def wp_simps
  proof (rule num_pages_wp [OF pf room_bounds(1) [OF pf room]])
    fix n f assume n: "\<And>i. pf_view s i \<noteq> None \<longleftrightarrow> i < n"
    have "unat (min to n) \<le> 2 ^ LENGTH(64)" using unat_bound [of "min to n"] by simp
    note range = word_range [OF this, of "unat from"]
    have pages: "set (page_range from (min to n)) = {i. from \<le> i \<and> i < min to n}"
      unfolding page_range_def range(2) by (simp add: word_le_nat_alt word_less_nat_alt)
    show "wp (mapM (page_range from (min to n)) (scan_page object columns hidden)) (\<lambda>parts. Q (concat parts)) E (s\<lparr>d_faults := f\<rparr>)"
    proof (rule mapM_wp [where I = "safe c s" and R = "page_listed object columns hidden s"])
      fix i t Q assume i: "i \<in> set (page_range from (min to n))" and t: "safe c s t"
        and Q: "\<And>out u. safe c s u \<Longrightarrow> page_listed object columns hidden s i out \<Longrightarrow> Q out u"
      have same: "page_listed object columns hidden t i out = page_listed object columns hidden s i out" for out
        using stored_cong [of t s] t by (simp add: safe_def page_listed_def shows_row_def decoded_def)
      have "pf_view t i \<noteq> None" using i n [of i] t unfolding pages by (simp add: safe_def)
      then show "wp (scan_page object columns hidden i) Q E t"
        by (rule scan_page_wp [OF heap_ready_cong [OF ready t] codec])
           (use t in \<open>auto intro: Q E safe_trans simp: same\<close>)
    next
      fix parts t assume t: "safe c s t" and parts: "list_all2 (page_listed object columns hidden s) (page_range from (min to n)) parts"
      from concat_listed [OF parts] range(1) show "Q (concat parts) t"
        by (intro Q [OF t n]) (simp_all add: page_range_def [symmetric] pages)
    qed (use pf in \<open>simp add: safe_def\<close>)
  qed (use E pf in \<open>simp add: safe_def\<close>)
qed

section \<open>The store interface\<close>

text \<open>
  A store of rows at positions.  \<open>ready k s\<close>: the store is usable and may grow by \<open>k\<close> rows.
\<close>

locale row_store =
  fixes ready :: "nat \<Rightarrow> 's \<Rightarrow> bool" and content :: "'s \<Rightarrow> 'p \<Rightarrow> 'b option" and rep :: "'r \<Rightarrow> 'b"
    and insert :: "'r \<Rightarrow> ('s, 'p) cmd" and delete :: "'p \<Rightarrow> ('s, bool) cmd"
  assumes ready_mono: "ready (Suc k) s \<Longrightarrow> ready k s"
    and insert_law: "ready (Suc k) s \<Longrightarrow>
      (\<And>p t. ready k t \<Longrightarrow> content s p = None \<Longrightarrow> content t = (content s)(p \<mapsto> rep r) \<Longrightarrow> Q p t) \<Longrightarrow>
      (\<And>t. ready k t \<Longrightarrow> content t = content s \<Longrightarrow> E t) \<Longrightarrow> wp (insert r) Q E s"
    and delete_law: "ready k s \<Longrightarrow> content s p \<noteq> None \<Longrightarrow>
      (\<And>t. ready k t \<Longrightarrow> content t = (content s)(p := None) \<Longrightarrow> Q' True t) \<Longrightarrow>
      (\<And>t. ready k t \<Longrightarrow> content t = content s \<Longrightarrow> E t) \<Longrightarrow> wp (delete p) Q' E s"
begin

lemma ready_less: "ready (j + k) s \<Longrightarrow> ready k s"
  by (induction j) (auto intro: ready_mono)

text \<open>
  Inserting a list of rows: each gets a position of its own, and nothing else changes; a failure
  leaves exactly the rows before it.
\<close>

definition grown :: "'s \<Rightarrow> 'p list \<Rightarrow> 'r list \<Rightarrow> 's \<Rightarrow> bool" where
  "grown s ps rs t \<longleftrightarrow> length ps = length rs \<and> distinct ps \<and> set ps \<inter> dom (content s) = {} \<and>
     content t = content s ++ map_of (zip ps (map rep rs))"

lemma grown_Cons:
  assumes "content s p = None" and "content t = (content s)(p \<mapsto> rep r)" and "grown t ps rs u"
  shows "grown s (p # ps) (r # rs) u"
proof -
  note u = assms(3) [unfolded grown_def]
  have p: "p \<notin> set ps" using u assms(2) by auto
  then have "p \<notin> dom (map_of (zip ps (map rep rs)))" by (auto dest: map_of_SomeD set_zip_leftD)
  then have "content u = content s ++ map_of (zip (p # ps) (map rep (r # rs)))"
    using u by (simp add: assms(2) map_add_upd_left)
  moreover have "set (p # ps) \<inter> dom (content s) = {}" using u assms(1,2) by (auto simp: dom_def)
  ultimately show ?thesis using u p by (simp add: grown_def)
qed

lemma insert_list:
  assumes "ready (length rs + k) s" and "\<And>ps t. ready k t \<Longrightarrow> grown s ps rs t \<Longrightarrow> Q ps t"
    and "\<And>m ps t. ready k t \<Longrightarrow> grown s ps (take m rs) t \<Longrightarrow> E t"
  shows "wp (mapM rs insert) Q E s"
  using assms
proof (induction rs arbitrary: s Q)
  case Nil
  then show ?case by (simp add: wp_simps grown_def)
next
  case (Cons r rs)
  have "ready (Suc (length rs + k)) s" using Cons.prems(1) by simp
  then show ?case
    unfolding mapM.simps wp_simps
  proof (rule insert_law)
    fix p t assume t: "ready (length rs + k) t" "content s p = None" "content t = (content s)(p \<mapsto> rep r)"
    show "wp (mapM rs insert) (\<lambda>ys. Q (p # ys)) E t"
    proof (rule Cons.IH [OF t(1)])
      fix m ps u assume u: "ready k u" "grown t ps (take m rs) u"
      show "E u" using Cons.prems(3) [OF u(1), of "p # ps" "Suc m"] grown_Cons [OF t(2,3) u(2)] by simp
    qed (use Cons.prems(2) grown_Cons [OF t(2,3)] in blast)
  next
    fix t assume t: "ready (length rs + k) t" "content t = content s"
    show "E t" using Cons.prems(3) [OF ready_less [OF t(1)], of "[]" 0] t(2) by (simp add: grown_def)
  qed
qed

text \<open>Deleting a row just inserted restores the store.\<close>

lemma insert_delete:
  assumes "ready (Suc k) s" and "\<And>t. ready k t \<Longrightarrow> content t = content s \<Longrightarrow> Q True t"
    and "\<And>t. ready k t \<Longrightarrow> E t"
  shows "wp (bindM (insert r) delete) Q E s"
  unfolding wp_simps
proof (rule insert_law [OF assms(1)])
  fix p t assume t: "ready k t" "content s p = None" "content t = (content s)(p \<mapsto> rep r)"
  show "wp (delete p) Q E t"
    by (rule delete_law [OF t(1)]) (use t assms in \<open>auto simp: fun_upd_idem\<close>)
qed (rule assms(3))

end

text \<open>
  The heap file as such a store, for the codec \<open>c\<close> of the page metadata and a row codec \<open>object\<close>
  whose encodings are not empty.
\<close>

definition metadata_ok :: "pages_state codec \<Rightarrow> bool" where
  "metadata_ok c \<longleftrightarrow> (\<forall>x. decode c (encode c x) = Some x)"

definition heap_store :: "pages_state codec \<Rightarrow> row codec \<Rightarrow> nat \<Rightarrow> page_file \<Rightarrow> bool" where
  "heap_store c object k s \<longleftrightarrow> metadata_ok c \<and> (\<forall>r. encode object r \<noteq> []) \<and> heap_ready c k s"

interpretation hf: row_store "heap_store c object" stored "encode object" "insert_returning_position object"
  "\<lambda>p. delete_slot (fst p) (snd p)" for c object
proof
  fix k s and r :: row and Q :: "page_id \<times> u16 \<Rightarrow> page_file \<Rightarrow> bool" and E :: "page_file \<Rightarrow> bool"
  assume s: "heap_store c object (Suc k) s"
    and QE: "\<And>p t. heap_store c object k t \<Longrightarrow> stored s p = None \<Longrightarrow> stored t = (stored s)(p \<mapsto> encode object r) \<Longrightarrow> Q p t"
      "\<And>t. heap_store c object k t \<Longrightarrow> stored t = stored s \<Longrightarrow> E t"
  show "wp (insert_returning_position object r) Q E s"
    by (rule insert_wp) (use s QE in \<open>auto simp: heap_store_def metadata_ok_def\<close>)
next
  fix k s p and Q :: "bool \<Rightarrow> page_file \<Rightarrow> bool" and E :: "page_file \<Rightarrow> bool"
  assume s: "heap_store c object k s" and p: "stored s p \<noteq> None"
    and QE: "\<And>t. heap_store c object k t \<Longrightarrow> stored t = (stored s)(p := None) \<Longrightarrow> Q True t"
      "\<And>t. heap_store c object k t \<Longrightarrow> stored t = stored s \<Longrightarrow> E t"
  have ready: "heap_ready c k s" and pf: "pf_inv c s" and room: "room (Suc k) s"
    using s by (simp_all add: heap_store_def heap_ready_def heap_inv_def)
  have "pf_view s (fst p) \<noteq> None" using p by (cases p) (auto simp: stored_def split: option.splits)
  note addr = room_bounds(3) [OF pf room this]
  show "wp (delete_slot (fst p) (snd p)) Q E s"
    by (rule delete_wp [OF ready _ addr]) (use s p QE in \<open>auto simp: heap_store_def metadata_ok_def\<close>)
qed (simp add: heap_store_def heap_ready_mono)

section \<open>Properties of the heap file\<close>

text \<open>A heap file with one unwritten page that holds the row \<open>7, 7\<close> in its first slot.\<close>

definition sample_data :: bytes where
  "sample_data = [1, 0, 30, 0, 0, 0, 2, 0, 0, 0] @ replicate 20 0 @ [7, 7]"

definition sample_rows :: "fault list \<Rightarrow> page_file" where
  "sample_rows fs = \<lparr>d_data = [], d_journal = None, d_meta = None, d_tmp = None, d_faults = fs,
     pw_state = fresh_state 32, pw_lsn = 0, pw_pending = False, pw_failed = False, pw_file = False,
     pf_page_size = 32, pf_capacity = 1, pf_cache = [(0, \<lparr>pg_id = 0, pg_data = sample_data\<rparr>)],
     pf_last_used = [(0, 1)], pf_clock = 1, pf_dirty = [0], pf_hits = 0, pf_misses = 0, pf_exists = True\<rparr>"

definition sample_object :: "row codec" where
  "sample_object = \<lparr>encode = \<lambda>r. [7, 7], decode = \<lambda>bs. if bs = [] then None else Some []\<rparr>"

lemma sample_view: "pf_view (sample_rows fs) i = (if i = 0 then Some sample_data else None)"
  by (simp add: pf_view_def sample_rows_def disk_page_def)

lemma sample_data_wf: "wf_data sample_data"
proof -
  have "read_u16 sample_data 0 = 1" "row_off sample_data 0 = 30" "row_len sample_data 0 = 2" "length sample_data = 32"
    by (simp_all add: sample_data_def read_u16_def read_u32_def le_u16_def le_u32_def bslice_def slot_off_simps)
  then show ?thesis by (simp add: wf_data_def slot_off_simps)
qed

lemma sample_rows_inv: "pf_inv table_codec (sample_rows fs)"
proof -
  have "on_disk table_codec 32 (fresh_state 32) [] [] (sample_rows fs)"
    by (simp add: sample_rows_def files_hold_def meta_of_def fresh_state_def journal_of_def journal_bytes_def)
  then have "live table_codec 32 (fresh_state 32) [] (sample_rows fs)"
    "on_disk table_codec 32 (fresh_state 32) [] [] (sample_rows fs)"
    by (simp_all add: live_def) (simp_all add: sample_rows_def fresh_state_def)
  moreover have "pool_ok (sample_rows fs)"
    by (simp add: pool_ok_def sample_rows_def good_page_def bad_image_def RESET_def sample_data_def)
  ultimately show ?thesis
    unfolding pf_inv_def by (intro conjI exI [of _ "fresh_state 32"] exI [of _ "[]"])
      (simp_all add: sample_rows_def synced_def images_def newer_def)
qed

lemma sample_store: "k \<le> 100 \<Longrightarrow> heap_store table_codec sample_object k (sample_rows fs)"
proof -
  assume k: "k \<le> 100"
  have "length sample_data = 32" by (simp add: sample_data_def)
  then have "heap_inv table_codec (sample_rows fs)"
    using sample_rows_inv sample_data_wf by (simp add: heap_inv_def sample_view) (simp add: sample_rows_def)
  moreover have "room (Suc k) (sample_rows fs)"
    unfolding room_def sample_view using k by (intro exI [of _ 1]) (simp add: sample_rows_def word_less_1)
  ultimately show ?thesis
    by (simp add: heap_store_def heap_ready_def metadata_ok_def table_codec_round_trip sample_object_def)
qed

text \<open>
  Property (C13).  Inserting rows into a heap file gives each row a fresh position and changes no
  stored row, whatever pages are compacted, added, evicted or written back on the way; an I/O error
  at any point leaves exactly the rows inserted before it.
\<close>

theorem heap_insert_rows:
  assumes "heap_store c object (length rs + k) s"
  shows "wp (mapM rs (insert_returning_position object))
    (\<lambda>ps t. heap_store c object k t \<and> length ps = length rs \<and> distinct ps \<and> set ps \<inter> dom (stored s) = {} \<and>
      stored t = stored s ++ map_of (zip ps (map (encode object) rs)))
    (\<lambda>t. heap_store c object k t \<and> (\<exists>m ps. length ps = length (take m rs) \<and> distinct ps \<and>
      set ps \<inter> dom (stored s) = {} \<and> stored t = stored s ++ map_of (zip ps (map (encode object) (take m rs))))) s"
  by (rule hf.insert_list [OF assms]) (auto simp: hf.grown_def)

theorem heap_insert_rows_witness:
  "wp (mapM [[], []] (insert_returning_position sample_object))
    (\<lambda>ps t. heap_store table_codec sample_object 5 t \<and> length ps = length [[], [] :: row] \<and> distinct ps \<and>
      set ps \<inter> dom (stored (sample_rows [NoFault, Fault 3])) = {} \<and>
      stored t = stored (sample_rows [NoFault, Fault 3]) ++ map_of (zip ps (map (encode sample_object) [[], []])))
    (\<lambda>t. heap_store table_codec sample_object 5 t \<and> (\<exists>m ps. length ps = length (take m [[], [] :: row]) \<and> distinct ps \<and>
      set ps \<inter> dom (stored (sample_rows [NoFault, Fault 3])) = {} \<and>
      stored t = stored (sample_rows [NoFault, Fault 3]) ++ map_of (zip ps (map (encode sample_object) (take m [[], []])))))
    (sample_rows [NoFault, Fault 3])"
  by (rule heap_insert_rows) (simp add: sample_store)

text \<open>
  Property (C14).  Deleting a position empties that position and no other, and reports whether it
  held a row; on an I/O error nothing is deleted.
\<close>

theorem heap_delete_row:
  assumes "heap_store c object k s" and "addressable (pf_page_size s) i"
  shows "wp (delete_slot i slot)
    (\<lambda>found t. heap_store c object k t \<and> found = (stored s (i, slot) \<noteq> None) \<and> stored t = (stored s)((i, slot) := None))
    (\<lambda>t. heap_store c object k t \<and> stored t = stored s) s"
  by (rule delete_wp [OF _ _ assms(2)]) (use assms(1) in \<open>auto simp: heap_store_def metadata_ok_def\<close>)

theorem heap_delete_row_witness:
  "wp (delete_slot 0 0)
    (\<lambda>found t. heap_store table_codec sample_object 1 t \<and> found = (stored (sample_rows []) (0, 0) \<noteq> None) \<and>
      stored t = (stored (sample_rows []))((0, 0) := None))
    (\<lambda>t. heap_store table_codec sample_object 1 t \<and> stored t = stored (sample_rows [])) (sample_rows [])"
  by (rule heap_delete_row [OF sample_store]) (simp_all add: addressable_def RESET_def)

text \<open>
  Property (C15).  A full scan returns every stored row exactly once, decoded, in the order of pages
  and slots, and nothing else; it changes no row, and it fails rather than return a partial result.
\<close>

theorem heap_scan_complete:
  assumes "heap_store c object k s"
  shows "wp (scan_projected_with_positions object hidden columns)
    (\<lambda>out t. heap_store c object k t \<and> stored t = stored s \<and> sorted_wrt pos_less out \<and>
      (\<lambda>e. (fst e, slot_of e)) ` set out = dom (stored s) \<and> list_all (shows_row object columns hidden s) out)
    (\<lambda>t. heap_store c object k t \<and> stored t = stored s) s"
proof -
  have ready: "heap_ready c k s" and codec: "\<And>x. decode c (encode c x) = Some x" and pf: "pf_inv c s" and room: "room (Suc k) s"
    using assms by (simp_all add: heap_store_def metadata_ok_def heap_ready_def heap_inv_def)
  have keep: "heap_store c object k t \<and> stored t = stored s" if "safe c s t" for t
    using that assms heap_ready_cong [OF ready that] stored_cong [of t s] by (simp add: heap_store_def safe_def)
  show ?thesis
    unfolding scan_projected_with_positions_def wp_simps
  proof (rule num_pages_wp [OF pf room_bounds(1) [OF pf room]])
    fix n f assume n: "\<And>i. pf_view s i \<noteq> None \<longleftrightarrow> i < n"
    let ?s = "s\<lparr>d_faults := f\<rparr>"
    have same: "safe c ?s t \<Longrightarrow> safe c s t" "decoded object columns hidden ?s = decoded object columns hidden s" for t
      by (simp_all add: safe_def decoded_def fun_eq_iff)
    have dom: "p \<in> dom (stored s) \<Longrightarrow> fst p < n" for p
      using n [of "fst p"] by (cases p) (auto simp: stored_def split: option.splits)
    show "wp (scan_pages_with_positions object hidden columns 0 n)
      (\<lambda>out t. heap_store c object k t \<and> stored t = stored s \<and> sorted_wrt pos_less out \<and>
        (\<lambda>e. (fst e, slot_of e)) ` set out = dom (stored s) \<and> list_all (shows_row object columns hidden s) out)
      (\<lambda>t. heap_store c object k t \<and> stored t = stored s) ?s"
    proof (rule scan_pages_wp [OF _ codec])
      fix m out t assume t: "safe c ?s t" and m: "\<And>i. pf_view ?s i \<noteq> None \<longleftrightarrow> i < m"
        and out: "listed object columns hidden ?s {i. 0 \<le> i \<and> i < min n m} out"
      have "m = n" by (rule page_count_unique [of "\<lambda>i. pf_view s i \<noteq> None"]) (use m n in simp_all)
      then have l: "sorted_wrt pos_less out" "\<forall>e \<in> set out. shows_row object columns hidden s e"
        "\<forall>i < n. \<forall>k. stored s (i, k) \<noteq> None \<longrightarrow> (\<exists>e \<in> set out. fst e = i \<and> slot_of e = k)"
        using out by (simp_all add: listed_def shows_row_def same)
      have "(\<lambda>e. (fst e, slot_of e)) ` set out = dom (stored s)"
      proof (intro set_eqI iffI)
        fix p assume p: "p \<in> dom (stored s)"
        then have "\<exists>e \<in> set out. fst e = fst p \<and> slot_of e = snd p"
          using l(3) dom [OF p] by (cases p) auto
        then show "p \<in> (\<lambda>e. (fst e, slot_of e)) ` set out" by (cases p) force
      qed (use l(2) in \<open>auto simp: shows_row_def decoded_def\<close>)
      then show "heap_store c object k t \<and> stored t = stored s \<and> sorted_wrt pos_less out \<and>
        (\<lambda>e. (fst e, slot_of e)) ` set out = dom (stored s) \<and> list_all (shows_row object columns hidden s) out"
        using keep [OF same(1) [OF t]] l by (simp add: list_all_iff)
    next
      fix t assume "safe c ?s t"
      then show "heap_store c object k t \<and> stored t = stored s" by (intro keep same(1))
    qed (use ready in simp)
  next
    fix f
    have "safe c s (s\<lparr>d_faults := f\<rparr>)" using pf by (simp add: safe_def)
    then show "heap_store c object k (s\<lparr>d_faults := f\<rparr>) \<and> stored (s\<lparr>d_faults := f\<rparr>) = stored s" by (rule keep)
  qed
qed

theorem heap_scan_complete_witness:
  "wp (scan_projected_with_positions sample_object [] None)
    (\<lambda>out t. heap_store table_codec sample_object 1 t \<and> stored t = stored (sample_rows []) \<and> sorted_wrt pos_less out \<and>
      (\<lambda>e. (fst e, slot_of e)) ` set out = dom (stored (sample_rows [])) \<and>
      list_all (shows_row sample_object None [] (sample_rows [])) out)
    (\<lambda>t. heap_store table_codec sample_object 1 t \<and> stored t = stored (sample_rows [])) (sample_rows [])"
  by (rule heap_scan_complete) (simp add: sample_store)

end
