(* ===== verification/Wal.thy ===== *)
theory Wal
  imports Protocol Page_Wal
begin

text \<open>
  The logical write-ahead log of \<open>wal.rs\<close>: length-prefixed frames of one operation each,
  groups closed by a commit marker, a checkpoint file and monotone log sequence numbers.  The
  JSON library that encodes the payloads is a parameter (\<open>serde\<close>); the text it adds to
  error messages is left out.  The log and checkpoint files are byte strings and every I/O
  call may fail, a write after any prefix.
\<close>

section \<open>Operations\<close>

datatype wal_op =
    WMigrate (wtable: string) u64 string string
  | WHideColumn (wtable: string) string "u64 option"
  | WCompact (wtable: string) "row list"
  | WAccounts "account list" "string list" bool
  | WInsert (wtable: string) row
  | WInsertBatch (wtable: string) "row list"
  | WDeleteKeys (wtable: string) "u64 list"
  | WReplaceAll (wtable: string) "row list"
  | WDropColumn (wtable: string) string "u64 option" "row list"
  | WReplaceSchema (wtable: string) "schema_column list" "u64 option" "row list"
  | WCreateTable (wtable: string) "schema_column list" "u64 option"
  | WDropTable (wtable: string)
  | WCreateIndex (wtable: string) string
  | WDropIndex (wtable: string) string
  | WCommit

text \<open>\<open>WalOp::table\<close>\<close>

fun op_table :: "wal_op \<Rightarrow> string option" where
  "op_table (WAccounts _ _ _) = None"
| "op_table WCommit = None"
| "op_table op = Some (wtable op)"

definition OP_INSERT :: u8 where "OP_INSERT = 1"
definition OP_REPLACE_ALL :: u8 where "OP_REPLACE_ALL = 2"
definition OP_INSERT_BATCH :: u8 where "OP_INSERT_BATCH = 3"
definition OP_DELETE_KEYS :: u8 where "OP_DELETE_KEYS = 4"
definition OP_DROP_COLUMN :: u8 where "OP_DROP_COLUMN = 5"
definition OP_ACCOUNTS :: u8 where "OP_ACCOUNTS = 6"
definition OP_REPLACE_SCHEMA :: u8 where "OP_REPLACE_SCHEMA = 7"
definition OP_HIDE_COLUMN :: u8 where "OP_HIDE_COLUMN = 8"
definition OP_COMPACT :: u8 where "OP_COMPACT = 9"
definition OP_COMMIT :: u8 where "OP_COMMIT = 10"
definition OP_CREATE_TABLE :: u8 where "OP_CREATE_TABLE = 11"
definition OP_DROP_TABLE :: u8 where "OP_DROP_TABLE = 12"
definition OP_CREATE_INDEX :: u8 where "OP_CREATE_INDEX = 13"
definition OP_DROP_INDEX :: u8 where "OP_DROP_INDEX = 14"
definition OP_MIGRATE :: u8 where "OP_MIGRATE = 15"

lemmas op_codes = OP_INSERT_def OP_REPLACE_ALL_def OP_INSERT_BATCH_def OP_DELETE_KEYS_def OP_DROP_COLUMN_def
  OP_ACCOUNTS_def OP_REPLACE_SCHEMA_def OP_HIDE_COLUMN_def OP_COMPACT_def OP_COMMIT_def OP_CREATE_TABLE_def
  OP_DROP_TABLE_def OP_CREATE_INDEX_def OP_DROP_INDEX_def OP_MIGRATE_def

text \<open>
  The parts of the JSON library the log uses: byte codecs for the payload types, and the
  conversion of account lists and name lists to and from JSON values.
\<close>

record serde =
  sj_value :: "json codec"
  sj_op :: "wal_op codec"
  sj_row :: "row codec"
  sj_rows :: "row list codec"
  sj_keys :: "u64 list codec"
  sj_string :: "string codec"
  sj_drop_column :: "(string \<times> u64 option \<times> row list) codec"
  sj_replace_schema :: "(schema_column list \<times> u64 option \<times> row list) codec"
  sj_create_table :: "(schema_column list \<times> u64 option) codec"
  accounts_value :: "account list \<Rightarrow> json"
  value_accounts :: "json \<Rightarrow> account list option"

definition names_value :: "string list \<Rightarrow> json" where
  "names_value ns = JArray (map JString ns)"

fun all_some :: "'a option list \<Rightarrow> 'a list option" where
  "all_some [] = Some []"
| "all_some (None # xs) = None"
| "all_some (Some x # xs) = map_option ((#) x) (all_some xs)"

definition value_names :: "json \<Rightarrow> string list option" where
  "value_names v = (case v of JArray xs \<Rightarrow> all_some (map as_str xs) | _ \<Rightarrow> None)"

definition version_value :: "u64 option \<Rightarrow> json" where
  "version_value v = (case v of None \<Rightarrow> JNull | Some n \<Rightarrow> JNumber (PosInt n))"

text \<open>
  \<open>serde_json::from_value::<HideColumnPayload>\<close>: an object, or an array of its fields in order;
  \<open>schema_version\<close> may be missing in both.
\<close>

definition hide_fields :: "json option \<Rightarrow> json option \<Rightarrow> (string \<times> u64 option) option" where
  "hide_fields column version = (case column of
       Some (JString c) \<Rightarrow> (case version of
            None \<Rightarrow> Some (c, None)
          | Some JNull \<Rightarrow> Some (c, None)
          | Some (JNumber (PosInt n)) \<Rightarrow> Some (c, Some n)
          | _ \<Rightarrow> None)
     | _ \<Rightarrow> None)"

definition value_hide :: "json \<Rightarrow> (string \<times> u64 option) option" where
  "value_hide v = (case v of
       JArray [c] \<Rightarrow> hide_fields (Some c) None
     | JArray [c, n] \<Rightarrow> hide_fields (Some c) (Some n)
     | JObject fs \<Rightarrow> hide_fields (json_get ''column'' v) (json_get ''schema_version'' v)
     | _ \<Rightarrow> None)"

definition hex_digit :: "char \<Rightarrow> bool" where
  "hex_digit c \<longleftrightarrow> ascii_digit c \<or> 65 \<le> (of_char c :: nat) \<and> (of_char c :: nat) \<le> 70 \<or>
     97 \<le> (of_char c :: nat) \<and> (of_char c :: nat) \<le> 102"

text \<open>\<open>catalog::valid_generation\<close>\<close>

definition valid_generation :: "string \<Rightarrow> bool" where
  "valid_generation v \<longleftrightarrow> v = [] \<or> length v = 32 \<and> list_all hex_digit v"

section \<open>Frames\<close>

text \<open>A string is its UTF-8 bytes; \<open>utf8\<close> is the check of \<open>String::from_utf8\<close>.\<close>

definition str_bytes :: "string \<Rightarrow> bytes" where "str_bytes s = map of_char s"
definition bytes_str :: "bytes \<Rightarrow> string" where "bytes_str bs = map (char_of \<circ> unat) bs"

definition op_parts :: "serde \<Rightarrow> wal_op \<Rightarrow> u8 \<times> string \<times> bytes" where
  "op_parts sj op = (case op of
       WMigrate t _ _ _ \<Rightarrow> (OP_MIGRATE, t, encode (sj_op sj) op)
     | WHideColumn t c v \<Rightarrow> (OP_HIDE_COLUMN, t,
         encode (sj_value sj) (JObject [(''column'', JString c), (''schema_version'', version_value v)]))
     | WCompact t rows \<Rightarrow> (OP_COMPACT, t, encode (sj_rows sj) rows)
     | WAccounts accounts removed migrate \<Rightarrow> (OP_ACCOUNTS, USERS_TABLE,
         encode (sj_value sj) (JObject [(''accounts'', accounts_value sj accounts),
           (''migrate_roles'', JBool migrate), (''removed'', names_value removed)]))
     | WInsert t r \<Rightarrow> (OP_INSERT, t, encode (sj_row sj) r)
     | WInsertBatch t rows \<Rightarrow> (OP_INSERT_BATCH, t, encode (sj_rows sj) rows)
     | WDeleteKeys t keys \<Rightarrow> (OP_DELETE_KEYS, t, encode (sj_keys sj) keys)
     | WReplaceAll t rows \<Rightarrow> (OP_REPLACE_ALL, t, encode (sj_rows sj) rows)
     | WDropColumn t c v rows \<Rightarrow> (OP_DROP_COLUMN, t, encode (sj_drop_column sj) (c, v, rows))
     | WReplaceSchema t cs v rows \<Rightarrow> (OP_REPLACE_SCHEMA, t, encode (sj_replace_schema sj) (cs, v, rows))
     | WCreateTable t cs i \<Rightarrow> (OP_CREATE_TABLE, t, encode (sj_create_table sj) (cs, i))
     | WDropTable t \<Rightarrow> (OP_DROP_TABLE, t, [])
     | WCreateIndex t c \<Rightarrow> (OP_CREATE_INDEX, t, encode (sj_string sj) c)
     | WDropIndex t c \<Rightarrow> (OP_DROP_INDEX, t, encode (sj_string sj) c)
     | WCommit \<Rightarrow> (OP_COMMIT, [], []))"

definition frame_body :: "serde \<Rightarrow> wal_op \<Rightarrow> u64 \<Rightarrow> bytes" where
  "frame_body sj op lsn = (case op_parts sj op of (op_type, table, payload) \<Rightarrow>
     u64_le lsn @ [op_type] @ u16_le (word_of_nat (length (str_bytes table))) @ str_bytes table @ payload)"

definition encode_op :: "serde \<Rightarrow> wal_op \<Rightarrow> u64 \<Rightarrow> bytes" where
  "encode_op sj op lsn = (let body = frame_body sj op lsn in
     u32_le (word_of_nat (length body)) @ body)"

definition from_payload :: "string \<Rightarrow> 'a codec \<Rightarrow> bytes \<Rightarrow> ('a \<Rightarrow> string + 'b) \<Rightarrow> string + 'b" where
  "from_payload what c payload k = (case decode c payload of
       None \<Rightarrow> Inl (''bad '' @ what @ '' payload'')
     | Some v \<Rightarrow> k v)"

definition decode_hide :: "string \<Rightarrow> json \<Rightarrow> string + wal_op" where
  "decode_hide table v = (case as_str v of
       Some c \<Rightarrow> Inr (WHideColumn table c None)
     | None \<Rightarrow> (case value_hide v of
          None \<Rightarrow> Inl ''bad hide_column payload''
        | Some (c, ver) \<Rightarrow> Inr (WHideColumn table c ver)))"

definition decode_accounts :: "serde \<Rightarrow> json \<Rightarrow> string + wal_op" where
  "decode_accounts sj v = (case v of
       JArray _ \<Rightarrow> (case value_accounts sj v of
          None \<Rightarrow> Inl ''bad account payload''
        | Some accounts \<Rightarrow> Inr (WAccounts accounts [] False))
     | _ \<Rightarrow> (case json_get ''accounts'' v of
          None \<Rightarrow> Inl ''missing account payload''
        | Some av \<Rightarrow> (case value_accounts sj av of
            None \<Rightarrow> Inl ''bad account payload''
          | Some accounts \<Rightarrow> (case json_get ''removed'' v of
              None \<Rightarrow> Inl ''missing identity cleanup''
            | Some rv \<Rightarrow> (case value_names rv of
                None \<Rightarrow> Inl ''bad account cleanup''
              | Some removed \<Rightarrow> (case Option.bind (json_get ''migrate_roles'' v) as_bool of
                  None \<Rightarrow> Inl ''missing role migration flag''
                | Some migrate \<Rightarrow> Inr (WAccounts accounts removed migrate)))))))"

definition decode_migrate :: "string \<Rightarrow> wal_op \<Rightarrow> string + wal_op" where
  "decode_migrate table op = (case op of
       WMigrate name _ source target \<Rightarrow>
        (if name = table \<and> valid_generation source \<and> target \<noteq> [] \<and> valid_generation target
         then Inr op else Inl ''invalid migration WAL'')
     | _ \<Rightarrow> Inl ''invalid migration WAL'')"

text \<open>The payload of a frame, by operation code.\<close>

definition decode_payload :: "serde \<Rightarrow> u8 \<Rightarrow> string \<Rightarrow> bytes \<Rightarrow> string + wal_op" where
  "decode_payload sj op_type table payload =
     (if op_type = OP_MIGRATE then from_payload ''migration'' (sj_op sj) payload (decode_migrate table)
      else if op_type = OP_COMMIT then Inr WCommit
      else if op_type = OP_HIDE_COLUMN then from_payload ''hide_column'' (sj_value sj) payload (decode_hide table)
      else if op_type = OP_COMPACT
        then from_payload ''compact'' (sj_rows sj) payload (\<lambda>rows. Inr (WCompact table rows))
      else if op_type = OP_ACCOUNTS then
        (if table \<noteq> USERS_TABLE then Inl ''invalid account WAL table''
         else from_payload ''account'' (sj_value sj) payload (decode_accounts sj))
      else if op_type = OP_INSERT
        then from_payload ''insert'' (sj_row sj) payload (\<lambda>r. Inr (WInsert table r))
      else if op_type = OP_INSERT_BATCH
        then from_payload ''insert_batch'' (sj_rows sj) payload (\<lambda>rows. Inr (WInsertBatch table rows))
      else if op_type = OP_DELETE_KEYS
        then from_payload ''delete_keys'' (sj_keys sj) payload (\<lambda>ks. Inr (WDeleteKeys table ks))
      else if op_type = OP_REPLACE_ALL
        then from_payload ''replace_all'' (sj_rows sj) payload (\<lambda>rows. Inr (WReplaceAll table rows))
      else if op_type = OP_DROP_COLUMN
        then from_payload ''drop_column'' (sj_drop_column sj) payload
               (\<lambda>(c, v, rows). Inr (WDropColumn table c v rows))
      else if op_type = OP_REPLACE_SCHEMA
        then from_payload ''replace_schema'' (sj_replace_schema sj) payload
               (\<lambda>(cs, v, rows). Inr (WReplaceSchema table cs v rows))
      else if op_type = OP_CREATE_TABLE
        then from_payload ''create_table'' (sj_create_table sj) payload (\<lambda>(cs, i). Inr (WCreateTable table cs i))
      else if op_type = OP_DROP_TABLE then Inr (WDropTable table)
      else if op_type = OP_CREATE_INDEX
        then from_payload ''create_index'' (sj_string sj) payload (\<lambda>c. Inr (WCreateIndex table c))
      else if op_type = OP_DROP_INDEX
        then from_payload ''drop_index'' (sj_string sj) payload (\<lambda>c. Inr (WDropIndex table c))
      else Inl (''unknown op type: '' @ dec_digits (unat op_type)))"

text \<open>Well-formed UTF-8, as \<open>String::from_utf8\<close> demands: no overlong forms, no surrogates.\<close>

definition cont :: "u8 \<Rightarrow> bool" where "cont b \<longleftrightarrow> 0x80 \<le> b \<and> b \<le> 0xBF"

definition second_ok :: "u8 \<Rightarrow> u8 \<Rightarrow> bool" where
  "second_ok a b \<longleftrightarrow> cont b \<and> (a = 0xE0 \<longrightarrow> 0xA0 \<le> b) \<and> (a = 0xED \<longrightarrow> b \<le> 0x9F) \<and>
     (a = 0xF0 \<longrightarrow> 0x90 \<le> b) \<and> (a = 0xF4 \<longrightarrow> b \<le> 0x8F)"

fun utf8 :: "bytes \<Rightarrow> bool" where
  "utf8 [] = True"
| "utf8 (a # xs) =
     (if a < 0x80 then utf8 xs
      else if 0xC2 \<le> a \<and> a \<le> 0xDF then (case xs of b # ys \<Rightarrow> cont b \<and> utf8 ys | _ \<Rightarrow> False)
      else if 0xE0 \<le> a \<and> a \<le> 0xEF
        then (case xs of b # c # ys \<Rightarrow> second_ok a b \<and> cont c \<and> utf8 ys | _ \<Rightarrow> False)
      else if 0xF0 \<le> a \<and> a \<le> 0xF4
        then (case xs of b # c # e # ys \<Rightarrow> second_ok a b \<and> cont c \<and> cont e \<and> utf8 ys | _ \<Rightarrow> False)
      else False)"

definition decode_body :: "serde \<Rightarrow> bytes \<Rightarrow> string + (u64 \<times> wal_op)" where
  "decode_body sj body =
     (if length body < 11 then Inl ''body too short''
      else (let lsn = le_u64 (bslice body 0 8); op_type = body ! 8;
                table_len = unat (le_u16 (bslice body 9 2)) in
        if length body < 11 + table_len then Inl ''table name truncated''
        else if \<not> utf8 (bslice body 11 table_len) then Inl ''bad utf8 table name''
        else (case decode_payload sj op_type (bytes_str (bslice body 11 table_len)) (drop (11 + table_len) body) of
            Inl e \<Rightarrow> Inl e
          | Inr op \<Rightarrow> Inr (lsn, op))))"

section \<open>The log file\<close>

record wal =
  w_log :: "bytes option"
  w_checkpoint :: "bytes option"
  w_next_lsn :: u64
  w_handle :: bool
  w_wal_faults :: "fault list"

definition new_wal :: "bytes option \<Rightarrow> bytes option \<Rightarrow> fault list \<Rightarrow> wal" where
  "new_wal log cp fs = \<lparr>w_log = log, w_checkpoint = cp, w_next_lsn = 0, w_handle = False, w_wal_faults = fs\<rparr>"

definition wal_io :: "(wal \<Rightarrow> wal) \<Rightarrow> (nat \<Rightarrow> wal \<Rightarrow> wal) \<Rightarrow> (wal, unit) cmd" where
  "wal_io ok bad s = (case w_wal_faults s of
       [] \<Rightarrow> (Ok (), ok s)
     | NoFault # fs \<Rightarrow> (Ok (), ok (s\<lparr>w_wal_faults := fs\<rparr>))
     | Fault k # fs \<Rightarrow> (Err io_failure, bad k (s\<lparr>w_wal_faults := fs\<rparr>)))"

definition wal_check :: "(wal, unit) cmd" where
  "wal_check = wal_io id (\<lambda>_. id)"

text \<open>\<open>with_handle\<close> creates the file when it opens it for the first time.\<close>

definition with_handle :: "(wal, unit) cmd" where
  "with_handle = bindM (getM w_handle) (\<lambda>opened. if opened then okM ()
     else wal_io (\<lambda>s. s\<lparr>w_log := Some (case w_log s of None \<Rightarrow> [] | Some b \<Rightarrow> b), w_handle := True\<rparr>) (\<lambda>_. id))"

definition write_at_end :: "bytes \<Rightarrow> (wal, unit) cmd" where
  "write_at_end bs = seqM with_handle
    (seqM wal_check
    (seqM (wal_io (\<lambda>s. s\<lparr>w_log := map_option (\<lambda>b. b @ bs) (w_log s)\<rparr>)
                  (\<lambda>k s. s\<lparr>w_log := map_option (\<lambda>b. b @ take k bs) (w_log s)\<rparr>))
          wal_check))"

definition set_len :: "nat \<Rightarrow> bytes \<Rightarrow> bytes" where
  "set_len n b = take n b @ replicate (n - length b) 0"

definition truncate_to :: "nat \<Rightarrow> (wal, unit) cmd" where
  "truncate_to len = seqM with_handle
    (seqM (wal_io (\<lambda>s. s\<lparr>w_log := map_option (set_len len) (w_log s)\<rparr>) (\<lambda>_. id))
    (seqM wal_check wal_check))"

definition clear_wal :: "(wal, unit) cmd" where
  "clear_wal = seqM with_handle
    (seqM (wal_io (\<lambda>s. s\<lparr>w_log := map_option (set_len 0) (w_log s)\<rparr>) (\<lambda>_. id))
    (seqM wal_check wal_check))"

text \<open>\<open>Wal::truncate\<close>: cut without syncing.\<close>

definition truncate_wal :: "(wal, unit) cmd" where
  "truncate_wal = seqM with_handle
    (seqM (wal_io (\<lambda>s. s\<lparr>w_log := map_option (set_len 0) (w_log s)\<rparr>) (\<lambda>_. id)) wal_check)"

text \<open>The loop of \<open>parse\<close> from an offset of the buffer: the frames with their byte ranges and
  the length of the good part.\<close>

type_synonym frame_at = "u64 \<times> wal_op \<times> nat \<times> nat"

function parse_from :: "serde \<Rightarrow> bytes \<Rightarrow> nat \<Rightarrow> (frame_at list \<times> nat) outcome" where
  "parse_from sj buf offset =
     (if length buf < offset + 4 then Ok ([], offset)
      else (let body_len = unat (le_u32 (bslice buf offset 4)); end = offset + 4 + body_len in
        if length buf < end then Ok ([], offset)
        else (case decode_body sj (bslice buf (offset + 4) body_len) of
            Inl e \<Rightarrow> Err (IoError InvalidData e)
          | Inr (lsn, op) \<Rightarrow> (case parse_from sj buf end of
                Ok (frames, good) \<Rightarrow> Ok ((lsn, op, offset, end) # frames, good)
              | Err e \<Rightarrow> Err e
              | Panic \<Rightarrow> Panic))))"
  by pat_completeness auto
termination
  by (relation "measure (\<lambda>(_, buf, offset). length buf - offset)") auto

declare parse_from.simps [simp del]

definition parse :: "serde \<Rightarrow> (wal, frame_at list \<times> nat) cmd" where
  "parse sj = bindM (getM w_log) (\<lambda>log. case log of
       None \<Rightarrow> okM ([], 0)
     | Some buf \<Rightarrow> seqM wal_check (seqM wal_check (liftM (parse_from sj buf 0))))"

definition read_all :: "serde \<Rightarrow> (wal, (u64 \<times> wal_op) list \<times> nat) cmd" where
  "read_all sj = bindM (parse sj) (\<lambda>(frames, good_len).
     okM (map (\<lambda>(lsn, op, _, _). (lsn, op)) frames, good_len))"

definition read_first :: "serde \<Rightarrow> (wal, wal_op option) cmd" where
  "read_first sj = bindM (read_all sj) (\<lambda>(records, _).
     okM (map_option snd (find (\<lambda>r. snd r \<noteq> WCommit) records)))"

definition write_checkpoint :: "u64 \<Rightarrow> (wal, unit) cmd" where
  "write_checkpoint lsn = seqM wal_check
    (seqM wal_check
    (seqM wal_check
    (wal_io (\<lambda>s. s\<lparr>w_checkpoint := Some (u64_le lsn)\<rparr>) (\<lambda>_. id))))"

definition read_checkpoint :: "(wal, u64 option) cmd" where
  "read_checkpoint = bindM (getM w_checkpoint) (\<lambda>file. case file of
       None \<Rightarrow> okM None
     | Some bs \<Rightarrow> seqM wal_check
        (if length bs \<noteq> 8 then errM (IoError InvalidData ''invalid WAL checkpoint length'')
         else okM (Some (le_u64 bs))))"

definition lsn_exhausted :: io_error where
  "lsn_exhausted = other_error ''WAL LSN exhausted''"

definition take_lsn :: "serde \<Rightarrow> (wal, u64) cmd" where
  "take_lsn sj = bindM (getM w_next_lsn) (\<lambda>slot.
     seqM (if slot = 0
           then bindM read_checkpoint (\<lambda>cp. bindM (parse sj) (\<lambda>(frames, _).
             let base = (case cp of None \<Rightarrow> 0 | Some l \<Rightarrow> l);
                 base' = (if frames = [] then base else max base (fst (last frames)))
             in if base' = - 1 then errM lsn_exhausted
                else modM (\<lambda>s. s\<lparr>w_next_lsn := base' + 1\<rparr>)))
           else okM ())
    (bindM (getM w_next_lsn) (\<lambda>lsn.
       if lsn = - 1 then errM lsn_exhausted
       else seqM (modM (\<lambda>s. s\<lparr>w_next_lsn := lsn + 1\<rparr>)) (okM lsn))))"

definition encode_next :: "serde \<Rightarrow> wal_op \<Rightarrow> (wal, bytes) cmd" where
  "encode_next sj op = bindM (take_lsn sj) (\<lambda>lsn. okM (encode_op sj op lsn))"

definition append_op :: "serde \<Rightarrow> wal_op \<Rightarrow> (wal, unit) cmd" where
  "append_op sj op = bindM (encode_next sj op) write_at_end"

fun encode_all :: "serde \<Rightarrow> wal_op list \<Rightarrow> (wal, bytes) cmd" where
  "encode_all sj [] = okM []"
| "encode_all sj (op # ops) = bindM (encode_next sj op) (\<lambda>b.
     bindM (encode_all sj ops) (\<lambda>rest. okM (b @ rest)))"

definition append_group :: "serde \<Rightarrow> wal_op list \<Rightarrow> (wal, u64) cmd" where
  "append_group sj ops = bindM (encode_all sj ops) (\<lambda>frames.
     bindM (take_lsn sj) (\<lambda>commit_lsn.
     seqM (write_at_end (frames @ encode_op sj WCommit commit_lsn)) (okM commit_lsn)))"

text \<open>\<open>rewrite_tail\<close>: the kept bytes go to a temporary file that is renamed over the log.\<close>

definition rewrite_tail :: "nat \<Rightarrow> nat \<Rightarrow> (wal, unit) cmd" where
  "rewrite_tail start end = seqM (modM (\<lambda>s. s\<lparr>w_handle := False\<rparr>)) (bindM (getM w_log) (\<lambda>log. case log of
       None \<Rightarrow> errM (IoError NotFound ''log file'')
     | Some buf \<Rightarrow>
        (let tail = (if start \<le> end \<and> end \<le> length buf then bslice buf start (end - start) else [])
         in seqM wal_check
           (seqM wal_check
           (seqM wal_check
           (seqM wal_check
           (wal_io (\<lambda>s. s\<lparr>w_log := Some tail\<rparr>) (\<lambda>_. id))))))))"

definition truncate_before :: "serde \<Rightarrow> u64 \<Rightarrow> (wal, unit) cmd" where
  "truncate_before sj lsn = bindM (parse sj) (\<lambda>(frames, good_len).
     case map_option (\<lambda>(_, _, start, _). start) (find (\<lambda>(l, _, _, _). lsn < l) frames) of
       None \<Rightarrow> clear_wal
     | Some start \<Rightarrow> if start = 0 then okM () else rewrite_tail start good_len)"

definition truncate_after :: "serde \<Rightarrow> u64 \<Rightarrow> (wal, unit) cmd" where
  "truncate_after sj lsn = bindM (parse sj) (\<lambda>(frames, good_len).
     let keep = (case map_option (\<lambda>(_, _, start, _). start) (find (\<lambda>(l, _, _, _). lsn < l) frames) of
         None \<Rightarrow> good_len
       | Some start \<Rightarrow> start)
     in truncate_to (min keep good_len))"

section \<open>Groups\<close>

text \<open>The loop of \<open>committed_ops\<close>: the committed records so far and the open group.\<close>

fun commit_groups :: "(u64 \<times> wal_op) list \<Rightarrow> (u64 \<times> wal_op) list \<Rightarrow> (u64 \<times> wal_op) list \<Rightarrow>
    (u64 \<times> wal_op) list \<times> (u64 \<times> wal_op) list" where
  "commit_groups out pending [] = (out, pending)"
| "commit_groups out pending ((lsn, op) # rs) =
     (if op = WCommit then commit_groups (out @ pending) [] rs
      else commit_groups out (pending @ [(lsn, op)]) rs)"

definition committed_ops :: "(u64 \<times> wal_op) list \<Rightarrow> (u64 \<times> wal_op) list" where
  "committed_ops records = (case commit_groups [] [] records of (out, pending) \<Rightarrow>
     if length pending = 1 then out @ pending else out)"

definition records_after :: "(u64 \<times> wal_op) list \<Rightarrow> u64 \<Rightarrow> (u64 \<times> wal_op) list" where
  "records_after records cp = filter (\<lambda>r. cp < fst r) records"

section \<open>Frame round trip\<close>

text \<open>
  What is asked of the JSON library for one operation: its payload decodes to itself.  A
  migration also has to name valid file generations, which the decoder checks.
\<close>

definition reads_back :: "'a codec \<Rightarrow> 'a \<Rightarrow> bool" where
  "reads_back c x \<longleftrightarrow> decode c (encode c x) = Some x"

fun payload_ok :: "serde \<Rightarrow> wal_op \<Rightarrow> bool" where
  "payload_ok sj (WMigrate t i src tgt) = (reads_back (sj_op sj) (WMigrate t i src tgt) \<and>
     valid_generation src \<and> tgt \<noteq> [] \<and> valid_generation tgt)"
| "payload_ok sj (WHideColumn t c v) =
     reads_back (sj_value sj) (JObject [(''column'', JString c), (''schema_version'', version_value v)])"
| "payload_ok sj (WCompact t rows) = reads_back (sj_rows sj) rows"
| "payload_ok sj (WAccounts acs rm m) = (value_accounts sj (accounts_value sj acs) = Some acs \<and>
     reads_back (sj_value sj) (JObject [(''accounts'', accounts_value sj acs), (''migrate_roles'', JBool m),
       (''removed'', names_value rm)]))"
| "payload_ok sj (WInsert t r) = reads_back (sj_row sj) r"
| "payload_ok sj (WInsertBatch t rows) = reads_back (sj_rows sj) rows"
| "payload_ok sj (WDeleteKeys t ks) = reads_back (sj_keys sj) ks"
| "payload_ok sj (WReplaceAll t rows) = reads_back (sj_rows sj) rows"
| "payload_ok sj (WDropColumn t c v rows) = reads_back (sj_drop_column sj) (c, v, rows)"
| "payload_ok sj (WReplaceSchema t cs v rows) = reads_back (sj_replace_schema sj) (cs, v, rows)"
| "payload_ok sj (WCreateTable t cs i) = reads_back (sj_create_table sj) (cs, i)"
| "payload_ok sj (WCreateIndex t c) = reads_back (sj_string sj) c"
| "payload_ok sj (WDropIndex t c) = reads_back (sj_string sj) c"
| "payload_ok sj (WDropTable t) = True"
| "payload_ok sj WCommit = True"

definition frame_table :: "serde \<Rightarrow> wal_op \<Rightarrow> string" where
  "frame_table sj op = fst (snd (op_parts sj op))"

definition op_ok :: "serde \<Rightarrow> wal_op \<Rightarrow> bool" where
  "op_ok sj op \<longleftrightarrow> payload_ok sj op \<and> utf8 (str_bytes (frame_table sj op)) \<and>
     length (frame_table sj op) < 2 ^ 16 \<and> length (frame_body sj op 0) < 2 ^ 32"

lemma bytes_str_str_bytes [simp]: "bytes_str (str_bytes t) = t"
proof -
  have "char_of (unat (of_char c :: u8)) = c" for c
  proof -
    have "unat (of_char c :: u8) = of_char c"
      using of_nat_of_char [of c, where ?'a = u8, symmetric] by (simp add: unat_of_nat)
    then show ?thesis by simp
  qed
  then show ?thesis by (simp add: bytes_str_def str_bytes_def map_idI)
qed

lemma length_str_bytes [simp]: "length (str_bytes t) = length t"
  by (simp add: str_bytes_def)

lemma all_some_strings: "all_some (map (as_str \<circ> JString) ns) = Some ns"
  by (induction ns) (simp_all add: as_str_def)

lemma decode_payload_parts:
  assumes "payload_ok sj op" and "op_parts sj op = (ty, t, payload)"
  shows "decode_payload sj ty t payload = Inr op"
  using assms
proof (cases op)
  case (WAccounts acs rm m)
  then show ?thesis
    using assms all_some_strings [of rm]
    by (auto simp: op_parts_def decode_payload_def from_payload_def reads_back_def decode_accounts_def json_get_def
        names_value_def value_names_def as_bool_def op_codes)
qed (auto simp: op_parts_def decode_payload_def from_payload_def reads_back_def decode_hide_def decode_migrate_def
      value_hide_def hide_fields_def json_get_def as_str_def version_value_def op_codes split: option.splits)

lemma length_frame_body: "length (frame_body sj op lsn) = length (frame_body sj op 0)"
  by (simp add: frame_body_def split: prod.split)

lemma drop_prefix: "n = length xs \<Longrightarrow> drop n (xs @ ys) = ys"
  by simp

lemma decode_frame_body:
  assumes ok: "op_ok sj op"
  shows "decode_body sj (frame_body sj op lsn) = Inr (lsn, op)"
proof -
  obtain ty t payload where parts: "op_parts sj op = (ty, t, payload)" by (cases "op_parts sj op") auto
  let ?b = "frame_body sj op lsn"
  have b: "?b = u64_le lsn @ [ty] @ u16_le (word_of_nat (length t)) @ str_bytes t @ payload"
    by (simp add: frame_body_def parts)
  have t: "length t < 2 ^ 16" "utf8 (str_bytes t)" using ok by (simp_all add: op_ok_def frame_table_def parts)
  have "bslice ?b 0 8 = u64_le lsn" "?b ! 8 = ty" "bslice ?b 9 2 = u16_le (word_of_nat (length t))"
    "bslice ?b 11 (length t) = str_bytes t"
    by (simp_all add: b bslice_def nth_append)
  moreover have "drop (11 + length t) ?b = payload"
    using drop_prefix [of "11 + length t" "u64_le lsn @ [ty] @ u16_le (word_of_nat (length t)) @ str_bytes t" payload]
    by (simp add: b)
  moreover have "unat (word_of_nat (length t) :: u16) = length t" using t(1) by (simp add: unat_of_nat)
  moreover have "11 + length t \<le> length ?b" by (simp add: b)
  moreover have "decode_payload sj ty t payload = Inr op"
    using ok by (intro decode_payload_parts [OF _ parts]) (simp add: op_ok_def)
  ultimately show ?thesis using t(2) by (simp add: decode_body_def Let_def)
qed

type_synonym log_record = "u64 \<times> wal_op"

definition log_bytes :: "serde \<Rightarrow> log_record list \<Rightarrow> bytes" where
  "log_bytes sj rs = concat (map (\<lambda>(lsn, op). encode_op sj op lsn) rs)"

lemma log_bytes_simps [simp]:
  "log_bytes sj [] = []" "log_bytes sj (r # rs) = encode_op sj (snd r) (fst r) @ log_bytes sj rs"
  "log_bytes sj (rs @ rs') = log_bytes sj rs @ log_bytes sj rs'"
  by (simp_all add: log_bytes_def split_beta)

text \<open>A torn tail of the log: fewer bytes than the frame it begins needs.\<close>

definition torn :: "bytes \<Rightarrow> bool" where
  "torn t \<longleftrightarrow> length t < 4 \<or> length t < 4 + unat (le_u32 (bslice t 0 4))"

fun frames_at :: "serde \<Rightarrow> nat \<Rightarrow> log_record list \<Rightarrow> frame_at list" where
  "frames_at sj off [] = []"
| "frames_at sj off ((lsn, op) # rs) =
     (lsn, op, off, off + length (encode_op sj op lsn)) # frames_at sj (off + length (encode_op sj op lsn)) rs"

lemma length_encode_op [simp]: "length (encode_op sj op lsn) = 4 + length (frame_body sj op 0)"
  using length_frame_body [of sj op lsn] by (simp add: encode_op_def Let_def)

lemma encode_op_not_Nil [simp]: "encode_op sj op lsn \<noteq> []"
  using length_encode_op [of sj op lsn] by fastforce

lemma parse_log:
  assumes "\<forall>r \<in> set rs. op_ok sj (snd r)" and "torn t" and "off = length pre"
  shows "parse_from sj (pre @ log_bytes sj rs @ t) off =
    Ok (frames_at sj off rs, off + length (log_bytes sj rs))"
  using assms
proof (induction rs arbitrary: pre off)
  case Nil
  have "bslice (pre @ t) (length pre) 4 = bslice t 0 4" by (simp add: bslice_def)
  with Nil show ?case by (subst parse_from.simps) (auto simp: torn_def Let_def)
next
  case (Cons r rs)
  obtain lsn op where r: "r = (lsn, op)" by (cases r)
  let ?b = "frame_body sj op lsn" and ?buf = "pre @ encode_op sj op lsn @ log_bytes sj rs @ t"
  have ok: "op_ok sj op" using Cons.prems(1) by (simp add: r)
  then have small: "unat (word_of_nat (length ?b) :: u32) = length ?b"
    using length_frame_body [of sj op lsn] by (simp add: unat_of_nat op_ok_def)
  have h: "bslice ?buf off 4 = u32_le (word_of_nat (length ?b))" "bslice ?buf (off + 4) (length ?b) = ?b"
    using Cons.prems(3) by (simp_all add: encode_op_def Let_def bslice_def)
  have "parse_from sj ?buf (off + 4 + length ?b) =
      Ok (frames_at sj (off + 4 + length ?b) rs, off + 4 + length ?b + length (log_bytes sj rs))"
    using Cons.IH [where pre = "pre @ encode_op sj op lsn" and off = "off + 4 + length ?b"] Cons.prems length_frame_body [of sj op lsn] by simp
  then show ?case
    using h small decode_frame_body [OF ok] Cons.prems(3) length_frame_body [of sj op lsn]
    by (subst parse_from.simps) (simp add: r Let_def add.assoc)
qed

lemma frames_at_records [simp]: "map (\<lambda>(lsn, op, _, _). (lsn, op)) (frames_at sj off rs) = rs"
  by (induction sj off rs rule: frames_at.induct) auto

text \<open>A prefix of a log is a log with fewer records and a torn tail.\<close>

lemma torn_take_encode: "op_ok sj op \<Longrightarrow> k < length (encode_op sj op lsn) \<Longrightarrow> torn (take k (encode_op sj op lsn))"
proof -
  assume ok: "op_ok sj op" and k: "k < length (encode_op sj op lsn)"
  have "unat (word_of_nat (length (frame_body sj op 0)) :: u32) = length (frame_body sj op 0)"
    using ok by (simp add: unat_of_nat op_ok_def)
  moreover have "bslice (take k (encode_op sj op lsn)) 0 4 = u32_le (word_of_nat (length (frame_body sj op 0)))" if "4 \<le> k"
    using that length_frame_body [of sj op lsn] by (simp add: encode_op_def Let_def bslice_def)
  ultimately show ?thesis using k by (auto simp: torn_def)
qed

lemma take_log:
  assumes "\<forall>r \<in> set rs. op_ok sj (snd r)"
  shows "\<exists>i t. i \<le> length rs \<and> torn t \<and> take k (log_bytes sj rs) = log_bytes sj (take i rs) @ t \<and>
    (length (log_bytes sj rs) \<le> k \<longrightarrow> i = length rs)"
  using assms
proof (induction rs arbitrary: k)
  case Nil
  then show ?case by (auto simp: torn_def)
next
  case (Cons r rs)
  let ?e = "encode_op sj (snd r) (fst r)"
  show ?case
  proof (cases "k < length ?e")
    case True
    then have "torn (take k ?e)" using Cons.prems by (intro torn_take_encode) simp
    with True show ?thesis by (intro exI [of _ 0] exI [of _ "take k ?e"]) simp
  next
    case False
    from Cons obtain i t where "i \<le> length rs" "torn t" "take (k - length ?e) (log_bytes sj rs) = log_bytes sj (take i rs) @ t"
      "length (log_bytes sj rs) \<le> k - length ?e \<longrightarrow> i = length rs" by (metis list.set_intros(2))
    with False show ?thesis by (intro exI [of _ "Suc i"] exI [of _ t]) auto
  qed
qed

lemma commit_groups_append:
  "commit_groups out p (xs @ ys) = (case commit_groups out p xs of (o', p') \<Rightarrow> commit_groups o' p' ys)"
  by (induction out p xs rule: commit_groups.induct) auto

lemma commit_groups_open:
  "\<forall>r \<in> set xs. snd r \<noteq> WCommit \<Longrightarrow> commit_groups out p xs = (out, p @ xs)"
  by (induction xs arbitrary: p) auto

section \<open>Appending under faults\<close>

lemma wp_wal_io:
  assumes "\<And>fs. Q () (ok (s\<lparr>w_wal_faults := fs\<rparr>))" and "\<And>k fs. E (bad k (s\<lparr>w_wal_faults := fs\<rparr>))"
  shows "wp (wal_io ok bad) Q E s"
  using assms(1) [of "w_wal_faults s"] assms
  by (auto simp: wp_def wal_io_def split: list.splits fault.splits)

lemma wp_wal_check:
  assumes "\<And>fs. Q () (s\<lparr>w_wal_faults := fs\<rparr>)" and "\<And>fs. E (s\<lparr>w_wal_faults := fs\<rparr>)"
  shows "wp wal_check Q E s"
  unfolding wal_check_def using assms by (intro wp_wal_io) auto

definition log_of :: "wal \<Rightarrow> bytes" where
  "log_of s = (case w_log s of None \<Rightarrow> [] | Some b \<Rightarrow> b)"

definition checkpoint_lsn :: "wal \<Rightarrow> u64" where
  "checkpoint_lsn s = (case w_checkpoint s of None \<Rightarrow> 0 | Some b \<Rightarrow> le_u64 b)"

text \<open>
  A log in use: whole frames of good operations with ascending numbers, a readable checkpoint,
  and a counter ahead of both.  An open handle means the file exists.
\<close>

definition wal_inv :: "serde \<Rightarrow> log_record list \<Rightarrow> wal \<Rightarrow> bool" where
  "wal_inv sj rs s \<longleftrightarrow> log_of s = log_bytes sj rs \<and> (\<forall>r \<in> set rs. op_ok sj (snd r)) \<and>
     sorted_wrt (<) (map fst rs) \<and> (\<forall>b. w_checkpoint s = Some b \<longrightarrow> length b = 8) \<and>
     (w_handle s \<longrightarrow> w_log s \<noteq> None) \<and>
     (w_next_lsn s \<noteq> 0 \<longrightarrow> checkpoint_lsn s < w_next_lsn s \<and> (\<forall>r \<in> set rs. fst r < w_next_lsn s))"

lemma torn_Nil [simp]: "torn []"
  by (simp add: torn_def)

text \<open>The files and the counter, apart from the faults to come and the handle.\<close>

definition same_wal :: "wal \<Rightarrow> wal \<Rightarrow> bool" where
  "same_wal s t \<longleftrightarrow> w_log t = w_log s \<and> w_checkpoint t = w_checkpoint s \<and> w_handle t = w_handle s"

lemma wal_inv_cong:
  "same_wal s t \<Longrightarrow> w_next_lsn t = w_next_lsn s \<Longrightarrow> wal_inv sj rs t = wal_inv sj rs s"
  by (simp add: same_wal_def wal_inv_def log_of_def checkpoint_lsn_def)

lemma parse_wp:
  assumes inv: "wal_inv sj rs s"
    and Q: "\<And>fs. Q (frames_at sj 0 rs, length (log_bytes sj rs)) (s\<lparr>w_wal_faults := fs\<rparr>)"
    and E: "\<And>fs. E (s\<lparr>w_wal_faults := fs\<rparr>)"
  shows "wp (parse sj) Q E s"
proof (cases "w_log s")
  case None
  then have "rs = []" using inv by (cases rs) (auto simp: wal_inv_def log_of_def)
  then show ?thesis using None Q [of "w_wal_faults s"] by (simp add: parse_def wp_simps)
next
  case (Some b)
  then have "b = log_bytes sj rs" and ok: "\<forall>r \<in> set rs. op_ok sj (snd r)"
    using inv by (simp_all add: wal_inv_def log_of_def)
  then have p: "parse_from sj b 0 = Ok (frames_at sj 0 rs, length (log_bytes sj rs))"
    using parse_log [OF ok torn_Nil, where pre = "[]" and off = 0] by simp
  have "wp (liftM (parse_from sj b 0)) Q E t = Q (frames_at sj 0 rs, length (log_bytes sj rs)) t" for t
    by (simp add: p wp_def liftM_def)
  then show ?thesis using Some Q E by (simp add: parse_def wp_simps) (intro wp_wal_check, auto intro!: wp_wal_check)
qed

lemma last_frames_at: "rs \<noteq> [] \<Longrightarrow> fst (last (frames_at sj off rs)) = fst (last rs)"
proof (induction sj off rs rule: frames_at.induct)
  case (2 sj off lsn op rs)
  then show ?case by (cases rs) (auto split: prod.splits)
qed simp

lemma frames_at_Nil [simp]: "frames_at sj off rs = [] \<longleftrightarrow> rs = []"
  by (cases rs) auto

lemma last_greatest: "sorted_wrt (<) (map fst rs) \<Longrightarrow> r \<in> set rs \<Longrightarrow> fst r \<le> (fst (last rs) :: u64)"
proof (induction rs)
  case (Cons x xs)
  then show ?case by (cases "xs = []") (auto intro: less_imp_le)
qed simp

text \<open>A fresh number is beyond the checkpoint and every record of the log.\<close>

lemma take_lsn_wp:
  assumes inv: "wal_inv sj rs s"
    and Q: "\<And>n t. checkpoint_lsn s < n \<Longrightarrow> (\<forall>r \<in> set rs. fst r < n) \<Longrightarrow> n \<noteq> - 1 \<Longrightarrow> same_wal s t \<Longrightarrow>
      w_next_lsn t = n + 1 \<Longrightarrow> (w_next_lsn s \<noteq> 0 \<Longrightarrow> n = w_next_lsn s) \<Longrightarrow> Q n t"
    and E: "\<And>t. same_wal s t \<Longrightarrow> wal_inv sj rs t \<Longrightarrow> E t"
  shows "wp (take_lsn sj) Q E s"
proof -
  have rest: "wp (bindM (getM w_next_lsn) (\<lambda>lsn. if lsn = - 1 then errM lsn_exhausted
       else seqM (modM (\<lambda>s. s\<lparr>w_next_lsn := lsn + 1\<rparr>)) (okM lsn))) Q E t"
    if "same_wal s t" "checkpoint_lsn s < w_next_lsn t" "\<forall>r \<in> set rs. fst r < w_next_lsn t"
      "w_next_lsn s \<noteq> 0 \<Longrightarrow> w_next_lsn t = w_next_lsn s" for t
  proof (cases "w_next_lsn t = - 1")
    case True
    have "w_next_lsn t \<noteq> 0" using that(2) by auto
    then have "wal_inv sj rs t" using inv that by (auto simp: wal_inv_def same_wal_def log_of_def checkpoint_lsn_def)
    then show ?thesis using True E [OF that(1)] by (simp add: wp_simps)
  next
    case False
    then show ?thesis using that by (simp add: wp_simps) (intro Q, auto simp: same_wal_def)
  qed
  show ?thesis
  proof (cases "w_next_lsn s = 0")
    case False
    then show ?thesis
      using inv rest [of s] by (simp add: take_lsn_def wp_simps wal_inv_def same_wal_def)
  next
    case True
    define base where "base = checkpoint_lsn s"
    define base' where "base' = (if rs = [] then base else max base (fst (last rs)))"
    have le: "base \<le> base'" "\<forall>r \<in> set rs. fst r \<le> base'"
      using inv last_greatest [of rs] by (auto simp: base'_def wal_inv_def le_max_iff_disj)
    have fin: "wp (if base' = - 1 then errM lsn_exhausted else modM (\<lambda>s. s\<lparr>w_next_lsn := base' + 1\<rparr>))
        (\<lambda>_. wp (bindM (getM w_next_lsn) (\<lambda>lsn. if lsn = - 1 then errM lsn_exhausted
           else seqM (modM (\<lambda>s. s\<lparr>w_next_lsn := lsn + 1\<rparr>)) (okM lsn))) Q E) E t" if t: "same_wal s t" "w_next_lsn t = 0" for t
    proof (cases "base' = - 1")
      case True
      then show ?thesis using E [OF t(1)] wal_inv_cong [OF t(1)] inv t(2) \<open>w_next_lsn s = 0\<close> by (simp add: wp_simps)
    next
      case False
      then have "base' < base' + 1" by (rule word_less_Suc)
      then have "wp (bindM (getM w_next_lsn) (\<lambda>lsn. if lsn = - 1 then errM lsn_exhausted
           else seqM (modM (\<lambda>s. s\<lparr>w_next_lsn := lsn + 1\<rparr>)) (okM lsn))) Q E (t\<lparr>w_next_lsn := base' + 1\<rparr>)"
        using t le True by (intro rest) (auto simp: same_wal_def base_def [symmetric])
      with False show ?thesis by (simp add: wp_simps)
    qed
    have err: "E (s\<lparr>w_wal_faults := fs\<rparr>)" for fs
    proof -
      have "same_wal s (s\<lparr>w_wal_faults := fs\<rparr>)" by (simp add: same_wal_def)
      then show ?thesis using E wal_inv_cong inv by simp
    qed
    have cp: "wp read_checkpoint R E s" if R: "\<And>fs. R (map_option le_u64 (w_checkpoint s)) (s\<lparr>w_wal_faults := fs\<rparr>)" for R
    proof (cases "w_checkpoint s")
      case None
      then show ?thesis using R [of "w_wal_faults s"] by (simp add: read_checkpoint_def wp_simps)
    next
      case (Some b)
      then have "length b = 8" using inv by (simp add: wal_inv_def)
      then show ?thesis using Some R err by (auto simp: read_checkpoint_def wp_simps intro!: wp_wal_check)
    qed
    have "wp read_checkpoint (\<lambda>c. wp (parse sj) (\<lambda>(frames, _).
        wp (let b = (case c of None \<Rightarrow> 0 | Some l \<Rightarrow> l);
                b' = (if frames = [] then b else max b (fst (last frames)))
             in if b' = - 1 then errM lsn_exhausted else modM (\<lambda>s. s\<lparr>w_next_lsn := b' + 1\<rparr>))
        (\<lambda>_. wp (bindM (getM w_next_lsn) (\<lambda>lsn. if lsn = - 1 then errM lsn_exhausted
           else seqM (modM (\<lambda>s. s\<lparr>w_next_lsn := lsn + 1\<rparr>)) (okM lsn))) Q E) E) E) E s"
    proof (rule cp)
      fix fs
      have b: "(case map_option le_u64 (w_checkpoint s) of None \<Rightarrow> 0 | Some l \<Rightarrow> l) = base"
        by (simp add: base_def checkpoint_lsn_def split: option.split)
      have b': "(if frames_at sj 0 rs = [] then base else max base (fst (last (frames_at sj 0 rs)))) = base'"
        by (simp add: base'_def last_frames_at)
      show "wp (parse sj) (\<lambda>(frames, _).
        wp (let b = (case map_option le_u64 (w_checkpoint s) of None \<Rightarrow> 0 | Some l \<Rightarrow> l);
                b' = (if frames = [] then b else max b (fst (last frames)))
             in if b' = - 1 then errM lsn_exhausted else modM (\<lambda>s. s\<lparr>w_next_lsn := b' + 1\<rparr>))
        (\<lambda>_. wp (bindM (getM w_next_lsn) (\<lambda>lsn. if lsn = - 1 then errM lsn_exhausted
           else seqM (modM (\<lambda>s. s\<lparr>w_next_lsn := lsn + 1\<rparr>)) (okM lsn))) Q E) E) E (s\<lparr>w_wal_faults := fs\<rparr>)"
        unfolding b
      proof (rule parse_wp [of sj rs], goal_cases)
        case 1
        show ?case using inv wal_inv_cong [of s "s\<lparr>w_wal_faults := fs\<rparr>"] by (simp add: same_wal_def)
      next
        case (2 gs)
        show ?case unfolding prod.case Let_def b' by (rule fin) (simp_all add: same_wal_def True)
      next
        case (3 gs)
        show ?case using err by simp
      qed
    qed
    with True show ?thesis
      by (simp only: take_lsn_def wp_bindM wp_seqM wp_basic(4) True if_True refl case_prod_unfold)
  qed
qed

text \<open>Writing at the end of the log adds all the bytes, or a prefix of them when a call fails.\<close>

lemma write_at_end_wp:
  assumes h: "w_handle s \<longrightarrow> w_log s \<noteq> None"
    and Q: "\<And>t. w_log t = Some (log_of s @ bs) \<Longrightarrow> w_checkpoint t = w_checkpoint s \<Longrightarrow>
      w_next_lsn t = w_next_lsn s \<Longrightarrow> Q () t"
    and E: "\<And>t k. log_of t = log_of s @ take k bs \<Longrightarrow> w_checkpoint t = w_checkpoint s \<Longrightarrow>
      w_next_lsn t = w_next_lsn s \<Longrightarrow> (w_handle t \<longrightarrow> w_log t \<noteq> None) \<Longrightarrow> E t"
  shows "wp (write_at_end bs) Q E s"
proof -
  have rest: "wp (seqM wal_check (seqM (wal_io (\<lambda>s. s\<lparr>w_log := map_option (\<lambda>b. b @ bs) (w_log s)\<rparr>)
      (\<lambda>k s. s\<lparr>w_log := map_option (\<lambda>b. b @ take k bs) (w_log s)\<rparr>)) wal_check)) Q E t"
    if t: "w_log t = Some (log_of s)" "w_checkpoint t = w_checkpoint s" "w_next_lsn t = w_next_lsn s" for t
    unfolding wp_seqM
  proof (intro wp_wal_check wp_wal_io, goal_cases)
    case (2 fs fs' fs'')
    show ?case using t E [where k = "length bs"] by (simp add: log_of_def)
  next
    case (3 fs k fs')
    show ?case using t E [where k = k] by (simp add: log_of_def)
  next
    case (4 fs)
    show ?case using t E [where k = 0] by (simp add: log_of_def)
  qed (use t Q in simp)
  have fail: "E (s\<lparr>w_wal_faults := fs\<rparr>)" for fs using h by (intro E [where k = 0]) (simp_all add: log_of_def)
  show ?thesis
  proof (cases "w_handle s")
    case True
    then have "w_log s = Some (log_of s)" using h by (auto simp: log_of_def)
    with True rest [of s] show ?thesis by (simp add: write_at_end_def with_handle_def wp_simps)
  next
    case False
    have "wp with_handle (\<lambda>_. wp (seqM wal_check (seqM (wal_io (\<lambda>s. s\<lparr>w_log := map_option (\<lambda>b. b @ bs) (w_log s)\<rparr>)
      (\<lambda>k s. s\<lparr>w_log := map_option (\<lambda>b. b @ take k bs) (w_log s)\<rparr>)) wal_check)) Q E) E s"
      unfolding with_handle_def wp_bindM wp_basic
      using False fail by (auto intro!: wp_wal_io rest simp: log_of_def)
    then show ?thesis by (simp only: write_at_end_def wp_seqM)
  qed
qed

text \<open>The counter after numbers were taken: the log file is as before, the counter moved on.\<close>

lemma wal_inv_next:
  assumes "wal_inv sj rs s" "same_wal s t" "checkpoint_lsn s < w_next_lsn t" "\<forall>r \<in> set rs. fst r < w_next_lsn t"
  shows "wal_inv sj rs t"
  using assms by (auto simp: wal_inv_def same_wal_def log_of_def checkpoint_lsn_def)

lemma same_wal_trans: "same_wal s t \<Longrightarrow> same_wal t u \<Longrightarrow> same_wal s u"
  by (simp add: same_wal_def)

lemma same_wal_checkpoint: "same_wal s t \<Longrightarrow> checkpoint_lsn t = checkpoint_lsn s"
  by (simp add: same_wal_def checkpoint_lsn_def)

lemma encode_all_wp:
  assumes "wal_inv sj rs s"
    and "\<And>ls t. length ls = length ops \<Longrightarrow> sorted_wrt (<) ls \<Longrightarrow>
      (\<forall>l \<in> set ls. checkpoint_lsn s < l \<and> (\<forall>r \<in> set rs. fst r < l) \<and> w_next_lsn s \<le> l \<and> l < w_next_lsn t) \<Longrightarrow>
      same_wal s t \<Longrightarrow> wal_inv sj rs t \<Longrightarrow> w_next_lsn s \<le> w_next_lsn t \<Longrightarrow> Q (log_bytes sj (zip ls ops)) t"
    and "\<And>t. same_wal s t \<Longrightarrow> wal_inv sj rs t \<Longrightarrow> E t"
  shows "wp (encode_all sj ops) Q E s"
  using assms
proof (induction ops arbitrary: s Q)
  case Nil
  then show ?case by (simp add: wp_simps same_wal_def)
next
  case (Cons op ops)
  have step: "wp (encode_all sj ops) (\<lambda>rest. Q (encode_op sj op n @ rest)) E t"
    if n: "checkpoint_lsn s < n" "\<forall>r \<in> set rs. fst r < n" "n \<noteq> - 1" "same_wal s t" "w_next_lsn t = n + 1"
      "w_next_lsn s \<noteq> 0 \<Longrightarrow> n = w_next_lsn s" for n t
  proof (rule Cons.IH)
    have less: "n < n + 1" using n(3) by (rule word_less_Suc)
    show inv: "wal_inv sj rs t" 
      using less_trans [OF n(1) less] less_trans [OF _ less] n(2)
      by (intro wal_inv_next [OF Cons.prems(1) n(4)]) (simp_all add: n(5))
    fix u assume "same_wal t u" "wal_inv sj rs u"
    then show "E u" using Cons.prems(3) same_wal_trans [OF n(4)] by blast
  next
    fix ls u
    assume h: "length ls = length ops" "sorted_wrt (<) ls"
      "\<forall>l \<in> set ls. checkpoint_lsn t < l \<and> (\<forall>r \<in> set rs. fst r < l) \<and> w_next_lsn t \<le> l \<and> l < w_next_lsn u"
      "same_wal t u" "wal_inv sj rs u" "w_next_lsn t \<le> w_next_lsn u"
    have less: "n < n + 1" using n(3) by (rule word_less_Suc)
    have le: "w_next_lsn s \<le> n" using n(6) by (cases "w_next_lsn s = 0") auto
    have "Q (log_bytes sj (zip (n # ls) (op # ops))) u"
    proof (rule Cons.prems(2))
      show "sorted_wrt (<) (n # ls)" using h(2,3) less n(5) by (auto intro: less_le_trans)
      show "\<forall>l \<in> set (n # ls). checkpoint_lsn s < l \<and> (\<forall>r \<in> set rs. fst r < l) \<and> w_next_lsn s \<le> l \<and> l < w_next_lsn u"
      proof
        fix l assume "l \<in> set (n # ls)"
        then consider "l = n" | "l \<in> set ls" by auto
        then show "checkpoint_lsn s < l \<and> (\<forall>r \<in> set rs. fst r < l) \<and> w_next_lsn s \<le> l \<and> l < w_next_lsn u"
        proof cases
          case 1
          then show ?thesis using h(6) n(1,2,5) less le by simp
        next
          case 2
          then have "checkpoint_lsn t < l" "\<forall>r \<in> set rs. fst r < l" "n + 1 \<le> l" "l < w_next_lsn u" using h(3) n(5) by auto
          then show ?thesis using less le same_wal_checkpoint [OF n(4)] by simp
        qed
      qed
      show "w_next_lsn s \<le> w_next_lsn u" using h(6) n(5) less le by simp
    qed (use h same_wal_trans [OF n(4)] in auto)
    then show "Q (encode_op sj op n @ log_bytes sj (zip ls ops)) u" by simp
  qed
  show ?case
    unfolding encode_all.simps encode_next_def wp_bindM wp_basic
    by (rule take_lsn_wp [OF Cons.prems(1)]) (use step Cons.prems(3) in auto)
qed

lemma op_ok_Commit: "op_ok sj WCommit"
  by (simp add: op_ok_def frame_table_def op_parts_def str_bytes_def frame_body_def)

text \<open>The records of a group, numbered.\<close>

definition group_records :: "u64 list \<Rightarrow> wal_op list \<Rightarrow> u64 \<Rightarrow> log_record list" where
  "group_records ls ops n = zip ls ops @ [(n, WCommit)]"

lemma group_records_ok: "\<forall>op \<in> set ops. op_ok sj op \<Longrightarrow> \<forall>r \<in> set (group_records ls ops n). op_ok sj (snd r)"
  by (auto simp: group_records_def op_ok_Commit dest: set_zip_rightD)

lemma wal_inv_extend:
  assumes "wal_inv sj rs s" "w_log t = Some (log_bytes sj rs @ log_bytes sj gs)" "w_checkpoint t = w_checkpoint s"
    "sorted_wrt (<) (map fst (rs @ gs))" "\<forall>r \<in> set gs. op_ok sj (snd r)"
    "checkpoint_lsn s < w_next_lsn t" "\<forall>r \<in> set (rs @ gs). fst r < w_next_lsn t"
  shows "wal_inv sj (rs @ gs) t"
proof -
  have "checkpoint_lsn t = checkpoint_lsn s" using assms(3) by (simp add: checkpoint_lsn_def)
  moreover have "\<forall>r \<in> set (rs @ gs). op_ok sj (snd r)" using assms(1,5) by (fastforce simp: wal_inv_def)
  ultimately show ?thesis using assms by (simp add: wal_inv_def log_of_def)
qed

text \<open>
  A group is appended with numbers beyond the checkpoint and everything in the log.  When a
  call fails, the log holds some leading records of the group and a torn tail.
\<close>

lemma append_group_wp:
  assumes inv: "wal_inv sj rs s" and ok: "\<forall>op \<in> set ops. op_ok sj op"
    and Q: "\<And>ls n t. length ls = length ops \<Longrightarrow> wal_inv sj (rs @ group_records ls ops n) t \<Longrightarrow>
      (\<forall>l \<in> set ls. checkpoint_lsn s < l) \<Longrightarrow> checkpoint_lsn s < n \<Longrightarrow> w_checkpoint t = w_checkpoint s \<Longrightarrow> Q n t"
    and E: "\<And>ls n i tl' t. length ls = length ops \<Longrightarrow> torn tl' \<Longrightarrow> i \<le> Suc (length ops) \<Longrightarrow>
      log_of t = log_bytes sj (rs @ take i (group_records ls ops n)) @ tl' \<Longrightarrow> w_checkpoint t = w_checkpoint s \<Longrightarrow>
      (\<forall>r \<in> set (take i (group_records ls ops n)). checkpoint_lsn s < fst r) \<Longrightarrow> E t"
  shows "wp (append_group sj ops) Q E s"
  unfolding append_group_def wp_bindM wp_seqM wp_basic
proof (rule encode_all_wp [OF inv])
  have same: "E t" if "same_wal s t" for t
    using that inv by (intro E [of "replicate (length ops) 0" "[]" 0 t 0]) (auto simp: same_wal_def log_of_def wal_inv_def)
  then show "E t" if "same_wal s t" "wal_inv sj rs t" for t using that by blast
  fix ls t
  assume h: "length ls = length ops" "sorted_wrt (<) ls"
    "\<forall>l \<in> set ls. checkpoint_lsn s < l \<and> (\<forall>r \<in> set rs. fst r < l) \<and> w_next_lsn s \<le> l \<and> l < w_next_lsn t"
    "same_wal s t" "wal_inv sj rs t"
  show "wp (take_lsn sj) (\<lambda>n. wp (write_at_end (log_bytes sj (zip ls ops) @ encode_op sj WCommit n)) (\<lambda>_. Q n) E) E t"
  proof (rule take_lsn_wp [OF h(5)])
    show "E u" if "same_wal t u" for u
    proof -
      have "same_wal s u" using same_wal_trans [OF h(4) that] .
      then show ?thesis by (rule same)
    qed
    fix n u
    assume n: "checkpoint_lsn t < n" "\<forall>r \<in> set rs. fst r < n" "n \<noteq> - 1" "same_wal t u" "w_next_lsn u = n + 1"
      "w_next_lsn t \<noteq> 0 \<Longrightarrow> n = w_next_lsn t"
    have su: "same_wal s u" using same_wal_trans [OF h(4) n(4)] .
    have ls: "l < n" if "l \<in> set ls" for l
    proof -
      have "l < w_next_lsn t" using that h(3) by blast
      then have "w_next_lsn t \<noteq> 0" by auto
      with n(6) \<open>l < w_next_lsn t\<close> show ?thesis by simp
    qed
    have less: "n < n + 1" using n(3) by (rule word_less_Suc)
    have lu: "log_of u = log_bytes sj rs" using su inv by (simp add: same_wal_def log_of_def wal_inv_def)
    have bs: "log_bytes sj (zip ls ops) @ encode_op sj WCommit n = log_bytes sj (group_records ls ops n)"
      by (simp add: group_records_def)
    have cp: "w_checkpoint u = w_checkpoint s" "checkpoint_lsn t = checkpoint_lsn s"
      using su h(4) by (simp_all add: same_wal_def checkpoint_lsn_def)
    have hs: "w_handle u \<longrightarrow> w_log u \<noteq> None" using inv su by (simp add: same_wal_def wal_inv_def)
    have numbers: "\<forall>r \<in> set (group_records ls ops n). checkpoint_lsn s < fst r \<and> (\<forall>q \<in> set rs. fst q < fst r) \<and> fst r < n + 1"
      using h(3) less_trans [OF ls less] n(1,2) less cp by (auto simp: group_records_def dest!: set_zip_leftD)
    show "wp (write_at_end (log_bytes sj (zip ls ops) @ encode_op sj WCommit n)) (\<lambda>_. Q n) E u"
      unfolding bs
    proof (rule write_at_end_wp [OF hs])
      fix v :: wal
      assume v: "w_log v = Some (log_of u @ log_bytes sj (group_records ls ops n))" "w_checkpoint v = w_checkpoint u"
        "w_next_lsn v = w_next_lsn u"
      have map_gr: "map fst (group_records ls ops n) = ls @ [n]" using h(1) by (simp add: group_records_def)
      have "sorted_wrt (<) (map fst (rs @ group_records ls ops n))"
        using inv h(2,3) n(2) ls by (auto simp: map_gr sorted_wrt_append wal_inv_def)
      moreover have "checkpoint_lsn v = checkpoint_lsn s" using v(2) cp by (simp add: checkpoint_lsn_def)
      ultimately have "wal_inv sj (rs @ group_records ls ops n) v"
        using v numbers n(1,2,5) less cp lu less_trans [OF n(1) less] less_trans [OF _ less]
        by (intro wal_inv_extend [OF inv _ _ _ group_records_ok [OF ok]]) auto
      then show "Q n v" using h(1,3) n(1) cp v(2) by (intro Q [of ls]) auto
    next
      fix v k
      assume v: "log_of v = log_of u @ take k (log_bytes sj (group_records ls ops n))" "w_checkpoint v = w_checkpoint u"
      obtain i tl' where "i \<le> length (group_records ls ops n)" "torn tl'"
        "take k (log_bytes sj (group_records ls ops n)) = log_bytes sj (take i (group_records ls ops n)) @ tl'"
        using take_log [OF group_records_ok [OF ok]] by meson
      moreover have "\<forall>r \<in> set (take i (group_records ls ops n)). checkpoint_lsn s < fst r"
        using numbers by (blast dest: in_set_takeD)
      ultimately show "E v" using v lu cp h(1) by (intro E [of ls tl' i v n]) (auto simp: group_records_def)
    qed
  qed
qed

section \<open>What a restart finds\<close>

text \<open>The records that recovery replays: the committed ones of the log on disk.\<close>

definition committed_on_disk :: "serde \<Rightarrow> wal \<Rightarrow> log_record list outcome" where
  "committed_on_disk sj s = (case fst (read_all sj (new_wal (w_log s) (w_checkpoint s) [])) of
       Ok (records, _) \<Rightarrow> Ok (committed_ops records)
     | Err e \<Rightarrow> Err e
     | Panic \<Rightarrow> Panic)"

lemma read_all_disk:
  assumes "\<forall>r \<in> set rs. op_ok sj (snd r)" and "torn t" and "log_of s = log_bytes sj rs @ t"
  shows "fst (read_all sj (new_wal (w_log s) c [])) = Ok (rs, length (log_bytes sj rs))"
proof (cases "w_log s")
  case None
  then have "rs = []" using assms(3) by (cases rs) (auto simp: log_of_def)
  then show ?thesis using None by (simp add: read_all_def parse_def new_wal_def bindM_def getM_def okM_def)
next
  case (Some b)
  then have "b = log_bytes sj rs @ t" using assms(3) by (simp add: log_of_def)
  then have "parse_from sj b 0 = Ok (frames_at sj 0 rs, length (log_bytes sj rs))"
    using parse_log [OF assms(1,2), where pre = "[]" and off = 0] by simp
  then show ?thesis
    using Some by (simp add: read_all_def parse_def new_wal_def bindM_def getM_def okM_def seqM_def wal_check_def
        wal_io_def liftM_def)
qed

lemma committed_on_disk_log:
  assumes "\<forall>r \<in> set rs. op_ok sj (snd r)" and "torn t" and "log_of s = log_bytes sj rs @ t"
  shows "committed_on_disk sj s = Ok (committed_ops rs)"
  using read_all_disk [OF assms] by (simp add: committed_on_disk_def)

text \<open>A log whose last group is closed by its marker.\<close>

definition closed_log :: "log_record list \<Rightarrow> bool" where
  "closed_log rs \<longleftrightarrow> snd (commit_groups [] [] rs) = []"

lemma committed_closed:
  assumes "closed_log rs"
  obtains out where "commit_groups [] [] rs = (out, [])" and "committed_ops rs = out"
  using assms by (cases "commit_groups [] [] rs") (simp add: closed_log_def committed_ops_def)

lemma committed_group:
  assumes "closed_log rs" and "length ls = length ops" and "WCommit \<notin> set ops"
  shows "committed_ops (rs @ take i (group_records ls ops n)) =
     committed_ops rs @ (if length ops < i then zip ls ops else if i = 1 then take 1 (zip ls ops) else [])"
    and "closed_log (rs @ group_records ls ops n)"
proof -
  have no: "\<forall>r \<in> set (take i (zip ls ops)). snd r \<noteq> WCommit" "\<forall>r \<in> set (zip ls ops). snd r \<noteq> WCommit"
    using assms(3) by (auto dest!: in_set_takeD dest: set_zip_rightD)
  obtain out where out: "commit_groups [] [] rs = (out, [])" "committed_ops rs = out"
    using assms(1) by (rule committed_closed)
  show "committed_ops (rs @ take i (group_records ls ops n)) =
     committed_ops rs @ (if length ops < i then zip ls ops else if i = 1 then take 1 (zip ls ops) else [])"
  proof (cases "length ops < i")
    case True
    then have "take i (group_records ls ops n) = zip ls ops @ [(n, WCommit)]" using assms(2) by (simp add: group_records_def)
    with True show ?thesis
      using out commit_groups_open [OF no(2)]
      by (simp add: committed_ops_def [of "_ @ _"] commit_groups_append)
  next
    case False
    then have "take i (group_records ls ops n) = take i (zip ls ops)" "length (take i (zip ls ops)) = i"
      using assms(2) by (simp_all add: group_records_def)
    with False show ?thesis
      using out commit_groups_open [OF no(1)]
      by (auto simp: committed_ops_def [of "_ @ _"] commit_groups_append)
  qed
  show "closed_log (rs @ group_records ls ops n)"
    using out commit_groups_open [OF no(2)]
    by (simp add: closed_log_def group_records_def commit_groups_append)
qed

text \<open>
  Property (C5).  Appending a group of operations to a log of closed groups never panics.  When
  it succeeds, the log is in order again, all numbers of the group are beyond the checkpoint, and
  a restart replays the old operations and then the whole group.  When one of its I/O calls
  fails, a restart replays the old operations followed by the whole group, by nothing, or by
  the first operation alone.
\<close>

theorem append_group_recovery:
  assumes "wal_inv sj rs s" and "closed_log rs" and "WCommit \<notin> set ops" and "\<forall>op \<in> set ops. op_ok sj op"
  shows "case append_group sj ops s of
      (Ok n, t) \<Rightarrow> \<exists>ls. length ls = length ops \<and> wal_inv sj (rs @ group_records ls ops n) t \<and>
         closed_log (rs @ group_records ls ops n) \<and>
         (\<forall>l \<in> set (n # ls). checkpoint_lsn t < l) \<and>
         committed_on_disk sj t = Ok (committed_ops rs @ zip ls ops)
    | (Err _, t) \<Rightarrow> \<exists>ls. length ls = length ops \<and>
         (\<exists>c \<in> {zip ls ops, [], take 1 (zip ls ops)}. committed_on_disk sj t = Ok (committed_ops rs @ c))
    | (Panic, _) \<Rightarrow> False"
proof -
  let ?Q = "\<lambda>n t. \<exists>ls. length ls = length ops \<and> wal_inv sj (rs @ group_records ls ops n) t \<and>
         closed_log (rs @ group_records ls ops n) \<and>
         (\<forall>l \<in> set (n # ls). checkpoint_lsn t < l) \<and>
         committed_on_disk sj t = Ok (committed_ops rs @ zip ls ops)"
  let ?E = "\<lambda>t. \<exists>ls. length ls = length ops \<and>
         (\<exists>c \<in> {zip ls ops, [], take 1 (zip ls ops)}. committed_on_disk sj t = Ok (committed_ops rs @ c))"
  have ok: "\<forall>r \<in> set (rs @ take i (group_records ls ops n)). op_ok sj (snd r)" for i ls n
    using assms(1) group_records_ok [OF assms(4)] by (fastforce simp: wal_inv_def dest: in_set_takeD)
  have "wp (append_group sj ops) ?Q ?E s"
  proof (rule append_group_wp [OF assms(1,4)])
    fix ls n t
    assume h: "length ls = length ops" "wal_inv sj (rs @ group_records ls ops n) t"
      "\<forall>l \<in> set ls. checkpoint_lsn s < l" "checkpoint_lsn s < n" "w_checkpoint t = w_checkpoint s"
    have "log_of t = log_bytes sj (rs @ group_records ls ops n) @ []" using h(2) by (simp add: wal_inv_def)
    then have "committed_on_disk sj t = Ok (committed_ops (rs @ group_records ls ops n))"
      using h(2) by (intro committed_on_disk_log [where t = "[]"]) (simp_all add: wal_inv_def)
    moreover have "committed_ops (rs @ group_records ls ops n) = committed_ops rs @ zip ls ops"
      using committed_group(1) [OF assms(2) h(1) assms(3), of "Suc (length ops)" n] h(1)
      by (simp add: group_records_def)
    moreover have "checkpoint_lsn t = checkpoint_lsn s" using h(5) by (simp add: checkpoint_lsn_def)
    ultimately show "?Q n t" using h committed_group(2) [OF assms(2) h(1) assms(3)] by auto
  next
    fix ls n i tl' t
    assume h: "length ls = length ops" "torn tl'" "i \<le> Suc (length ops)"
      "log_of t = log_bytes sj (rs @ take i (group_records ls ops n)) @ tl'"
    have "committed_on_disk sj t = Ok (committed_ops (rs @ take i (group_records ls ops n)))"
      using h(2,4) by (intro committed_on_disk_log [OF ok])
    then show "?E t" using committed_group(1) [OF assms(2) h(1) assms(3), of i n] h(1) by auto
  qed
  then show ?thesis by (auto simp: wp_def split: prod.splits outcome.splits)
qed

text \<open>A concrete payload codec for the witnesses: index names are written as they are.\<close>

definition no_codec :: "'a codec" where
  "no_codec = \<lparr>encode = \<lambda>_. [], decode = \<lambda>_. None\<rparr>"

definition plain_serde :: serde where
  "plain_serde = \<lparr>sj_value = no_codec, sj_op = no_codec, sj_row = no_codec, sj_rows = no_codec, sj_keys = no_codec,
     sj_string = \<lparr>encode = str_bytes, decode = Some \<circ> bytes_str\<rparr>, sj_drop_column = no_codec,
     sj_replace_schema = no_codec, sj_create_table = no_codec, accounts_value = \<lambda>_. JNull, value_accounts = \<lambda>_. None\<rparr>"

lemma plain_ops_ok: "op_ok plain_serde (WCreateIndex ''t'' ''c'')" "op_ok plain_serde (WDropTable ''u'')"
proof -
  have "payload_ok plain_serde (WCreateIndex ''t'' ''c'')" by (simp add: reads_back_def plain_serde_def)
  then show "op_ok plain_serde (WCreateIndex ''t'' ''c'')" "op_ok plain_serde (WDropTable ''u'')"
    by (simp_all add: op_ok_def plain_serde_def frame_table_def op_parts_def frame_body_def str_bytes_def)
qed

theorem append_group_recovery_witness:
  "case append_group plain_serde [WCreateIndex ''t'' ''c'', WDropTable ''u''] (new_wal None None [NoFault, Fault 3]) of
      (Ok n, t) \<Rightarrow> \<exists>ls. length ls = Suc (Suc 0) \<and>
         committed_on_disk plain_serde t = Ok (zip ls [WCreateIndex ''t'' ''c'', WDropTable ''u''])
    | (Err _, t) \<Rightarrow> \<exists>ls. length ls = Suc (Suc 0) \<and> (\<exists>c \<in> {zip ls [WCreateIndex ''t'' ''c'', WDropTable ''u''], [],
         take 1 (zip ls [WCreateIndex ''t'' ''c'', WDropTable ''u''])}. committed_on_disk plain_serde t = Ok c)
    | (Panic, _) \<Rightarrow> False"
proof -
  have "wal_inv plain_serde [] (new_wal None None [NoFault, Fault 3])" "closed_log []" "committed_ops [] = []"
    by (simp_all add: wal_inv_def new_wal_def log_of_def closed_log_def committed_ops_def)
  with append_group_recovery [of plain_serde "[]" "new_wal None None [NoFault, Fault 3]"
      "[WCreateIndex ''t'' ''c'', WDropTable ''u'']"] plain_ops_ok
  show ?thesis by (auto split: prod.splits outcome.splits)
qed

section \<open>A group cut after its first frame\<close>

text \<open>
  Property (C39).  A group of two operations whose write fails right after the first frame is
  reported as failed, yet a restart counts its first operation as committed: the log keeps no
  sign that the frame belongs to an unfinished group.
\<close>

theorem torn_group_half_committed:
  assumes "op_ok sj a" and "op_ok sj b" and "a \<noteq> WCommit"
  shows "\<exists>t. append_group sj [a, b] (new_wal None None [NoFault, NoFault, Fault (length (encode_op sj a 1))]) =
      (Err io_failure, t) \<and> committed_on_disk sj t = Ok [(1, a)]"
proof -
  let ?f = "encode_op sj a 1"
  define t where "t = \<lparr>w_log = Some ?f, w_checkpoint = None, w_next_lsn = 4, w_handle = True, w_wal_faults = []\<rparr>"
  have "append_group sj [a, b] (new_wal None None [NoFault, NoFault, Fault (length ?f)]) = (Err io_failure, t)"
    by (simp add: append_group_def encode_next_def take_lsn_def read_checkpoint_def parse_def write_at_end_def
        with_handle_def wal_check_def wal_io_def new_wal_def bindM_def seqM_def getM_def modM_def okM_def t_def)
  moreover have "committed_on_disk sj t = Ok (committed_ops [(1, a)])"
    using assms(1) by (intro committed_on_disk_log [where t = "[]"]) (simp_all add: t_def log_of_def)
  ultimately show ?thesis using assms(3) by (auto simp: committed_ops_def)
qed

theorem torn_group_half_committed_witness:
  "\<exists>t. append_group plain_serde [WCreateIndex ''t'' ''c'', WDropTable ''u'']
       (new_wal None None [NoFault, NoFault, Fault (length (encode_op plain_serde (WCreateIndex ''t'' ''c'') 1))]) =
      (Err io_failure, t) \<and> committed_on_disk plain_serde t = Ok [(1, WCreateIndex ''t'' ''c'')]"
  using plain_ops_ok by (intro torn_group_half_committed) simp_all

text \<open>
  Property (C40).  The torn bytes of a failed append stay in the log, and the next append writes
  behind them: a group whose append succeeds right after one that stopped at its first byte is
  not found by a restart.  The operations are assumed shorter than \<open>2 ^ 24\<close> bytes.
\<close>

theorem append_after_torn_lost:
  assumes "op_ok sj a" and "op_ok sj b" and short: "length (frame_body sj b 0) < 2 ^ 24"
  shows "\<exists>t u. append_group sj [a] (new_wal None None [NoFault, NoFault, Fault 1]) = (Err io_failure, t) \<and>
      append_group sj [b] t = (Ok 4, u) \<and> committed_on_disk sj u = Ok []"
proof -
  define byte where "byte = hd (encode_op sj a 1)"
  define m where "m = length (frame_body sj b 3)"
  define t where "t = \<lparr>w_log = Some [byte], w_checkpoint = None, w_next_lsn = 3, w_handle = True, w_wal_faults = []\<rparr>"
  define log where "log = byte # encode_op sj b 3 @ encode_op sj WCommit 4"
  define u where "u = \<lparr>w_log = Some log, w_checkpoint = None, w_next_lsn = 5, w_handle = True, w_wal_faults = []\<rparr>"
  have first: "take (Suc 0) (encode_op sj a 1 @ xs) = [byte]" for xs
    by (cases "encode_op sj a 1") (auto simp: byte_def)
  have "append_group sj [a] (new_wal None None [NoFault, NoFault, Fault 1]) = (Err io_failure, t)"
    by (simp add: append_group_def encode_next_def take_lsn_def read_checkpoint_def parse_def write_at_end_def
        with_handle_def wal_check_def wal_io_def new_wal_def bindM_def seqM_def getM_def modM_def okM_def t_def first [of "[]", simplified])
  moreover have "append_group sj [b] t = (Ok 4, u)"
    by (simp add: append_group_def encode_next_def take_lsn_def write_at_end_def
        with_handle_def wal_check_def wal_io_def bindM_def seqM_def getM_def modM_def okM_def t_def u_def log_def)
  moreover have "committed_on_disk sj u = Ok []"
  proof -
    have m: "m < 2 ^ 24" "11 \<le> m" using short length_frame_body [of sj b 3]
      by (simp_all add: m_def frame_body_def split: prod.split)
    have "bslice log 0 4 = byte # take 3 (u32_le (word_of_nat m))"
      by (simp add: log_def bslice_def encode_op_def Let_def m_def take_Cons')
    also have "take 3 (u32_le (word_of_nat m)) = le_bytes 3 m"
      using m by (simp add: u32_le_def unat_of_nat take_le_bytes)
    finally have "le_value (bslice log 0 4) = unat byte + 256 * m"
      using m by (simp add: le_value_le_bytes)
    moreover have "unat byte < 256" using unat_bound [of byte] by simp
    ultimately have v: "unat (le_u32 (bslice log 0 4)) = unat byte + 256 * m"
      using m by (simp add: le_u32_def unat_of_nat del: of_nat_add of_nat_mult)
    have "length log = m + 20"
      using length_frame_body [of sj b 3] length_frame_body [of sj WCommit 4]
      by (simp add: log_def m_def frame_body_def [of _ WCommit] op_parts_def str_bytes_def)
    then have "torn log" using v m by (simp add: torn_def)
    then have "committed_on_disk sj u = Ok (committed_ops [])"
      by (intro committed_on_disk_log [where t = log]) (simp_all add: u_def log_of_def)
    then show ?thesis by (simp add: committed_ops_def)
  qed
  ultimately show ?thesis by blast
qed

theorem append_after_torn_lost_witness:
  "\<exists>t u. append_group plain_serde [WDropTable ''u''] (new_wal None None [NoFault, NoFault, Fault 1]) = (Err io_failure, t) \<and>
      append_group plain_serde [WCreateIndex ''t'' ''c''] t = (Ok 4, u) \<and> committed_on_disk plain_serde u = Ok []"
  using plain_ops_ok
  by (intro append_after_torn_lost) (simp_all add: frame_body_def op_parts_def plain_serde_def str_bytes_def)

section \<open>Cutting the log\<close>

lemma find_frame:
  "map_option (\<lambda>(_, _, start, _). start) (find (\<lambda>(l, _, _, _). lsn < l) (frames_at sj off rs)) =
     (if \<forall>r \<in> set rs. fst r \<le> lsn then None
      else Some (off + length (log_bytes sj (takeWhile (\<lambda>r. fst r \<le> lsn) rs))))"
proof (induction sj off rs rule: frames_at.induct)
  case (2 sj off l op rs)
  show ?case
  proof (cases "l \<le> lsn")
    case True
    then have "\<not> lsn < l" by simp
    then have "map_option (\<lambda>(_, _, start, _). start) (find (\<lambda>(l, _, _, _). lsn < l) (frames_at sj off ((l, op) # rs))) =
        map_option (\<lambda>(_, _, start, _). start)
          (find (\<lambda>(l, _, _, _). lsn < l) (frames_at sj (off + length (encode_op sj op l)) rs))"
      by simp
    also note 2
    also have "(if \<forall>r \<in> set rs. fst r \<le> lsn then None
        else Some (off + length (encode_op sj op l) + length (log_bytes sj (takeWhile (\<lambda>r. fst r \<le> lsn) rs)))) =
      (if \<forall>r \<in> set ((l, op) # rs). fst r \<le> lsn then None
        else Some (off + length (log_bytes sj (takeWhile (\<lambda>r. fst r \<le> lsn) ((l, op) # rs)))))"
      using True by (simp add: add.assoc)
    finally show ?thesis .
  next
    case False
    then have "lsn < l" by simp
    then show ?thesis using False by simp
  qed
qed simp

lemma log_split:
  "log_bytes sj rs = log_bytes sj (takeWhile P rs) @ log_bytes sj (dropWhile P rs)"
  by (metis log_bytes_simps(3) takeWhile_dropWhile_id)

lemma sorted_cut:
  assumes "sorted_wrt (<) (map fst rs)"
  shows "takeWhile (\<lambda>r. fst r \<le> (lsn :: u64)) rs = filter (\<lambda>r. fst r \<le> lsn) rs"
    and "dropWhile (\<lambda>r. fst r \<le> lsn) rs = filter (\<lambda>r. lsn < fst r) rs"
  using assms
proof (induction rs)
  case (Cons r rs)
  { case 1
    with Cons.IH(1) show ?case by (auto simp: filter_empty_conv not_le intro!: filter_False [symmetric] dest: less_trans)
  next
    case 2
    with Cons.IH(2) show ?case by (auto simp: not_le intro!: filter_True [symmetric] dest: less_trans)
  }
qed simp_all

lemma with_handle_wp:
  assumes "w_handle s \<longrightarrow> w_log s \<noteq> None"
    and "\<And>t. w_log t = Some (log_of s) \<Longrightarrow> w_checkpoint t = w_checkpoint s \<Longrightarrow> w_next_lsn t = w_next_lsn s \<Longrightarrow> Q () t"
    and "\<And>fs. E (s\<lparr>w_wal_faults := fs\<rparr>)"
  shows "wp with_handle Q E s"
  using assms
  by (cases "w_handle s") (auto simp: with_handle_def wp_simps log_of_def intro!: wp_wal_io)

text \<open>Setting the length of the log keeps the frames before the cut, or leaves the log as it was.\<close>

lemma cut_wp:
  assumes h: "w_handle s \<longrightarrow> w_log s \<noteq> None" and len: "n \<le> length (log_of s)"
    and Q: "\<And>t. w_log t = Some (take n (log_of s)) \<Longrightarrow> w_checkpoint t = w_checkpoint s \<Longrightarrow> w_next_lsn t = w_next_lsn s \<Longrightarrow> Q () t"
    and E: "\<And>t. log_of t \<in> {log_of s, take n (log_of s)} \<Longrightarrow> w_checkpoint t = w_checkpoint s \<Longrightarrow> w_next_lsn t = w_next_lsn s \<Longrightarrow> E t"
  shows "wp (seqM with_handle (seqM (wal_io (\<lambda>s. s\<lparr>w_log := map_option (set_len n) (w_log s)\<rparr>) (\<lambda>_. id))
      (seqM wal_check wal_check))) Q E s"
  unfolding wp_seqM
proof (rule with_handle_wp [OF h])
  fix t :: wal
  assume t: "w_log t = Some (log_of s)" "w_checkpoint t = w_checkpoint s" "w_next_lsn t = w_next_lsn s"
  show "wp (wal_io (\<lambda>s. s\<lparr>w_log := map_option (set_len n) (w_log s)\<rparr>) (\<lambda>_. id))
      (\<lambda>_. wp wal_check (\<lambda>_. wp wal_check Q E) E) E t"
    using t len by (auto intro!: wp_wal_io wp_wal_check Q E simp: set_len_def log_of_def)
qed (use E in \<open>simp add: log_of_def\<close>)

lemma wal_inv_handle: "wal_inv sj rs s \<Longrightarrow> w_handle s \<longrightarrow> w_log s \<noteq> None"
  by (simp add: wal_inv_def)

lemma wal_inv_sub:
  assumes "wal_inv sj rs s" "log_of t = log_bytes sj rs'" "w_checkpoint t = w_checkpoint s" "w_next_lsn t = w_next_lsn s"
    "w_handle t \<longrightarrow> w_log t \<noteq> None" "rs' = filter P rs"
  shows "wal_inv sj rs' t"
proof -
  have "checkpoint_lsn t = checkpoint_lsn s" using assms(3) by (simp add: checkpoint_lsn_def)
  moreover have "sorted_wrt (<) (map fst rs')" using assms(1,6) by (simp add: wal_inv_def sorted_wrt_map sorted_wrt_filter)
  ultimately show ?thesis using assms by (simp add: wal_inv_def)
qed

text \<open>A log with whole frames of good operations in order, and a torn tail.\<close>

definition log_holds :: "serde \<Rightarrow> log_record list \<Rightarrow> bytes \<Rightarrow> wal \<Rightarrow> bool" where
  "log_holds sj rs tail s \<longleftrightarrow> log_of s = log_bytes sj rs @ tail \<and> torn tail \<and> (\<forall>r \<in> set rs. op_ok sj (snd r)) \<and>
     sorted_wrt (<) (map fst rs) \<and> (w_handle s \<longrightarrow> w_log s \<noteq> None)"

lemma wal_inv_holds: "wal_inv sj rs s \<Longrightarrow> log_holds sj rs [] s"
  by (simp add: wal_inv_def log_holds_def)

lemma log_holds_faults [simp]: "log_holds sj rs tail (s\<lparr>w_wal_faults := fs\<rparr>) = log_holds sj rs tail s"
  by (simp add: log_holds_def log_of_def)

lemma parse_torn_wp:
  assumes h: "log_holds sj rs tail s"
    and Q: "\<And>fs. Q (frames_at sj 0 rs, length (log_bytes sj rs)) (s\<lparr>w_wal_faults := fs\<rparr>)"
    and E: "\<And>fs. E (s\<lparr>w_wal_faults := fs\<rparr>)"
  shows "wp (parse sj) Q E s"
proof (cases "w_log s")
  case None
  then have "rs = []" using h by (cases rs) (auto simp: log_holds_def log_of_def)
  then show ?thesis using None Q [of "w_wal_faults s"] by (simp add: parse_def wp_simps)
next
  case (Some b)
  then have "b = log_bytes sj rs @ tail" and ok: "\<forall>r \<in> set rs. op_ok sj (snd r)" and "torn tail"
    using h by (simp_all add: log_holds_def log_of_def)
  then have p: "parse_from sj b 0 = Ok (frames_at sj 0 rs, length (log_bytes sj rs))"
    using parse_log [OF ok \<open>torn tail\<close>, where pre = "[]" and off = 0] by simp
  have "wp (liftM (parse_from sj b 0)) Q E t = Q (frames_at sj 0 rs, length (log_bytes sj rs)) t" for t
    by (simp add: p wp_def liftM_def)
  then show ?thesis using Some Q E by (simp add: parse_def wp_simps) (intro wp_wal_check, auto intro!: wp_wal_check)
qed

text \<open>The last bytes of the log after the frames up to a number.\<close>

lemma rewrite_tail_wp:
  assumes "log_of s = pre @ mid @ tail" and "w_log s \<noteq> None"
    and Q: "\<And>t. log_of t = mid \<Longrightarrow> w_checkpoint t = w_checkpoint s \<Longrightarrow> w_next_lsn t = w_next_lsn s \<Longrightarrow> \<not> w_handle t \<Longrightarrow> Q () t"
    and E: "\<And>t. log_of t = log_of s \<Longrightarrow> w_checkpoint t = w_checkpoint s \<Longrightarrow> E t"
  shows "wp (rewrite_tail (length pre) (length pre + length mid)) Q E s"
proof -
  obtain b where b: "w_log s = Some b" using assms(2) by blast
  then have "bslice b (length pre) (length mid) = mid" "length pre + length mid \<le> length b"
    using assms(1) by (simp_all add: bslice_def log_of_def)
  then show ?thesis
    unfolding rewrite_tail_def wp_simps using b
    by (auto simp: Let_def wp_simps log_of_def intro!: wp_wal_check wp_wal_io Q E)
qed

lemma truncate_before_wp:
  assumes h: "log_holds sj rs tail s" and some: "tail = [] \<or> (\<exists>r \<in> set rs. fst r \<le> lsn)"
    and Q: "\<And>t. log_of t = log_bytes sj (filter (\<lambda>r. lsn < fst r) rs) \<Longrightarrow> w_checkpoint t = w_checkpoint s \<Longrightarrow>
      w_next_lsn t = w_next_lsn s \<Longrightarrow> w_handle t \<longrightarrow> w_log t \<noteq> None \<Longrightarrow> Q () t"
    and E: "\<And>t. log_of t \<in> {log_of s, log_bytes sj (filter (\<lambda>r. lsn < fst r) rs)} \<Longrightarrow> w_checkpoint t = w_checkpoint s \<Longrightarrow> E t"
  shows "wp (truncate_before sj lsn) Q E s"
  unfolding truncate_before_def wp_bindM
proof (rule parse_torn_wp [OF h], goal_cases)
  case (1 fs)
  let ?s = "s\<lparr>w_wal_faults := fs\<rparr>" and ?later = "filter (\<lambda>r. lsn < fst r) rs" and ?old = "takeWhile (\<lambda>r. fst r \<le> lsn) rs"
  have sorted: "sorted_wrt (<) (map fst rs)" and hs: "w_handle s \<longrightarrow> w_log s \<noteq> None"
    and log: "log_of ?s = log_bytes sj rs @ tail" using h by (simp_all add: log_holds_def log_of_def)
  have split: "log_bytes sj rs = log_bytes sj ?old @ log_bytes sj ?later"
    using log_split [of sj rs] sorted_cut(2) [OF sorted, of lsn] by metis
  have fs: "log_of ?s = log_of s" by (simp add: log_of_def)
  show ?case
  proof (cases "\<forall>r \<in> set rs. fst r \<le> lsn")
    case True
    then have nil: "?later = []" by (auto simp: filter_empty_conv not_less)
    have "wp clear_wal Q E ?s"
      unfolding clear_wal_def using hs nil fs
      by (intro cut_wp) (auto intro!: Q E simp: log_of_def)
    with True show ?thesis unfolding prod.case find_frame by simp
  next
    case False
    show ?thesis
    proof (cases "log_bytes sj ?old = []")
      case True
      then have "?old = []" by (cases ?old) auto
      then have later: "rs = ?later" using sorted_cut(2) [OF sorted, of lsn] by (metis takeWhile_dropWhile_id append_Nil)
      then have "\<forall>r \<in> set rs. lsn < fst r" by (metis (mono_tags) mem_Collect_eq set_filter)
      then have "tail = []" using some by fastforce
      then have "Q () ?s" using later log hs by (intro Q) simp_all
      then show ?thesis using True unfolding prod.case find_frame if_not_P [OF False] by (simp add: wp_simps)
    next
      case nonempty: False
      then have "w_log ?s \<noteq> None" using split log by (cases "w_log s") (auto simp: log_of_def)
      then have "wp (rewrite_tail (length (log_bytes sj ?old)) (length (log_bytes sj ?old) + length (log_bytes sj ?later))) Q E ?s"
        using log split fs by (intro rewrite_tail_wp) (auto intro!: Q E)
      then show ?thesis using nonempty split unfolding prod.case find_frame if_not_P [OF False] by simp
    qed
  qed
qed (use E in \<open>simp add: log_of_def\<close>)

lemma truncate_after_wp:
  assumes h: "log_holds sj rs tail s"
    and Q: "\<And>t. log_of t = log_bytes sj (filter (\<lambda>r. fst r \<le> lsn) rs) \<Longrightarrow> w_checkpoint t = w_checkpoint s \<Longrightarrow>
      w_next_lsn t = w_next_lsn s \<Longrightarrow> w_log t \<noteq> None \<Longrightarrow> Q () t"
    and E: "\<And>t. log_of t \<in> {log_of s, log_bytes sj (filter (\<lambda>r. fst r \<le> lsn) rs)} \<Longrightarrow> w_checkpoint t = w_checkpoint s \<Longrightarrow> E t"
  shows "wp (truncate_after sj lsn) Q E s"
  unfolding truncate_after_def wp_bindM
proof (rule parse_torn_wp [OF h], goal_cases)
  case (1 fs)
  let ?s = "s\<lparr>w_wal_faults := fs\<rparr>" and ?early = "filter (\<lambda>r. fst r \<le> lsn) rs"
  have sorted: "sorted_wrt (<) (map fst rs)" and hs: "w_handle s \<longrightarrow> w_log s \<noteq> None"
    and log: "log_of ?s = log_bytes sj rs @ tail" using h by (simp_all add: log_holds_def log_of_def)
  have split: "log_bytes sj rs = log_bytes sj ?early @ log_bytes sj (dropWhile (\<lambda>r. fst r \<le> lsn) rs)"
    using log_split [of sj rs] sorted_cut(1) [OF sorted, of lsn] by metis
  have keep: "min (case map_option (\<lambda>(_, _, start, _). start) (find (\<lambda>(l, _, _, _). lsn < l) (frames_at sj 0 rs)) of
      None \<Rightarrow> length (log_bytes sj rs) | Some start \<Rightarrow> start) (length (log_bytes sj rs)) = length (log_bytes sj ?early)"
  proof (cases "\<forall>r \<in> set rs. fst r \<le> lsn")
    case True
    then have "?early = rs" by (simp add: filter_id_conv)
    then show ?thesis unfolding find_frame if_P [OF True] by simp
  next
    case False
    have "length (log_bytes sj rs) = length (log_bytes sj ?early) + length (log_bytes sj (dropWhile (\<lambda>r. fst r \<le> lsn) rs))"
      by (subst split) simp
    then show ?thesis unfolding find_frame if_not_P [OF False] sorted_cut(1) [OF sorted] by simp
  qed
  have cut: "take (length (log_bytes sj ?early)) (log_of ?s) = log_bytes sj ?early" using split log by simp
  have fs: "log_of ?s = log_of s" by (simp add: log_of_def)
  have len: "length (log_bytes sj ?early) \<le> length (log_of ?s)" using cut by (metis length_take min.cobounded1)
  have "wp (truncate_to (length (log_bytes sj ?early))) Q E ?s"
    unfolding truncate_to_def using hs fs cut len
    by (intro cut_wp) (auto intro!: Q E simp: log_of_def)
  then show ?case by (simp only: prod.case Let_def keep)
qed (use E in \<open>simp add: log_of_def\<close>)

text \<open>
  Property (C34).  Dropping the records up to a log number keeps exactly the later ones and an
  orderly log; a failure leaves either the old log or the shortened one.
\<close>

theorem truncate_before_keeps_later:
  assumes inv: "wal_inv sj rs s"
  shows "case truncate_before sj lsn s of
      (Ok _, t) \<Rightarrow> wal_inv sj (filter (\<lambda>r. lsn < fst r) rs) t
    | (Err _, t) \<Rightarrow> log_of t \<in> {log_bytes sj rs, log_bytes sj (filter (\<lambda>r. lsn < fst r) rs)}
    | (Panic, _) \<Rightarrow> False"
proof -
  have "log_of s = log_bytes sj rs" using inv by (simp add: wal_inv_def)
  then have "wp (truncate_before sj lsn) (\<lambda>_. wal_inv sj (filter (\<lambda>r. lsn < fst r) rs))
      (\<lambda>t. log_of t \<in> {log_bytes sj rs, log_bytes sj (filter (\<lambda>r. lsn < fst r) rs)}) s"
    by (intro truncate_before_wp [OF wal_inv_holds [OF inv]] wal_inv_sub [OF inv]) auto
  then show ?thesis by (auto simp: wp_def split: prod.splits outcome.splits)
qed

theorem truncate_before_keeps_later_witness:
  "case truncate_before plain_serde 1 (new_wal (Some (encode_op plain_serde (WDropTable ''u'') 1 @
         encode_op plain_serde (WCreateIndex ''t'' ''c'') 2)) None [NoFault, Fault 0]) of
      (Ok _, t) \<Rightarrow> wal_inv plain_serde [(2, WCreateIndex ''t'' ''c'')] t
    | (Err _, t) \<Rightarrow> log_of t \<in> {log_bytes plain_serde [(1, WDropTable ''u''), (2, WCreateIndex ''t'' ''c'')],
        log_bytes plain_serde [(2, WCreateIndex ''t'' ''c'')]}
    | (Panic, _) \<Rightarrow> False"
proof -
  have i: "wal_inv plain_serde [(1, WDropTable ''u''), (2, WCreateIndex ''t'' ''c'')]
      (new_wal (Some (encode_op plain_serde (WDropTable ''u'') 1 @ encode_op plain_serde (WCreateIndex ''t'' ''c'') 2))
         None [NoFault, Fault 0])"
    using plain_ops_ok by (simp add: wal_inv_def new_wal_def log_of_def)
  have f: "filter (\<lambda>r. (1 :: u64) < fst r) [(1, WDropTable ''u''), (2, WCreateIndex ''t'' ''c'')] =
      [(2, WCreateIndex ''t'' ''c'')]" by (simp add: word_le_nat_alt)
  from truncate_before_keeps_later [OF i, of 1] show ?thesis unfolding f .
qed

text \<open>
  Dropping the records after a log number keeps exactly the earlier ones and an
  orderly log; a failure leaves either the old log or the shortened one.
\<close>

theorem truncate_after_keeps_earlier:
  assumes inv: "wal_inv sj rs s"
  shows "case truncate_after sj lsn s of
      (Ok _, t) \<Rightarrow> wal_inv sj (filter (\<lambda>r. fst r \<le> lsn) rs) t
    | (Err _, t) \<Rightarrow> log_of t \<in> {log_bytes sj rs, log_bytes sj (filter (\<lambda>r. fst r \<le> lsn) rs)}
    | (Panic, _) \<Rightarrow> False"
proof -
  have "log_of s = log_bytes sj rs" using inv by (simp add: wal_inv_def)
  then have "wp (truncate_after sj lsn) (\<lambda>_. wal_inv sj (filter (\<lambda>r. fst r \<le> lsn) rs))
      (\<lambda>t. log_of t \<in> {log_bytes sj rs, log_bytes sj (filter (\<lambda>r. fst r \<le> lsn) rs)}) s"
    by (intro truncate_after_wp [OF wal_inv_holds [OF inv]] wal_inv_sub [OF inv]) auto
  then show ?thesis by (auto simp: wp_def split: prod.splits outcome.splits)
qed

theorem truncate_after_keeps_earlier_witness:
  "case truncate_after plain_serde 1 (new_wal (Some (encode_op plain_serde (WDropTable ''u'') 1 @
         encode_op plain_serde (WCreateIndex ''t'' ''c'') 2)) None []) of
      (Ok _, t) \<Rightarrow> wal_inv plain_serde [(1, WDropTable ''u'')] t
    | (Err _, t) \<Rightarrow> log_of t \<in> {log_bytes plain_serde [(1, WDropTable ''u''), (2, WCreateIndex ''t'' ''c'')],
        log_bytes plain_serde [(1, WDropTable ''u'')]}
    | (Panic, _) \<Rightarrow> False"
proof -
  have i: "wal_inv plain_serde [(1, WDropTable ''u''), (2, WCreateIndex ''t'' ''c'')]
      (new_wal (Some (encode_op plain_serde (WDropTable ''u'') 1 @ encode_op plain_serde (WCreateIndex ''t'' ''c'') 2)) None [])"
    using plain_ops_ok by (simp add: wal_inv_def new_wal_def log_of_def)
  have f: "filter (\<lambda>r. fst r \<le> (1 :: u64)) [(1, WDropTable ''u''), (2, WCreateIndex ''t'' ''c'')] =
      [(1, WDropTable ''u'')]" by (simp add: word_le_nat_alt)
  from truncate_after_keeps_earlier [OF i, of 1] show ?thesis unfolding f .
qed

end
