(* ===== verification/Std_Float.thy ===== *)
theory Std_Float
  imports Complex_Main Protocol
begin

text \<open>
  The double-precision arithmetic that the column statistics use.  A value is not a number,
  infinite, or finite; a finite value is the rational number it denotes (the sign of a zero is
  not kept: no comparison or sum that the statistics make depends on it).  An operation rounds
  the exact result to the nearest double, ties to even.
\<close>

unbundle bit_operations_syntax

datatype f64 = NaN | Infinite bool | Finite rat

fun bit_length :: "nat \<Rightarrow> nat" where
  "bit_length n = (if n = 0 then 0 else Suc (bit_length (n div 2)))"

declare bit_length.simps [simp del]

definition two_to :: "int \<Rightarrow> rat" where
  "two_to k = (if k \<ge> 0 then 2 ^ nat k else 1 / 2 ^ nat (- k))"

definition round_half_even :: "rat \<Rightarrow> int" where
  "round_half_even x = (let q = \<lfloor>x\<rfloor>; f = x - of_int q in
     if f < 1 / 2 then q else if f > 1 / 2 then q + 1 else if even q then q else q + 1)"

text \<open>
  The binary exponent of a positive fraction \<open>n / d\<close>, and the exponent of the last place of the
  double next to it: 53 significant bits, and never below the smallest subnormal number.
\<close>

definition exponent_of :: "rat \<Rightarrow> int" where
  "exponent_of r = (let (n, d) = quotient_of r; k = int (bit_length (nat n)) - int (bit_length (nat d))
     in if r < two_to k then k - 1 else k)"

definition last_place :: "rat \<Rightarrow> int" where
  "last_place r = max (exponent_of r - 52) (- 1074)"

definition round_f64 :: "rat \<Rightarrow> f64" where
  "round_f64 r =
     (if r = 0 then Finite 0
      else (let e = last_place \<bar>r\<bar>; v = of_int (round_half_even (\<bar>r\<bar> / two_to e)) * two_to e
        in if two_to 1024 \<le> v then Infinite (r < 0) else Finite (if r < 0 then - v else v)))"

definition f64_of_bits :: "u64 \<Rightarrow> f64" where
  "f64_of_bits bits = (let e = unat (drop_bit 52 bits AND 0x7FF); m = unat (bits AND mask 52);
       v = (if e = 0 then of_nat m * two_to (- 1074) else of_nat (2 ^ 52 + m) * two_to (int e - 1075))
     in if e = 2047 then (if m = 0 then Infinite (bit bits 63) else NaN)
        else Finite (if bit bits 63 then - v else v))"

text \<open>\<open>Value::as_f64\<close>.\<close>

definition as_f64 :: "json \<Rightarrow> f64 option" where
  "as_f64 v = (case v of
       JNumber (PosInt n) \<Rightarrow> Some (round_f64 (of_nat (unat n)))
     | JNumber (NegInt n) \<Rightarrow> Some (round_f64 (of_int (sint n)))
     | JNumber (Float bits) \<Rightarrow> Some (f64_of_bits bits)
     | _ \<Rightarrow> None)"

section \<open>Comparison\<close>

fun f64_less :: "f64 \<Rightarrow> f64 \<Rightarrow> bool" where
  "f64_less NaN y = False"
| "f64_less x NaN = False"
| "f64_less (Infinite n) (Infinite m) = (n \<and> \<not> m)"
| "f64_less (Infinite n) (Finite s) = n"
| "f64_less (Finite r) (Infinite m) = (\<not> m)"
| "f64_less (Finite r) (Finite s) = (r < s)"

definition f64_le :: "f64 \<Rightarrow> f64 \<Rightarrow> bool" where
  "f64_le x y \<longleftrightarrow> x \<noteq> NaN \<and> y \<noteq> NaN \<and> \<not> f64_less y x"

definition f64_min :: "f64 \<Rightarrow> f64 \<Rightarrow> f64" where
  "f64_min x y = (if x = NaN then y else if y = NaN then x else if f64_less y x then y else x)"

definition f64_max :: "f64 \<Rightarrow> f64 \<Rightarrow> f64" where
  "f64_max x y = (if x = NaN then y else if y = NaN then x else if f64_less x y then y else x)"

section \<open>Arithmetic\<close>

fun f64_neg :: "f64 \<Rightarrow> f64" where
  "f64_neg NaN = NaN"
| "f64_neg (Infinite n) = Infinite (\<not> n)"
| "f64_neg (Finite r) = Finite (- r)"

fun f64_add :: "f64 \<Rightarrow> f64 \<Rightarrow> f64" where
  "f64_add NaN y = NaN"
| "f64_add x NaN = NaN"
| "f64_add (Infinite n) (Infinite m) = (if n = m then Infinite n else NaN)"
| "f64_add (Infinite n) (Finite s) = Infinite n"
| "f64_add (Finite r) (Infinite m) = Infinite m"
| "f64_add (Finite r) (Finite s) = round_f64 (r + s)"

definition f64_sub :: "f64 \<Rightarrow> f64 \<Rightarrow> f64" where
  "f64_sub x y = f64_add x (f64_neg y)"

text \<open>The factors and divisors of the statistics are positive and finite or an infinite difference.\<close>

fun f64_mul :: "f64 \<Rightarrow> f64 \<Rightarrow> f64" where
  "f64_mul NaN y = NaN"
| "f64_mul x NaN = NaN"
| "f64_mul (Infinite n) (Infinite m) = Infinite (n \<noteq> m)"
| "f64_mul (Infinite n) (Finite s) = (if s = 0 then NaN else Infinite (n \<noteq> (s < 0)))"
| "f64_mul (Finite r) (Infinite m) = (if r = 0 then NaN else Infinite (m \<noteq> (r < 0)))"
| "f64_mul (Finite r) (Finite s) = round_f64 (r * s)"

text \<open>Division by a zero, whose sign would matter, is not used: a divisor is positive.\<close>

fun f64_div :: "f64 \<Rightarrow> f64 \<Rightarrow> f64" where
  "f64_div NaN y = NaN"
| "f64_div x NaN = NaN"
| "f64_div (Infinite n) (Infinite m) = NaN"
| "f64_div (Infinite n) (Finite s) = Infinite (n \<noteq> (s < 0))"
| "f64_div (Finite r) (Infinite m) = Finite 0"
| "f64_div (Finite r) (Finite s) = (if s = 0 then (if r = 0 then NaN else Infinite (r < 0)) else round_f64 (r / s))"

text \<open>\<open>x.floor().clamp(0.0, n as f64) as usize\<close>: the cast takes not-a-number to 0.\<close>

fun floor_clamp :: "nat \<Rightarrow> f64 \<Rightarrow> nat" where
  "floor_clamp n NaN = 0"
| "floor_clamp n (Infinite negative) = (if negative then 0 else n)"
| "floor_clamp n (Finite r) = min (nat \<lfloor>r\<rfloor>) n"

lemma floor_clamp_le: "floor_clamp n x \<le> n"
  by (cases x) auto

end
