(* ===== verification/Std_Text.thy ===== *)
theory Std_Text
  imports Protocol
begin

text \<open>
  The parts of Rust's text library that the configuration, the log and the catalog use on
  strings of UTF-8 bytes: trimming of Unicode white space, padded decimal numbers and the
  joining of path components.
\<close>

section \<open>Trimming\<close>

text \<open>The UTF-8 encodings of the characters with the property \<open>White_Space\<close>.\<close>

definition white_space :: "string list" where
  "white_space = [[CHR 0x09], [CHR 0x0A], [CHR 0x0B], [CHR 0x0C], [CHR 0x0D], [CHR 0x20],
     [CHR 0xC2, CHR 0x85], [CHR 0xC2, CHR 0xA0], [CHR 0xE1, CHR 0x9A, CHR 0x80]] @
     map (\<lambda>n. [CHR 0xE2, CHR 0x80, char_of n]) ([0x80..<0x8B] @ [0xA8, 0xA9, 0xAF :: nat]) @
     [[CHR 0xE2, CHR 0x81, CHR 0x9F], [CHR 0xE3, CHR 0x80, CHR 0x80]]"

definition strip_prefix :: "string \<Rightarrow> string \<Rightarrow> string option" where
  "strip_prefix p s = (if take (length p) s = p then Some (drop (length p) s) else None)"

text \<open>The rest of the string behind the first of the words that it starts with.\<close>

fun strip_any :: "string list \<Rightarrow> string \<Rightarrow> string option" where
  "strip_any [] s = None"
| "strip_any (p # ps) s = (case strip_prefix p s of Some t \<Rightarrow> Some t | None \<Rightarrow> strip_any ps s)"

lemma strip_prefix_Some: "strip_prefix p s = Some t \<longleftrightarrow> s = p @ t"
  unfolding strip_prefix_def by (metis append_eq_conv_conj append_take_drop_id option.distinct(1) option.inject)

lemma strip_any_Some: "strip_any ps s = Some t \<Longrightarrow> \<exists>p \<in> set ps. s = p @ t"
  by (induction ps) (auto simp: strip_prefix_Some split: option.splits)

lemma strip_any_None: "strip_any ps s = None \<longleftrightarrow> (\<forall>p \<in> set ps. \<forall>t. s \<noteq> p @ t)"
proof (induction ps)
  case (Cons p ps)
  have "strip_prefix p s = None \<longleftrightarrow> (\<forall>t. s \<noteq> p @ t)" using strip_prefix_Some [of p s] by (cases "strip_prefix p s") auto
  with Cons show ?case by (simp split: option.split) (metis not_None_eq)
qed simp

lemma white_space_nonempty: "p \<in> set white_space \<Longrightarrow> p \<noteq> []"
  by (auto simp: white_space_def)

function trim_words :: "string list \<Rightarrow> string \<Rightarrow> string" where
  "trim_words ws s = (case strip_any (filter (\<lambda>p. p \<noteq> []) ws) s of None \<Rightarrow> s | Some t \<Rightarrow> trim_words ws t)"
  by pat_completeness auto

termination
proof (relation "measure (\<lambda>(ws, s). length s)")
  fix ws s t
  assume "strip_any (filter (\<lambda>p. p \<noteq> []) ws) s = Some t"
  from strip_any_Some [OF this] obtain p where "p \<noteq> []" "s = p @ t" by auto
  then show "((ws, t), (ws, s)) \<in> measure (\<lambda>(ws, s). length s)" by simp
qed simp

declare trim_words.simps [simp del]

definition trim_start :: "string \<Rightarrow> string" where
  "trim_start s = trim_words white_space s"

definition trim_end :: "string \<Rightarrow> string" where
  "trim_end s = rev (trim_words (map rev white_space) (rev s))"

definition trim :: "string \<Rightarrow> string" where
  "trim s = trim_end (trim_start s)"

section \<open>Numbers and paths\<close>

text \<open>\<open>{:0n}\<close>: a decimal number padded with zeros on the left.\<close>

definition zero_padded :: "nat \<Rightarrow> nat \<Rightarrow> string" where
  "zero_padded n v = replicate (n - length (dec_digits v)) (CHR ''0'') @ dec_digits v"

text \<open>\<open>PathBuf::join\<close> with a relative component.\<close>

definition join_path :: "string \<Rightarrow> string \<Rightarrow> string" where
  "join_path dir name = (if dir = [] \<or> last dir = CHR ''/'' then dir @ name else dir @ ''/'' @ name)"

section \<open>What trimming leaves\<close>

definition starts_free :: "string list \<Rightarrow> string \<Rightarrow> bool" where
  "starts_free ws s \<longleftrightarrow> (\<forall>p \<in> set ws. p \<noteq> [] \<longrightarrow> (\<forall>t. s \<noteq> p @ t))"

lemma strip_free: "strip_any (filter (\<lambda>p. p \<noteq> []) ws) s = None \<longleftrightarrow> starts_free ws s"
  by (auto simp: strip_any_None starts_free_def)

lemma trim_words_free: "starts_free ws (trim_words ws s)"
proof (induction ws s rule: trim_words.induct)
  case (1 ws s)
  then show ?case by (subst trim_words.simps) (auto simp: strip_free split: option.split)
qed

lemma trim_words_id: "starts_free ws s \<Longrightarrow> trim_words ws s = s"
  by (subst trim_words.simps) (simp add: strip_free [symmetric])

lemma trim_words_suffix: "\<exists>u. s = u @ trim_words ws s"
proof (induction ws s rule: trim_words.induct)
  case (1 ws s)
  show ?case
  proof (cases "strip_any (filter (\<lambda>p. p \<noteq> []) ws) s")
    case None
    then show ?thesis by (subst trim_words.simps) simp
  next
    case (Some t)
    then obtain p u where "s = p @ t" "t = u @ trim_words ws t" using strip_any_Some 1 by blast
    then have "s = (p @ u) @ trim_words ws t" by simp
    then show ?thesis using Some by (subst trim_words.simps) (metis option.simps(5))
  qed
qed

definition ends_free :: "string \<Rightarrow> bool" where
  "ends_free s \<longleftrightarrow> starts_free (map rev white_space) (rev s)"

lemma ends_free_iff: "ends_free s \<longleftrightarrow> (\<forall>p \<in> set white_space. \<forall>t. s \<noteq> t @ p)"
proof -
  have "rev s = rev p @ t \<longleftrightarrow> s = rev t @ p" for p t by (metis rev_append rev_rev_ident)
  then show ?thesis
    by (auto simp: ends_free_def starts_free_def white_space_nonempty) (metis rev_rev_ident white_space_nonempty)+
qed

lemma trim_end_id: "ends_free s \<Longrightarrow> trim_end s = s"
  by (simp add: trim_end_def ends_free_def trim_words_id)

lemma trim_end_prefix: "\<exists>u. s = trim_end s @ u"
  unfolding trim_end_def using trim_words_suffix [of "rev s" "map rev white_space"] by (metis rev_append rev_rev_ident)

lemma trim_ends_free: "ends_free (trim s)"
  by (simp add: trim_def trim_end_def ends_free_def trim_words_free)

lemma starts_free_prefix: "starts_free ws (a @ b) \<Longrightarrow> starts_free ws a"
  unfolding starts_free_def by (metis append_assoc)

lemma trim_starts_free: "starts_free white_space (trim s)"
proof -
  obtain u where "trim_start s = trim s @ u" using trim_end_prefix by (metis trim_def)
  then show ?thesis using trim_words_free [of white_space s] starts_free_prefix by (metis trim_start_def)
qed

lemma trim_id: "starts_free white_space s \<Longrightarrow> ends_free s \<Longrightarrow> trim s = s"
  by (simp add: trim_def trim_start_def trim_words_id trim_end_id)

lemma trim_idem [simp]: "trim (trim s) = trim s"
  by (simp add: trim_id trim_starts_free trim_ends_free)

lemma white_space_bytes:
  "p \<in> set white_space \<Longrightarrow> c \<in> set p \<Longrightarrow> of_char c \<le> (32 :: nat) \<or> 128 \<le> (of_char c :: nat)"
  by (auto simp: white_space_def)

text \<open>Text that begins and ends with a visible character stays as it is.\<close>

lemma trim_plain:
  assumes "s \<noteq> []" and "32 < (of_char (hd s) :: nat)" "of_char (hd s) < (128 :: nat)"
    and "32 < (of_char (last s) :: nat)" "of_char (last s) < (128 :: nat)"
  shows "trim s = s"
proof (rule trim_id)
  have h: "hd s \<notin> hd ` set white_space" using white_space_bytes [OF _ hd_in_set] white_space_nonempty assms(2,3) by force
  have l: "last s \<notin> last ` set white_space" using white_space_bytes [OF _ last_in_set] white_space_nonempty assms(4,5) by force
  show "starts_free white_space s" using assms(1) h by (force simp: starts_free_def)
  have "s \<noteq> t @ p" if "p \<in> set white_space" for p t
    using that l white_space_nonempty [OF that] by (metis image_eqI last_appendR)
  then show "ends_free s" by (simp add: ends_free_iff)
qed

end
