(* ===== verification/Std_Maps.thy ===== *)
theory Std_Maps
  imports Chu_Prelude
begin

text \<open>
  The maps of the Rust standard library that the storage engine uses.  A \<open>BTreeMap\<close> is the list
  of its entries in ascending key order; a \<open>HashMap\<close> is the list of its entries in some order.
  The interface both offer is a locale, in which the loops that insert or remove many keys are
  treated once.
\<close>

section \<open>The interface\<close>

locale key_map =
  fixes get :: "'m \<Rightarrow> 'k \<Rightarrow> 'v option"
    and put :: "'k \<Rightarrow> 'v \<Rightarrow> 'm \<Rightarrow> 'm"
    and del :: "'k \<Rightarrow> 'm \<Rightarrow> 'm"
    and ok :: "'m \<Rightarrow> bool"
  assumes get_put: "ok m \<Longrightarrow> get (put k v m) = (get m)(k \<mapsto> v)"
    and get_del: "ok m \<Longrightarrow> get (del k m) = (get m)(k := None)"
    and ok_put: "ok m \<Longrightarrow> ok (put k v m)"
    and ok_del: "ok m \<Longrightarrow> ok (del k m)"
begin

text \<open>\<open>extend\<close>: insert every entry, later entries win.\<close>

lemma ok_put_all: "ok m \<Longrightarrow> ok (foldl (\<lambda>m e. put (fst e) (snd e) m) m es)"
  by (induction es arbitrary: m) (auto simp: ok_put)

lemma get_put_all: "ok m \<Longrightarrow> get (foldl (\<lambda>m e. put (fst e) (snd e) m) m es) = get m ++ map_of (rev es)"
proof (induction es arbitrary: m)
  case (Cons e es)
  then show ?case by (simp add: ok_put get_put) (auto simp: fun_eq_iff map_add_def split: option.split)
qed simp

lemma ok_del_all: "ok m \<Longrightarrow> ok (foldl (\<lambda>m k. del k m) m ks)"
  by (induction ks arbitrary: m) (auto simp: ok_del)

lemma get_del_all: "ok m \<Longrightarrow> get (foldl (\<lambda>m k. del k m) m ks) = (\<lambda>k. if k \<in> set ks then None else get m k)"
  by (induction ks arbitrary: m) (auto simp: ok_del get_del fun_eq_iff)

end

section \<open>Ordered maps\<close>

type_synonym ('k, 'v) btree_map = "('k \<times> 'v) list"

fun bt_insert :: "'k::linorder \<Rightarrow> 'v \<Rightarrow> ('k, 'v) btree_map \<Rightarrow> ('k, 'v) btree_map" where
  "bt_insert k v [] = [(k, v)]"
| "bt_insert k v ((k', v') # m) =
     (if k < k' then (k, v) # (k', v') # m
      else if k = k' then (k, v) # m
      else (k', v') # bt_insert k v m)"

definition bt_remove :: "'k \<Rightarrow> ('k, 'v) btree_map \<Rightarrow> ('k, 'v) btree_map" where
  "bt_remove k m = filter (\<lambda>e. fst e \<noteq> k) m"

text \<open>\<open>get_mut\<close> followed by an assignment to what it found.\<close>

definition bt_adjust :: "'k \<Rightarrow> ('v \<Rightarrow> 'v) \<Rightarrow> ('k, 'v) btree_map \<Rightarrow> ('k, 'v) btree_map" where
  "bt_adjust k f m = map (\<lambda>e. if fst e = k then (k, f (snd e)) else e) m"

text \<open>\<open>values_mut\<close> and \<open>retain\<close>.\<close>

definition bt_map :: "('k \<Rightarrow> 'v \<Rightarrow> 'w) \<Rightarrow> ('k, 'v) btree_map \<Rightarrow> ('k, 'w) btree_map" where
  "bt_map f m = map (\<lambda>e. (fst e, f (fst e) (snd e))) m"

definition bt_retain :: "('k \<Rightarrow> 'v \<Rightarrow> bool) \<Rightarrow> ('k, 'v) btree_map \<Rightarrow> ('k, 'v) btree_map" where
  "bt_retain P m = filter (\<lambda>e. P (fst e) (snd e)) m"

definition bt_extend :: "('k::linorder, 'v) btree_map \<Rightarrow> ('k \<times> 'v) list \<Rightarrow> ('k, 'v) btree_map" where
  "bt_extend m es = foldl (\<lambda>m e. bt_insert (fst e) (snd e) m) m es"

definition bt_remove_all :: "('k, 'v) btree_map \<Rightarrow> 'k list \<Rightarrow> ('k, 'v) btree_map" where
  "bt_remove_all m ks = foldl (\<lambda>m k. bt_remove k m) m ks"

definition bt_ok :: "('k::linorder, 'v) btree_map \<Rightarrow> bool" where
  "bt_ok m \<longleftrightarrow> sorted_wrt (<) (map fst m)"

lemma bt_ok_Nil [simp]: "bt_ok []"
  by (simp add: bt_ok_def)

lemma bt_ok_Cons: "bt_ok (e # m) \<longleftrightarrow> (\<forall>k \<in> fst ` set m. fst e < k) \<and> bt_ok m"
  by (auto simp: bt_ok_def)

lemma bt_ok_distinct: "bt_ok m \<Longrightarrow> distinct (map fst m)"
  by (induction m) (auto simp: bt_ok_Cons)

lemma bt_get_Some: "bt_ok m \<Longrightarrow> map_of m k = Some v \<longleftrightarrow> (k, v) \<in> set m"
  by (simp add: bt_ok_distinct)

lemma keys_bt_insert: "fst ` set (bt_insert k v m) = insert k (fst ` set m)"
  by (induction k v m rule: bt_insert.induct) auto

lemma bt_ok_insert [simp]: "bt_ok m \<Longrightarrow> bt_ok (bt_insert k v m)"
  by (induction k v m rule: bt_insert.induct) (auto simp: bt_ok_Cons keys_bt_insert intro: less_trans)

lemma get_bt_insert: "bt_ok m \<Longrightarrow> map_of (bt_insert k v m) = (map_of m)(k \<mapsto> v)"
proof (induction k v m rule: bt_insert.induct)
  case (2 k v k' v' m)
  then show ?case by (auto simp: bt_ok_Cons fun_eq_iff)
qed simp

lemma get_bt_remove: "map_of (bt_remove k m) = (map_of m)(k := None)"
  by (induction m) (auto simp: bt_remove_def fun_eq_iff)

lemma bt_ok_filter: "bt_ok m \<Longrightarrow> bt_ok (filter P m)"
  by (simp add: bt_ok_def sorted_wrt_map sorted_wrt_filter)

lemma bt_ok_remove [simp]: "bt_ok m \<Longrightarrow> bt_ok (bt_remove k m)"
  by (simp add: bt_remove_def bt_ok_filter)

lemma keys_bt_adjust [simp]: "map fst (bt_adjust k f m) = map fst m"
  by (induction m) (auto simp: bt_adjust_def)

lemma bt_ok_adjust [simp]: "bt_ok (bt_adjust k f m) = bt_ok m"
  by (simp add: bt_ok_def)

lemma get_bt_adjust: "map_of (bt_adjust k f m) k' = (if k' = k then map_option f (map_of m k) else map_of m k')"
  by (induction m) (auto simp: bt_adjust_def)

lemma keys_bt_map [simp]: "map fst (bt_map f m) = map fst m"
  by (simp add: bt_map_def comp_def)

lemma bt_ok_map [simp]: "bt_ok (bt_map f m) = bt_ok m"
  by (simp add: bt_ok_def)

lemma get_bt_map: "map_of (bt_map f m) k = map_option (f k) (map_of m k)"
  by (induction m) (auto simp: bt_map_def)

lemma bt_ok_retain [simp]: "bt_ok m \<Longrightarrow> bt_ok (bt_retain P m)"
  by (simp add: bt_retain_def bt_ok_filter)

lemma get_bt_retain:
  "bt_ok m \<Longrightarrow> map_of (bt_retain P m) k = (case map_of m k of None \<Rightarrow> None | Some v \<Rightarrow> if P k v then Some v else None)"
proof (induction m)
  case (Cons e m)
  have "map_of m (fst e) = None" using Cons.prems by (auto simp: bt_ok_Cons map_of_eq_None_iff)
  then have "map_of (filter (\<lambda>e. P (fst e) (snd e)) m) (fst e) = None" by (auto simp: map_of_eq_None_iff)
  with Cons show ?case by (auto simp: bt_retain_def bt_ok_Cons)
qed (simp add: bt_retain_def)

text \<open>An ordered map is determined by its lookups.\<close>

lemma bt_ext:
  assumes "bt_ok m" and "bt_ok m'" and "\<And>k. map_of m k = map_of m' k"
  shows "m = m'"
proof (rule map_sorted_distinct_set_unique [where f = fst])
  show "set m = set m'" using assms bt_get_Some by (metis set_eqI surj_pair)
  show "inj_on fst (set m \<union> set m')"
    using assms(1,2) \<open>set m = set m'\<close> by (simp add: bt_ok_distinct eq_key_imp_eq_value inj_on_def) (metis bt_ok_distinct eq_key_imp_eq_value prod.collapse)
qed (use assms in \<open>auto simp: bt_ok_def strict_sorted_iff\<close>)

interpretation bt: key_map map_of bt_insert bt_remove bt_ok
  by unfold_locales (simp_all add: get_bt_insert get_bt_remove)

lemma bt_ok_extend [simp]: "bt_ok m \<Longrightarrow> bt_ok (bt_extend m es)"
  unfolding bt_extend_def by (rule bt.ok_put_all)

lemma get_bt_extend: "bt_ok m \<Longrightarrow> map_of (bt_extend m es) = map_of m ++ map_of (rev es)"
  unfolding bt_extend_def by (rule bt.get_put_all)

lemma bt_ok_remove_all [simp]: "bt_ok m \<Longrightarrow> bt_ok (bt_remove_all m ks)"
  unfolding bt_remove_all_def by (rule bt.ok_del_all)

lemma get_bt_remove_all: "bt_ok m \<Longrightarrow> map_of (bt_remove_all m ks) = (\<lambda>k. if k \<in> set ks then None else map_of m k)"
  unfolding bt_remove_all_def by (rule bt.get_del_all)

section \<open>Hash maps\<close>

type_synonym ('k, 'v) hash_map = "('k \<times> 'v) list"

definition hm_ok :: "('k, 'v) hash_map \<Rightarrow> bool" where
  "hm_ok m \<longleftrightarrow> distinct (map fst m)"

abbreviation hm_insert :: "'k \<Rightarrow> 'v \<Rightarrow> ('k, 'v) hash_map \<Rightarrow> ('k, 'v) hash_map" where
  "hm_insert \<equiv> AList.update"

abbreviation hm_remove :: "'k \<Rightarrow> ('k, 'v) hash_map \<Rightarrow> ('k, 'v) hash_map" where
  "hm_remove \<equiv> AList.delete"

interpretation hm: key_map map_of hm_insert hm_remove hm_ok
proof unfold_locales
  fix k :: 'a and m :: "('a, 'b) hash_map"
  show "map_of (hm_remove k m) = (map_of m)(k := None)" by (simp add: delete_conv')
qed (simp_all add: hm_ok_def update_conv' distinct_update distinct_delete)

definition hm_map :: "('k \<Rightarrow> 'v \<Rightarrow> 'w) \<Rightarrow> ('k, 'v) hash_map \<Rightarrow> ('k, 'w) hash_map" where
  "hm_map f m = map (\<lambda>e. (fst e, f (fst e) (snd e))) m"

lemma keys_hm_map [simp]: "map fst (hm_map f m) = map fst m"
  by (simp add: hm_map_def comp_def)

lemma get_hm_map: "map_of (hm_map f m) k = map_option (f k) (map_of m k)"
  by (induction m) (auto simp: hm_map_def)

lemma hm_ok_map [simp]: "hm_ok (hm_map f m) = hm_ok m"
  by (simp add: hm_ok_def)

end
