(* ===== verification/Mvcc.thy ===== *)
theory Mvcc
  imports Heap_Keys Std_Maps "HOL-Library.Product_Lexorder"
begin

text \<open>
  The multi-version store of \<open>mvcc.rs\<close>: version chains per row, snapshots, transactions with
  row locks, and the durable version catalog (a JSON snapshot and a file of checksummed
  increments).  A \<open>BTreeMap\<close> is an ordered association list, a \<open>HashMap\<close> an association list in
  iteration order.  Shared ownership (\<open>Arc\<close>) shows only in \<open>persist\<close>, which skips the tables
  whose pointer is unchanged: those are passed as an argument.
\<close>

section \<open>Versions\<close>

record version =
  vn_begin :: u64
  vn_end :: "u64 option"
  vn_value_begin :: u64
  vn_order :: u64
  vn_row :: row

record history =
  hs_schema :: table_schema
  hs_changed :: u64
  hs_live :: bool
  hs_rows :: "(u64, version list) btree_map"

record durable =
  du_format :: u32
  du_csn :: u64
  du_next_row :: u64
  du_tables :: "(u64, history) btree_map"

record table_delta =
  td_schema :: table_schema
  td_changed :: u64
  td_live :: bool
  td_rows :: "(u64, version list) btree_map"
  td_removed :: "u64 list"

record delta =
  dl_format :: u32
  dl_csn :: u64
  dl_next_row :: u64
  dl_oldest :: u64
  dl_tables :: "(u64, table_delta) btree_map"
  dl_removed :: "u64 list"

text \<open>Some end at most the given point: \<open>v.end.is_some_and(|end| end <= oldest)\<close>.\<close>

definition expired :: "u64 \<Rightarrow> version \<Rightarrow> bool" where
  "expired oldest v = (case vn_end v of None \<Rightarrow> False | Some e \<Rightarrow> e \<le> oldest)"

definition sees :: "u64 \<Rightarrow> version \<Rightarrow> bool" where
  "sees csn v \<longleftrightarrow> vn_begin v \<le> csn \<and> (case vn_end v of None \<Rightarrow> True | Some e \<Rightarrow> csn < e)"

definition seen_version :: "u64 \<Rightarrow> version list \<Rightarrow> version option" where
  "seen_version csn chain = find (sees csn) (rev chain)"

definition visible :: "history \<Rightarrow> u64 \<Rightarrow> (u64 \<times> version) list" where
  "visible h csn = sort_key (\<lambda>e. (vn_order (snd e), fst e))
     (List.map_filter (\<lambda>e. map_option (Pair (fst e)) (seen_version csn (snd e))) (hs_rows h))"

definition visible_rows :: "history \<Rightarrow> u64 \<Rightarrow> row list" where
  "visible_rows h csn = map (\<lambda>e. vn_row (snd e)) (visible h csn)"

definition has_expired :: "u64 \<Rightarrow> history \<Rightarrow> bool" where
  "has_expired oldest h = list_ex (\<lambda>e. list_ex (expired oldest) (snd e)) (hs_rows h)"

definition prune_rows :: "u64 \<Rightarrow> (u64, version list) btree_map \<Rightarrow> (u64, version list) btree_map" where
  "prune_rows oldest rows = bt_retain (\<lambda>_ chain. chain \<noteq> [])
     (bt_map (\<lambda>_ chain. filter (\<lambda>v. \<not> expired oldest v) chain) rows)"

definition prune_history :: "u64 \<Rightarrow> history \<Rightarrow> history" where
  "prune_history oldest h = (if has_expired oldest h then h\<lparr>hs_rows := prune_rows oldest (hs_rows h)\<rparr> else h)"

definition prune_durable :: "durable \<Rightarrow> u64 \<Rightarrow> durable" where
  "prune_durable d oldest = d\<lparr>du_tables := bt_retain (\<lambda>_ h. hs_live h \<or> hs_rows h \<noteq> [])
     (bt_map (\<lambda>_. prune_history oldest) (du_tables d))\<rparr>"

section \<open>The file of increments\<close>

definition delta_checksum :: "bytes \<Rightarrow> u64" where
  "delta_checksum bs = foldl (\<lambda>v b. (v XOR ucast b) * 0x100000001b3) 0xcbf29ce484222325 bs"

definition apply_table_delta :: "(u64, history) btree_map \<Rightarrow> u64 \<times> table_delta \<Rightarrow> (u64, history) btree_map" where
  "apply_table_delta tables e = (case e of (tid, u) \<Rightarrow>
     (let old_rows = (case map_of tables tid of None \<Rightarrow> [] | Some h \<Rightarrow> hs_rows h)
      in bt_insert tid \<lparr>hs_schema = td_schema u, hs_changed = td_changed u, hs_live = td_live u,
           hs_rows = bt_extend (bt_remove_all old_rows (td_removed u)) (td_rows u)\<rparr> tables))"

definition apply_delta :: "durable \<Rightarrow> delta \<Rightarrow> durable" where
  "apply_delta d dl = prune_durable
     (d\<lparr>du_tables := foldl apply_table_delta (bt_remove_all (du_tables d) (dl_removed dl)) (dl_tables dl),
        du_csn := dl_csn dl, du_next_row := dl_next_row dl\<rparr>) (dl_oldest dl)"

fun split_inclusive :: "bytes \<Rightarrow> bytes list" where
  "split_inclusive [] = []"
| "split_inclusive (b # bs) =
     (if b = 10 then [b] # split_inclusive bs
      else (case split_inclusive bs of [] \<Rightarrow> [[b]] | l # ls \<Rightarrow> (b # l) # ls))"

definition hex_value :: "u8 \<Rightarrow> nat option" where
  "hex_value b = (if 48 \<le> b \<and> b \<le> 57 then Some (unat b - 48)
     else if 97 \<le> b \<and> b \<le> 102 then Some (unat b - 87)
     else if 65 \<le> b \<and> b \<le> 70 then Some (unat b - 55)
     else None)"

fun hex_digits :: "nat \<Rightarrow> bytes \<Rightarrow> nat option" where
  "hex_digits acc [] = Some acc"
| "hex_digits acc (b # bs) = (case hex_value b of None \<Rightarrow> None | Some d \<Rightarrow> hex_digits (16 * acc + d) bs)"

text \<open>\<open>u64::from_str_radix(text, 16)\<close> on at most 16 bytes, which cannot overflow.\<close>

definition from_hex :: "bytes \<Rightarrow> u64 option" where
  "from_hex bs = map_option word_of_nat (case bs of
       [] \<Rightarrow> None
     | b # rest \<Rightarrow> if b = 43 then (if rest = [] then None else hex_digits 0 rest) else hex_digits 0 bs)"

definition hex_char :: "nat \<Rightarrow> u8" where
  "hex_char d = (if d < 10 then word_of_nat (48 + d) else word_of_nat (87 + d))"

text \<open>\<open>{:016x}\<close>\<close>

definition to_hex16 :: "u64 \<Rightarrow> bytes" where
  "to_hex16 w = map (\<lambda>i. hex_char (unat w div 16 ^ (15 - i) mod 16)) [0..<16]"

fun replay_lines :: "delta codec \<Rightarrow> u64 \<Rightarrow> bytes list \<Rightarrow> durable \<Rightarrow> nat \<Rightarrow> (durable \<times> nat) outcome" where
  "replay_lines c base [] d complete = Ok (d, complete)"
| "replay_lines c base (line # lines) d complete =
     (if line = [] \<or> last line \<noteq> 10 then Ok (d, complete)
      else if length line - 1 < 17 then Err (other_error ''invalid MVCC delta frame'')
      else (let body = bslice line 17 (length line - 18) in
        if line ! 16 \<noteq> 32 \<or> from_hex (take 16 line) \<noteq> Some (delta_checksum body)
          then Err (other_error ''invalid MVCC delta checksum'')
        else (case decode c body of
            None \<Rightarrow> Err (other_error ''delta'')
          | Some dl \<Rightarrow>
             if dl_format dl \<noteq> 1 \<or> dl_csn dl < dl_oldest dl then Err (other_error ''invalid MVCC delta version'')
             else if dl_csn dl \<le> base then replay_lines c base lines d (complete + length line)
             else if dl_csn dl < du_csn d \<or> dl_next_row dl < du_next_row d
               then Err (other_error ''MVCC delta moved backwards'')
             else replay_lines c base lines (apply_delta d dl) (complete + length line))))"

section \<open>Transactions and the state\<close>

datatype lock_key = KTable u64 | KRow u64 u64 | KUnique u64 string bytes

text \<open>The derived order of the lock keys: by variant, then field by field.\<close>

fun key_rank :: "lock_key \<Rightarrow> nat \<times> u64 \<times> u64 \<times> string \<times> bytes" where
  "key_rank (KTable t) = (0, t, 0, [], [])"
| "key_rank (KRow t r) = (1, t, r, [], [])"
| "key_rank (KUnique t c k) = (2, t, 0, c, k)"

lemma key_rank_inject: "key_rank a = key_rank b \<longleftrightarrow> a = b"
  by (cases a; cases b) auto

instantiation lock_key :: linorder
begin

definition less_eq_lock_key :: "lock_key \<Rightarrow> lock_key \<Rightarrow> bool" where
  "less_eq_lock_key a b \<longleftrightarrow> key_rank a \<le> key_rank b"

definition less_lock_key :: "lock_key \<Rightarrow> lock_key \<Rightarrow> bool" where
  "less_lock_key a b \<longleftrightarrow> key_rank a < key_rank b"

instance
  by standard (auto simp: less_eq_lock_key_def less_lock_key_def key_rank_inject [symmetric])

end

record transaction =
  tx_snapshot :: u64
  tx_schemas :: "table_schema list"
  tx_serializable :: bool
  tx_reads :: "u64 set"
  tx_held :: "(lock_key, bool) btree_map"
  tx_waiting :: "string list"
  tx_aborted :: "string option"
  tx_plan :: "storage_op list"

record mstate =
  ms_durable :: durable
  ms_transactions :: "(string, transaction) hash_map"
  ms_next_transaction :: u64

section \<open>Planning\<close>

text \<open>\<open>n as f64\<close> for an integer too large for \<open>i64\<close>: 53 bits, ties to even.\<close>

definition u64_f64_bits :: "u64 \<Rightarrow> u64" where
  "u64_f64_bits n = (let q = unat n div 2 ^ 11; r = unat n mod 2 ^ 11;
       q' = (if 1024 < r \<or> r = 1024 \<and> odd q then q + 1 else q)
     in word_of_nat (1086 * 2 ^ 52 + (q' - 2 ^ 52)))"

definition unique_key :: "row \<Rightarrow> string \<Rightarrow> bytes option" where
  "unique_key r column = (case map_of r column of
       None \<Rightarrow> None
     | Some v \<Rightarrow>
       if v = JNull then None
       else (case row_key r column of
           Some key \<Rightarrow> Some key
         | None \<Rightarrow> (case v of
             JBool b \<Rightarrow> Some [98, if b then 1 else 0]
           | JNumber (Float bits) \<Rightarrow> Some (102 # u64_be bits)
           | JNumber (PosInt n) \<Rightarrow> Some (102 # u64_be (u64_f64_bits n))
           | _ \<Rightarrow> None)))"

type_synonym positions = "(bytes, nat list) hash_map"

fun add_positions :: "nat \<Rightarrow> row list \<Rightarrow> positions \<Rightarrow> positions" where
  "add_positions i [] ps = ps"
| "add_positions i (r # rs) ps = add_positions (Suc i) rs (case unique_key r ''id'' of
       None \<Rightarrow> ps
     | Some key \<Rightarrow> hm_insert key ((case map_of ps key of None \<Rightarrow> [] | Some is \<Rightarrow> is) @ [i]) ps)"

definition key_positions :: "row list \<Rightarrow> positions" where
  "key_positions rows = add_positions 0 rows []"

text \<open>The old row that a new one continues: the next with the same id, or an equal row.\<close>

definition take_prior :: "(u64 \<times> version) list \<Rightarrow> positions \<Rightarrow> u64 set \<Rightarrow> row \<Rightarrow>
    (u64 \<times> version) option \<times> positions" where
  "take_prior old ps used r = (case unique_key r ''id'' of
       Some key \<Rightarrow> (case map_of ps key of
           None \<Rightarrow> (None, ps)
         | Some [] \<Rightarrow> (None, ps)
         | Some (i # is) \<Rightarrow> (if i < length old then Some (old ! i) else None, hm_insert key is ps))
     | None \<Rightarrow> (find (\<lambda>e. fst e \<notin> used \<and> row_eq (vn_row (snd e)) r) old, ps))"

record change =
  ch_table :: u64
  ch_wanted :: "(u64 option \<times> row) list"
  ch_removed :: "u64 list"

text \<open>\<open>retain\<close> with a shrinking key set: each key deletes at most one row.\<close>

fun delete_rows :: "u64 set \<Rightarrow> row list \<Rightarrow> row list" where
  "delete_rows keys [] = []"
| "delete_rows keys (r # rs) = (case row_int r ''id'' of
       Some k \<Rightarrow> if k \<in> keys then delete_rows (keys - {k}) rs else r # delete_rows keys rs
     | None \<Rightarrow> r # delete_rows keys rs)"

fun op_name :: "storage_op \<Rightarrow> string" where
  "op_name (Upsert t _) = t"
| "op_name (Delete t _) = t"
| "op_name (Replace t _) = t"

fun edit_rows :: "storage_op \<Rightarrow> row list \<Rightarrow> row list" where
  "edit_rows (Replace _ incoming) rows = incoming"
| "edit_rows (Upsert _ incoming) rows = rows @ incoming"
| "edit_rows (Delete _ ids) rows = delete_rows (set ids) rows"

definition find_table :: "transaction \<Rightarrow> string \<Rightarrow> table_schema option" where
  "find_table tx name = find (\<lambda>s. ts_table s = name) (tx_schemas tx)"

definition find_object :: "transaction \<Rightarrow> u64 \<Rightarrow> table_schema option" where
  "find_object tx tid = find (\<lambda>s. ts_object_id s = tid) (tx_schemas tx)"

fun edit_tables :: "durable \<Rightarrow> transaction \<Rightarrow> storage_op list \<Rightarrow> (u64, row list) btree_map \<Rightarrow>
    (u64, row list) btree_map outcome" where
  "edit_tables d tx [] edited = Ok edited"
| "edit_tables d tx (op # ops) edited = (case find_table tx (op_name op) of
       None \<Rightarrow> Err (other_error ''unknown transaction table'')
     | Some schema \<Rightarrow> (case map_of (du_tables d) (ts_object_id schema) of
          None \<Rightarrow> Err (other_error ''serialization_failure: transaction table removed'')
        | Some h \<Rightarrow>
           (let rows = (case map_of edited (ts_object_id schema) of
                 None \<Rightarrow> visible_rows h (tx_snapshot tx)
               | Some rows \<Rightarrow> rows)
            in edit_tables d tx ops (bt_insert (ts_object_id schema) (edit_rows op rows) edited))))"

fun match_rows :: "(u64 \<times> version) list \<Rightarrow> positions \<Rightarrow> u64 set \<Rightarrow> row list \<Rightarrow> (u64 option \<times> row) list \<times> u64 set" where
  "match_rows old ps used [] = ([], used)"
| "match_rows old ps used (r # rs) = (case take_prior old ps used r of
       (None, ps') \<Rightarrow> (case match_rows old ps' used rs of (ws, u) \<Rightarrow> ((None, r) # ws, u))
     | (Some e, ps') \<Rightarrow> (case match_rows old ps' (insert (fst e) used) rs of (ws, u) \<Rightarrow> ((Some (fst e), r) # ws, u)))"

fun pair_unmatched :: "u64 list \<Rightarrow> (u64 option \<times> row) list \<Rightarrow> (u64 option \<times> row) list" where
  "pair_unmatched un [] = []"
| "pair_unmatched un ((rid, r) # ws) =
     (if rid = None \<and> unique_key r ''id'' = None
      then (case un of
          [] \<Rightarrow> (rid, r) # pair_unmatched [] ws
        | u # us \<Rightarrow> (Some u, r) # pair_unmatched us ws)
      else (rid, r) # pair_unmatched un ws)"

definition table_change :: "(u64 \<times> version) list \<Rightarrow> u64 \<Rightarrow> row list \<Rightarrow> change" where
  "table_change old table rows =
     (case match_rows old (key_positions (map (\<lambda>e. vn_row (snd e)) old)) {} rows of (ws, used) \<Rightarrow>
       (let unmatched = map fst (filter (\<lambda>e. fst e \<notin> used \<and> unique_key (vn_row (snd e)) ''id'' = None) old);
            wanted = pair_unmatched unmatched ws
        in \<lparr>ch_table = table, ch_wanted = wanted,
            ch_removed = sort (filter (\<lambda>rid. Some rid \<notin> fst ` set wanted) (map fst old))\<rparr>))"

definition no_transaction :: io_error where
  "no_transaction = other_error ''transaction no longer exists''"

definition plans :: "mstate \<Rightarrow> string \<Rightarrow> storage_op list \<Rightarrow> change list outcome" where
  "plans st token ops = (case map_of (ms_transactions st) token of
       None \<Rightarrow> Err no_transaction
     | Some tx \<Rightarrow> (case edit_tables (ms_durable st) tx ops [] of
          Err e \<Rightarrow> Err e
        | Panic \<Rightarrow> Panic
        | Ok edited \<Rightarrow>
           (if list_all (\<lambda>e. map_of (du_tables (ms_durable st)) (fst e) \<noteq> None) edited
            then Ok (map (\<lambda>e. table_change
                    (case map_of (du_tables (ms_durable st)) (fst e) of
                       Some h \<Rightarrow> visible h (tx_snapshot tx) | None \<Rightarrow> []) (fst e) (snd e)) edited)
            else Panic)))"

definition row_changed :: "(u64 \<times> version) list \<Rightarrow> u64 option \<times> row \<Rightarrow> bool" where
  "row_changed base w = (case fst w of
       None \<Rightarrow> True
     | Some rid \<Rightarrow> (case map_of base rid of None \<Rightarrow> True | Some v \<Rightarrow> \<not> row_eq (vn_row v) (snd w)))"

text \<open>One table of \<open>merged_ops\<close>: the rows to remove and to append on the current version.\<close>

definition merge_change :: "history \<Rightarrow> u64 \<Rightarrow> u64 \<Rightarrow> change \<Rightarrow> storage_op list" where
  "merge_change h snapshot csn ch =
     (let base = visible h snapshot;
          current = map (\<lambda>e. (fst e, vn_row (snd e))) (visible h csn);
          fresh = filter (row_changed base) (ch_wanted ch);
          removed = set (ch_removed ch) \<union> set (List.map_filter fst fresh);
          appended = map snd fresh
      in if removed = {} \<and> appended = [] then []
         else (let victims = map snd (filter (\<lambda>e. fst e \<in> removed) current);
                   kept = map snd (filter (\<lambda>e. fst e \<notin> removed) current);
                   integers = those (map (\<lambda>r. row_int r ''id'') victims);
                   name = ts_table (hs_schema h)
           in case integers of
                Some ids \<Rightarrow>
                  if distinct ids \<and> list_all (\<lambda>r. case row_int r ''id'' of None \<Rightarrow> True | Some i \<Rightarrow> i \<notin> set ids) kept
                  then (if ids = [] then [] else [Delete name ids]) @ (if appended = [] then [] else [Upsert name appended])
                  else [Replace name (kept @ appended)]
              | None \<Rightarrow> [Replace name (kept @ appended)]))"

definition merged_ops :: "mstate \<Rightarrow> string \<Rightarrow> storage_op list outcome" where
  "merged_ops st token = (case map_of (ms_transactions st) token of
       None \<Rightarrow> Err no_transaction
     | Some tx \<Rightarrow> (case plans st token (tx_plan tx) of
          Err e \<Rightarrow> Err e
        | Panic \<Rightarrow> Panic
        | Ok changes \<Rightarrow>
           (if list_all (\<lambda>ch. map_of (du_tables (ms_durable st)) (ch_table ch) \<noteq> None) changes
            then Ok (concat (map (\<lambda>ch. case map_of (du_tables (ms_durable st)) (ch_table ch) of
                None \<Rightarrow> []
              | Some h \<Rightarrow> merge_change h (tx_snapshot tx) (du_csn (ms_durable st)) ch) changes))
            else Panic)))"

section \<open>Reclaiming versions\<close>

definition active_snapshots :: "(string, transaction) hash_map \<Rightarrow> u64 list" where
  "active_snapshots txs = map (\<lambda>e. tx_snapshot (snd e)) (filter (\<lambda>e. tx_aborted (snd e) = None) txs)"

definition oldest_or :: "u64 \<Rightarrow> (string, transaction) hash_map \<Rightarrow> u64" where
  "oldest_or csn txs = (case active_snapshots txs of [] \<Rightarrow> csn | s # ss \<Rightarrow> foldl min s ss)"

definition prune :: "mstate \<Rightarrow> mstate" where
  "prune st = (let oldest = oldest_or (du_csn (ms_durable st)) (ms_transactions st) in
     st\<lparr>ms_durable := (ms_durable st)\<lparr>du_tables := bt_retain (\<lambda>_ h. hs_live h \<or> hs_rows h \<noteq> [])
       (bt_map (\<lambda>_ h. h\<lparr>hs_rows := prune_rows oldest (hs_rows h)\<rparr>) (du_tables (ms_durable st)))\<rparr>\<rparr>)"

section \<open>Deadlocks\<close>

text \<open>
  The search for a waiting path back to the target, with the visited tokens threaded through.
  Every nested call has visited one more transaction, so the number of transactions plus one
  is enough fuel.
\<close>

fun cycle :: "nat \<Rightarrow> (string, transaction) hash_map \<Rightarrow> string \<Rightarrow> string \<Rightarrow> string list \<Rightarrow> bool \<times> string list"
  and cycle_any :: "nat \<Rightarrow> (string, transaction) hash_map \<Rightarrow> string list \<Rightarrow> string \<Rightarrow> string list \<Rightarrow> bool \<times> string list" where
  "cycle 0 txs current target visited = (False, visited)"
| "cycle (Suc n) txs current target visited =
     (if current \<in> set visited then (False, visited)
      else (case map_of txs current of
          None \<Rightarrow> (False, current # visited)
        | Some tx \<Rightarrow> cycle_any n txs (tx_waiting tx) target (current # visited)))"
| "cycle_any n txs [] target visited = (False, visited)"
| "cycle_any n txs (w # ws) target visited =
     (if w = target then (True, visited)
      else (case cycle n txs w target visited of
          (True, visited') \<Rightarrow> (True, visited')
        | (False, visited') \<Rightarrow> cycle_any n txs ws target visited'))"

definition on_cycle :: "mstate \<Rightarrow> string \<Rightarrow> bool" where
  "on_cycle st token = fst (cycle (Suc (length (ms_transactions st))) (ms_transactions st) token token [])"

definition abort :: "string \<Rightarrow> string \<Rightarrow> mstate \<Rightarrow> mstate" where
  "abort token error st = st\<lparr>ms_transactions := hm_map (\<lambda>t tx.
     (if t = token then tx\<lparr>tx_aborted := Some error, tx_held := [], tx_waiting := []\<rparr>
      else tx\<lparr>tx_waiting := removeAll token (tx_waiting tx)\<rparr>)) (ms_transactions st)\<rparr>"

section \<open>Validation\<close>

fun key_table :: "lock_key \<Rightarrow> u64" where
  "key_table (KTable t) = t"
| "key_table (KRow t _) = t"
| "key_table (KUnique t _ _) = t"

definition serialization_failure :: "string \<Rightarrow> io_error" where
  "serialization_failure msg = other_error (''serialization_failure: '' @ msg)"

definition validate_lock :: "durable \<Rightarrow> transaction \<Rightarrow> lock_key \<Rightarrow> unit outcome" where
  "validate_lock d tx key = (case find_object tx (key_table key) of
       None \<Rightarrow> Err (other_error ''transaction schema missing'')
     | Some expected \<Rightarrow> (case map_of (du_tables d) (key_table key) of
          None \<Rightarrow> Err (serialization_failure ''transaction object changed'')
        | Some current \<Rightarrow>
           if \<not> hs_live current \<or> ts_schema_version (hs_schema current) \<noteq> ts_schema_version expected \<or>
              \<not> columns_eq (ts_columns (hs_schema current)) (ts_columns expected)
           then Err (serialization_failure ''transaction schema changed'')
           else (case key of
               KRow _ rid \<Rightarrow> (case map_of (hs_rows current) rid of
                   None \<Rightarrow> Err (serialization_failure ''row was removed'')
                 | Some chain \<Rightarrow>
                    (let before = seen_version (tx_snapshot tx) chain;
                         latest = (if chain \<noteq> [] \<and> vn_end (last chain) = None then Some (last chain) else None)
                     in if map_option vn_value_begin before \<noteq> map_option vn_value_begin latest
                        then Err (serialization_failure ''row version changed'') else Ok ()))
             | KTable _ \<Rightarrow> if tx_snapshot tx < hs_changed current
                 then Err (serialization_failure ''table changed'') else Ok ()
             | KUnique _ _ _ \<Rightarrow> Ok ())))"

fun validate_keys :: "durable \<Rightarrow> transaction \<Rightarrow> (lock_key \<times> bool) list \<Rightarrow> unit outcome" where
  "validate_keys d tx [] = Ok ()"
| "validate_keys d tx ((key, exclusive) # ks) =
     (if exclusive then (case validate_lock d tx key of Ok _ \<Rightarrow> validate_keys d tx ks | e \<Rightarrow> e)
      else validate_keys d tx ks)"

definition read_changed :: "durable \<Rightarrow> u64 \<Rightarrow> u64 \<Rightarrow> bool" where
  "read_changed d snapshot tid = (case map_of (du_tables d) tid of
       None \<Rightarrow> True
     | Some h \<Rightarrow> \<not> hs_live h \<or> snapshot < hs_changed h)"

definition validate :: "mstate \<Rightarrow> string \<Rightarrow> bool \<Rightarrow> unit outcome" where
  "validate st token writes = (case map_of (ms_transactions st) token of
       None \<Rightarrow> Err no_transaction
     | Some tx \<Rightarrow> (case tx_aborted tx of
          Some error \<Rightarrow> Err (other_error error)
        | None \<Rightarrow> (case validate_keys (ms_durable st) tx (tx_held tx) of
            Ok _ \<Rightarrow> if writes \<and> tx_serializable tx \<and> (\<exists>tid \<in> tx_reads tx. read_changed (ms_durable st) (tx_snapshot tx) tid)
                then Err (serialization_failure ''serializable read changed'') else Ok ()
          | e \<Rightarrow> e)))"

section \<open>Publishing\<close>

definition set_last_end :: "u64 \<Rightarrow> version list \<Rightarrow> version list" where
  "set_last_end csn chain = (if chain = [] then [] else butlast chain @ [(last chain)\<lparr>vn_end := Some csn\<rparr>])"

text \<open>The loop state of one table: rows, last row number, positions, used rows, changed flag.\<close>

type_synonym publishing = "(u64, version list) btree_map \<times> u64 \<times> positions \<times> u64 set \<times> bool"

definition publish_row :: "u64 \<Rightarrow> (u64 \<times> version) list \<Rightarrow> nat \<Rightarrow> row \<Rightarrow> publishing \<Rightarrow> publishing outcome" where
  "publish_row csn old pos r p = (case p of (rows, next_row, ps, used, changed) \<Rightarrow>
     (case take_prior old ps used r of
        (Some (rid, previous), ps') \<Rightarrow>
          (if row_eq (vn_row previous) r \<and> vn_order previous = word_of_nat pos
           then Ok (rows, next_row, ps', insert rid used, changed)
           else if vn_begin previous = csn then Err (other_error ''MVCC replay does not match published version'')
           else (case map_of rows rid of
               None \<Rightarrow> Err (other_error ''MVCC row missing'')
             | Some chain \<Rightarrow>
                if chain = [] then Err (other_error ''MVCC chain empty'')
                else Ok (bt_insert rid (set_last_end csn chain @
                    [\<lparr>vn_begin = csn, vn_end = None,
                      vn_value_begin = (if row_eq (vn_row previous) r then vn_value_begin previous else csn),
                      vn_order = word_of_nat pos, vn_row = r\<rparr>]) rows,
                  next_row, ps', insert rid used, changed \<or> \<not> row_eq (vn_row previous) r)))
      | (None, ps') \<Rightarrow>
          (if next_row = - 1 then Err (other_error ''MVCC row id exhausted'')
           else Ok (bt_insert (next_row + 1) [\<lparr>vn_begin = csn, vn_end = None, vn_value_begin = csn,
                  vn_order = word_of_nat pos, vn_row = r\<rparr>] rows, next_row + 1, ps', used, True))))"

fun publish_rows :: "u64 \<Rightarrow> (u64 \<times> version) list \<Rightarrow> nat \<Rightarrow> row list \<Rightarrow> publishing \<Rightarrow> publishing outcome" where
  "publish_rows csn old pos [] p = Ok p"
| "publish_rows csn old pos (r # rs) p = (case publish_row csn old pos r p of
       Ok p' \<Rightarrow> publish_rows csn old (Suc pos) rs p'
     | Err e \<Rightarrow> Err e
     | Panic \<Rightarrow> Panic)"

fun retire_rows :: "u64 \<Rightarrow> u64 set \<Rightarrow> (u64 \<times> version) list \<Rightarrow> (u64, version list) btree_map \<times> bool \<Rightarrow>
    ((u64, version list) btree_map \<times> bool) outcome" where
  "retire_rows csn used [] p = Ok p"
| "retire_rows csn used ((rid, previous) # old) p =
     (if rid \<in> used then retire_rows csn used old p
      else if vn_begin previous = csn then Err (other_error ''MVCC replay removed a published row'')
      else (case map_of (fst p) rid of
          None \<Rightarrow> Err (other_error ''MVCC row missing'')
        | Some chain \<Rightarrow> if chain = [] then Err (other_error ''MVCC row missing'')
            else retire_rows csn used old (bt_insert rid (set_last_end csn chain) (fst p), True)))"

text \<open>One published table; \<open>current\<close> is the commit number before.\<close>

definition publish_table :: "u64 \<Rightarrow> u64 \<Rightarrow> table_schema \<times> row list \<Rightarrow> (u64, history) btree_map \<times> u64 \<Rightarrow>
    ((u64, history) btree_map \<times> u64) outcome" where
  "publish_table csn current t p = (case t of (schema, rows) \<Rightarrow> (case p of (tables, next_row) \<Rightarrow>
     (let h = (case map_of tables (ts_object_id schema) of
             Some h \<Rightarrow> h
           | None \<Rightarrow> \<lparr>hs_schema = schema, hs_changed = csn, hs_live = True, hs_rows = []\<rparr>);
          old = visible h current;
          changed = (\<not> columns_eq (ts_columns (hs_schema h)) (ts_columns schema) \<or>
             ts_schema_version (hs_schema h) \<noteq> ts_schema_version schema)
      in case publish_rows csn old 0 rows
            (hs_rows h, next_row, key_positions (map (\<lambda>e. vn_row (snd e)) old), {}, changed) of
          Err e \<Rightarrow> Err e
        | Panic \<Rightarrow> Panic
        | Ok (rows', next_row', _, used, changed') \<Rightarrow> (case retire_rows csn used old (rows', changed') of
             Err e \<Rightarrow> Err e
           | Panic \<Rightarrow> Panic
           | Ok (rows'', changed'') \<Rightarrow>
              Ok (bt_insert (ts_object_id schema)
                   \<lparr>hs_schema = schema, hs_changed = (if changed'' then csn else hs_changed h), hs_live = True,
                     hs_rows = rows''\<rparr> tables, next_row')))))"

fun publish_tables :: "u64 \<Rightarrow> u64 \<Rightarrow> (table_schema \<times> row list) list \<Rightarrow> (u64, history) btree_map \<times> u64 \<Rightarrow>
    ((u64, history) btree_map \<times> u64) outcome" where
  "publish_tables csn current [] p = Ok p"
| "publish_tables csn current (t # ts) p = (case publish_table csn current t p of
       Ok p' \<Rightarrow> publish_tables csn current ts p'
     | Err e \<Rightarrow> Err e
     | Panic \<Rightarrow> Panic)"

definition end_chain :: "u64 \<Rightarrow> version list \<Rightarrow> version list" where
  "end_chain csn chain = (if chain \<noteq> [] \<and> vn_end (last chain) = None then set_last_end csn chain else chain)"

definition retire_table :: "u64 \<Rightarrow> u64 list \<Rightarrow> u64 \<Rightarrow> history \<Rightarrow> history" where
  "retire_table csn current_ids tid h = (if tid \<notin> set current_ids \<and> hs_live h
     then h\<lparr>hs_live := False, hs_rows := bt_map (\<lambda>_. end_chain csn) (hs_rows h), hs_changed := csn\<rparr> else h)"

definition drop_retired :: "u64 list \<Rightarrow> (u64, history) btree_map \<Rightarrow> (u64, history) btree_map" where
  "drop_retired current_ids tables = bt_retain (\<lambda>tid h. tid \<in> set current_ids \<or> hs_rows h \<noteq> []) tables"

text \<open>The next version catalog, before it is made durable.\<close>

definition publish_next :: "durable \<Rightarrow> u64 \<Rightarrow> u64 \<Rightarrow> table_schema list \<Rightarrow> (table_schema \<times> row list) list \<Rightarrow> durable outcome" where
  "publish_next d csn oldest schemas tables =
     (if csn < du_csn d then Err (other_error ''MVCC commit sequence moved backwards'')
      else (case publish_tables csn (du_csn d) tables (du_tables d, du_next_row d) of
          Err e \<Rightarrow> Err e
        | Panic \<Rightarrow> Panic
        | Ok (ts, next_row) \<Rightarrow>
           (let current_ids = map ts_object_id schemas in
             Ok \<lparr>du_format = 2, du_csn = csn, du_next_row = next_row,
                 du_tables = drop_retired current_ids
                   (bt_map (\<lambda>_. prune_history oldest) (bt_map (retire_table csn current_ids) ts))\<rparr>)))"

text \<open>The tables that publishing leaves alone, so that old and new catalog share them.\<close>

definition shared_table :: "durable \<Rightarrow> u64 \<Rightarrow> table_schema list \<Rightarrow> (table_schema \<times> row list) list \<Rightarrow> u64 \<Rightarrow> bool" where
  "shared_table d oldest schemas tables tid = (case map_of (du_tables d) tid of
       None \<Rightarrow> False
     | Some h \<Rightarrow> tid \<notin> ts_object_id ` fst ` set tables \<and>
         (tid \<in> ts_object_id ` set schemas \<or> \<not> hs_live h) \<and> \<not> has_expired oldest h)"

section \<open>The store and its files\<close>

record mvcc =
  mv_file :: "bytes option"
  mv_delta :: "bytes option"
  mv_nonce :: string
  mv_state :: mstate
  mv_faults :: "fault list"

definition mv_io :: "(mvcc \<Rightarrow> mvcc) \<Rightarrow> (nat \<Rightarrow> mvcc \<Rightarrow> mvcc) \<Rightarrow> (mvcc, unit) cmd" where
  "mv_io ok bad s = (case mv_faults s of
       [] \<Rightarrow> (Ok (), ok s)
     | NoFault # fs \<Rightarrow> (Ok (), ok (s\<lparr>mv_faults := fs\<rparr>))
     | Fault k # fs \<Rightarrow> (Err io_failure, bad k (s\<lparr>mv_faults := fs\<rparr>)))"

definition mv_check :: "(mvcc, unit) cmd" where
  "mv_check = mv_io id (\<lambda>_. id)"

definition set_durable :: "durable \<Rightarrow> mvcc \<Rightarrow> mvcc" where
  "set_durable d s = s\<lparr>mv_state := (mv_state s)\<lparr>ms_durable := d\<rparr>\<rparr>"

text \<open>\<open>replay_deltas\<close>: the increments beyond the snapshot, then the torn tail is cut off.\<close>

definition replay_deltas :: "delta codec \<Rightarrow> durable \<Rightarrow> (mvcc, durable) cmd" where
  "replay_deltas c d = bindM (getM mv_delta) (\<lambda>file. case file of
       None \<Rightarrow> okM d
     | Some bytes \<Rightarrow> seqM mv_check
        (bindM (liftM (replay_lines c (du_csn d) (split_inclusive bytes) d 0)) (\<lambda>(d', complete).
          if complete = length bytes then okM d'
          else seqM mv_check
            (seqM (mv_io (\<lambda>s. s\<lparr>mv_delta := Some (take complete bytes)\<rparr>) (\<lambda>_. id))
            (seqM mv_check (okM d'))))))"

definition windows_ascend :: "version list \<Rightarrow> bool" where
  "windows_ascend chain = list_all (\<lambda>i. vn_begin (chain ! i) < vn_begin (chain ! Suc i)) [0..<length chain - 1]"

definition version_valid :: "u64 \<Rightarrow> version \<Rightarrow> bool" where
  "version_valid csn v \<longleftrightarrow> vn_begin v \<le> csn \<and>
     (case vn_end v of None \<Rightarrow> True | Some e \<Rightarrow> vn_begin v < e \<and> e \<le> csn)"

definition catalog_valid :: "durable \<Rightarrow> bool" where
  "catalog_valid d \<longleftrightarrow> (du_format d = 1 \<or> du_format d = 2) \<and>
     list_all (\<lambda>t. list_all (\<lambda>e. fst e \<le> du_next_row d \<and> windows_ascend (snd e) \<and>
       list_all (version_valid (du_csn d)) (snd e)) (hs_rows (snd t))) (du_tables d)"

definition empty_durable :: durable where
  "empty_durable = \<lparr>du_format = 1, du_csn = 0, du_next_row = 0, du_tables = []\<rparr>"

definition open_mvcc :: "durable codec \<Rightarrow> delta codec \<Rightarrow> string \<Rightarrow> (mvcc, unit) cmd" where
  "open_mvcc dc c nonce = bindM (getM mv_file) (\<lambda>file.
     bindM (case file of
         None \<Rightarrow> okM empty_durable
       | Some bytes \<Rightarrow> seqM mv_check (case decode dc bytes of None \<Rightarrow> errM (other_error ''catalog'') | Some d \<Rightarrow> okM d)) (\<lambda>d.
     bindM (getM mv_delta) (\<lambda>delta.
     if file = None \<and> delta \<noteq> None \<and> delta \<noteq> Some [] then errM (other_error ''MVCC delta has no base snapshot'')
     else bindM (replay_deltas c d) (\<lambda>d'.
       if \<not> catalog_valid d' then errM (other_error ''invalid MVCC version catalog'')
       else modM (\<lambda>s. s\<lparr>mv_nonce := nonce,
         mv_state := \<lparr>ms_durable = d', ms_transactions = [], ms_next_transaction = 0\<rparr>\<rparr>)))))"

definition persist_snapshot :: "durable codec \<Rightarrow> durable \<Rightarrow> (mvcc, unit) cmd" where
  "persist_snapshot dc d = seqM mv_check (seqM mv_check (seqM mv_check (seqM mv_check
    (seqM (mv_io (\<lambda>s. s\<lparr>mv_file := Some (encode dc d)\<rparr>) (\<lambda>_. id))
    (seqM mv_check mv_check)))))"

definition diff_table :: "(u64, history) btree_map \<Rightarrow> u64 \<Rightarrow> history \<Rightarrow> table_delta" where
  "diff_table previous tid h = (let prior = map_of previous tid in
     \<lparr>td_schema = hs_schema h, td_changed = hs_changed h, td_live = hs_live h,
      td_rows = filter (\<lambda>e. Option.bind prior (\<lambda>old. map_of (hs_rows old) (fst e)) \<noteq> Some (snd e)) (hs_rows h),
      td_removed = (case prior of None \<Rightarrow> []
        | Some old \<Rightarrow> filter (\<lambda>rid. map_of (hs_rows h) rid = None) (map fst (hs_rows old)))\<rparr>)"

definition make_delta :: "(u64 \<Rightarrow> bool) \<Rightarrow> durable \<Rightarrow> durable \<Rightarrow> u64 \<Rightarrow> delta" where
  "make_delta shared previous d oldest =
     \<lparr>dl_format = 1, dl_csn = du_csn d, dl_next_row = du_next_row d, dl_oldest = oldest,
      dl_tables = map (\<lambda>e. (fst e, diff_table (du_tables previous) (fst e) (snd e)))
        (filter (\<lambda>e. \<not> shared (fst e)) (du_tables d)),
      dl_removed = filter (\<lambda>tid. map_of (du_tables d) tid = None) (map fst (du_tables previous))\<rparr>"

definition file_size :: "bytes option \<Rightarrow> nat" where
  "file_size f = (case f of None \<Rightarrow> 0 | Some b \<Rightarrow> length b)"

definition append_delta :: "bytes \<Rightarrow> (mvcc, unit) cmd" where
  "append_delta bs = mv_io (\<lambda>s. s\<lparr>mv_delta := map_option (\<lambda>b. b @ bs) (mv_delta s)\<rparr>)
     (\<lambda>k s. s\<lparr>mv_delta := map_option (\<lambda>b. b @ take k bs) (mv_delta s)\<rparr>)"

definition persist :: "durable codec \<Rightarrow> delta codec \<Rightarrow> (u64 \<Rightarrow> bool) \<Rightarrow> durable \<Rightarrow> durable \<Rightarrow> u64 \<Rightarrow> (mvcc, unit) cmd" where
  "persist dc c shared previous d oldest = seqM mv_check (seqM mv_check
    (bindM (getM (\<lambda>s. (file_size (mv_file s), file_size (mv_delta s)))) (\<lambda>(base_size, log_size).
      if du_format previous \<noteq> 2 \<or> base_size = 0 \<or> max base_size (1024 * 1024) < log_size
      then seqM (persist_snapshot dc d)
        (seqM (mv_io (\<lambda>s. s\<lparr>mv_delta := Some []\<rparr>) (\<lambda>_. id)) mv_check)
      else (let body = encode c (make_delta shared previous d oldest) in
        seqM (mv_io (\<lambda>s. s\<lparr>mv_delta := Some (case mv_delta s of None \<Rightarrow> [] | Some b \<Rightarrow> b)\<rparr>) (\<lambda>_. id))
        (seqM (append_delta (to_hex16 (delta_checksum body) @ [32]))
        (seqM (append_delta body)
        (seqM (append_delta [10])
        (seqM mv_check (seqM mv_check mv_check)))))))))"

definition publish_changed :: "durable codec \<Rightarrow> delta codec \<Rightarrow> u64 \<Rightarrow> table_schema list \<Rightarrow>
    (table_schema \<times> row list) list \<Rightarrow> (mvcc, unit) cmd" where
  "publish_changed dc c csn schemas tables = bindM (getM mv_state) (\<lambda>st.
     let d = ms_durable st; oldest = oldest_or csn (ms_transactions st) in
     bindM (liftM (publish_next d csn oldest schemas tables)) (\<lambda>next.
       seqM (persist dc c (shared_table d oldest schemas tables) d next oldest) (modM (set_durable next))))"

definition publish :: "durable codec \<Rightarrow> delta codec \<Rightarrow> u64 \<Rightarrow> (table_schema \<times> row list) list \<Rightarrow> (mvcc, unit) cmd" where
  "publish dc c csn tables = publish_changed dc c csn (map fst tables) tables"

section \<open>Operations of a transaction\<close>

text \<open>These act on the state behind the mutex and do no I/O.\<close>

fun selected_rows :: "durable \<Rightarrow> string list option \<Rightarrow> table_schema list \<Rightarrow> (string \<times> row list) list outcome" where
  "selected_rows d selected [] = Ok []"
| "selected_rows d selected (s # ss) = (case map_of (du_tables d) (ts_object_id s) of
       None \<Rightarrow> Err (other_error ''MVCC schema is not synchronized'')
     | Some h \<Rightarrow> (case selected_rows d selected ss of
          Ok rest \<Rightarrow> Ok ((ts_table s, if (case selected of None \<Rightarrow> True | Some names \<Rightarrow> ts_table s \<in> set names)
              then visible_rows h (du_csn d) else []) # rest)
        | e \<Rightarrow> e))"

definition begin_selected :: "string \<Rightarrow> table_schema list \<Rightarrow> bool \<Rightarrow> string list option \<Rightarrow>
    (mstate, string \<times> (string \<times> row list) list \<times> u64) cmd" where
  "begin_selected nonce schemas serializable selected = bindM (getM ms_next_transaction) (\<lambda>n.
     if n = - 1 then errM (other_error ''transaction id exhausted'')
     else seqM (modM (\<lambda>st. st\<lparr>ms_next_transaction := n + 1\<rparr>)) (bindM (getM ms_durable) (\<lambda>d.
       let token = nonce @ ''-'' @ dec_digits (unat (n + 1)) in
       bindM (liftM (selected_rows d selected schemas)) (\<lambda>rows.
       seqM (modM (\<lambda>st. st\<lparr>ms_transactions := hm_insert token \<lparr>tx_snapshot = du_csn d, tx_schemas = schemas,
           tx_serializable = serializable, tx_reads = {}, tx_held = [], tx_waiting = [], tx_aborted = None,
           tx_plan = []\<rparr> (ms_transactions st)\<rparr>))
         (okM (token, rows, du_csn d))))))"

definition begin_all :: "string \<Rightarrow> table_schema list \<Rightarrow> bool \<Rightarrow> (mstate, string \<times> (string \<times> row list) list \<times> u64) cmd" where
  "begin_all nonce schemas serializable = begin_selected nonce schemas serializable None"

definition project_row :: "string list option \<Rightarrow> row \<Rightarrow> row" where
  "project_row columns r = (case columns of
       None \<Rightarrow> r
     | Some cs \<Rightarrow> foldl (\<lambda>acc f. hm_insert (fst f) (snd f) acc) []
         (List.map_filter (\<lambda>c. map_option (Pair c) (map_of r c)) cs))"

fun read_tables :: "durable \<Rightarrow> transaction \<Rightarrow> (string \<times> string list) list \<Rightarrow> string list \<Rightarrow>
    (table_schema list \<times> (string \<times> row list) list) outcome" where
  "read_tables d tx columns [] = Ok ([], [])"
| "read_tables d tx columns (name # names) = (case find_table tx name of
       None \<Rightarrow> Err (other_error ''unknown transaction read table'')
     | Some schema \<Rightarrow> (case map_of (du_tables d) (ts_object_id schema) of
          None \<Rightarrow> Err (other_error ''transaction history missing'')
        | Some h \<Rightarrow> (case read_tables d tx columns names of
             Ok (ss, ts) \<Rightarrow> Ok (schema # ss,
               (name, map (project_row (map_of columns name)) (visible_rows h (tx_snapshot tx))) # ts)
           | e \<Rightarrow> e)))"

definition mvcc_read :: "mstate \<Rightarrow> string \<Rightarrow> string list \<Rightarrow> (string \<times> string list) list \<Rightarrow>
    (table_schema list \<times> (string \<times> row list) list) outcome" where
  "mvcc_read st token names columns = (case validate st token False of
       Ok _ \<Rightarrow> (case map_of (ms_transactions st) token of
           None \<Rightarrow> Panic
         | Some tx \<Rightarrow> read_tables (ms_durable st) tx columns names)
     | Err e \<Rightarrow> Err e
     | Panic \<Rightarrow> Panic)"

section \<open>Locks\<close>

fun read_objects :: "transaction \<Rightarrow> string list \<Rightarrow> u64 set outcome" where
  "read_objects tx [] = Ok {}"
| "read_objects tx (name # names) = (case find_table tx name of
       None \<Rightarrow> Err (other_error ''unknown transaction read table'')
     | Some s \<Rightarrow> (case read_objects tx names of Ok ids \<Rightarrow> Ok (insert (ts_object_id s) ids) | e \<Rightarrow> e))"

definition unique_columns :: "table_schema \<Rightarrow> string list" where
  "unique_columns s = ''id'' # map sc_name (filter (\<lambda>c. sc_unique c \<or> sc_primary_key c) (ts_columns s))"

definition unique_locks :: "table_schema \<Rightarrow> u64 \<Rightarrow> row \<Rightarrow> lock_key list" where
  "unique_locks s table r = List.map_filter (\<lambda>c. map_option (KUnique table c) (unique_key r c)) (unique_columns s)"

text \<open>The changed rows of a table with the old rows they replace, and the rows locked for them.\<close>

definition changed_rows :: "(u64 \<times> version) list \<Rightarrow> change \<Rightarrow> (u64 option \<times> row) list" where
  "changed_rows old ch = filter (\<lambda>w. case fst w of
       None \<Rightarrow> True
     | Some rid \<Rightarrow> (case map_of old rid of None \<Rightarrow> True | Some v \<Rightarrow> \<not> row_eq (vn_row v) (snd w))) (ch_wanted ch)"

definition touched_rows :: "(u64 \<times> version) list \<Rightarrow> change \<Rightarrow> u64 list" where
  "touched_rows old ch = ch_removed ch @ List.map_filter fst (changed_rows old ch)"

definition change_locks :: "table_schema \<Rightarrow> (u64 \<times> version) list \<Rightarrow> change \<Rightarrow> (lock_key \<times> bool) list" where
  "change_locks s old ch =
     (KTable (ch_table ch), False) # map (\<lambda>rid. (KRow (ch_table ch) rid, True)) (touched_rows old ch) @
     map (\<lambda>k. (k, True)) (concat (map (unique_locks s (ch_table ch))
       (List.map_filter (\<lambda>rid. map_option vn_row (map_of old rid)) (touched_rows old ch) @
        map snd (changed_rows old ch))))"

fun wanted_locks :: "durable \<Rightarrow> transaction \<Rightarrow> change list \<Rightarrow> (lock_key \<times> bool) list outcome" where
  "wanted_locks d tx [] = Ok []"
| "wanted_locks d tx (ch # chs) = (case find_object tx (ch_table ch) of
       None \<Rightarrow> Err (other_error ''transaction schema missing'')
     | Some s \<Rightarrow> (case map_of (du_tables d) (ch_table ch) of
          None \<Rightarrow> Panic
        | Some h \<Rightarrow> (let old = visible h (tx_snapshot tx) in
            if \<not> list_all (\<lambda>rid. map_of old rid \<noteq> None) (touched_rows old ch) then Panic
            else (case wanted_locks d tx chs of Ok ks \<Rightarrow> Ok (change_locks s old ch @ ks) | e \<Rightarrow> e))))"

definition update_tx :: "string \<Rightarrow> (transaction \<Rightarrow> transaction) \<Rightarrow> mstate \<Rightarrow> mstate" where
  "update_tx token f st = st\<lparr>ms_transactions := hm_map (\<lambda>t tx. if t = token then f tx else tx) (ms_transactions st)\<rparr>"

text \<open>The first part of \<open>lock_inner\<close>: the locks wanted, in the order of the \<open>BTreeMap\<close>.\<close>

definition lock_start :: "string \<Rightarrow> storage_op list \<Rightarrow> string list \<Rightarrow> (mstate, (lock_key, bool) btree_map) cmd" where
  "lock_start token ops reads = bindM (getM id) (\<lambda>st.
     seqM (liftM (validate st token False))
     (case map_of (ms_transactions st) token of
        None \<Rightarrow> panicM
      | Some tx \<Rightarrow> bindM (liftM (read_objects tx reads)) (\<lambda>touched.
          bindM (liftM (plans st token ops)) (\<lambda>changes.
          bindM (liftM (wanted_locks (ms_durable st) tx changes)) (\<lambda>ks.
          seqM (modM (update_tx token (\<lambda>tx. tx\<lparr>tx_reads := touched\<rparr>))) (okM (bt_extend [] ks)))))))"

definition blockers :: "mstate \<Rightarrow> string \<Rightarrow> lock_key \<Rightarrow> bool \<Rightarrow> string list" where
  "blockers st token key exclusive = map fst (filter (\<lambda>e. fst e \<noteq> token \<and> tx_aborted (snd e) = None \<and>
     (case map_of (tx_held (snd e)) key of None \<Rightarrow> False | Some held \<Rightarrow> held \<or> exclusive)) (ms_transactions st))"

definition grant :: "lock_key \<Rightarrow> bool \<Rightarrow> transaction \<Rightarrow> transaction" where
  "grant key exclusive tx = tx\<lparr>tx_waiting := [],
     tx_held := bt_insert key (exclusive \<or> map_of (tx_held tx) key = Some True) (tx_held tx)\<rparr>"

definition abort_with :: "string \<Rightarrow> string \<Rightarrow> (mstate, 'a) cmd" where
  "abort_with token msg = seqM (modM (abort token msg)) (errM (other_error msg))"

text \<open>
  One turn of the waiting loop, with the mutex held: \<open>True\<close> when the lock was granted, \<open>False\<close>
  when the request goes to sleep.  \<open>timed_out\<close> says that the deadline has passed.
\<close>

definition lock_try :: "bool \<Rightarrow> string \<Rightarrow> lock_key \<Rightarrow> bool \<Rightarrow> (mstate, bool) cmd" where
  "lock_try timed_out token key exclusive = bindM (getM id) (\<lambda>st.
     seqM (liftM (validate st token False))
     (let bs = blockers st token key exclusive in
      if bs = [] then seqM (modM (update_tx token (grant key exclusive))) (okM True)
      else seqM (modM (update_tx token (\<lambda>tx. tx\<lparr>tx_waiting := bs\<rparr>))) (bindM (getM id) (\<lambda>st'.
        if on_cycle st' token then abort_with token ''deadlock_detected: transaction aborted''
        else if timed_out then abort_with token ''lock_timeout: transaction aborted''
        else okM False))))"

definition lock_finish :: "string \<Rightarrow> storage_op list \<Rightarrow> (mstate, unit) cmd" where
  "lock_finish token ops = bindM (getM id) (\<lambda>st.
     seqM (liftM (validate st token False)) (modM (update_tx token (\<lambda>tx. tx\<lparr>tx_plan := ops\<rparr>))))"

text \<open>\<open>lock\<close> aborts the transaction when its request failed to serialize.\<close>

definition lock_failed :: "string \<Rightarrow> io_error \<Rightarrow> mstate \<Rightarrow> mstate" where
  "lock_failed token e st = (if starts_with ''serialization_failure:'' (err_message e) then abort token (err_message e) st else st)"

section \<open>Commit and end\<close>

definition writes_planned :: "mstate \<Rightarrow> string \<Rightarrow> bool" where
  "writes_planned st token = (case map_of (ms_transactions st) token of None \<Rightarrow> False | Some tx \<Rightarrow> tx_plan tx \<noteq> [])"

definition commit_ops :: "mstate \<Rightarrow> string \<Rightarrow> storage_op list outcome" where
  "commit_ops st token = (if map_of (ms_transactions st) token = None then Err no_transaction
     else (case validate st token (writes_planned st token) of
         Ok _ \<Rightarrow> merged_ops st token
       | Err e \<Rightarrow> Err e
       | Panic \<Rightarrow> Panic))"

fun apply_preview :: "storage_op list \<Rightarrow> (string, row list) btree_map \<Rightarrow> (string, row list) btree_map outcome" where
  "apply_preview [] tables = Ok tables"
| "apply_preview (Replace t rows # ops) tables = apply_preview ops (bt_insert t rows tables)"
| "apply_preview (Upsert t rows # ops) tables = (case map_of tables t of
       None \<Rightarrow> Err (other_error ''transaction table missing'')
     | Some old \<Rightarrow> apply_preview ops (bt_insert t (old @ rows) tables))"
| "apply_preview (Delete t ids # ops) tables = (case map_of tables t of
       None \<Rightarrow> Err (other_error ''transaction table missing'')
     | Some old \<Rightarrow> apply_preview ops (bt_insert t (delete_rows (set ids) old) tables))"

definition current_tables :: "durable \<Rightarrow> table_schema list \<Rightarrow> (string, row list) btree_map" where
  "current_tables d schemas = foldl (\<lambda>m s. bt_insert (ts_table s)
     (case map_of (du_tables d) (ts_object_id s) of None \<Rightarrow> [] | Some h \<Rightarrow> visible_rows h (du_csn d)) m) [] schemas"

definition preview :: "mstate \<Rightarrow> string \<Rightarrow> table_schema list \<Rightarrow> ((string, row list) btree_map \<times> storage_op list) outcome" where
  "preview st token schemas = (case commit_ops st token of
       Ok ops \<Rightarrow> (case apply_preview ops (current_tables (ms_durable st) schemas) of
           Ok tables \<Rightarrow> Ok (tables, ops)
         | Err e \<Rightarrow> Err e
         | Panic \<Rightarrow> Panic)
     | Err e \<Rightarrow> Err e
     | Panic \<Rightarrow> Panic)"

fun locks_cover :: "transaction \<Rightarrow> storage_op list \<Rightarrow> unit outcome" where
  "locks_cover tx [] = Ok ()"
| "locks_cover tx (op # ops) = (case find_table tx (op_name op) of
       None \<Rightarrow> Err (other_error ''unknown transaction table'')
     | Some s \<Rightarrow> if map_of (tx_held tx) (KTable (ts_object_id s)) = None
         then Err (other_error ''transaction write has no locks'') else locks_cover tx ops)"

definition validate_commit :: "mstate \<Rightarrow> string \<Rightarrow> storage_op list \<Rightarrow> unit outcome" where
  "validate_commit st token ops = (case validate st token (ops \<noteq> []) of
       Ok _ \<Rightarrow> (case map_of (ms_transactions st) token of None \<Rightarrow> Panic | Some tx \<Rightarrow> locks_cover tx ops)
     | Err e \<Rightarrow> Err e
     | Panic \<Rightarrow> Panic)"

definition oldest_snapshot :: "mstate \<Rightarrow> u64 option" where
  "oldest_snapshot st = (case active_snapshots (ms_transactions st) of [] \<Rightarrow> None | s # ss \<Rightarrow> Some (foldl min s ss))"

definition finish :: "string \<Rightarrow> mstate \<Rightarrow> mstate" where
  "finish token st = (let st' = prune (st\<lparr>ms_transactions := hm_remove token (ms_transactions st)\<rparr>) in
     st'\<lparr>ms_transactions := hm_map (\<lambda>_ tx. tx\<lparr>tx_waiting := removeAll token (tx_waiting tx)\<rparr>) (ms_transactions st')\<rparr>)"

definition fail_all :: "mstate \<Rightarrow> mstate" where
  "fail_all st = foldl (\<lambda>st token. abort token ''storage recovery required'' st) st (map fst (ms_transactions st))"

end
