(* ===== verification/Catalog.thy ===== *)
theory Catalog
  imports Std_Float Std_Text Std_Maps Wal Mvcc
begin

text \<open>
  The data dictionary of \<open>catalog.rs\<close>: for each table its object number, file generation,
  schema version, columns, hidden columns, row count, indexes and column statistics.  The
  operations that take \<open>&mut self\<close> are commands on the dictionary.  The hash of the standard
  library, whose algorithm it leaves open, and the JSON library (the printed form of a value,
  the codec of the dictionary) are parameters.
\<close>

section \<open>The dictionary\<close>

definition STATS_DISTINCT_CAP :: u64 where "STATS_DISTINCT_CAP = 4096"
definition HIST_BUCKETS :: nat where "HIST_BUCKETS = 16"

record cat_stat =
  st_distinct :: u64
  st_capped :: bool
  st_lo :: "f64 option"
  st_hi :: "f64 option"
  st_hist :: "u64 list"

definition default_stat :: cat_stat where
  "default_stat = \<lparr>st_distinct = 0, st_capped = False, st_lo = None, st_hi = None, st_hist = []\<rparr>"

record cat_table =
  ct_object_id :: u64
  ct_file_generation :: string
  ct_schema_version :: u64
  ct_system :: bool
  ct_columns :: "schema_column list"
  ct_dropped_columns :: "string set"
  ct_compacted :: bool
  ct_row_count :: u64
  ct_indexes :: "string list"
  ct_stats :: "(string, cat_stat) btree_map"

definition default_table :: cat_table where
  "default_table = \<lparr>ct_object_id = 0, ct_file_generation = [], ct_schema_version = 0, ct_system = False, ct_columns = [],
     ct_dropped_columns = {}, ct_compacted = False, ct_row_count = 0, ct_indexes = [], ct_stats = []\<rparr>"

record catalog =
  cg_database_id :: u64
  cg_object_high_water :: u64
  cg_identity_high_water :: u64
  cg_tables :: "(string, cat_table) btree_map"
  cg_seen :: "(string, (u64, u64) hash_map) btree_map"

definition default_catalog :: catalog where
  "default_catalog = \<lparr>cg_database_id = 0, cg_object_high_water = 0, cg_identity_high_water = 0, cg_tables = [], cg_seen = []\<rparr>"

text \<open>\<open>entry(k).or_default()\<close>.\<close>

definition or_default :: "'v \<Rightarrow> 'k \<Rightarrow> ('k, 'v) btree_map \<Rightarrow> 'v" where
  "or_default d k m = (case map_of m k of Some v \<Rightarrow> v | None \<Rightarrow> d)"

definition get_entry :: "string \<Rightarrow> catalog \<Rightarrow> cat_table" where
  "get_entry t c = or_default default_table t (cg_tables c)"

definition put_entry :: "string \<Rightarrow> cat_table \<Rightarrow> catalog \<Rightarrow> catalog" where
  "put_entry t e c = c\<lparr>cg_tables := bt_insert t e (cg_tables c)\<rparr>"

definition forget_seen :: "string \<Rightarrow> catalog \<Rightarrow> catalog" where
  "forget_seen t c = c\<lparr>cg_seen := bt_remove t (cg_seen c)\<rparr>"

definition unknown_table :: "string \<Rightarrow> io_error" where
  "unknown_table t = IoError NotFound (''unknown table: '' @ t)"

definition table_exists :: "string \<Rightarrow> io_error" where
  "table_exists t = IoError AlreadyExists (''table already exists: '' @ t)"

definition all_tables :: "catalog \<Rightarrow> (string \<times> cat_table) list" where
  "all_tables c = cg_tables c"

definition describe :: "catalog \<Rightarrow> string \<Rightarrow> cat_table option" where
  "describe c t = map_of (cg_tables c) t"

definition table_names :: "catalog \<Rightarrow> string list" where
  "table_names c = map fst (cg_tables c)"

section \<open>Object numbers\<close>

fun check_ids :: "cat_table list \<Rightarrow> u64 list \<Rightarrow> u64 \<Rightarrow> u64 outcome" where
  "check_ids [] ids high = Ok high"
| "check_ids (e # es) ids high =
     (if ct_object_id e \<noteq> 0 \<and> ct_object_id e \<in> set ids then Err (other_error ''duplicate catalog object id'')
      else check_ids es (if ct_object_id e \<noteq> 0 then ct_object_id e # ids else ids) (max high (ct_object_id e)))"

fun assign_ids :: "(string, cat_table) btree_map \<Rightarrow> u64 \<Rightarrow> ((string, cat_table) btree_map \<times> u64) outcome" where
  "assign_ids [] high = Ok ([], high)"
| "assign_ids ((t, e) # ts) high =
     (if ct_object_id e = 0
      then (if high = - 1 then Err (other_error ''catalog object id exhausted'')
            else (case assign_ids ts (high + 1) of
                Ok (ts', high') \<Rightarrow> Ok ((t, e\<lparr>ct_object_id := high + 1\<rparr>) # ts', high')
              | r \<Rightarrow> r))
      else (case assign_ids ts high of Ok (ts', high') \<Rightarrow> Ok ((t, e) # ts', high') | r \<Rightarrow> r))"

definition upgrade_object_ids :: "catalog \<Rightarrow> catalog outcome" where
  "upgrade_object_ids c =
     (case check_ids (map snd (cg_tables c)) [] (max (cg_object_high_water c) (cg_database_id c)) of
        Err e \<Rightarrow> Err e
      | Panic \<Rightarrow> Panic
      | Ok high \<Rightarrow> (case assign_ids (cg_tables c) high of
           Err e \<Rightarrow> Err e
         | Panic \<Rightarrow> Panic
         | Ok (ts, high') \<Rightarrow> Ok (c\<lparr>cg_tables := ts, cg_object_high_water := high'\<rparr>)))"

definition set_generation :: "string \<Rightarrow> u64 \<Rightarrow> string \<Rightarrow> string \<Rightarrow> (catalog, unit) cmd" where
  "set_generation t obj source target = bindM (getM id) (\<lambda>c.
     if \<not> valid_generation target then errM (other_error ''invalid physical file generation'')
     else (case map_of (cg_tables c) t of
         None \<Rightarrow> errM (other_error ''migration table missing'')
       | Some e \<Rightarrow>
          if ct_object_id e \<noteq> obj \<or> ct_file_generation e \<noteq> source \<and> ct_file_generation e \<noteq> target
          then errM (other_error ''serialization_failure: migration object changed'')
          else modM (put_entry t (e\<lparr>ct_file_generation := target\<rparr>))))"

definition reserve_object_id :: "(catalog, u64) cmd" where
  "reserve_object_id = bindM (getM cg_object_high_water) (\<lambda>high.
     if high = - 1 then errM (other_error ''catalog object id exhausted'')
     else seqM (modM (\<lambda>c. c\<lparr>cg_object_high_water := high + 1\<rparr>)) (okM (high + 1)))"

section \<open>Loading and saving\<close>

text \<open>The dictionary file; a failed write leaves the old file, since a new one is renamed over it.\<close>

record cat_disk =
  cd_file :: "bytes option"
  cd_faults :: "fault list"

definition cd_io :: "(cat_disk \<Rightarrow> cat_disk) \<Rightarrow> (cat_disk, unit) cmd" where
  "cd_io ok s = (case cd_faults s of
       [] \<Rightarrow> (Ok (), ok s)
     | NoFault # fs \<Rightarrow> (Ok (), ok (s\<lparr>cd_faults := fs\<rparr>))
     | Fault k # fs \<Rightarrow> (Err io_failure, s\<lparr>cd_faults := fs\<rparr>))"

text \<open>The codec leaves out the hash tables of the distinct values; they are empty after loading.\<close>

definition load_catalog :: "catalog codec \<Rightarrow> (cat_disk, catalog) cmd" where
  "load_catalog cc = bindM (getM cd_file) (\<lambda>file. case file of
       None \<Rightarrow> okM default_catalog
     | Some bytes \<Rightarrow> seqM (cd_io id)
        (if bytes = [] then okM default_catalog
         else (case decode cc bytes of
             None \<Rightarrow> errM (other_error ''catalog'')
           | Some c \<Rightarrow>
              if list_ex (\<lambda>e. \<not> valid_generation (ct_file_generation (snd e))) (cg_tables c)
              then errM (other_error ''invalid physical file generation'')
              else liftM (upgrade_object_ids c))))"

text \<open>Create, write, sync, rename, open, sync.\<close>

definition save_catalog :: "catalog codec \<Rightarrow> catalog \<Rightarrow> (cat_disk, unit) cmd" where
  "save_catalog cc c = seqM (cd_io id) (seqM (cd_io id) (seqM (cd_io id)
     (seqM (cd_io (\<lambda>s. s\<lparr>cd_file := Some (encode cc c)\<rparr>)) (seqM (cd_io id) (cd_io id)))))"

section \<open>Schemas\<close>

definition next_schema_version :: "cat_table \<Rightarrow> u64 outcome" where
  "next_schema_version e = (if ct_schema_version e = - 1 then Err (other_error ''catalog schema version exhausted'')
     else Ok (ct_schema_version e + 1))"

definition infer_type :: "json \<Rightarrow> string option" where
  "infer_type v = (case v of
       JNumber _ \<Rightarrow> Some ''int''
     | JString _ \<Rightarrow> Some ''str''
     | JBool _ \<Rightarrow> Some ''bool''
     | _ \<Rightarrow> None)"

definition additions :: "cat_table \<Rightarrow> row \<Rightarrow> schema_column list" where
  "additions e r = List.map_filter (\<lambda>(name, v). map_option (\<lambda>ty. default_column\<lparr>sc_name := name, sc_ty := ty\<rparr>) (infer_type v))
     (filter (\<lambda>f. fst f \<notin> ct_dropped_columns e \<and> \<not> list_ex (\<lambda>c. sc_name c = fst f) (ct_columns e)) r)"

definition add_missing_columns :: "cat_table \<Rightarrow> row \<Rightarrow> (cat_table \<times> bool) outcome" where
  "add_missing_columns e r =
     (if additions e r = [] then Ok (e, False)
      else (case next_schema_version e of
          Ok v \<Rightarrow> Ok (e\<lparr>ct_schema_version := v, ct_columns := ct_columns e @ additions e r\<rparr>, True)
        | Err x \<Rightarrow> Err x
        | Panic \<Rightarrow> Panic))"

text \<open>The entry is made before the columns are added, and stays when that fails.\<close>

definition extend_columns :: "string \<Rightarrow> row \<Rightarrow> (catalog, bool) cmd" where
  "extend_columns t r = seqM (modM (\<lambda>c. put_entry t (get_entry t c) c)) (bindM (getM (get_entry t)) (\<lambda>e.
     bindM (liftM (add_missing_columns e r)) (\<lambda>(e', changed). seqM (modM (put_entry t e')) (okM changed))))"

definition ensure_columns :: "string \<Rightarrow> row \<Rightarrow> (catalog, unit) cmd" where
  "ensure_columns t r = seqM (extend_columns t r) (okM ())"

definition new_table :: "u64 \<Rightarrow> schema_column list \<Rightarrow> cat_table" where
  "new_table obj columns = default_table\<lparr>ct_object_id := obj, ct_schema_version := 1, ct_columns := columns\<rparr>"

definition create_table_with_id :: "string \<Rightarrow> schema_column list \<Rightarrow> u64 option \<Rightarrow> (catalog, unit) cmd" where
  "create_table_with_id t columns object_id = bindM (getM id) (\<lambda>c.
     if map_of (cg_tables c) t \<noteq> None then errM (table_exists t)
     else bindM (case object_id of
         Some i \<Rightarrow> if i = 0 \<or> list_ex (\<lambda>e. ct_object_id (snd e) = i) (cg_tables c)
            then errM (other_error ''invalid catalog object id'')
            else seqM (modM (\<lambda>c. c\<lparr>cg_object_high_water := max (cg_object_high_water c) i\<rparr>)) (okM i)
       | None \<Rightarrow> reserve_object_id) (\<lambda>obj. modM (put_entry t (new_table obj columns))))"

definition create_table :: "string \<Rightarrow> schema_column list \<Rightarrow> (catalog, unit) cmd" where
  "create_table t columns = create_table_with_id t columns None"

text \<open>An operation on the entry of a table that must exist.\<close>

definition on_entry :: "io_error \<Rightarrow> string \<Rightarrow> (cat_table \<Rightarrow> (catalog, 'a) cmd) \<Rightarrow> (catalog, 'a) cmd" where
  "on_entry missing t f = bindM (getM (\<lambda>c. map_of (cg_tables c) t)) (\<lambda>found. case found of None \<Rightarrow> errM missing | Some e \<Rightarrow> f e)"

definition mark_system :: "string \<Rightarrow> (catalog, unit) cmd" where
  "mark_system t = on_entry (other_error ''missing system table'') t (\<lambda>e. modM (put_entry t (e\<lparr>ct_system := True\<rparr>)))"

definition drop_table :: "string \<Rightarrow> (catalog, unit) cmd" where
  "drop_table t = on_entry (unknown_table t) t (\<lambda>e.
     modM (\<lambda>c. forget_seen t (c\<lparr>cg_tables := bt_remove t (cg_tables c)\<rparr>)))"

definition rename_table :: "string \<Rightarrow> string \<Rightarrow> (catalog, bool) cmd" where
  "rename_table from to = bindM (getM id) (\<lambda>c. case map_of (cg_tables c) from of
       None \<Rightarrow> okM False
     | Some e \<Rightarrow>
        if map_of (cg_tables c) to \<noteq> None then errM (table_exists to)
        else bindM (liftM (next_schema_version e)) (\<lambda>v.
          seqM (modM (\<lambda>c. put_entry to (e\<lparr>ct_schema_version := v\<rparr>) (forget_seen from (c\<lparr>cg_tables := bt_remove from (cg_tables c)\<rparr>))))
            (okM True)))"

definition wal_version_error :: io_error where
  "wal_version_error = other_error ''invalid WAL schema version''"

text \<open>The schema version after a change: the one from the log, or the next one if there is a change.\<close>

definition target_version :: "cat_table \<Rightarrow> u64 option \<Rightarrow> bool \<Rightarrow> u64 outcome" where
  "target_version e version changed = (case version of
       Some v \<Rightarrow> if v = 0 then Err wal_version_error else Ok v
     | None \<Rightarrow> if changed then next_schema_version e else Ok (ct_schema_version e))"

definition set_columns_version :: "string \<Rightarrow> schema_column list \<Rightarrow> u64 option \<Rightarrow> (catalog, unit) cmd" where
  "set_columns_version t columns version = on_entry (unknown_table t) t (\<lambda>e.
     bindM (liftM (target_version e version (\<not> columns_eq (ct_columns e) columns))) (\<lambda>v.
       modM (\<lambda>c. forget_seen t (put_entry t (e\<lparr>ct_schema_version := v, ct_columns := columns, ct_dropped_columns := {},
         ct_indexes := [], ct_stats := []\<rparr>) c))))"

definition set_columns :: "string \<Rightarrow> schema_column list \<Rightarrow> (catalog, unit) cmd" where
  "set_columns t columns = set_columns_version t columns None"

definition remove_column_version :: "string \<Rightarrow> string \<Rightarrow> u64 option \<Rightarrow> (catalog, bool) cmd" where
  "remove_column_version t column version = on_entry (unknown_table t) t (\<lambda>e.
     bindM (liftM (target_version e version (list_ex (\<lambda>c. sc_name c = column) (ct_columns e)))) (\<lambda>v.
       let kept = filter (\<lambda>c. sc_name c \<noteq> column) (ct_columns e) in
       seqM (modM (\<lambda>c. forget_seen t (put_entry t (e\<lparr>ct_schema_version := v, ct_columns := kept,
           ct_stats := bt_remove column (ct_stats e), ct_dropped_columns := insert column (ct_dropped_columns e),
           ct_compacted := False, ct_indexes := filter (\<lambda>i. i \<noteq> column) (ct_indexes e)\<rparr>) c)))
         (okM (length kept \<noteq> length (ct_columns e)))))"

definition remove_column :: "string \<Rightarrow> string \<Rightarrow> (catalog, bool) cmd" where
  "remove_column t column = remove_column_version t column None"

definition mark_compacted :: "string \<Rightarrow> (catalog, unit) cmd" where
  "mark_compacted t = on_entry (unknown_table t) t (\<lambda>e.
     modM (\<lambda>c. forget_seen t (put_entry t (e\<lparr>ct_compacted := True\<rparr>) c)))"

definition has_dropped_columns :: "catalog \<Rightarrow> string \<Rightarrow> bool" where
  "has_dropped_columns c t = (case map_of (cg_tables c) t of None \<Rightarrow> False | Some e \<Rightarrow> ct_dropped_columns e \<noteq> {})"

definition dropped_tables :: "catalog \<Rightarrow> string list" where
  "dropped_tables c = map fst (filter (\<lambda>e. ct_dropped_columns (snd e) \<noteq> {} \<and> \<not> ct_compacted (snd e)) (cg_tables c))"

definition add_index :: "string \<Rightarrow> string \<Rightarrow> (catalog, unit) cmd" where
  "add_index t column = on_entry (unknown_table t) t (\<lambda>e.
     if column \<in> set (ct_indexes e)
     then errM (IoError AlreadyExists (''index on column \"'' @ column @ ''\" already exists''))
     else modM (put_entry t (e\<lparr>ct_indexes := ct_indexes e @ [column]\<rparr>)))"

definition remove_index :: "string \<Rightarrow> string \<Rightarrow> (catalog, unit) cmd" where
  "remove_index t column = on_entry (unknown_table t) t (\<lambda>e.
     if column \<notin> set (ct_indexes e) then errM (IoError NotFound (''no index on column \"'' @ column @ ''\"''))
     else modM (put_entry t (e\<lparr>ct_indexes := remove1 column (ct_indexes e)\<rparr>)))"

section \<open>Type names\<close>

definition type_names :: "(string \<times> string) list" where
  "type_names = [(''integer'', ''int''), (''int'', ''int''), (''bigint'', ''bigint''), (''smallint'', ''smallint''),
     (''str'', ''str''), (''text'', ''str''), (''varchar'', ''varchar''), (''char'', ''char''), (''bool'', ''bool''),
     (''boolean'', ''bool''), (''float'', ''float''), (''real'', ''float''), (''double'', ''double''), (''decimal'', ''decimal''),
     (''numeric'', ''decimal''), (''date'', ''date''), (''timestamp'', ''timestamp''), (''blob'', ''blob'')]"

definition normalize_type :: "string \<Rightarrow> string" where
  "normalize_type ty = (let trimmed = trim ty;
       base = takeWhile (\<lambda>c. c \<noteq> CHR ''('') trimmed; args = dropWhile (\<lambda>c. c \<noteq> CHR ''('') trimmed
     in case map_of type_names (ascii_lowercase (trim base)) of
          Some name \<Rightarrow> name @ args
        | None \<Rightarrow> trimmed)"

definition unnormal :: "cat_table \<Rightarrow> bool" where
  "unnormal e = list_ex (\<lambda>c. normalize_type (sc_ty c) \<noteq> sc_ty c) (ct_columns e)"

text \<open>The loop over the tables stops at the first whose version is used up; earlier ones are changed.\<close>

fun normalize_tables :: "(string, cat_table) btree_map \<Rightarrow> bool \<Rightarrow> (string, cat_table) btree_map \<times> bool outcome" where
  "normalize_tables [] changed = ([], Ok changed)"
| "normalize_tables ((t, e) # ts) changed =
     (if unnormal e
      then (case next_schema_version e of
          Ok v \<Rightarrow> (case normalize_tables ts True of (ts', r) \<Rightarrow>
            ((t, e\<lparr>ct_schema_version := v, ct_columns := map (\<lambda>c. c\<lparr>sc_ty := normalize_type (sc_ty c)\<rparr>) (ct_columns e)\<rparr>) # ts', r))
        | Err x \<Rightarrow> ((t, e) # ts, Err x)
        | Panic \<Rightarrow> ((t, e) # ts, Panic))
      else (case normalize_tables ts changed of (ts', r) \<Rightarrow> ((t, e) # ts', r)))"

definition normalize_types :: "(catalog, bool) cmd" where
  "normalize_types = bindM (getM cg_tables) (\<lambda>ts. case normalize_tables ts False of (ts', r) \<Rightarrow>
     seqM (modM (\<lambda>c. c\<lparr>cg_tables := ts'\<rparr>)) (liftM r))"

section \<open>Statistics\<close>

text \<open>\<open>out[i] += n\<close> with its bounds and overflow checks, and \<open>saturating_sub\<close>.\<close>

definition add_at :: "nat \<Rightarrow> u64 \<Rightarrow> u64 list \<Rightarrow> u64 list outcome" where
  "add_at i n xs = (if length xs \<le> i \<or> 2 ^ 64 \<le> unat (xs ! i) + unat n then Panic else Ok (xs[i := xs ! i + n]))"

definition sat_sub :: "u64 \<Rightarrow> u64 \<Rightarrow> u64" where
  "sat_sub a b = (if b \<le> a then a - b else 0)"

definition hist_index :: "f64 \<Rightarrow> f64 \<Rightarrow> f64 \<Rightarrow> nat" where
  "hist_index lo hi v = (if f64_le hi lo then 0
     else floor_clamp (HIST_BUCKETS - 1)
       (f64_mul (f64_div (f64_sub v lo) (f64_sub hi lo)) (Finite (of_nat HIST_BUCKETS))))"

text \<open>The middle of bucket \<open>i\<close> of \<open>n\<close>.\<close>

definition bucket_mid :: "f64 \<Rightarrow> f64 \<Rightarrow> nat \<Rightarrow> nat \<Rightarrow> f64" where
  "bucket_mid lo hi n i = (if f64_less lo hi
     then f64_add lo (f64_div (f64_mul (f64_sub hi lo) (Finite (of_nat i + 1 / 2))) (Finite (of_nat n))) else lo)"

fun merge_buckets :: "(nat \<Rightarrow> nat) \<Rightarrow> nat \<Rightarrow> u64 list \<Rightarrow> u64 list \<Rightarrow> u64 list outcome" where
  "merge_buckets target i [] out = Ok out"
| "merge_buckets target i (n # ns) out =
     (if n = 0 then merge_buckets target (Suc i) ns out
      else (case add_at (target i) n out of
          Ok out' \<Rightarrow> merge_buckets target (Suc i) ns out'
        | e \<Rightarrow> e))"

definition hist_merge :: "u64 list \<Rightarrow> f64 \<Rightarrow> f64 \<Rightarrow> f64 \<Rightarrow> f64 \<Rightarrow> u64 list outcome" where
  "hist_merge old old_lo old_hi new_lo new_hi =
     merge_buckets (\<lambda>i. hist_index new_lo new_hi (bucket_mid old_lo old_hi (length old) i)) 0 old (replicate HIST_BUCKETS 0)"

text \<open>The bounds and the buckets before the new value is counted.\<close>

definition widen :: "f64 \<Rightarrow> f64 \<Rightarrow> f64 \<Rightarrow> u64 list \<Rightarrow> (f64 \<times> f64 \<times> u64 list) outcome" where
  "widen x lo hi hist =
     (if f64_less x lo \<or> f64_less hi x
      then (case hist_merge hist lo hi (f64_min lo x) (f64_max hi x) of
          Ok h \<Rightarrow> Ok (f64_min lo x, f64_max hi x, h)
        | Err e \<Rightarrow> Err e
        | Panic \<Rightarrow> Panic)
      else Ok (lo, hi, hist))"

definition hist_add :: "json \<Rightarrow> cat_stat \<Rightarrow> cat_stat outcome" where
  "hist_add v s = (case as_f64 v of
       None \<Rightarrow> Ok s
     | Some x \<Rightarrow> (case (st_lo s, st_hi s) of
          (Some lo, Some hi) \<Rightarrow>
            if length (st_hist s) = HIST_BUCKETS
            then (case widen x lo hi (st_hist s) of
                Ok (lo', hi', h) \<Rightarrow> (case add_at (hist_index lo' hi' x) 1 h of
                    Ok h' \<Rightarrow> Ok (s\<lparr>st_lo := Some lo', st_hi := Some hi', st_hist := h'\<rparr>)
                  | Err e \<Rightarrow> Err e
                  | Panic \<Rightarrow> Panic)
              | Err e \<Rightarrow> Err e
              | Panic \<Rightarrow> Panic)
            else Ok (s\<lparr>st_lo := Some x, st_hi := Some x, st_hist := 1 # replicate (HIST_BUCKETS - 1) 0\<rparr>)
        | _ \<Rightarrow> Ok (s\<lparr>st_lo := Some x, st_hi := Some x, st_hist := 1 # replicate (HIST_BUCKETS - 1) 0\<rparr>)))"

definition abs_diff :: "nat \<Rightarrow> nat \<Rightarrow> nat" where
  "abs_diff i j = (if i \<le> j then j - i else i - j)"

definition hist_remove :: "json \<Rightarrow> cat_stat \<Rightarrow> cat_stat" where
  "hist_remove v s = (case (as_f64 v, st_lo s, st_hi s) of
       (Some x, Some lo, Some hi) \<Rightarrow>
         if f64_less x lo \<or> f64_less hi x \<or> length (st_hist s) \<noteq> HIST_BUCKETS then s
         else (case min_by_key (\<lambda>i. abs_diff i (hist_index lo hi x)) (filter (\<lambda>i. 0 < st_hist s ! i) [0..<length (st_hist s)]) of
             None \<Rightarrow> s
           | Some b \<Rightarrow> s\<lparr>st_hist := (st_hist s)[b := st_hist s ! b - 1]\<rparr>)
     | _ \<Rightarrow> s)"

text \<open>
  The two hashes: \<open>Hash\<close> feeds a string as its bytes and a final \<open>0xff\<close>, a number as its eight
  bytes.  \<open>hasher\<close> is the hash function of the standard library, \<open>printed\<close> the printed form of
  a value.
\<close>

record hashing =
  hg_hasher :: "bytes \<Rightarrow> u64"
  hg_printed :: "json \<Rightarrow> string"

definition value_hash :: "hashing \<Rightarrow> json \<Rightarrow> u64" where
  "value_hash g v = hg_hasher g (string_bytes (hg_printed g v) @ [255])"

definition fold_hash :: "hashing \<Rightarrow> string \<Rightarrow> u64 \<Rightarrow> u64" where
  "fold_hash g column h = hg_hasher g (string_bytes column @ [255] @ u64_le h)"

type_synonym stats_state = "(string, cat_stat) btree_map \<times> (u64, u64) hash_map"

definition count_value :: "hashing \<Rightarrow> string \<times> json \<Rightarrow> stats_state \<Rightarrow> stats_state outcome" where
  "count_value g f p = (case p of (stats, seen) \<Rightarrow>
     (case hist_add (snd f) (or_default default_stat (fst f) stats) of
        Err e \<Rightarrow> Err e
      | Panic \<Rightarrow> Panic
      | Ok s \<Rightarrow>
         if st_capped s then Ok (bt_insert (fst f) s stats, seen)
         else (let key = fold_hash g (fst f) (value_hash g (snd f)); n = or_default 0 key seen in
           if n = - 1 then Panic
           else if n + 1 = 1
           then (if st_distinct s = - 1 then Panic
                 else Ok (bt_insert (fst f) (s\<lparr>st_distinct := st_distinct s + 1,
                     st_capped := st_capped s \<or> STATS_DISTINCT_CAP \<le> st_distinct s + 1\<rparr>) stats, hm_insert key (n + 1) seen))
           else Ok (bt_insert (fst f) s stats, hm_insert key (n + 1) seen))))"

fun count_fields :: "hashing \<Rightarrow> row \<Rightarrow> stats_state \<Rightarrow> stats_state outcome" where
  "count_fields g [] p = Ok p"
| "count_fields g (f # fs) p = (case count_value g f p of Ok p' \<Rightarrow> count_fields g fs p' | Err e \<Rightarrow> Err e | Panic \<Rightarrow> Panic)"

definition put_stats :: "string \<Rightarrow> stats_state \<Rightarrow> catalog \<Rightarrow> catalog" where
  "put_stats t p c = (put_entry t ((get_entry t c)\<lparr>ct_stats := fst p\<rparr>) c)\<lparr>cg_seen := bt_insert t (snd p) (cg_seen c)\<rparr>"

definition stats_of :: "string \<Rightarrow> catalog \<Rightarrow> stats_state" where
  "stats_of t c = (ct_stats (get_entry t c), or_default [] t (cg_seen c))"

definition count_values :: "hashing \<Rightarrow> string \<Rightarrow> row \<Rightarrow> (catalog, unit) cmd" where
  "count_values g t r = bindM (getM (stats_of t)) (\<lambda>p. bindM (liftM (count_fields g r p)) (\<lambda>p'. modM (put_stats t p')))"

definition record_insert :: "hashing \<Rightarrow> string \<Rightarrow> row \<Rightarrow> (catalog, bool) cmd" where
  "record_insert g t r = bindM (extend_columns t r) (\<lambda>changed. bindM (getM (get_entry t)) (\<lambda>e.
     if ct_row_count e = - 1 then panicM
     else seqM (modM (put_entry t (e\<lparr>ct_row_count := ct_row_count e + 1\<rparr>)))
       (seqM (count_values g t r) (okM changed))))"

definition uncount_value :: "hashing \<Rightarrow> stats_state \<Rightarrow> string \<times> json \<Rightarrow> stats_state" where
  "uncount_value g p f = (case p of (stats, seen) \<Rightarrow>
     (let s = hist_remove (snd f) (or_default default_stat (fst f) stats); key = fold_hash g (fst f) (value_hash g (snd f)) in
      if st_capped s then (bt_insert (fst f) s stats, seen)
      else (case map_of seen key of
          None \<Rightarrow> (bt_insert (fst f) s stats, seen)
        | Some n \<Rightarrow>
           if sat_sub n 1 = 0
           then (bt_insert (fst f) (s\<lparr>st_distinct := sat_sub (st_distinct s) 1\<rparr>) stats, hm_remove key seen)
           else (bt_insert (fst f) s stats, hm_insert key (sat_sub n 1) seen))))"

definition record_delete :: "hashing \<Rightarrow> string \<Rightarrow> row list \<Rightarrow> catalog \<Rightarrow> catalog" where
  "record_delete g t rows c =
     (let e = get_entry t c; n = sat_sub (ct_row_count e) (word_of_nat (length rows));
          p = foldl (foldl (uncount_value g)) (stats_of t c) rows;
          p' = (if n = 0 then (bt_map (\<lambda>_ _. default_stat) (fst p), []) else p)
      in put_stats t p' (put_entry t (e\<lparr>ct_row_count := n\<rparr>) c))"

text \<open>\<open>rebuild_stats\<close>: the bounds of every numeric column first, then every row as an insertion.\<close>

definition set_bounds :: "(string, cat_stat) btree_map \<Rightarrow> string \<times> json \<Rightarrow> (string, cat_stat) btree_map" where
  "set_bounds stats f = (case as_f64 (snd f) of
       None \<Rightarrow> stats
     | Some x \<Rightarrow> (let s = or_default default_stat (fst f) stats in
         bt_insert (fst f) (s\<lparr>st_lo := Some (case st_lo s of None \<Rightarrow> x | Some lo \<Rightarrow> f64_min lo x),
           st_hi := Some (case st_hi s of None \<Rightarrow> x | Some hi \<Rightarrow> f64_max hi x),
           st_hist := (if st_hist s = [] then replicate HIST_BUCKETS 0 else st_hist s)\<rparr>) stats))"

fun insert_all :: "hashing \<Rightarrow> string \<Rightarrow> row list \<Rightarrow> bool \<Rightarrow> (catalog, bool) cmd" where
  "insert_all g t [] changed = okM changed"
| "insert_all g t (r # rs) changed = bindM (record_insert g t r) (\<lambda>b. insert_all g t rs (b \<or> changed))"

definition rebuild_stats :: "hashing \<Rightarrow> string \<Rightarrow> row list \<Rightarrow> (catalog, bool) cmd" where
  "rebuild_stats g t rows = seqM (modM (\<lambda>c. put_entry t ((get_entry t c)\<lparr>ct_stats := foldl (foldl set_bounds) [] rows,
       ct_row_count := 0\<rparr>) (forget_seen t c))) (insert_all g t rows False)"

end
