(* ===== verification/Log_Config.thy ===== *)
theory Log_Config
  imports Std_Text Btree "HOL-Library.Signed_Division"
begin

text \<open>
  The log of \<open>log.rs\<close> (levels, rendering of a line, the civil date of a time stamp) and the
  configuration of \<open>config.rs\<close> (choice of the file, defaults, validation).  The environment, the
  file system and the TOML library are parameters.
\<close>

section \<open>Levels and lines\<close>

datatype level = LOff | LError | LWarn | LInfo | LDebug

datatype channel = Core | Request

fun level_number :: "level \<Rightarrow> nat" where
  "level_number LOff = 0"
| "level_number LError = 1"
| "level_number LWarn = 2"
| "level_number LInfo = 3"
| "level_number LDebug = 4"

fun channel_tag :: "channel \<Rightarrow> string" where
  "channel_tag Core = ''core''"
| "channel_tag Request = ''request''"

definition parse_level :: "string \<Rightarrow> level option" where
  "parse_level s = (let t = ascii_lowercase (trim s) in
     if t = ''off'' then Some LOff
     else if t = ''error'' then Some LError
     else if t = ''warn'' \<or> t = ''warning'' then Some LWarn
     else if t = ''info'' then Some LInfo
     else if t = ''debug'' then Some LDebug
     else None)"

fun level_name :: "level \<Rightarrow> string" where
  "level_name LOff = ''off''"
| "level_name LError = ''error''"
| "level_name LWarn = ''warn''"
| "level_name LInfo = ''info''"
| "level_name LDebug = ''debug''"

fun level_tag :: "level \<Rightarrow> string" where
  "level_tag LError = ''ERROR''"
| "level_tag LWarn = ''WARN ''"
| "level_tag LInfo = ''INFO ''"
| "level_tag _ = ''DEBUG''"

definition ESC :: string where "ESC = [CHR 0x1B]"
definition RESET_COLOR :: string where "RESET_COLOR = ESC @ ''[0m''"

fun level_color :: "level \<Rightarrow> string" where
  "level_color LError = ESC @ ''[1m'' @ ESC @ ''[31m''"
| "level_color LWarn = ESC @ ''[1m'' @ ESC @ ''[38;5;208m''"
| "level_color LDebug = ESC @ ''[1m''"
| "level_color _ = []"

text \<open>The level that \<open>set_level\<close> stores is an argument of \<open>enabled\<close>.\<close>

definition enabled :: "level \<Rightarrow> level \<Rightarrow> bool" where
  "enabled current l \<longleftrightarrow> level_number l \<le> level_number current"

definition streams_to_stderr :: "level \<Rightarrow> bool" where
  "streams_to_stderr l \<longleftrightarrow> l = LError \<or> l = LWarn"

record stamp =
  sp_year :: u16
  sp_month :: u16
  sp_day :: u16
  sp_hour :: u16
  sp_minute :: u16
  sp_second :: u16
  sp_milli :: u16

definition stamp_text :: "stamp \<Rightarrow> string" where
  "stamp_text s = zero_padded 4 (unat (sp_year s)) @ ''-'' @ zero_padded 2 (unat (sp_month s)) @ ''-'' @
     zero_padded 2 (unat (sp_day s)) @ '' '' @ zero_padded 2 (unat (sp_hour s)) @ '':'' @
     zero_padded 2 (unat (sp_minute s)) @ '':'' @ zero_padded 2 (unat (sp_second s)) @ ''.'' @
     zero_padded 3 (unat (sp_milli s))"

definition render :: "level \<Rightarrow> channel \<Rightarrow> bool \<Rightarrow> stamp \<Rightarrow> string \<Rightarrow> string" where
  "render l ch color s msg =
     (let level_text = (if color \<and> level_color l \<noteq> [] then level_color l @ level_tag l @ RESET_COLOR else level_tag l)
      in ''['' @ level_text @ '' '' @ stamp_text s @ ''] ['' @ channel_tag ch @ ''] '' @ msg)"

text \<open>
  \<open>log_line!\<close> with \<open>write\<close>: nothing, or one line on standard error (\<open>True\<close>) or output.  The
  clock and whether a stream is a terminal are arguments.
\<close>

definition log_line :: "(bool \<Rightarrow> bool) \<Rightarrow> stamp \<Rightarrow> level \<Rightarrow> channel \<Rightarrow> level \<Rightarrow> string \<Rightarrow> (bool \<times> string) option" where
  "log_line terminal now current ch l msg =
     (if enabled current l
      then let to_stderr = streams_to_stderr l in Some (to_stderr, render l ch (terminal to_stderr) now msg)
      else None)"

section \<open>Civil dates\<close>

text \<open>\<open>i64\<close> division truncates; the sum \<open>days + 719468\<close> is the only one that can overflow.\<close>

definition civil_from_days :: "int \<Rightarrow> (int \<times> u16 \<times> u16) outcome" where
  "civil_from_days days =
     (if 2 ^ 63 \<le> days + 719468 then Panic
      else (let z = days + 719468;
                era = (if z \<ge> 0 then z else z - 146096) sdiv 146097;
                doe = z - era * 146097;
                yoe = (doe - doe sdiv 1460 + doe sdiv 36524 - doe sdiv 146096) sdiv 365;
                y = yoe + era * 400;
                doy = doe - (365 * yoe + yoe sdiv 4 - yoe sdiv 100);
                mp = (5 * doy + 2) sdiv 153;
                day = (word_of_int (doy - (153 * mp + 2) sdiv 5 + 1) :: u16);
                month = (word_of_int (if mp < 10 then mp + 3 else mp - 9) :: u16)
            in Ok (y + (if month \<le> 2 then 1 else 0), month, day)))"

text \<open>The time stamp of \<open>secs\<close> seconds and \<open>millis\<close> milliseconds after the epoch.\<close>

definition stamp_of :: "u64 \<Rightarrow> nat \<Rightarrow> stamp outcome" where
  "stamp_of secs millis = (case civil_from_days (int (unat secs div 86400)) of
       Ok (year, month, day) \<Rightarrow> Ok \<lparr>sp_year = word_of_int year, sp_month = month, sp_day = day,
         sp_hour = word_of_nat (unat secs mod 86400 div 3600), sp_minute = word_of_nat (unat secs mod 3600 div 60),
         sp_second = word_of_nat (unat secs mod 60), sp_milli = word_of_nat millis\<rparr>
     | Err e \<Rightarrow> Err e
     | Panic \<Rightarrow> Panic)"

section \<open>Configuration\<close>

definition CONFIG_FILE_NAME :: string where "CONFIG_FILE_NAME = ''settings.toml''"
definition APP_DIR_NAME :: string where "APP_DIR_NAME = ''ChuSQL''"
definition UNIX_APP_DIR_NAME :: string where "UNIX_APP_DIR_NAME = ''chusql''"
definition DATA_DIR_NAME :: string where "DATA_DIR_NAME = ''data''"
definition DEFAULT_POOL :: nat where "DEFAULT_POOL = 1024"
definition DEFAULT_PAGE_SIZE :: nat where "DEFAULT_PAGE_SIZE = 4096"
definition DEFAULT_BTREE_ORDER :: nat where "DEFAULT_BTREE_ORDER = 4"
definition DEFAULT_LOG_LEVEL :: string where "DEFAULT_LOG_LEVEL = ''info''"
definition DEFAULT_LOG_FILES :: string where "DEFAULT_LOG_FILES = ''./logs''"
definition MIN_PAGE_SIZE :: nat where "MIN_PAGE_SIZE = 512"
definition MAX_PAGE_SIZE :: nat where "MAX_PAGE_SIZE = 65536"
definition MIN_BTREE_ORDER :: nat where "MIN_BTREE_ORDER = 3"

text \<open>A variable of the environment that is set to something.\<close>

type_synonym environment = "string \<Rightarrow> string option"

definition env_set :: "environment \<Rightarrow> string \<Rightarrow> string option" where
  "env_set env name = (case env name of Some v \<Rightarrow> if v = [] then None else Some v | None \<Rightarrow> None)"

definition default_config_path :: "environment \<Rightarrow> string" where
  "default_config_path env = (case env_set env ''XDG_CONFIG_HOME'' of
       Some xdg \<Rightarrow> join_path (join_path xdg APP_DIR_NAME) CONFIG_FILE_NAME
     | None \<Rightarrow> (case env_set env ''HOME'' of
          Some home \<Rightarrow> join_path (join_path (join_path home ''.config'') APP_DIR_NAME) CONFIG_FILE_NAME
        | None \<Rightarrow> join_path APP_DIR_NAME CONFIG_FILE_NAME))"

definition default_data_dir :: "environment \<Rightarrow> string" where
  "default_data_dir env = (case env_set env ''XDG_DATA_HOME'' of
       Some xdg \<Rightarrow> join_path (join_path xdg UNIX_APP_DIR_NAME) DATA_DIR_NAME
     | None \<Rightarrow> (case env_set env ''HOME'' of
          Some home \<Rightarrow> join_path (join_path (join_path (join_path home ''.local'') ''share'') UNIX_APP_DIR_NAME) DATA_DIR_NAME
        | None \<Rightarrow> join_path UNIX_APP_DIR_NAME DATA_DIR_NAME))"

record config =
  cf_page_size :: nat
  cf_btree_order :: nat
  cf_pool_size :: nat
  cf_data_dir :: string
  cf_log_files :: string
  cf_log_level :: level

definition default_config :: "environment \<Rightarrow> config" where
  "default_config env = \<lparr>cf_page_size = DEFAULT_PAGE_SIZE, cf_btree_order = DEFAULT_BTREE_ORDER, cf_pool_size = DEFAULT_POOL,
     cf_data_dir = default_data_dir env, cf_log_files = DEFAULT_LOG_FILES, cf_log_level = LInfo\<rparr>"

datatype origin = FromDefault | FromFile string

fun describe_origin :: "origin \<Rightarrow> string" where
  "describe_origin FromDefault = ''default''"
| "describe_origin (FromFile p) = ''file '' @ p"

record loaded =
  ld_config :: config
  ld_config_path :: "string option"
  ld_origins :: "(string \<times> string \<times> origin) list"

text \<open>The sections of the file, each optional, each with optional settings.\<close>

record file_config =
  fc_page :: "nat option option"
  fc_btree :: "nat option option"
  fc_buffer :: "nat option option"
  fc_storage :: "(string option \<times> string option) option"
  fc_log :: "string option option"

definition empty_file :: file_config where
  "empty_file = \<lparr>fc_page = None, fc_btree = None, fc_buffer = None, fc_storage = None, fc_log = None\<rparr>"

definition pick :: "'a option \<Rightarrow> 'a \<Rightarrow> origin \<Rightarrow> 'a \<times> origin" where
  "pick file_value fallback file_origin = (case file_value of Some v \<Rightarrow> (v, file_origin) | None \<Rightarrow> (fallback, FromDefault))"

definition is_power_of_two :: "nat \<Rightarrow> bool" where
  "is_power_of_two n \<longleftrightarrow> list_ex (\<lambda>k. n = 2 ^ k) [0..<64]"

definition validate_layout :: "nat \<Rightarrow> nat \<Rightarrow> string + unit" where
  "validate_layout page_size btree_order =
     (if \<not> (MIN_PAGE_SIZE \<le> page_size \<and> page_size \<le> MAX_PAGE_SIZE) \<or> \<not> is_power_of_two page_size
      then Inl (''page.size must be a power of two between '' @ dec_digits MIN_PAGE_SIZE @ '' and '' @
        dec_digits MAX_PAGE_SIZE @ '', got '' @ dec_digits page_size)
      else if btree_order < MIN_BTREE_ORDER
      then Inl (''btree.order must be at least '' @ dec_digits MIN_BTREE_ORDER @ '', got '' @ dec_digits btree_order)
      else if \<not> fits_in_page page_size btree_order
      then Inl (''btree.order '' @ dec_digits btree_order @ '' does not fit in a '' @ dec_digits page_size @
        ''-byte page (max '' @ dec_digits (max_order page_size) @ '')'')
      else Inr ())"

definition resolve :: "(string \<Rightarrow> string + file_config) \<Rightarrow> environment \<Rightarrow> string option \<Rightarrow> string option \<Rightarrow> string + loaded" where
  "resolve toml env text path =
     (case (case text of None \<Rightarrow> Inr empty_file | Some t \<Rightarrow> toml t) of
        Inl e \<Rightarrow> Inl (case path of Some p \<Rightarrow> ''bad config file '' @ p @ '': '' @ e | None \<Rightarrow> ''bad config: '' @ e)
      | Inr file \<Rightarrow>
         (let file_origin = FromFile (case path of Some p \<Rightarrow> p | None \<Rightarrow> default_config_path env);
              (page_size, page_origin) = pick (Option.bind (fc_page file) id) DEFAULT_PAGE_SIZE file_origin;
              (btree_order, order_origin) = pick (Option.bind (fc_btree file) id) DEFAULT_BTREE_ORDER file_origin;
              (pool_size, pool_origin) = pick (Option.bind (fc_buffer file) id) DEFAULT_POOL file_origin;
              storage = (case fc_storage file of Some s \<Rightarrow> s | None \<Rightarrow> (None, None));
              (data_dir, dir_origin) = pick (fst storage) (default_data_dir env) file_origin;
              (log_files, log_files_origin) = pick (snd storage) DEFAULT_LOG_FILES file_origin;
              (log_level, log_origin) = pick (Option.bind (fc_log file) id) DEFAULT_LOG_LEVEL file_origin
          in (case parse_level (trim log_level) of
               None \<Rightarrow> Inl (''log.level is not one of off/error/warn/info/debug: '' @ trim log_level)
             | Some lev \<Rightarrow>
                if trim data_dir = [] then Inl ''storage.data_dir must not be empty''
                else if trim log_files = [] then Inl ''storage.log_files must not be empty''
                else (case validate_layout page_size btree_order of
                   Inl e \<Rightarrow> Inl e
                 | Inr _ \<Rightarrow>
                    if pool_size = 0 then Inl ''buffer.pool_size must be at least 1''
                    else Inr \<lparr>ld_config = \<lparr>cf_page_size = page_size, cf_btree_order = btree_order, cf_pool_size = pool_size,
                          cf_data_dir = trim data_dir, cf_log_files = trim log_files, cf_log_level = lev\<rparr>,
                        ld_config_path = (if text \<noteq> None then path else None),
                        ld_origins = [(''page.size'', dec_digits page_size, page_origin),
                          (''btree.order'', dec_digits btree_order, order_origin),
                          (''buffer.pool_size'', dec_digits pool_size, pool_origin),
                          (''storage.data_dir'', trim data_dir, dir_origin),
                          (''storage.log_files'', trim log_files, log_files_origin),
                          (''log.level'', level_name lev, log_origin)]\<rparr>))))"

text \<open>
  \<open>load\<close>: the file that was named explicitly must exist, the default one need not.  The file
  system says of a path whether it is a file and what reading it gives.
\<close>

definition load_config :: "(string \<Rightarrow> string + file_config) \<Rightarrow> environment \<Rightarrow> (string \<Rightarrow> (string + string) option) \<Rightarrow>
    string option \<Rightarrow> string + loaded" where
  "load_config toml env files explicit =
     (let named = (case explicit of None \<Rightarrow> None | Some p \<Rightarrow> if trim p = [] then None else Some (trim p));
          path = (case named of
             Some p \<Rightarrow> if files p = None then Inl (''config file not found: '' @ p) else Inr (Some p)
           | None \<Rightarrow> Inr (if files (default_config_path env) = None then None else Some (default_config_path env)))
      in case path of
           Inl e \<Rightarrow> Inl e
         | Inr None \<Rightarrow> resolve toml env None None
         | Inr (Some p) \<Rightarrow> (case files p of
              Some (Inr text) \<Rightarrow> resolve toml env (Some text) (Some p)
            | Some (Inl e) \<Rightarrow> Inl (''cannot read config file '' @ p @ '': '' @ e)
            | None \<Rightarrow> Inl (''cannot read config file '' @ p)))"

section \<open>The Gregorian calendar\<close>

text \<open>The reference: the rules of the calendar, one day at a time.\<close>

definition leap_year :: "int \<Rightarrow> bool" where
  "leap_year y \<longleftrightarrow> 4 dvd y \<and> (\<not> 100 dvd y \<or> 400 dvd y)"

definition month_days :: "int \<Rightarrow> nat \<Rightarrow> nat" where
  "month_days y m = (if m = 2 then (if leap_year y then 29 else 28) else if m = 4 \<or> m = 6 \<or> m = 9 \<or> m = 11 then 30 else 31)"

definition next_day :: "int \<times> nat \<times> nat \<Rightarrow> int \<times> nat \<times> nat" where
  "next_day date = (case date of (y, m, d) \<Rightarrow>
     if d < month_days y m then (y, m, d + 1) else if m < 12 then (y, m + 1, 1) else (y + 1, 1, 1))"

text \<open>A year that begins in March: its first day within the 400 years, its months and days.\<close>

definition year_start :: "int \<Rightarrow> int" where
  "year_start y = 365 * y + y div 4 - y div 100 + y div 400"

definition year_at :: "int \<Rightarrow> int" where
  "year_at doe = (doe - doe div 1460 + doe div 36524 - doe div 146096) div 365"

definition month_at :: "int \<Rightarrow> nat \<times> nat" where
  "month_at doy = (let mp = (5 * doy + 2) div 153 in
     (nat (if mp < 10 then mp + 3 else mp - 9), nat (doy - (153 * mp + 2) div 5 + 1)))"

lemma year_parts:
  assumes "0 \<le> (y::int)" "y < 400"
  obtains c b s where "0 \<le> c" "c < 4" "0 \<le> b" "b < 25" "0 \<le> s" "s < 4" "y = 100 * c + (4 * b + s)"
proof
  show "y = 100 * (y div 100) + (4 * (y mod 100 div 4) + y mod 100 mod 4)" by simp
  show "0 \<le> y div 100" "y div 100 < 4" "0 \<le> y mod 100 div 4" "y mod 100 div 4 < 25" "0 \<le> y mod 100 mod 4" "y mod 100 mod 4 < 4"
    using assms by linarith+
qed

lemma year_first:
  assumes "0 \<le> c" "c < 4" "0 \<le> b" "b < (25::int)" "0 \<le> s" "s < 4"
  shows "year_start (100 * c + (4 * b + s)) = 36524 * c + 1461 * b + 365 * s"
proof -
  have 1: "(100 * c + (4 * b + s)) div 4 = 25 * c + b" "(100 * c + (4 * b + s)) div 100 = c" "(100 * c + (4 * b + s)) div 400 = 0"
    using assms by linarith+
  show ?thesis unfolding year_start_def 1 by simp
qed
lemma year_last:
  assumes "0 \<le> c" "c < 4" "0 \<le> b" "b < (25::int)" "0 \<le> s" "s < 4"
  shows "year_start (100 * c + (4 * b + s) + 1) = 36524 * c + 1461 * b + 365 * s + 365 + (if s = 3 \<and> (b < 24 \<or> c = 3) then 1 else 0)"
proof -
  have 1: "(100 * c + (4 * b + s) + 1) div 4 = 25 * c + b + (if s = 3 then 1 else 0)"
    "(100 * c + (4 * b + s) + 1) div 100 = c + (if s = 3 \<and> b = 24 then 1 else 0)"
    "(100 * c + (4 * b + s) + 1) div 400 = (if s = 3 \<and> b = 24 \<and> c = 3 then 1 else 0)"
    using assms by (auto simp: not_less; linarith)+
  show ?thesis unfolding year_start_def 1 using assms by (simp split: if_splits)
qed

lemma year_ends:
  assumes "0 \<le> y" "y < 400"
  shows "year_at (year_start y) = y" and "year_at (year_start (y + 1) - 1) = y"
proof -
  obtain c b s where p: "0 \<le> c" "c < 4" "0 \<le> b" "b < 25" "0 \<le> s" "s < 4" and y: "y = 100 * c + (4 * b + s)"
    using year_parts [OF assms] .
  have 2: "(36524 * c + 1461 * b + 365 * s) div 36524 = c" "(36524 * c + 1461 * b + 365 * s) div 146096 = 0"
    "(36524 * c + 1461 * b + 365 * s) div 1460 = 25 * c + b" using p by linarith+
  show "year_at (year_start y) = y" unfolding y year_first [OF p] year_at_def 2 by simp
  define L :: int where "L = (if s = 3 \<and> (b < 24 \<or> c = 3) then 1 else 0)"
  define e where "e = 36524 * c + 1461 * b + 365 * s + 364 + L"
  have e: "year_start (y + 1) - 1 = e" unfolding y year_last [OF p] e_def L_def by simp
  show "year_at (year_start (y + 1) - 1) = y"
  proof (cases "s = 3 \<and> b = 24 \<and> c = 3")
    case True
    then have "e = 146096" "y = 399" by (simp_all add: e_def L_def y)
    then show ?thesis unfolding e by (simp add: year_at_def)
  next
    case False
    have L: "L = (if s = 3 \<and> b < 24 then 1 else 0)" "0 \<le> L" "L \<le> 1" using False p by (auto simp: L_def)
    have "e < 36524 * c + 36524" using p L by (auto simp: e_def split: if_splits)
    then have 3: "e div 36524 = c" "e div 146096 = 0" using p L by (auto simp: e_def; linarith)+
    have d: "e div 1460 = 25 * c + b + (if s = 3 then 1 else 0)" using p L by (auto simp: e_def split: if_splits; linarith)
    have "year_at e = 100 * c + (4 * b + s)"
      unfolding year_at_def 3 d using p L by (auto simp: e_def split: if_splits; linarith)
    then show ?thesis using e y by simp
  qed
qed

text \<open>The day before the month of a March year, and the length of a month other than February.\<close>

definition plain_days :: "nat \<Rightarrow> nat" where
  "plain_days m = (if m = 4 \<or> m = 6 \<or> m = 9 \<or> m = 11 then 30 else 31)"

definition month_first :: "nat \<Rightarrow> int" where
  "month_first mp = (153 * int mp + 2) div 5"

definition month_number :: "nat \<Rightarrow> nat" where
  "month_number mp = (if mp < 10 then mp + 3 else mp - 9)"

lemma month_lengths: "list_all (\<lambda>mp. month_first (Suc mp) = month_first mp + int (plain_days (month_number mp))) [0..<11]"
  by code_simp

lemma month_at_first:
  assumes "month_first mp \<le> doy" "doy < month_first (Suc mp)"
  shows "month_at doy = (month_number mp, nat (doy - month_first mp) + 1)"
proof -
  have "5 * doy + 2 < 153 * (int mp + 1)" "153 * int mp \<le> 5 * doy + 2"
    using assms unfolding month_first_def by (auto; linarith)+
  then have "(5 * doy + 2) div 153 = int mp" by (intro int_div_pos_eq [of _ _ _ "5 * doy + 2 - 153 * int mp"]) simp_all
  then show ?thesis using assms by (auto simp: month_at_def month_first_def month_number_def Let_def nat_add_distrib nat_diff_distrib)
qed

lemma month_of_day:
  assumes "0 \<le> doy" "doy < month_first n"
  shows "\<exists>mp < n. month_first mp \<le> doy \<and> doy < month_first (Suc mp)"
  using assms
proof (induction n)
  case 0
  then show ?case by (simp add: month_first_def)
next
  case (Suc n)
  then show ?case by (cases "doy < month_first n") (auto simp: not_less intro: less_SucI)
qed

lemma plain_month:
  assumes "0 \<le> doy" and "doy \<le> 336" and md: "month_at doy = (m, d)"
  shows "month_at (doy + 1) = (if d = plain_days m then (if m = 12 then 1 else m + 1, 1) else (m, d + 1))"
    and "1 \<le> m \<and> m \<le> 12 \<and> m \<noteq> 2 \<and> 1 \<le> d \<and> d \<le> plain_days m"
proof -
  have top: "month_first 11 = 337" by code_simp
  obtain mp where mp: "mp < 11" "month_first mp \<le> doy" "doy < month_first (Suc mp)"
    using month_of_day [of doy 11] assms(1,2) top by auto
  have m: "m = month_number mp" and d: "d = nat (doy - month_first mp) + 1" using month_at_first [OF mp(2,3)] md by simp_all
  have len: "month_first (Suc mp) = month_first mp + int (plain_days m)"
    using month_lengths mp(1) m by (simp add: list_all_iff)
  have inc: "month_first k < month_first (Suc k)" for k unfolding month_first_def by (simp add: algebra_simps)
  show "1 \<le> m \<and> m \<le> 12 \<and> m \<noteq> 2 \<and> 1 \<le> d \<and> d \<le> plain_days m"
    using mp len d m by (auto simp: month_number_def)
  show "month_at (doy + 1) = (if d = plain_days m then (if m = 12 then 1 else m + 1, 1) else (m, d + 1))"
  proof (cases "doy + 1 < month_first (Suc mp)")
    case True
    then show ?thesis using month_at_first [of mp "doy + 1"] mp(2) m d len by auto
  next
    case False
    then have "doy + 1 = month_first (Suc mp)" using mp(3) by simp
    then show ?thesis using month_at_first [of "Suc mp" "doy + 1"] inc [of "Suc mp"] m d len mp(1,2)
      by (cases "mp = 10") (auto simp: month_number_def)
  qed
qed

lemma february_day:
  assumes "337 \<le> doy" and "doy \<le> 365"
  shows "month_at doy = (2, nat doy - 336)"
proof -
  have "month_first 11 = 337" "month_first (Suc 11) = 367" "month_number 11 = 2" by code_simp+
  then show ?thesis using month_at_first [of 11 doy] assms by auto
qed

lemma div_succ: "0 < k \<Longrightarrow> ((y::int) + 1) div k = y div k + (if k dvd y + 1 then 1 else 0)"
proof -
  assume k: "0 < k"
  define q r where "q = y div k" and "r = y mod k"
  have y: "y = k * q + r" "0 \<le> r" "r < k" using k by (simp_all add: q_def r_def)
  show ?thesis
  proof (cases "r + 1 = k")
    case True
    then have "y + 1 = k * (q + 1)" using y(1) by (simp add: algebra_simps)
    then show ?thesis using k by (simp add: q_def)
  next
    case False
    then have "(y + 1) div k = q" "(y + 1) mod k = r + 1"
      using y int_div_pos_eq [of "y + 1" k q "r + 1"] int_mod_pos_eq [of "y + 1" k q "r + 1"] by simp_all
    then show ?thesis using y(2) by (simp add: q_def dvd_eq_mod_eq_0)
  qed
qed

lemma year_length: "year_start (y + 1) = year_start y + 365 + (if leap_year (y + 1) then 1 else 0)"
proof -
  have 1: "4 dvd y + 1" if "100 dvd y + 1" using dvd_trans [of 4 100 "y + 1"] that by simp
  have 2: "100 dvd y + 1" if "400 dvd y + 1" using dvd_trans [of 100 400 "y + 1"] that by simp
  have d: "(y + 1) div 4 = y div 4 + (if 4 dvd y + 1 then 1 else 0)"
    "(y + 1) div 100 = y div 100 + (if 100 dvd y + 1 then 1 else 0)"
    "(y + 1) div 400 = y div 400 + (if 400 dvd y + 1 then 1 else 0)" by (rule div_succ, simp)+
  show ?thesis
    unfolding year_start_def leap_year_def d using 1 2
    by (cases "4 dvd y + 1"; cases "100 dvd y + 1"; cases "400 dvd y + 1") simp_all
qed

lemma year_start_mono: "y \<le> y' \<Longrightarrow> year_start y \<le> year_start y'"
  by (induction y' rule: int_ge_induct) (simp_all add: year_length)

lemma year_at_mono:
  assumes "0 \<le> a" and "a \<le> b" and "b < 146097"
  shows "year_at a \<le> year_at b"
proof -
  have next_le: "c - c div 1460 + c div 36524 - c div 146096 \<le> (c + 1) - (c + 1) div 1460 + (c + 1) div 36524 - (c + 1) div 146096"
    if "0 \<le> c" "c < 146096" for c :: int
  proof -
    have "c + 1 = 146096" if "146096 dvd c + 1" using zdvd_imp_le [OF that] \<open>0 \<le> c\<close> \<open>c < 146096\<close> by linarith
    moreover have "\<not> 1460 dvd (146096 :: int)" by simp
    ultimately have "\<not> (1460 dvd c + 1 \<and> 146096 dvd c + 1)" by metis
    moreover have d: "(c + 1) div 1460 = c div 1460 + (if 1460 dvd c + 1 then 1 else 0)"
      "(c + 1) div 36524 = c div 36524 + (if 36524 dvd c + 1 then 1 else 0)"
      "(c + 1) div 146096 = c div 146096 + (if 146096 dvd c + 1 then 1 else 0)" by (rule div_succ, simp)+
    ultimately show ?thesis unfolding d
      by (cases "1460 dvd c + 1"; cases "36524 dvd c + 1"; cases "146096 dvd c + 1") simp_all
  qed
  have "a - a div 1460 + a div 36524 - a div 146096 \<le> b - b div 1460 + b div 36524 - b div 146096"
    using assms(2,3)
  proof (induction b rule: int_ge_induct)
    case (step c)
    have "0 \<le> c" "c < 146096" using step \<open>0 \<le> a\<close> by simp_all
    moreover have "c < 146097" using step.prems by simp
    ultimately show ?case using order.trans [OF step.IH next_le] by blast
  qed simp
  then show ?thesis unfolding year_at_def by (rule zdiv_mono1) simp
qed

lemma year_at_eq:
  assumes "0 \<le> y" and "y < 400" and "year_start y \<le> doe" and "doe < year_start (y + 1)"
  shows "year_at doe = y" and "doe < 146097"
proof -
  have ends: "year_at (year_start y) = y" "year_at (year_start (y + 1) - 1) = y"
    using year_ends [OF assms(1,2)] by simp_all
  have top: "year_start (y + 1) \<le> 146097" using year_start_mono [of "y + 1" 400] assms(2) by (simp add: year_start_def)
  then show "doe < 146097" using assms(4) by simp
  have "0 \<le> year_start y" using year_start_mono [of 0 y] assms(1) by (simp add: year_start_def)
  then show "year_at doe = y"
    using year_at_mono [of "year_start y" doe] year_at_mono [of doe "year_start (y + 1) - 1"] assms ends top by simp
qed

lemma year_of_day:
  assumes "0 \<le> doe" and "doe < 146097"
  shows "0 \<le> year_at doe \<and> year_at doe < 400 \<and> year_start (year_at doe) \<le> doe \<and> doe < year_start (year_at doe + 1)"
proof -
  have "\<exists>y. 0 \<le> y \<and> y < int n \<and> year_start y \<le> doe \<and> doe < year_start (y + 1)"
    if "doe < year_start (int n)" for n
    using that
  proof (induction n)
    case 0
    then show ?case using assms(1) by (simp add: year_start_def)
  next
    case (Suc n)
    show ?case
    proof (cases "doe < year_start (int n)")
      case True
      then show ?thesis using Suc.IH by force
    next
      case False
      then show ?thesis using Suc.prems by (intro exI [of _ "int n"]) (simp add: add.commute)
    qed
  qed
  moreover have "doe < year_start (int 400)" using assms(2) by (simp add: year_start_def)
  ultimately have "\<exists>y. 0 \<le> y \<and> y < int 400 \<and> year_start y \<le> doe \<and> doe < year_start (y + 1)" by blast
  then obtain y where y: "0 \<le> y" "y < 400" "year_start y \<le> doe" "doe < year_start (y + 1)" by auto
  then show ?thesis using year_at_eq [OF y] by simp
qed

text \<open>The date of the day \<open>z\<close> counted from 1 March of the year 0.\<close>

definition date_at :: "int \<Rightarrow> int \<times> nat \<times> nat" where
  "date_at z = (let doe = z mod 146097; yoe = year_at doe; (m, d) = month_at (doe - year_start yoe)
     in (400 * (z div 146097) + yoe + (if m \<le> 2 then 1 else 0), m, d))"

lemma sdiv_nonneg: "0 \<le> (a::int) \<Longrightarrow> 0 < b \<Longrightarrow> a sdiv b = a div b"
  by (simp add: signed_divide_int_def sgn_if)

lemma era_floor: "(if z \<ge> 0 then z else z - 146096) sdiv 146097 = (z::int) div 146097"
proof (cases "z \<ge> 0")
  case False
  define q r where "q = z div 146097" and "r = z mod 146097"
  have z: "z = 146097 * q + r" "0 \<le> r" "r < 146097" by (simp_all add: q_def r_def)
  then have "(146096 - z) div 146097 = - q" by (intro int_div_pos_eq [of _ _ _ "146096 - r"]) simp_all
  then show ?thesis using False by (simp add: signed_divide_int_def sgn_if q_def)
qed (simp add: sdiv_nonneg)

lemma doy_bounds:
  assumes "0 \<le> doe" and "doe < 146097"
  shows "0 \<le> doe - year_start (year_at doe)" and "doe - year_start (year_at doe) \<le> 364 + (if leap_year (year_at doe + 1) then 1 else 0)"
  using year_of_day [OF assms] year_length [of "year_at doe"] by (auto split: if_splits)

lemma month_days_plain: "m \<noteq> 2 \<Longrightarrow> month_days y m = plain_days m"
  by (simp add: month_days_def plain_days_def)

lemma month_bounds:
  assumes "0 \<le> doy" and "doy \<le> 365" and "month_at doy = (m, d)"
  shows "1 \<le> m \<and> m \<le> 12 \<and> 1 \<le> d \<and> d \<le> 31"
proof (cases "doy \<le> 336")
  case True
  then show ?thesis using plain_month(2) [OF assms(1) _ assms(3)] by (auto simp: plain_days_def split: if_splits)
next
  case False
  then show ?thesis using february_day [of doy] assms by auto
qed

lemma civil_date:
  assumes "days + 719468 < 2 ^ 63"
  shows "\<exists>y m d. civil_from_days days = Ok (y, m, d) \<and> (y, unat m, unat d) = date_at (days + 719468)"
proof -
  define z where "z = days + 719468"
  define doe where "doe = z mod 146097"
  define y where "y = year_at doe"
  define doy where "doy = doe - year_start y"
  obtain m d where md: "month_at doy = (m, d)" by (cases "month_at doy")
  have doe: "0 \<le> doe" "doe < 146097" by (simp_all add: doe_def)
  have yb: "0 \<le> y" "y < 400" using year_of_day [OF doe] by (simp_all add: y_def)
  have b: "0 \<le> doy" "doy \<le> 365" using doy_bounds [OF doe, folded y_def, folded doy_def] by (auto split: if_splits)
  have year: "(doe - doe sdiv 1460 + doe sdiv 36524 - doe sdiv 146096) sdiv 365 = y"
  proof -
    have "0 \<le> doe - doe div 1460 + doe div 36524 - doe div 146096" using doe(1) by linarith
    then show ?thesis using doe(1) by (simp add: sdiv_nonneg y_def year_at_def)
  qed
  have day: "doe - (365 * y + y sdiv 4 - y sdiv 100) = doy" using yb by (simp add: sdiv_nonneg doy_def year_start_def)
  have mp: "(5 * doy + 2) sdiv 153 = (5 * doy + 2) div 153" using b(1) by (simp add: sdiv_nonneg)
  let ?mp = "(5 * doy + 2) div 153"
  have m: "m = nat (if ?mp < 10 then ?mp + 3 else ?mp - 9)" and d: "d = nat (doy - (153 * ?mp + 2) div 5 + 1)"
    using md by (simp_all add: month_at_def Let_def)
  have mp0: "0 \<le> ?mp" using b(1) by simp
  have "(153 * ?mp + 2) sdiv 5 = (153 * ?mp + 2) div 5" using mp0 by (simp add: sdiv_nonneg)
  moreover have lim: "1 \<le> m" "m \<le> 12" "1 \<le> d" "d \<le> 31" using month_bounds [OF b md] by simp_all
  have pos: "1 \<le> nat a \<Longrightarrow> int (nat a) = a" for a by simp
  have "int m = (if ?mp < 10 then ?mp + 3 else ?mp - 9)" using lim(1) pos unfolding m by blast
  moreover have "int d = doy - (153 * ?mp + 2) div 5 + 1" using lim(3) pos unfolding d by blast
  moreover have "unat (word_of_int (int m) :: u16) = m" "unat (word_of_int (int d) :: u16) = d"
    using lim by (simp_all add: unat_of_nat)
  moreover have "(word_of_int (int m) :: u16) \<le> 2 \<longleftrightarrow> m \<le> 2" using lim(2) by (simp add: word_le_nat_alt unat_of_nat)
  moreover have "civil_from_days days = Ok (y + z div 146097 * 400 +
      (if (word_of_int (if ?mp < 10 then ?mp + 3 else ?mp - 9) :: u16) \<le> 2 then 1 else 0),
      word_of_int (if ?mp < 10 then ?mp + 3 else ?mp - 9), word_of_int (doy - (153 * ?mp + 2) sdiv 5 + 1))"
    using assms unfolding civil_from_days_def Let_def z_def [symmetric] era_floor minus_div_mult_eq_mod doe_def [symmetric]
      year day mp by simp
  moreover have "date_at z = (400 * (z div 146097) + y + (if m \<le> 2 then 1 else 0), m, d)"
    by (simp add: date_at_def Let_def doe_def [symmetric] y_def [symmetric] doy_def [symmetric] md)
  ultimately have "civil_from_days days = Ok (400 * (z div 146097) + y + (if m \<le> 2 then 1 else 0), word_of_int (int m), word_of_int (int d))"
    and "date_at z = (400 * (z div 146097) + y + (if m \<le> 2 then 1 else 0), m, d)"
    and "unat (word_of_int (int m) :: u16) = m" "unat (word_of_int (int d) :: u16) = d" by (simp_all only: ac_simps)
  then show ?thesis unfolding z_def [symmetric] by (intro exI conjI) simp_all
qed

lemma next_div_mod:
  "z mod 146097 + 1 < 146097 \<Longrightarrow> (z + 1) mod 146097 = z mod 146097 + 1 \<and> (z + 1) div 146097 = (z::int) div 146097"
  "z mod 146097 + 1 = 146097 \<Longrightarrow> (z + 1) mod 146097 = 0 \<and> (z + 1) div 146097 = (z::int) div 146097 + 1"
proof -
  have z: "z + 1 = 146097 * (z div 146097) + (z mod 146097 + 1)" "0 \<le> z mod 146097" by simp_all
  show "z mod 146097 + 1 < 146097 \<Longrightarrow> (z + 1) mod 146097 = z mod 146097 + 1 \<and> (z + 1) div 146097 = z div 146097"
    using int_div_pos_eq [OF z(1)] int_mod_pos_eq [OF z(1)] z(2) by linarith
  show "z mod 146097 + 1 = 146097 \<Longrightarrow> (z + 1) mod 146097 = 0 \<and> (z + 1) div 146097 = z div 146097 + 1"
  proof -
    assume l: "z mod 146097 + 1 = 146097"
    have "z + 1 = 146097 * (z div 146097 + 1) + 0" using z(1) unfolding l by (simp only: distrib_left mult_1_right add_0_right)
    from int_div_pos_eq [OF this] int_mod_pos_eq [OF this] show ?thesis by simp
  qed
qed

lemma date_at_step: "date_at (z + 1) = next_day (date_at z)"
proof -
  define doe where "doe = z mod 146097"
  define y where "y = year_at doe"
  define doy where "doy = doe - year_start y"
  define e where "e = 400 * (z div 146097)"
  obtain m d where md: "month_at doy = (m, d)" by (cases "month_at doy")
  have doe: "0 \<le> doe" "doe < 146097" by (simp_all add: doe_def)
  have yb: "0 \<le> y" "y < 400" "year_start y \<le> doe" "doe < year_start (y + 1)" using year_of_day [OF doe] by (simp_all add: y_def)
  have "k dvd e + (y + 1) \<longleftrightarrow> k dvd y + 1" if "k dvd 400" for k
    using that by (simp add: e_def dvd_add_right_iff)
  then have leap: "leap_year (e + y + 1) = leap_year (y + 1)" by (simp add: leap_year_def add.assoc)
  note b = doy_bounds [OF doe, folded y_def, folded doy_def]
  have now: "date_at z = (e + y + (if m \<le> 2 then 1 else 0), m, d)"
    by (simp add: date_at_def Let_def doe_def [symmetric] y_def [symmetric] doy_def [symmetric] md e_def)
  show ?thesis
  proof (cases "doe + 1 < year_start (y + 1)")
    case True
    have y': "year_at (doe + 1) = y" "doe + 1 < 146097" using year_at_eq [of y "doe + 1"] yb True by simp_all
    have doy': "doe + 1 - year_start y = doy + 1" by (simp add: doy_def)
    have later: "date_at (z + 1) = (let (m', d') = month_at (doy + 1) in (e + y + (if m' \<le> 2 then 1 else 0), m', d'))"
      using next_div_mod(1) [of z] y' by (simp add: date_at_def Let_def doe_def [symmetric] e_def doy' del: diff_add_eq)
    show ?thesis
    proof (cases "doy \<le> 336")
      case True
      then show ?thesis using plain_month [OF b(1) True md] now later
        by (auto simp: next_day_def month_days_plain)
    next
      case False
      have "doy + 1 \<le> 364 + (if leap_year (y + 1) then 1 else 0)"
        using \<open>doe + 1 < year_start (y + 1)\<close> year_length [of y] by (simp add: doy_def)
      then show ?thesis using february_day [of doy] february_day [of "doy + 1"] False md now later leap
        by (auto simp: next_day_def month_days_def split: if_splits)
    qed
  next
    case False
    then have last: "doe + 1 = year_start (y + 1)" using yb(4) by simp
    then have doy: "doy = 364 + (if leap_year (y + 1) then 1 else 0)" using year_length [of y] by (simp add: doy_def)
    have "next_day (date_at z) = (e + y + 1, 3, 1)"
      using february_day [of doy] md now doy leap by (auto simp: next_day_def month_days_def split: if_splits)
    moreover have first: "month_at 0 = (3, 1)" "year_at 0 = 0" "year_start 0 = 0" by code_simp+
    have "date_at (z + 1) = (e + y + 1, 3, 1)"
    proof (cases "y = 399")
      case True
      then have "doe + 1 = 146097" using last by (simp add: year_start_def)
      then have "(z + 1) mod 146097 = 0" "(z + 1) div 146097 = z div 146097 + 1" using next_div_mod(2) [of z] by (simp_all add: doe_def)
      then show ?thesis using True first by (simp add: date_at_def e_def)
    next
      case False
      then have "year_at (doe + 1) = y + 1" "doe + 1 < 146097"
        using year_at_eq [of "y + 1" "doe + 1"] yb(1,2) last year_length [of "y + 1"] by simp_all
      moreover from this(2) have "(z + 1) mod 146097 = doe + 1" "(z + 1) div 146097 = z div 146097"
        using next_div_mod(1) [of z] by (simp_all add: doe_def)
      ultimately show ?thesis using last first by (simp add: date_at_def e_def)
    qed
    ultimately show ?thesis by simp
  qed
qed

text \<open>
  Property (C28).  The date computed from a number of days is the date of the Gregorian calendar:
  day 0 is 1 January 1970, and the date of every following day is the calendar's next day.
\<close>

theorem civil_from_days_calendar:
  assumes "days + 719469 < 2 ^ 63"
  shows "civil_from_days 0 = Ok (1970, 1, 1) \<and>
    (\<exists>y m d y' m' d'. civil_from_days days = Ok (y, m, d) \<and> civil_from_days (days + 1) = Ok (y', m', d') \<and>
       (y', unat m', unat d') = next_day (y, unat m, unat d))"
proof
  show "civil_from_days 0 = Ok (1970, 1, 1)" by code_simp
  have "days + 1 + 719468 = days + 719468 + 1" by simp
  then have "date_at (days + 1 + 719468) = next_day (date_at (days + 719468))" using date_at_step by metis
  then show "\<exists>y m d y' m' d'. civil_from_days days = Ok (y, m, d) \<and> civil_from_days (days + 1) = Ok (y', m', d') \<and>
      (y', unat m', unat d') = next_day (y, unat m, unat d)"
    using civil_date [of days] civil_date [of "days + 1"] assms by fastforce
qed

theorem civil_from_days_calendar_witness: "\<exists>y m d. civil_from_days 11016 = Ok (y, m, d) \<and> (y, unat m, unat d) = (2000, 2, 29) \<and>
    (\<exists>y' m' d'. civil_from_days 11017 = Ok (y', m', d') \<and> (y', unat m', unat d') = (2000, 3, 1))"
proof -
  have "civil_from_days 11016 = Ok (2000, 2, 29)" by code_simp
  moreover have "next_day (2000, 2, 29) = (2000, 3, 1)" by code_simp
  ultimately show ?thesis using civil_from_days_calendar [of 11016] by auto
qed

section \<open>Accepted configurations\<close>

lemma validate_layout_ok: "validate_layout page_size order = Inr () \<Longrightarrow>
    512 \<le> page_size \<and> page_size \<le> 65536 \<and> (\<exists>k. page_size = 2 ^ k) \<and> 3 \<le> order \<and> fits_in_page page_size order"
  by (auto simp: validate_layout_def MIN_PAGE_SIZE_def MAX_PAGE_SIZE_def MIN_BTREE_ORDER_def is_power_of_two_def list_ex_iff
      split: if_splits)

lemma resolve_ok:
  assumes "resolve toml env t path = Inr l"
  shows "validate_layout (cf_page_size (ld_config l)) (cf_btree_order (ld_config l)) = Inr () \<and> cf_pool_size (ld_config l) \<noteq> 0"
  using assms by (auto simp: resolve_def Let_def case_prod_unfold split: sum.splits option.splits if_splits)

lemma load_resolve:
  assumes "load_config toml env files explicit = Inr l"
  obtains t path where "resolve toml env t path = Inr l"
  using assms that by (auto simp: load_config_def Let_def split: sum.splits option.splits if_splits)

text \<open>
  Property (C29).  Every configuration that loads has a page size that is a power of two between
  512 and 65536, a buffer pool, an order of at least 3 and, if the order is at most \<open>2 ^ 57\<close>, a page
  with room for a full index node of keys within the limit.
\<close>

theorem loaded_config_usable:
  assumes "load_config toml env files explicit = Inr l" and c: "c = ld_config l"
    and "length (nd_keys nd) \<le> max_keys (cf_btree_order c)"
    and "\<forall>key \<in> set (nd_keys nd). length key \<le> key_limit (cf_page_size c) (cf_btree_order c)"
  shows "512 \<le> cf_page_size c \<and> cf_page_size c \<le> 65536 \<and> (\<exists>k. cf_page_size c = 2 ^ k) \<and> 3 \<le> cf_btree_order c \<and>
    0 < cf_pool_size c \<and> (cf_btree_order c \<le> 2 ^ 57 \<longrightarrow> node_bytes nd \<le> cf_page_size c)"
proof -
  obtain t path where r: "resolve toml env t path = Inr l" using load_resolve [OF assms(1)] .
  note v = validate_layout_ok [OF resolve_ok [OF r, THEN conjunct1]]
  then have "cf_btree_order c \<le> 2 ^ 57 \<longrightarrow> node_bytes nd \<le> cf_page_size c" using node_fits assms(2-4) by blast
  with v show ?thesis using resolve_ok [OF r] c by simp
qed

text \<open>
  Beyond that the product in the layout check wraps around: an order of \<open>2 ^ 62 + 1\<close>, an integer
  that a configuration file can hold, passes the check of the smallest page, and leaves no room for
  any key.
\<close>

theorem order_overflow_accepted:
  "validate_layout 512 (2 ^ 62 + 1) = Inr () \<and> key_limit 512 (2 ^ 62 + 1) = 0 \<and> max_order 512 = 7"
proof -
  have "is_power_of_two 512" by (auto simp: is_power_of_two_def list_ex_iff intro!: bexI [of _ 9])
  then show ?thesis
    by (simp add: validate_layout_def MIN_PAGE_SIZE_def MAX_PAGE_SIZE_def MIN_BTREE_ORDER_def fits_in_page_def usize_def
        max_keys_def max_cell_bytes_def max_order_def key_limit_def layout_defs)
qed

text \<open>A file that sets an order of 6 and nothing else.\<close>

definition sample_toml :: "string \<Rightarrow> string + file_config" where
  "sample_toml text = Inr (empty_file\<lparr>fc_btree := Some (Some 6)\<rparr>)"

definition sample_files :: "string \<Rightarrow> (string + string) option" where
  "sample_files p = (if p = ''my.toml'' then Some (Inr ''order = 6'') else None)"

theorem loaded_config_usable_witness:
  "\<exists>l. load_config sample_toml (\<lambda>_. None) sample_files (Some ''my.toml'') = Inr l \<and> cf_btree_order (ld_config l) = 6 \<and>
     3 \<le> cf_btree_order (ld_config l) \<and>
     node_bytes \<lparr>nd_kind = NODE_LEAF, nd_next = 0, nd_keys = [[1], [2]], nd_values = [1, 2]\<rparr> \<le> cf_page_size (ld_config l)"
proof -
  let ?nd = "\<lparr>nd_kind = NODE_LEAF, nd_next = 0, nd_keys = [[1], [2]], nd_values = [1, 2]\<rparr>"
  have two: "is_power_of_two 4096" by (auto simp: is_power_of_two_def list_ex_iff intro!: bexI [of _ 12])
  have trims: "trim ''my.toml'' = ''my.toml''" "trim ''info'' = ''info''" "trim ''chusql/data'' = ''chusql/data''"
    "trim ''./logs'' = ''./logs''" by (rule trim_plain, simp_all)+
  have "ascii_lowercase ''info'' = ''info''" by code_simp
  then have "parse_level ''info'' = Some LInfo" by (simp add: parse_level_def trims)
  note trims = trims this
  have layout: "validate_layout 4096 6 = Inr ()"
    using two by (simp add: validate_layout_def MIN_PAGE_SIZE_def MAX_PAGE_SIZE_def MIN_BTREE_ORDER_def fits_in_page_small)
  have dir: "default_data_dir (\<lambda>_. None) = ''chusql/data''" by code_simp
  obtain l where l: "load_config sample_toml (\<lambda>_. None) sample_files (Some ''my.toml'') = Inr l"
    "cf_btree_order (ld_config l) = 6" "cf_page_size (ld_config l) = 4096"
    by (simp add: load_config_def Let_def trims sample_files_def resolve_def sample_toml_def empty_file_def pick_def dir
        DEFAULT_PAGE_SIZE_def DEFAULT_POOL_def DEFAULT_LOG_LEVEL_def DEFAULT_LOG_FILES_def layout)
  moreover have "node_bytes ?nd \<le> 4096" "3 \<le> (6::nat)"
    using loaded_config_usable [OF l(1) refl, of ?nd] l(2,3) by (simp_all add: key_limit_def max_keys_def layout_defs)
  ultimately show ?thesis by auto
qed

end
