(* ===== verification/Accounts.thy ===== *)
theory Accounts
  imports Heap_Rows Wal Catalog Log_Config
begin

text \<open>
  The identities of the server (\<open>runtime.rs\<close>): account names and records, the rows they are stored
  as, and the requests that read and change them.  A request reads the state of the server and ends
  in an answer and at most one logged operation, \<open>WalOp::Accounts\<close>, with the whole new list; the
  list takes effect when that operation is logged, so a failure changes nothing.  Shown here: the
  last usable superuser cannot be removed, a catalog manager can neither touch nor create a
  privileged identity, names and numbers stay unique, and stored rows load back as the same
  accounts.
\<close>

section \<open>Account records\<close>

definition name_char :: "char \<Rightarrow> bool" where
  "name_char c \<longleftrightarrow> ascii_alphanumeric c \<or> c \<in> set ''_.-''"

definition account_name :: "string \<Rightarrow> string outcome" where
  "account_name user = (if user = [] \<or> 64 < length user \<or> \<not> list_all name_char user
     then Err (other_error ''invalid account name'') else Ok (ascii_lowercase user))"

definition validate_account_hash :: "string \<Rightarrow> unit outcome" where
  "validate_account_hash hash = (if 256 < length hash then Err (other_error ''invalid account credential'') else Ok ())"

definition new_account :: "string \<Rightarrow> u64 \<Rightarrow> string \<Rightarrow> string \<Rightarrow> account outcome" where
  "new_account now i user hash = (case validate_account_hash hash of
       Ok _ \<Rightarrow> (case account_name user of
           Ok name \<Rightarrow> Ok \<lparr>ac_id = i, ac_user = name, ac_password_hash = hash, ac_revision = 1, ac_registered_at = now,
             ac_last_login_at = None, ac_can_login = True, ac_is_superuser = False, ac_system_catalog_manager = False,
             ac_enabled = True, ac_identity_version = 1\<rparr>
         | Err e \<Rightarrow> Err e
         | Panic \<Rightarrow> Panic)
     | Err e \<Rightarrow> Err e
     | Panic \<Rightarrow> Panic)"

definition usable_superuser :: "account \<Rightarrow> bool" where
  "usable_superuser a \<longleftrightarrow> ac_can_login a \<and> ac_enabled a \<and> ac_is_superuser a"

definition require_superuser :: "account list \<Rightarrow> unit outcome" where
  "require_superuser as = (if list_ex usable_superuser as then Ok ()
     else Err (other_error ''the last enabled login superuser cannot be removed''))"

text \<open>\<open>json!\<close> of an \<open>i64\<close> and of a \<open>u64\<close>; \<open>as_i64\<close> and \<open>as_u64\<close>.\<close>

definition json_i64 :: "u64 \<Rightarrow> json" where
  "json_i64 n = JNumber (if unat n < 2 ^ 63 then PosInt n else NegInt n)"

definition as_i64 :: "json \<Rightarrow> u64 option" where
  "as_i64 v = (case v of
       JNumber (PosInt n) \<Rightarrow> if unat n < 2 ^ 63 then Some n else None
     | JNumber (NegInt n) \<Rightarrow> Some n
     | _ \<Rightarrow> None)"

definition as_u64 :: "json \<Rightarrow> u64 option" where
  "as_u64 v = (case v of JNumber (PosInt n) \<Rightarrow> Some n | _ \<Rightarrow> None)"

definition account_row :: "account \<Rightarrow> row" where
  "account_row a = [(''id'', json_i64 (ac_id a)), (''password_hash'', JString (ac_password_hash a))]"

definition account_rows :: "account list \<Rightarrow> row list" where
  "account_rows as = map account_row as"

definition identity_row :: "account \<Rightarrow> row" where
  "identity_row a = [(''id'', json_i64 (ac_id a)), (''user'', JString (ac_user a)), (''can_login'', JBool (ac_can_login a)),
     (''is_superuser'', JBool (ac_is_superuser a)), (''system_catalog_manager'', JBool (ac_system_catalog_manager a)),
     (''enabled'', JBool (ac_enabled a)), (''identity_version'', JNumber (PosInt (ucast (ac_identity_version a)))),
     (''registered_at'', JString (ac_registered_at a)),
     (''last_login_at'', (case ac_last_login_at a of Some stamp \<Rightarrow> JString stamp | None \<Rightarrow> JNull)),
     (''revision'', JNumber (PosInt (ac_revision a)))]"

definition identity_rows :: "account list \<Rightarrow> row list" where
  "identity_rows as = map identity_row as"

definition invalid_account :: io_error where
  "invalid_account = other_error ''invalid account record''"

definition field :: "row \<Rightarrow> string \<Rightarrow> (json \<Rightarrow> 'a option) \<Rightarrow> 'a option" where
  "field r k f = Option.bind (map_of r k) f"

definition field_or :: "'a \<Rightarrow> row \<Rightarrow> string \<Rightarrow> (json \<Rightarrow> 'a option) \<Rightarrow> 'a" where
  "field_or d r k f = (case field r k f of Some x \<Rightarrow> x | None \<Rightarrow> d)"

text \<open>\<open>account\<close> is the JSON library's reader of the old format.\<close>

definition decode_account_row :: "(string \<Rightarrow> account option) \<Rightarrow> row \<Rightarrow> account outcome" where
  "decode_account_row legacy r = (case field r ''account'' as_str of
       Some encoded \<Rightarrow> (case legacy encoded of Some a \<Rightarrow> Ok a | None \<Rightarrow> Err invalid_account)
     | None \<Rightarrow> (case (field r ''id'' as_i64, field r ''user'' as_str, field r ''password_hash'' as_str) of
         (Some i, Some user, Some hash) \<Rightarrow>
           Ok \<lparr>ac_id = i, ac_user = user, ac_password_hash = hash, ac_revision = field_or 1 r ''revision'' as_u64,
             ac_registered_at = field_or [] r ''registered_at'' as_str, ac_last_login_at = field r ''last_login_at'' as_str,
             ac_can_login = field_or True r ''can_login'' as_bool, ac_is_superuser = field_or False r ''is_superuser'' as_bool,
             ac_system_catalog_manager = field_or False r ''system_catalog_manager'' as_bool,
             ac_enabled = field_or True r ''enabled'' as_bool,
             ac_identity_version = ucast (field_or 0 r ''identity_version'' as_u64)\<rparr>
       | _ \<Rightarrow> Err invalid_account))"

definition normalize_account :: "string \<Rightarrow> account \<Rightarrow> account" where
  "normalize_account now a = (if ac_registered_at a = [] then a\<lparr>ac_registered_at := now\<rparr> else a)"

section \<open>Time stamps\<close>

definition civil_of_days :: "int \<Rightarrow> (int \<times> u32 \<times> u32) outcome" where
  "civil_of_days days =
     (if 2 ^ 63 \<le> days + 719468 then Panic
      else (let z = days + 719468;
                era = (if z \<ge> 0 then z else z - 146096) sdiv 146097;
                doe = z - era * 146097;
                yoe = (doe - doe sdiv 1460 + doe sdiv 36524 - doe sdiv 146096) sdiv 365;
                year = yoe + era * 400;
                doy = doe - (365 * yoe + yoe sdiv 4 - yoe sdiv 100);
                mp = (5 * doy + 2) sdiv 153;
                day = (word_of_int (doy - (153 * mp + 2) sdiv 5 + 1) :: u32);
                month = (word_of_int (if mp < 10 then mp + 3 else mp - 9) :: u32)
            in Ok (if month \<le> 2 then year + 1 else year, month, day)))"

text \<open>\<open>{:04}\<close> of a signed year counts its sign.\<close>

definition format_timestamp :: "int \<Rightarrow> string outcome" where
  "format_timestamp seconds = (let rest = nat (seconds mod 86400) in
     case civil_of_days (seconds div 86400) of
       Ok (year, month, day) \<Rightarrow> Ok ((if year < 0 then ''-'' @ zero_padded 3 (nat (- year)) else zero_padded 4 (nat year)) @
         ''-'' @ zero_padded 2 (unat month) @ ''-'' @ zero_padded 2 (unat day) @ '' '' @ zero_padded 2 (rest div 3600) @ '':'' @
         zero_padded 2 (rest mod 3600 div 60) @ '':'' @ zero_padded 2 (rest mod 60))
     | Err e \<Rightarrow> Err e
     | Panic \<Rightarrow> Panic)"

section \<open>The system tables\<close>

definition users_columns :: "schema_column list" where
  "users_columns =
     [default_column\<lparr>sc_name := ''id'', sc_ty := ''int'', sc_nullable := False, sc_auto_increment := True, sc_primary_key := True\<rparr>,
      default_column\<lparr>sc_name := ''password_hash'', sc_ty := ''varchar(256)'', sc_nullable := False\<rparr>]"

definition required_column :: "string \<Rightarrow> string \<Rightarrow> schema_column" where
  "required_column name ty = default_column\<lparr>sc_name := name, sc_ty := ty, sc_nullable := False\<rparr>"

definition identity_columns :: "schema_column list" where
  "identity_columns =
     [(required_column ''id'' ''int'')\<lparr>sc_primary_key := True\<rparr>, (required_column ''user'' ''varchar(64)'')\<lparr>sc_unique := True\<rparr>,
      required_column ''can_login'' ''bool'', required_column ''is_superuser'' ''bool'',
      required_column ''system_catalog_manager'' ''bool'', required_column ''enabled'' ''bool'',
      required_column ''identity_version'' ''int'', required_column ''registered_at'' ''timestamp'',
      default_column\<lparr>sc_name := ''last_login_at'', sc_ty := ''timestamp''\<rparr>, required_column ''revision'' ''int'']"

definition types_columns :: "schema_column list" where
  "types_columns =
     [(required_column ''id'' ''int'')\<lparr>sc_primary_key := True\<rparr>, (required_column ''name'' ''varchar(64)'')\<lparr>sc_unique := True\<rparr>,
      required_column ''base_type'' ''varchar(64)'', required_column ''parameterized'' ''bool'']"

definition type_definition_name :: "row \<Rightarrow> string outcome" where
  "type_definition_name r = (case field r ''name'' as_str of
       None \<Rightarrow> Err (other_error ''invalid type name'')
     | Some name \<Rightarrow> (case field r ''base_type'' as_str of
         None \<Rightarrow> Err (other_error ''invalid type definition'')
       | Some base \<Rightarrow>
          if name = [] \<or> 48 < length name \<or> \<not> list_all (\<lambda>c. ascii_lower c \<or> ascii_digit c \<or> c = CHR ''_'') name \<or>
             base = [] \<or> 64 < length base \<or> field r ''parameterized'' as_bool = None
          then Err (other_error ''invalid type definition'') else Ok name))"

text \<open>
  What the requests read of the server: the recovery flag, the dictionary, which files exist, the
  scans of the system tables, the page size and the time.
\<close>

record system_view =
  sv_recovery :: bool
  sv_catalog :: catalog
  sv_data_file :: "string \<Rightarrow> bool"
  sv_id_file :: "string \<Rightarrow> bool"
  sv_scan :: "string \<Rightarrow> row list outcome"
  sv_page_size :: nat
  sv_now :: string

definition has_files :: "system_view \<Rightarrow> string \<Rightarrow> bool" where
  "has_files sv t \<longleftrightarrow> sv_data_file sv t \<or> sv_id_file sv t"

definition collision :: "string \<Rightarrow> io_error" where
  "collision what = IoError AlreadyExists (''reserved '' @ what @ '' collision'')"

definition account_table_ready :: "system_view \<Rightarrow> bool outcome" where
  "account_table_ready sv =
     (case describe (sv_catalog sv) IDENTITIES_TABLE of
        Some e \<Rightarrow> if \<not> ct_system e then Err (collision ''identity table'') else
          (case describe (sv_catalog sv) USERS_TABLE of
             Some u \<Rightarrow> if ct_system u then Ok True else Err (collision ''account table'')
           | None \<Rightarrow> if has_files sv USERS_TABLE then Err (collision ''account file'') else Ok False)
      | None \<Rightarrow> if has_files sv IDENTITIES_TABLE then Err (collision ''identity file'') else
          (case describe (sv_catalog sv) USERS_TABLE of
             Some u \<Rightarrow> if ct_system u then Ok True else Err (collision ''account table'')
           | None \<Rightarrow> if has_files sv USERS_TABLE then Err (collision ''account file'') else Ok False))"

fun collect :: "('a \<Rightarrow> 'b outcome) \<Rightarrow> 'a list \<Rightarrow> 'b list outcome" where
  "collect f [] = Ok []"
| "collect f (x # xs) = (case f x of
       Ok y \<Rightarrow> (case collect f xs of Ok ys \<Rightarrow> Ok (y # ys) | e \<Rightarrow> e)
     | Err e \<Rightarrow> Err e
     | Panic \<Rightarrow> Panic)"

definition join_credential :: "row list \<Rightarrow> row \<Rightarrow> row outcome" where
  "join_credential credentials r =
     (if list_ex (\<lambda>k. field r k as_bool = None) [''can_login'', ''is_superuser'', ''enabled'']
      then Err (other_error ''invalid identity attributes'')
      else (case field r ''id'' as_i64 of
          None \<Rightarrow> Err (other_error ''invalid identity record'')
        | Some i \<Rightarrow> (case find (\<lambda>c. field c ''id'' as_i64 = Some i) credentials of
            None \<Rightarrow> Err (other_error ''missing identity credential'')
          | Some credential \<Rightarrow> (case map_of credential ''password_hash'' of
              None \<Rightarrow> Err (other_error ''invalid identity credential'')
            | Some hash \<Rightarrow> Ok (AList.update ''password_hash'' hash r)))))"

definition bindO :: "'a outcome \<Rightarrow> ('a \<Rightarrow> 'b outcome) \<Rightarrow> 'b outcome" where
  "bindO m f = (case m of Ok a \<Rightarrow> f a | Err e \<Rightarrow> Err e | Panic \<Rightarrow> Panic)"

definition load_accounts :: "(string \<Rightarrow> account option) \<Rightarrow> system_view \<Rightarrow> account list outcome" where
  "load_accounts legacy sv =
     (if \<not> sv_data_file sv USERS_TABLE then Err (other_error ''missing account data'')
      else if describe (sv_catalog sv) IDENTITIES_TABLE \<noteq> None
      then bindO (sv_scan sv USERS_TABLE) (\<lambda>credentials. bindO (sv_scan sv IDENTITIES_TABLE)
             (collect (\<lambda>r. bindO (join_credential credentials r) (decode_account_row legacy))))
      else bindO (sv_scan sv USERS_TABLE) (\<lambda>rs. bindO (collect (decode_account_row legacy) rs)
             (\<lambda>as. Ok (map (normalize_account (sv_now sv)) as))))"

section \<open>Requests\<close>

text \<open>The account number after all used ones, as signed 64-bit integers.\<close>

definition next_identity_id :: "catalog \<Rightarrow> account list \<Rightarrow> u64 outcome" where
  "next_identity_id c as = (let m = max (if as = [] then 0 else Max (sint ` ac_id ` set as)) (sint (cg_identity_high_water c)) in
     if m = 2 ^ 63 - 1 then Err (other_error ''account id exhausted'') else Ok (word_of_int (m + 1)))"

definition privileged :: "account \<Rightarrow> bool" where
  "privileged a \<longleftrightarrow> ac_is_superuser a \<or> ac_system_catalog_manager a"

text \<open>The identity that a catalog manager's command names.\<close>

definition managed_target :: "request \<Rightarrow> string option outcome" where
  "managed_target command = (case command of
       AccountCreate user _ \<Rightarrow> bindO (account_name user) (\<lambda>n. Ok (Some n))
     | AccountReset user _ \<Rightarrow> bindO (account_name user) (\<lambda>n. Ok (Some n))
     | AccountDrop user \<Rightarrow> bindO (account_name user) (\<lambda>n. Ok (Some n))
     | IdentityAlter user _ None _ None \<Rightarrow> bindO (account_name user) (\<lambda>n. Ok (Some n))
     | AccountsList \<Rightarrow> Ok None
     | _ \<Rightarrow> Err (other_error ''superuser required for this catalog operation''))"

definition unwrap_managed :: "account list \<Rightarrow> request \<Rightarrow> request outcome" where
  "unwrap_managed as req = (case req of
       CatalogManage command \<Rightarrow> bindO (managed_target command) (\<lambda>target.
         if list_ex (\<lambda>a. target = Some (ac_user a) \<and> privileged a) as
         then Err (other_error ''superuser required to manage privileged identities'')
         else Ok command)
     | other \<Rightarrow> Ok other)"

fun check_identities :: "string list \<Rightarrow> u64 list \<Rightarrow> account list \<Rightarrow> account list outcome" where
  "check_identities names ids [] = Ok []"
| "check_identities names ids (a # as) = bindO (account_name (ac_user a)) (\<lambda>name.
     if name \<in> set names \<or> sint (ac_id a) < 1 \<or> ac_id a \<in> set ids
     then Err (other_error ''invalid or duplicate identity record'')
     else bindO (check_identities (name # names) (ac_id a # ids) as) (\<lambda>rest.
       Ok ((if ac_identity_version a = 0 then a\<lparr>ac_user := name\<rparr> else a) # rest)))"

definition LEGACY_ROLES :: string where "LEGACY_ROLES = ''__system_roles''"

text \<open>A request other than listing and migrating is refused while old roles wait for migration.\<close>

definition check_migrated :: "system_view \<Rightarrow> request \<Rightarrow> unit outcome" where
  "check_migrated sv req = (case req of
       IdentityInitialize _ \<Rightarrow> Ok ()
     | AccountsList \<Rightarrow> Ok ()
     | _ \<Rightarrow> if describe (sv_catalog sv) LEGACY_ROLES = None then Ok ()
           else bindO (sv_scan sv LEGACY_ROLES) (\<lambda>rs.
             if rs \<noteq> [] then Err (other_error ''identity migration required'') else Ok ()))"

definition create_identity :: "system_view \<Rightarrow> string \<Rightarrow> string \<Rightarrow> bool \<Rightarrow> string \<Rightarrow> account list \<Rightarrow> account list outcome" where
  "create_identity sv user hash login what as = bindO (account_name user) (\<lambda>name.
     if name = ''public'' then Err (other_error ''public is reserved for default privileges'')
     else if list_ex (\<lambda>a. ac_user a = name) as then Err (IoError AlreadyExists (what @ '' already exists''))
     else bindO (next_identity_id (sv_catalog sv) as) (\<lambda>i. bindO (new_account (sv_now sv) i name hash) (\<lambda>a.
       Ok (as @ [if login then a else a\<lparr>ac_can_login := False\<rparr>]))))"

text \<open>The old roles become identities that cannot log in.\<close>

fun add_legacy_roles :: "system_view \<Rightarrow> row list \<Rightarrow> account list \<Rightarrow> account list outcome" where
  "add_legacy_roles sv [] as = Ok as"
| "add_legacy_roles sv (r # rs) as = (case field r ''name'' as_str of
       None \<Rightarrow> Err (other_error ''invalid legacy role'')
     | Some user \<Rightarrow> bindO (account_name user) (\<lambda>name.
         if list_ex (\<lambda>a. ac_user a = name) as then Err (other_error (''identity name collision: '' @ name))
         else bindO (next_identity_id (sv_catalog sv) as) (\<lambda>i. bindO (new_account (sv_now sv) i name []) (\<lambda>a.
           add_legacy_roles sv rs (as @ [a\<lparr>ac_can_login := False\<rparr>])))))"

definition initialize_identity :: "string \<Rightarrow> account \<Rightarrow> account" where
  "initialize_identity administrator a = (if ac_identity_version a = 0
     then a\<lparr>ac_is_superuser := (ac_user a = ascii_lowercase administrator), ac_identity_version := 1\<rparr> else a)"

definition initialize_identities :: "system_view \<Rightarrow> string \<Rightarrow> account list \<Rightarrow> account list outcome" where
  "initialize_identities sv administrator as = (let as1 = map (initialize_identity administrator) as in
     bindO (if describe (sv_catalog sv) LEGACY_ROLES = None then Ok as1
            else bindO (sv_scan sv LEGACY_ROLES) (\<lambda>rs. add_legacy_roles sv rs as1)) (\<lambda>as2.
     if as2 = [] then Ok as2 else bindO (require_superuser as2) (\<lambda>_. Ok as2)))"

text \<open>The first account of a name is changed in place.\<close>

fun update_account :: "string \<Rightarrow> (account \<Rightarrow> account outcome) \<Rightarrow> account list \<Rightarrow> account list outcome" where
  "update_account name f [] = Err (IoError NotFound ''unknown account'')"
| "update_account name f (a # as) = (if ac_user a = name then bindO (f a) (\<lambda>a'. Ok (a' # as))
     else bindO (update_account name f as) (\<lambda>as'. Ok (a # as')))"

definition next_revision :: "account \<Rightarrow> account outcome" where
  "next_revision a = (if ac_revision a = - 1 then Err (other_error ''account revision exhausted'')
     else Ok (a\<lparr>ac_revision := ac_revision a + 1\<rparr>))"

definition or_else :: "'a option \<Rightarrow> 'a \<Rightarrow> 'a" where
  "or_else x d = (case x of Some v \<Rightarrow> v | None \<Rightarrow> d)"

definition keep_superuser :: "account list \<Rightarrow> account list \<Rightarrow> account list outcome" where
  "keep_superuser before after =
     (if list_ex usable_superuser before then bindO (require_superuser after) (\<lambda>_. Ok after) else Ok after)"

definition alter_identity :: "bool option \<Rightarrow> bool option \<Rightarrow> bool option \<Rightarrow> bool option \<Rightarrow> account \<Rightarrow> account outcome" where
  "alter_identity can_login is_superuser active manager a =
     next_revision (a\<lparr>ac_can_login := or_else can_login (ac_can_login a), ac_is_superuser := or_else is_superuser (ac_is_superuser a),
       ac_enabled := or_else active (ac_enabled a), ac_system_catalog_manager := or_else manager (ac_system_catalog_manager a)\<rparr>)"

definition login_account :: "string \<Rightarrow> account \<Rightarrow> account outcome" where
  "login_account stamp a = (if \<not> ac_enabled a \<or> \<not> ac_can_login a then Err (other_error ''identity cannot login'')
     else Ok (a\<lparr>ac_last_login_at := Some stamp\<rparr>))"

text \<open>The new list of a request; listing is answered before.\<close>

definition changed_accounts :: "system_view \<Rightarrow> request \<Rightarrow> account list \<Rightarrow> account list outcome" where
  "changed_accounts sv req as = (case req of
       IdentityInitialize administrator \<Rightarrow> initialize_identities sv administrator as
     | AccountCreate user hash \<Rightarrow> create_identity sv user hash True ''account'' as
     | RoleCreate user \<Rightarrow> create_identity sv user [] False ''identity'' as
     | IdentityAlter user can_login is_superuser active manager \<Rightarrow> bindO (account_name user) (\<lambda>name.
         bindO (update_account name (alter_identity can_login is_superuser active manager) as) (keep_superuser as))
     | AccountReset user hash \<Rightarrow> bindO (account_name user) (\<lambda>name. bindO (validate_account_hash hash) (\<lambda>_.
         update_account name (\<lambda>a. bindO (next_revision a) (\<lambda>a'. Ok (a'\<lparr>ac_password_hash := hash\<rparr>))) as))
     | AccountLogin user time \<Rightarrow> bindO (account_name user) (\<lambda>name.
         update_account name (login_account (or_else time (sv_now sv))) as)
     | AccountDrop user \<Rightarrow> bindO (account_name user) (\<lambda>name.
         let rest = filter (\<lambda>a. ac_user a \<noteq> name) as in
         if length rest = length as then Err (IoError NotFound ''unknown account'') else keep_superuser as rest)
     | _ \<Rightarrow> Err (other_error ''unexpected account request''))"

definition is_initialize :: "request \<Rightarrow> bool" where
  "is_initialize req = (case req of IdentityInitialize _ \<Rightarrow> True | _ \<Rightarrow> False)"

text \<open>Migration of an up-to-date list writes nothing.\<close>

definition nothing_to_do :: "system_view \<Rightarrow> request \<Rightarrow> account list \<Rightarrow> account list \<Rightarrow> bool" where
  "nothing_to_do sv req before after \<longleftrightarrow> is_initialize req \<and> before = after \<and>
     (case describe (sv_catalog sv) IDENTITIES_TABLE of None \<Rightarrow> False | Some e \<Rightarrow> columns_eq (ct_columns e) identity_columns)"

definition accounts_op :: "bool \<Rightarrow> account list \<Rightarrow> account list \<Rightarrow> wal_op" where
  "accounts_op migrate before after =
     WAccounts after (map ac_user (filter (\<lambda>old. \<not> list_ex (\<lambda>a. ac_user a = ac_user old) after) before)) migrate"

text \<open>The answer of a request and the operation to log, if any.\<close>

definition accounts_plan :: "row codec \<Rightarrow> (string \<Rightarrow> account option) \<Rightarrow> system_view \<Rightarrow> request \<Rightarrow>
    (account list \<times> wal_op option) outcome" where
  "accounts_plan object legacy sv request =
     (if sv_recovery sv then Err (other_error ''storage recovery required'')
      else bindO (account_table_ready sv) (\<lambda>ready.
        if \<not> ready then Err (other_error ''system catalog is not initialized; run csql-bootstrap'')
        else bindO (load_accounts legacy sv) (\<lambda>loaded.
          bindO (unwrap_managed loaded request) (\<lambda>req.
          bindO (check_identities [] [] loaded) (\<lambda>as.
          bindO (check_migrated sv req) (\<lambda>_.
            if req = AccountsList then Ok (as, None)
            else bindO (changed_accounts sv req as) (\<lambda>as'.
              if nothing_to_do sv req as as' then Ok (as', None)
              else bindO (collect (\<lambda>r. encode_row object r (sv_page_size sv)) (account_rows as' @ identity_rows as')) (\<lambda>_.
                Ok (as', Some (accounts_op (is_initialize req) as as'))))))))))"

text \<open>\<open>commit\<close> logs and applies a group of operations.\<close>

definition accounts_request :: "row codec \<Rightarrow> (string \<Rightarrow> account option) \<Rightarrow> (wal_op list \<Rightarrow> unit outcome) \<Rightarrow> system_view \<Rightarrow>
    request \<Rightarrow> account list outcome" where
  "accounts_request object legacy commit sv request = bindO (accounts_plan object legacy sv request) (\<lambda>(as, op).
     case op of None \<Rightarrow> Ok as | Some w \<Rightarrow> bindO (commit [w]) (\<lambda>_. Ok as))"

text \<open>\<open>bootstrap_system\<close> seeds an administrator into an empty list only.\<close>

definition bootstrap_system :: "row codec \<Rightarrow> (string \<Rightarrow> account option) \<Rightarrow> (wal_op list \<Rightarrow> unit outcome) \<Rightarrow> system_view \<Rightarrow>
    string option \<Rightarrow> string option \<Rightarrow> account list outcome" where
  "bootstrap_system object legacy commit sv user hash =
     (if sv_recovery sv then Err (other_error ''storage recovery required'')
      else bindO (account_table_ready sv) (\<lambda>initialized.
        bindO (if initialized then load_accounts legacy sv else Ok []) (\<lambda>as.
        bindO (case user of
            None \<Rightarrow> Ok (as, \<not> initialized)
          | Some u \<Rightarrow> bindO (account_name u) (\<lambda>name.
              if as = [] then bindO (next_identity_id (sv_catalog sv) as) (\<lambda>i.
                bindO (new_account (sv_now sv) i name (or_else hash [])) (\<lambda>a.
                  Ok ([a\<lparr>ac_is_superuser := True\<rparr>], True)))
              else Ok (as, \<not> initialized))) (\<lambda>(as', changed).
          if \<not> changed then Ok as'
          else bindO (collect (\<lambda>r. encode_row object r (sv_page_size sv)) (account_rows as')) (\<lambda>_.
            bindO (commit [WAccounts as' [] False]) (\<lambda>_. Ok as'))))))"

definition system_status :: "u64 option outcome \<Rightarrow> system_view \<Rightarrow> response outcome" where
  "system_status saved sv = bindO saved (\<lambda>lsn.
     Ok (System (case describe (sv_catalog sv) USERS_TABLE of None \<Rightarrow> False | Some e \<Rightarrow> ct_system e) (or_else lsn 0)))"

section \<open>Lemmas\<close>

lemma bindO_Ok [simp]: "bindO m f = Ok y \<longleftrightarrow> (\<exists>a. m = Ok a \<and> f a = Ok y)"
  by (cases m) (simp_all add: bindO_def)

lemma bindO_simps [simp]: "bindO (Ok a) f = f a" "bindO (Err e) f = Err e" "bindO Panic f = Panic"
  by (simp_all add: bindO_def)

lemma account_name_Ok: "account_name user = Ok name \<Longrightarrow> name = ascii_lowercase user"
  by (simp add: account_name_def split: if_splits)

definition normal_name :: "account \<Rightarrow> account" where
  "normal_name a = (if ac_identity_version a = 0 then a\<lparr>ac_user := ascii_lowercase (ac_user a)\<rparr> else a)"

lemma normal_name_simps [simp]:
  "ac_id (normal_name a) = ac_id a" "privileged (normal_name a) = privileged a"
  "usable_superuser (normal_name a) = usable_superuser a"
  by (simp_all add: normal_name_def privileged_def usable_superuser_def)

lemma check_identities_Ok:
  "check_identities names ids as = Ok as' \<Longrightarrow> as' = map normal_name as \<and>
     distinct (map (\<lambda>a. ascii_lowercase (ac_user a)) as) \<and> distinct (map ac_id as) \<and>
     list_all (\<lambda>a. account_name (ac_user a) = Ok (ascii_lowercase (ac_user a)) \<and> 1 \<le> sint (ac_id a) \<and>
       ascii_lowercase (ac_user a) \<notin> set names \<and> ac_id a \<notin> set ids) as"
proof (induction names ids "as" arbitrary: as' rule: check_identities.induct)
  case (2 names ids a "as")
  then show ?case
    by (fastforce simp: normal_name_def list_all_iff split: if_splits dest: account_name_Ok)
qed simp

lemma update_account_Ok:
  "update_account name f as = Ok as' \<Longrightarrow> \<exists>xs a ys a'. as = xs @ a # ys \<and> ac_user a = name \<and> f a = Ok a' \<and> as' = xs @ a' # ys"
proof (induction "as" arbitrary: as')
  case (Cons a "as")
  show ?case
  proof (cases "ac_user a = name")
    case True
    then have "a # as = [] @ a # as \<and> ac_user a = name" by simp
    then show ?thesis using Cons.prems True by (auto intro: exI [of _ "[]"])
  next
    case False
    then obtain bs where "update_account name f as = Ok bs" "as' = a # bs" using Cons.prems by auto
    then show ?thesis using Cons.IH by (metis append_Cons)
  qed
qed simp

text \<open>A change that keeps name, number and privileges.\<close>

definition same_rights :: "account \<Rightarrow> account \<Rightarrow> bool" where
  "same_rights a b \<longleftrightarrow> ac_id b = ac_id a \<and> ac_user b = ac_user a \<and> ac_is_superuser b = ac_is_superuser a \<and>
     ac_system_catalog_manager b = ac_system_catalog_manager a"

lemma alter_identity_Ok:
  assumes "alter_identity l s e m a = Ok b"
  shows "ac_id b = ac_id a" and "ac_user b = ac_user a" and "s = None \<Longrightarrow> m = None \<Longrightarrow> same_rights a b"
  using assms by (auto simp: alter_identity_def next_revision_def or_else_def same_rights_def split: if_splits)

lemma reset_account_Ok:
  assumes "bindO (next_revision a) (\<lambda>a'. Ok (a'\<lparr>ac_password_hash := hash\<rparr>)) = Ok b"
  shows "same_rights a b" and "usable_superuser b = usable_superuser a"
  using assms by (auto simp: next_revision_def same_rights_def usable_superuser_def split: if_splits)

lemma login_account_Ok:
  assumes "login_account stamp a = Ok b"
  shows "same_rights a b" and "usable_superuser b = usable_superuser a"
  using assms by (auto simp: login_account_def same_rights_def usable_superuser_def split: if_splits)

lemma keep_superuser_Ok:
  "keep_superuser before after = Ok as' \<longleftrightarrow> as' = after \<and> (list_ex usable_superuser before \<longrightarrow> list_ex usable_superuser after)"
  by (auto simp: keep_superuser_def require_superuser_def)

lemma account_name_idem:
  assumes "account_name user = Ok name"
  shows "account_name name = Ok name"
proof -
  have name: "name = ascii_lowercase user" by (rule account_name_Ok [OF assms])
  have "name_char (if ascii_upper c then char_of (of_char c + 32 :: nat) else c)" if "name_char c" for c
  proof (cases "ascii_upper c")
    case True
    then have "of_char (char_of (of_char c + 32 :: nat) :: char) = (of_char c + 32 :: nat)"
      by (auto simp: ascii_upper_def)
    then have "ascii_lower (char_of (of_char c + 32 :: nat))" using True by (simp add: ascii_upper_def ascii_lower_def)
    then show ?thesis using True by (simp add: name_char_def ascii_alphanumeric_def)
  qed (use that in simp)
  then have "list_all name_char (ascii_lowercase user)"
    using assms by (fastforce simp: account_name_def ascii_lowercase_def list_all_iff split: if_split_asm)
  moreover have "ascii_lowercase user \<noteq> []" "length (ascii_lowercase user) \<le> 64"
    using assms by (auto simp: account_name_def ascii_lowercase_def split: if_splits)
  ultimately show ?thesis
    unfolding name by (auto simp: account_name_def ascii_lowercase_idem)
qed

lemma new_account_Ok:
  assumes "new_account now i user hash = Ok a"
  shows "ac_id a = i" and "account_name user = Ok (ac_user a)" and "\<not> privileged a"
  using assms by (auto simp: new_account_def privileged_def split: outcome.splits)

lemma create_identity_Ok:
  assumes "create_identity sv user hash login what as = Ok as'"
  shows "\<exists>a. as' = as @ [a] \<and> account_name user = Ok (ac_user a) \<and> ac_user a \<notin> ac_user ` set as \<and>
    next_identity_id (sv_catalog sv) as = Ok (ac_id a) \<and> \<not> privileged a"
proof -
  obtain name i a where n: "account_name user = Ok name" "\<not> list_ex (\<lambda>b. ac_user b = name) as"
    and i: "next_identity_id (sv_catalog sv) as = Ok i" and a: "new_account (sv_now sv) i name hash = Ok a"
    and as': "as' = as @ [if login then a else a\<lparr>ac_can_login := False\<rparr>]"
    using assms by (auto simp: create_identity_def split: if_splits)
  have "ac_user a = name" using new_account_Ok(2) [OF a] account_name_idem [OF n(1)] by simp
  then show ?thesis using n i as' new_account_Ok [OF a]
    by (auto simp: privileged_def list_ex_iff image_iff)
qed

text \<open>The unique names and numbers of the stored list.\<close>

definition identities_ok :: "account list \<Rightarrow> bool" where
  "identities_ok as \<longleftrightarrow> list_all (\<lambda>a. account_name (ac_user a) = Ok (ac_user a) \<and> 1 \<le> sint (ac_id a)) as \<and>
     distinct (map ac_user as) \<and> distinct (map ac_id as)"

lemma next_identity_id_Ok:
  assumes "next_identity_id c as = Ok i" and "list_all (\<lambda>a. 1 \<le> sint (ac_id a)) as"
  shows "1 \<le> sint i" and "sint (cg_identity_high_water c) < sint i" and "a \<in> set as \<Longrightarrow> sint (ac_id a) < sint i"
proof -
  define m where "m = max (if as = [] then 0 else Max (sint ` ac_id ` set as)) (sint (cg_identity_high_water c))"
  have i: "i = word_of_int (m + 1)" and ne: "m \<noteq> 2 ^ 63 - 1"
    using assms(1) by (simp_all add: next_identity_id_def m_def Let_def split: if_splits)
  have bnd: "sint w < 2 ^ 63" for w :: u64 using sint_lt [of w] by simp
  have "m < 2 ^ 63" using bnd by (auto simp: m_def)
  have m0: "0 \<le> m"
  proof (cases "as = []")
    case False
    then have "Max (sint ` ac_id ` set as) \<in> sint ` ac_id ` set as" by (intro Max_in) auto
    then have "1 \<le> Max (sint ` ac_id ` set as)" using assms(2) by (auto simp: list_all_iff)
    then show ?thesis using False by (simp add: m_def)
  qed (simp add: m_def)
  define k where "k = m + 1"
  have "- (2 ^ 63) \<le> k" "k < 2 ^ 63" using m0 \<open>m < 2 ^ 63\<close> ne by (simp_all add: k_def)
  then have si: "sint i = m + 1"
    unfolding i k_def [symmetric] by (simp add: sint_sbintrunc' signed_take_bit_int_eq_self)
  show "1 \<le> sint i" "sint (cg_identity_high_water c) < sint i" using si m0 by (simp_all add: m_def)
  assume a: "a \<in> set as"
  then have "sint (ac_id a) \<le> Max (sint ` ac_id ` set as)" by (intro Max_ge) auto
  moreover have "as \<noteq> []" using a by auto
  ultimately show "sint (ac_id a) < sint i" using si by (simp add: m_def)
qed

lemma identities_ok_snoc:
  assumes "identities_ok as" and "account_name (ac_user a) = Ok (ac_user a)" and "ac_user a \<notin> ac_user ` set as"
    and "next_identity_id c as = Ok (ac_id a)"
  shows "identities_ok (as @ [a])"
proof -
  have "list_all (\<lambda>a. 1 \<le> sint (ac_id a)) as" using assms(1) by (simp add: identities_ok_def list_all_iff)
  note n = next_identity_id_Ok [OF assms(4) this]
  have "ac_id a \<noteq> ac_id b" if "b \<in> set as" for b using n(3) [OF that] by auto
  then have "ac_id a \<notin> ac_id ` set as" by auto
  then show ?thesis using assms n(1) by (auto simp: identities_ok_def)
qed

lemma privileged_login [simp]: "privileged (a\<lparr>ac_can_login := b\<rparr>) = privileged a"
  by (simp add: privileged_def)

lemma add_legacy_roles_Ok:
  "add_legacy_roles sv rs as = Ok as' \<Longrightarrow> \<exists>new. as' = as @ new \<and> \<not> list_ex privileged new \<and>
     (identities_ok as \<longrightarrow> identities_ok as' \<and> list_all (\<lambda>a. sint (cg_identity_high_water (sv_catalog sv)) < sint (ac_id a)) new)"
proof (induction rs arbitrary: "as")
  case (Cons r rs)
  then obtain user name i a where name: "account_name user = Ok name" "\<not> list_ex (\<lambda>b. ac_user b = name) as"
    and i: "next_identity_id (sv_catalog sv) as = Ok i" and a: "new_account (sv_now sv) i name [] = Ok a"
    and rest: "add_legacy_roles sv rs (as @ [a\<lparr>ac_can_login := False\<rparr>]) = Ok as'"
    by (auto split: option.splits if_splits)
  let ?a = "a\<lparr>ac_can_login := False\<rparr>"
  note na = new_account_Ok [OF a]
  have user: "ac_user a = name" using na(2) account_name_idem [OF name(1)] by simp
  obtain new where new: "as' = (as @ [?a]) @ new" "\<not> list_ex privileged new"
    "identities_ok (as @ [?a]) \<longrightarrow> identities_ok as' \<and>
      list_all (\<lambda>a. sint (cg_identity_high_water (sv_catalog sv)) < sint (ac_id a)) new"
    using Cons.IH [OF rest] by blast
  have "identities_ok (as @ [?a])" if "identities_ok as"
    by (rule identities_ok_snoc [OF that, of _ "sv_catalog sv"])
       (use user name account_name_idem [OF name(1)] i na(1) in \<open>auto simp: list_ex_iff\<close>)
  moreover have "sint (cg_identity_high_water (sv_catalog sv)) < sint (ac_id ?a)" if "identities_ok as"
    using next_identity_id_Ok(2) [OF i] that na(1) by (simp add: identities_ok_def list_all_iff)
  ultimately show ?case using new na(3) by (intro exI [of _ "?a # new"]) auto
qed simp

lemma initialize_identity_simps [simp]:
  "ac_id (initialize_identity ad a) = ac_id a" "ac_user (initialize_identity ad a) = ac_user a"
  by (simp_all add: initialize_identity_def)

lemma identities_ok_cong:
  "map ac_user bs = map ac_user as \<Longrightarrow> map ac_id bs = map ac_id as \<Longrightarrow> identities_ok as \<Longrightarrow> identities_ok bs"
proof -
  assume eq: "map ac_user bs = map ac_user as" "map ac_id bs = map ac_id as" and ok: "identities_ok as"
  have "list_all (\<lambda>u. account_name u = Ok u) (map ac_user as)" "list_all (\<lambda>i. 1 \<le> sint i) (map ac_id as)"
    using ok by (simp_all add: identities_ok_def list_all_iff)
  then have "list_all (\<lambda>a. account_name (ac_user a) = Ok (ac_user a) \<and> 1 \<le> sint (ac_id a)) bs"
    unfolding eq [symmetric] by (auto simp: list_all_iff)
  then show ?thesis using ok eq by (simp add: identities_ok_def)
qed

text \<open>What a change may do to a list of unique identities: keep it unique, and number newcomers above the mark.\<close>

definition advances :: "system_view \<Rightarrow> account list \<Rightarrow> account list \<Rightarrow> bool" where
  "advances sv as as' \<longleftrightarrow> identities_ok as' \<and>
     list_all (\<lambda>a. ac_id a \<in> ac_id ` set as \<or> sint (cg_identity_high_water (sv_catalog sv)) < sint (ac_id a)) as'"

lemma advances_same:
  "identities_ok as \<Longrightarrow> map ac_user bs = map ac_user as \<Longrightarrow> map ac_id bs = map ac_id as \<Longrightarrow> advances sv as bs"
proof -
  assume ok: "identities_ok as" and eq: "map ac_user bs = map ac_user as" "map ac_id bs = map ac_id as"
  have "ac_id ` set bs = ac_id ` set as" using arg_cong [OF eq(2), of set] by simp
  then show ?thesis using identities_ok_cong [OF eq ok] by (auto simp: advances_def list_all_iff)
qed

lemma advances_new:
  assumes "identities_ok as" and "identities_ok (as @ new)"
    and "list_all (\<lambda>a. sint (cg_identity_high_water (sv_catalog sv)) < sint (ac_id a)) new"
  shows "advances sv as (as @ new)"
  using assms by (auto simp: advances_def list_all_iff)

lemma advances_create:
  assumes ok: "identities_ok as" and c: "create_identity sv user hash login what as = Ok as'"
  shows "advances sv as as'"
proof -
  obtain a where a: "as' = as @ [a]" "account_name user = Ok (ac_user a)" "ac_user a \<notin> ac_user ` set as"
    "next_identity_id (sv_catalog sv) as = Ok (ac_id a)" using create_identity_Ok [OF c] by blast
  have "list_all (\<lambda>a. 1 \<le> sint (ac_id a)) as" using ok by (simp add: identities_ok_def list_all_iff)
  from next_identity_id_Ok(2) [OF a(4) this] show ?thesis
    unfolding a(1) by (intro advances_new ok identities_ok_snoc [OF ok account_name_idem [OF a(2)] a(3,4)]) simp
qed

lemma advances_update:
  assumes "identities_ok as" and "update_account name f as = Ok as'"
    and "\<And>a b. f a = Ok b \<Longrightarrow> ac_id b = ac_id a \<and> ac_user b = ac_user a"
  shows "advances sv as as'"
proof -
  obtain xs a ys b where "as = xs @ a # ys" "f a = Ok b" "as' = xs @ b # ys"
    using update_account_Ok [OF assms(2)] by blast
  then show ?thesis using assms(3) [of a b] by (intro advances_same assms(1)) simp_all
qed

lemma advances_initialize:
  assumes "identities_ok as" and "initialize_identities sv ad as = Ok as'"
  shows "advances sv as as'"
proof -
  let ?as1 = "map (initialize_identity ad) as"
  have ok: "identities_ok ?as1" by (rule identities_ok_cong [OF _ _ assms(1)]) simp_all
  have "as' = ?as1 \<or> (\<exists>rs. add_legacy_roles sv rs ?as1 = Ok as')"
    using assms(2) by (auto simp: initialize_identities_def Let_def split: if_splits)
  then show ?thesis
  proof (elim disjE exE)
    assume "as' = ?as1" then show ?thesis by (intro advances_same assms(1)) simp_all
  next
    fix rs assume "add_legacy_roles sv rs ?as1 = Ok as'"
    then obtain new where "as' = ?as1 @ new" "identities_ok as'"
      "list_all (\<lambda>a. sint (cg_identity_high_water (sv_catalog sv)) < sint (ac_id a)) new"
      using add_legacy_roles_Ok ok by blast
    then show ?thesis by (auto simp: advances_def list_all_iff)
  qed
qed

lemma changed_accounts_advances:
  assumes ok: "identities_ok as" and c: "changed_accounts sv req as = Ok as'"
  shows "advances sv as as'"
proof (cases req)
  case (IdentityInitialize ad)
  then show ?thesis using c advances_initialize [OF ok] by (simp add: changed_accounts_def)
next
  case (AccountCreate user hash)
  then show ?thesis using c advances_create [OF ok] by (simp add: changed_accounts_def)
next
  case (RoleCreate user)
  then show ?thesis using c advances_create [OF ok] by (simp add: changed_accounts_def)
next
  case (IdentityAlter user l s e m)
  then obtain name where "update_account name (alter_identity l s e m) as = Ok as'"
    using c by (auto simp: changed_accounts_def keep_superuser_Ok)
  then show ?thesis using alter_identity_Ok by (intro advances_update [OF ok]) blast+
next
  case (AccountReset user hash)
  then obtain name where "update_account name (\<lambda>a. bindO (next_revision a) (\<lambda>a'. Ok (a'\<lparr>ac_password_hash := hash\<rparr>))) as = Ok as'"
    using c by (auto simp: changed_accounts_def)
  from advances_update [OF ok this] show ?thesis using reset_account_Ok(1) unfolding same_rights_def by blast
next
  case (AccountLogin user time)
  then obtain name where "update_account name (login_account (or_else time (sv_now sv))) as = Ok as'"
    using c by (auto simp: changed_accounts_def)
  from advances_update [OF ok this] show ?thesis using login_account_Ok(1) unfolding same_rights_def by blast
next
  case (AccountDrop user)
  then obtain name where "as' = filter (\<lambda>a. ac_user a \<noteq> name) as"
    using c by (auto simp: changed_accounts_def keep_superuser_Ok Let_def split: if_splits)
  then show ?thesis using ok by (auto simp: advances_def identities_ok_def list_all_iff distinct_map_filter)
qed (use c in \<open>simp_all add: changed_accounts_def\<close>)

lemma changed_accounts_superuser:
  assumes su: "list_ex usable_superuser as" and c: "changed_accounts sv req as = Ok as'"
  shows "list_ex usable_superuser as'"
proof -
  have update: "list_ex usable_superuser as'"
    if u: "update_account name f as = Ok as'" and f: "\<And>a b. f a = Ok b \<Longrightarrow> usable_superuser b = usable_superuser a" for name f
  proof -
    obtain xs a ys b where "as = xs @ a # ys" "f a = Ok b" "as' = xs @ b # ys"
      using update_account_Ok [OF u] by blast
    then show ?thesis using su f [of a b] by auto
  qed
  show ?thesis
  proof (cases req)
    case (IdentityInitialize ad)
    have "as \<noteq> []" using su by auto
    then have "as' \<noteq> []" using c IdentityInitialize advances_initialize
      by (auto simp: changed_accounts_def initialize_identities_def Let_def require_superuser_def split: if_splits
          dest!: add_legacy_roles_Ok)
    then show ?thesis using c IdentityInitialize
      by (auto simp: changed_accounts_def initialize_identities_def Let_def require_superuser_def split: if_splits)
  next
    case (AccountCreate user hash)
    then have "create_identity sv user hash True ''account'' as = Ok as'" using c by (simp add: changed_accounts_def)
    from create_identity_Ok [OF this] show ?thesis using su by auto
  next
    case (RoleCreate user)
    then have "create_identity sv user [] False ''identity'' as = Ok as'" using c by (simp add: changed_accounts_def)
    from create_identity_Ok [OF this] show ?thesis using su by auto
  next
    case (AccountReset user hash)
    then obtain name where "update_account name (\<lambda>a. bindO (next_revision a) (\<lambda>a'. Ok (a'\<lparr>ac_password_hash := hash\<rparr>))) as = Ok as'"
      using c by (auto simp: changed_accounts_def)
    then show ?thesis by (rule update) (rule reset_account_Ok(2))
  next
    case (AccountLogin user time)
    then obtain name where "update_account name (login_account (or_else time (sv_now sv))) as = Ok as'"
      using c by (auto simp: changed_accounts_def)
    then show ?thesis by (rule update) (rule login_account_Ok(2))
  qed (use c su in \<open>auto simp: changed_accounts_def keep_superuser_Ok Let_def split: if_splits\<close>)
qed

lemma update_privileged:
  assumes "update_account name f as = Ok as'" and "\<And>a b. f a = Ok b \<Longrightarrow> same_rights a b"
    and "\<not> list_ex (\<lambda>a. ac_user a = name \<and> privileged a) as"
  shows "filter privileged as' = filter privileged as"
proof -
  obtain xs a ys b where "as = xs @ a # ys" "ac_user a = name" "f a = Ok b" "as' = xs @ b # ys"
    using update_account_Ok [OF assms(1)] by blast
  then show ?thesis using assms(2) [of a b] assms(3) by (auto simp: same_rights_def privileged_def)
qed

lemma managed_privileged:
  assumes t: "managed_target cmd = Ok target" and c: "changed_accounts sv cmd as = Ok as'"
    and no: "\<not> list_ex (\<lambda>a. target = Some (ac_user a) \<and> privileged a) as"
  shows "filter privileged as' = filter privileged as"
proof (cases cmd)
  case (AccountCreate user hash)
  then have "create_identity sv user hash True ''account'' as = Ok as'" using c by (simp add: changed_accounts_def)
  from create_identity_Ok [OF this] show ?thesis by auto
next
  case (AccountReset user hash)
  then obtain name where u: "update_account name (\<lambda>a. bindO (next_revision a) (\<lambda>a'. Ok (a'\<lparr>ac_password_hash := hash\<rparr>))) as = Ok as'"
    and "target = Some name" using c t by (auto simp: changed_accounts_def managed_target_def)
  then show ?thesis using no by (intro update_privileged [OF u reset_account_Ok(1)]) (auto simp: list_ex_iff)
next
  case (AccountDrop user)
  then obtain name where "as' = filter (\<lambda>a. ac_user a \<noteq> name) as" "target = Some name"
    using c t by (auto simp: changed_accounts_def managed_target_def keep_superuser_Ok Let_def split: if_splits)
  then show ?thesis using no by (auto simp: list_ex_iff intro: filter_cong)
next
  case (IdentityAlter user l s e m)
  then have sm: "s = None" "m = None" using t by (auto simp: managed_target_def split: option.splits)
  then obtain name where u: "update_account name (alter_identity l s e m) as = Ok as'" and "target = Some name"
    using c t IdentityAlter by (auto simp: changed_accounts_def managed_target_def keep_superuser_Ok)
  then show ?thesis using no by (intro update_privileged [OF u alter_identity_Ok(3) [OF _ sm]]) (auto simp: list_ex_iff)
qed (use t c in \<open>simp_all add: managed_target_def changed_accounts_def\<close>)

text \<open>What a successful request went through.\<close>

lemma accounts_plan_Ok:
  assumes "accounts_plan object legacy sv request = Ok (as', op)"
  shows "\<exists>as req. load_accounts legacy sv = Ok as \<and> unwrap_managed as request = Ok req \<and>
    check_identities [] [] as = Ok (map normal_name as) \<and>
    (req = AccountsList \<and> as' = map normal_name as \<or> changed_accounts sv req (map normal_name as) = Ok as')"
proof -
  obtain "as" req bs where as: "load_accounts legacy sv = Ok as" "unwrap_managed as request = Ok req"
    "check_identities [] [] as = Ok bs" and r: "req = AccountsList \<and> as' = bs \<or> changed_accounts sv req bs = Ok as'"
    using assms by (auto simp: accounts_plan_def split: if_splits)
  have "bs = map normal_name as" using check_identities_Ok [OF as(3)] by blast
  then show ?thesis using as r by blast
qed

section \<open>Stored rows\<close>

lemma as_i64_json [simp]: "as_i64 (json_i64 n) = Some n"
  by (simp add: as_i64_def json_i64_def)

lemma find_credential:
  assumes "a \<in> set as" and "distinct (map ac_id as)"
  shows "find (\<lambda>c. field c ''id'' as_i64 = Some (ac_id a)) (account_rows as) = Some (account_row a)"
  using assms
proof (induction "as")
  case (Cons b "as")
  have "field (account_row b) ''id'' as_i64 = Some (ac_id b)" by (simp add: field_def account_row_def)
  then show ?case using Cons by (cases "a = b") (auto simp: account_rows_def rev_image_eqI)
qed simp

lemma decode_identity_row:
  "decode_account_row legacy (AList.update ''password_hash'' (JString (ac_password_hash a)) (identity_row a)) = Ok a"
proof -
  have "ucast (ucast (ac_identity_version a) :: u64) = ac_identity_version a" 
    by (rule bit_word_eqI) (simp add: bit_ucast_iff)
  then show ?thesis
    by (cases a) (simp add: decode_account_row_def identity_row_def field_def field_or_def as_str_def as_bool_def as_u64_def
        split: option.splits)
qed

lemma join_identity_row:
  assumes "a \<in> set as" and "distinct (map ac_id as)"
  shows "join_credential (account_rows as) (identity_row a) =
    Ok (AList.update ''password_hash'' (JString (ac_password_hash a)) (identity_row a))"
proof -
  have "field (identity_row a) ''id'' as_i64 = Some (ac_id a)" "map_of (account_row a) ''password_hash'' = Some (JString (ac_password_hash a))"
    "\<not> list_ex (\<lambda>k. field (identity_row a) k as_bool = None) [''can_login'', ''is_superuser'', ''enabled'']"
    by (simp_all add: field_def identity_row_def account_row_def as_bool_def)
  then show ?thesis using find_credential [OF assms] by (simp add: join_credential_def)
qed

lemma collect_map: "(\<And>x. x \<in> set xs \<Longrightarrow> f (g x) = Ok x) \<Longrightarrow> collect f (map g xs) = Ok xs"
  by (induction xs) simp_all

section \<open>Properties of the identities\<close>

text \<open>A server whose system tables hold the given accounts.\<close>

definition system_entry :: cat_table where
  "system_entry = default_table\<lparr>ct_system := True\<rparr>"

definition stored_system :: "u64 \<Rightarrow> account list \<Rightarrow> system_view" where
  "stored_system high as = \<lparr>sv_recovery = False,
     sv_catalog = default_catalog\<lparr>cg_identity_high_water := high,
       cg_tables := [(IDENTITIES_TABLE, system_entry), (USERS_TABLE, system_entry)]\<rparr>,
     sv_data_file = (\<lambda>_. True), sv_id_file = (\<lambda>_. True),
     sv_scan = (\<lambda>t. if t = USERS_TABLE then Ok (account_rows as) else if t = IDENTITIES_TABLE then Ok (identity_rows as) else Ok []),
     sv_page_size = 4096, sv_now = ''2026-01-01 00:00:00''\<rparr>"

definition sample_account :: "u64 \<Rightarrow> string \<Rightarrow> account" where
  "sample_account i name = \<lparr>ac_id = i, ac_user = name, ac_password_hash = [], ac_revision = 1, ac_registered_at = ''then'',
     ac_last_login_at = None, ac_can_login = True, ac_is_superuser = True, ac_system_catalog_manager = False,
     ac_enabled = True, ac_identity_version = 1\<rparr>"

lemma load_stored:
  assumes "distinct (map ac_id as)"
  shows "load_accounts legacy (stored_system high as) = Ok as"
proof -
  have "collect (\<lambda>r. bindO (join_credential (account_rows as) r) (decode_account_row legacy)) (map identity_row as) = Ok as"
    by (rule collect_map) (simp add: join_identity_row [OF _ assms] decode_identity_row)
  moreover have "describe (sv_catalog (stored_system high as)) IDENTITIES_TABLE \<noteq> None"
    by (simp add: stored_system_def describe_def)
  moreover have "USERS_TABLE \<noteq> IDENTITIES_TABLE" by (simp add: USERS_TABLE_def IDENTITIES_TABLE_def)
  ultimately show ?thesis by (simp add: load_accounts_def stored_system_def identity_rows_def)
qed

lemma stored_ready: "account_table_ready (stored_system high as) = Ok True"
  by (simp add: account_table_ready_def stored_system_def describe_def system_entry_def USERS_TABLE_def IDENTITIES_TABLE_def)

text \<open>
  Property (C16).  No account request can lock the administrators out: if an enabled superuser who
  may log in exists before a request, whatever the request and whatever is stored besides, then one
  exists in the list the request logs and answers.
\<close>

theorem superuser_kept:
  assumes "accounts_plan object legacy sv request = Ok (as', op)" and "load_accounts legacy sv = Ok as"
    and "list_ex usable_superuser as"
  shows "list_ex usable_superuser as'"
proof -
  have "list_ex usable_superuser (map normal_name as)" using assms(3) by (simp add: list_ex_iff)
  then show ?thesis using accounts_plan_Ok [OF assms(1)] changed_accounts_superuser assms(2) by auto
qed

theorem superuser_kept_witness:
  "list_ex usable_superuser [(sample_account 1 ''root'')\<lparr>ac_last_login_at := Some ''now''\<rparr>]"
proof (rule superuser_kept [where object = sample_object and legacy = "\<lambda>_. None" and sv = "stored_system 1 [sample_account 1 ''root'']"
      and request = "AccountLogin ''Root'' (Some ''now'')"])
  have plan: "account_name ''Root'' = Ok ''root''" "account_name ''root'' = Ok ''root''" by code_simp+
  have no: "describe (sv_catalog (stored_system 1 [sample_account 1 ''root''])) LEGACY_ROLES = None"
    by (simp add: stored_system_def describe_def LEGACY_ROLES_def USERS_TABLE_def IDENTITIES_TABLE_def)
  show "accounts_plan sample_object (\<lambda>_. None) (stored_system 1 [sample_account 1 ''root'']) (AccountLogin ''Root'' (Some ''now'')) =
    Ok ([(sample_account 1 ''root'')\<lparr>ac_last_login_at := Some ''now''\<rparr>],
        Some (accounts_op False [sample_account 1 ''root''] [(sample_account 1 ''root'')\<lparr>ac_last_login_at := Some ''now''\<rparr>]))"
    unfolding accounts_plan_def stored_ready using load_stored [of "[sample_account 1 ''root'']"] plan no
    by (simp add: unwrap_managed_def sample_account_def check_migrated_def changed_accounts_def login_account_def or_else_def
        nothing_to_do_def is_initialize_def account_rows_def identity_rows_def encode_row_def sample_object_def HEADER_SIZE_def
        SLOT_SIZE_def) (simp add: stored_system_def)
next
  show "load_accounts (\<lambda>_. None) (stored_system 1 [sample_account 1 ''root'']) = Ok [sample_account 1 ''root'']"
    by (simp add: load_stored)
  show "list_ex usable_superuser [sample_account 1 ''root'']"
    by (simp add: list_ex_iff usable_superuser_def sample_account_def)
qed

text \<open>
  Property (C17).  A system catalog manager cannot touch a privileged identity nor create one: a
  request under that role leaves the superusers and catalog managers of the list exactly as they
  were, provided the stored names of privileged identities are in lower case, as every request
  stores them.
\<close>

theorem catalog_manager_contained:
  assumes "accounts_plan object legacy sv (CatalogManage command) = Ok (as', op)" and "load_accounts legacy sv = Ok as"
    and "list_all (\<lambda>a. privileged a \<longrightarrow> ascii_lowercase (ac_user a) = ac_user a) as"
  shows "filter privileged as' = filter privileged as"
proof -
  obtain target where t: "managed_target command = Ok target"
    and no: "\<not> list_ex (\<lambda>a. target = Some (ac_user a) \<and> privileged a) as"
    and c: "command = AccountsList \<and> as' = map normal_name as \<or> changed_accounts sv command (map normal_name as) = Ok as'"
    using accounts_plan_Ok [OF assms(1)] assms(2) by (auto simp: unwrap_managed_def split: if_splits)
  have same: "normal_name a = a" if "a \<in> set as" "privileged a" for a
    using that assms(3) by (auto simp: normal_name_def list_all_iff)
  have "filter privileged (map normal_name bs) = filter privileged bs" if "set bs \<subseteq> set as" for bs
    using that same by (induction bs) auto
  then have keep: "filter privileged (map normal_name as) = filter privileged as" by blast
  have "\<not> list_ex (\<lambda>a. target = Some (ac_user a) \<and> privileged a) (map normal_name as)"
    using no same by (auto simp: list_ex_iff)
  then show ?thesis using c keep managed_privileged [OF t] by auto
qed

theorem catalog_manager_contained_witness:
  "filter privileged ([sample_account 1 ''root''] @ []) = filter privileged [sample_account 1 ''root'']"
proof (rule catalog_manager_contained [where object = sample_object and legacy = "\<lambda>_. None"
      and sv = "stored_system 1 [sample_account 1 ''root'']" and command = AccountsList and op = None])
  have n: "account_name ''root'' = Ok ''root''" by code_simp
  show "accounts_plan sample_object (\<lambda>_. None) (stored_system 1 [sample_account 1 ''root'']) (CatalogManage AccountsList) =
    Ok ([sample_account 1 ''root''] @ [], None)"
    unfolding accounts_plan_def stored_ready using load_stored [of "[sample_account 1 ''root'']"] n
    by (simp add: unwrap_managed_def managed_target_def sample_account_def check_migrated_def) (simp add: stored_system_def)
  show "load_accounts (\<lambda>_. None) (stored_system 1 [sample_account 1 ''root'']) = Ok [sample_account 1 ''root'']"
    by (simp add: load_stored)
  have "ascii_lowercase ''root'' = ''root''" by code_simp
  then show "list_all (\<lambda>a. privileged a \<longrightarrow> ascii_lowercase (ac_user a) = ac_user a) [sample_account 1 ''root'']"
    by (simp add: sample_account_def)
qed

text \<open>
  Property (C18).  Identities stay unique: after any successful request on a list whose current
  entries have lower-case names, all names and all numbers are different, names are valid, numbers
  are positive, and every number that is new lies above the dictionary's high-water mark, so the
  number of a dropped identity is never given out again.
\<close>

theorem identities_unique:
  assumes "accounts_plan object legacy sv request = Ok (as', op)" and "load_accounts legacy sv = Ok as"
    and "list_all (\<lambda>a. ac_identity_version a \<noteq> 0 \<longrightarrow> ascii_lowercase (ac_user a) = ac_user a) as"
  shows "identities_ok as' \<and>
    list_all (\<lambda>a. ac_id a \<in> ac_id ` set as \<or> sint (cg_identity_high_water (sv_catalog sv)) < sint (ac_id a)) as'"
proof -
  obtain req where chk: "check_identities [] [] as = Ok (map normal_name as)"
    and c: "req = AccountsList \<and> as' = map normal_name as \<or> changed_accounts sv req (map normal_name as) = Ok as'"
    using accounts_plan_Ok [OF assms(1)] assms(2) by auto
  have user: "ac_user (normal_name a) = ascii_lowercase (ac_user a)" if "a \<in> set as" for a
    using that assms(3) by (auto simp: normal_name_def list_all_iff)
  have names: "map ac_user (map normal_name as) = map (\<lambda>a. ascii_lowercase (ac_user a)) as" using user by simp
  have ids: "map ac_id (map normal_name as) = map ac_id as" by simp
  note chk' = check_identities_Ok [OF chk]
  have "list_all (\<lambda>a. account_name (ac_user a) = Ok (ac_user a) \<and> 1 \<le> sint (ac_id a)) (map normal_name as)"
    using chk' user account_name_idem by (auto simp: list_all_iff)
  then have ok: "identities_ok (map normal_name as)" unfolding identities_ok_def names ids using chk' by blast
  have "advances sv (map normal_name as) as'"
    using c advances_same [OF ok refl refl] changed_accounts_advances [OF ok] by auto
  then show ?thesis by (simp add: advances_def image_image)
qed

theorem identities_unique_witness:
  "identities_ok [sample_account 1 ''root''] \<and>
    list_all (\<lambda>a. ac_id a \<in> ac_id ` set [sample_account 1 ''root''] \<or>
      sint (cg_identity_high_water (sv_catalog (stored_system 1 [sample_account 1 ''root'']))) < sint (ac_id a)) [sample_account 1 ''root'']"
proof (rule identities_unique [where object = sample_object and legacy = "\<lambda>_. None" and request = AccountsList and op = None])
  have n: "account_name ''root'' = Ok ''root''" by code_simp
  show "accounts_plan sample_object (\<lambda>_. None) (stored_system 1 [sample_account 1 ''root'']) AccountsList =
    Ok ([sample_account 1 ''root''], None)"
    unfolding accounts_plan_def stored_ready using load_stored [of "[sample_account 1 ''root'']"] n
    by (simp add: unwrap_managed_def sample_account_def check_migrated_def) (simp add: stored_system_def)
  show "load_accounts (\<lambda>_. None) (stored_system 1 [sample_account 1 ''root'']) = Ok [sample_account 1 ''root'']"
    by (simp add: load_stored)
  have "ascii_lowercase ''root'' = ''root''" by code_simp
  then show "list_all (\<lambda>a. ac_identity_version a \<noteq> 0 \<longrightarrow> ascii_lowercase (ac_user a) = ac_user a) [sample_account 1 ''root'']"
    by (simp add: sample_account_def)
qed

end
