(* ===== verification/Domains.thy ===== *)
theory Domains
  imports Catalog Std_Text
begin

text \<open>
  Type names of columns in \<open>runtime.rs\<close>: the wrapper \<open>domain(name,base)\<close>, the check of the domains
  that a schema refers to, and the decimal types with the normalisation of their values.  The
  precision of \<open>f64::powi\<close> is left open by its documentation, so the powers of ten are the
  parameter \<open>pow10\<close>.
\<close>

section \<open>Text\<close>

definition strip_suffix :: "string \<Rightarrow> string \<Rightarrow> string option" where
  "strip_suffix p s = map_option rev (strip_prefix (rev p) (rev s))"

definition split_once :: "char \<Rightarrow> string \<Rightarrow> (string \<times> string) option" where
  "split_once c s = (case dropWhile (\<lambda>x. x \<noteq> c) s of
       [] \<Rightarrow> None
     | _ # rest \<Rightarrow> Some (takeWhile (\<lambda>x. x \<noteq> c) s, rest))"

fun split_char :: "char \<Rightarrow> string \<Rightarrow> string list" where
  "split_char c [] = [[]]"
| "split_char c (x # xs) = (if x = c then [] # split_char c xs
     else (case split_char c xs of [] \<Rightarrow> [[x]] | w # ws \<Rightarrow> (x # w) # ws))"

definition parse_i32 :: "string \<Rightarrow> int option" where
  "parse_i32 s = (let minus = starts_with ''-'' s; ds = (if minus \<or> starts_with ''+'' s then tl s else s);
       v = (if minus then - int (parse_digits 0 ds) else int (parse_digits 0 ds)) in
     if ds \<noteq> [] \<and> list_all ascii_digit ds \<and> - (2 ^ 31) \<le> v \<and> v < 2 ^ 31 then Some v else None)"

lemma strip_suffix_Some: "strip_suffix p s = Some t \<longleftrightarrow> s = t @ p"
proof -
  have "strip_suffix p s = Some t \<longleftrightarrow> strip_prefix (rev p) (rev s) = Some (rev t)"
    unfolding strip_suffix_def by (cases "strip_prefix (rev p) (rev s)") auto
  also have "\<dots> \<longleftrightarrow> s = t @ p" unfolding strip_prefix_Some by (metis rev_append rev_rev_ident)
  finally show ?thesis .
qed

lemma split_once_Some: "split_once c s = Some (a, b) \<longleftrightarrow> s = a @ c # b \<and> c \<notin> set a"
proof
  assume "split_once c s = Some (a, b)"
  then obtain x where x: "dropWhile (\<lambda>x. x \<noteq> c) s = x # b" and a: "a = takeWhile (\<lambda>x. x \<noteq> c) s"
    by (auto simp: split_once_def split: list.splits)
  have "x = c" using hd_dropWhile [of "\<lambda>x. x \<noteq> c" s] x by simp
  then show "s = a @ c # b \<and> c \<notin> set a"
    using x a takeWhile_dropWhile_id [of "\<lambda>x. x \<noteq> c" s] by (auto dest: set_takeWhileD)
next
  assume h: "s = a @ c # b \<and> c \<notin> set a"
  then have "\<forall>x \<in> set a. x \<noteq> c" by auto
  then show "split_once c s = Some (a, b)"
    using h by (simp add: split_once_def takeWhile_append2 dropWhile_append2)
qed

section \<open>Domains\<close>

definition DOMAIN_PREFIX :: string where "DOMAIN_PREFIX = ''__system_domain_''"

text \<open>\<open>ty.strip_prefix("domain(").and_then(|body| body.strip_suffix(')'))\<close>\<close>

definition domain_body :: "string \<Rightarrow> string option" where
  "domain_body ty = Option.bind (strip_prefix ''domain('' ty) (strip_suffix '')'')"

lemma domain_body_Some: "domain_body ty = Some body \<longleftrightarrow> ty = ''domain('' @ body @ '')''"
  by (auto simp: domain_body_def bind_eq_Some_conv strip_prefix_Some strip_suffix_Some)

lemma domain_body_shorter: "domain_body ty = Some body \<Longrightarrow> split_once c body = Some (a, b) \<Longrightarrow> length b < length ty"
  by (auto simp: domain_body_Some split_once_Some)

function type_uses_domain :: "string \<Rightarrow> string \<Rightarrow> bool" where
  "type_uses_domain ty name = (case domain_body ty of
       None \<Rightarrow> False
     | Some body \<Rightarrow> (case split_once (CHR '','') body of
          None \<Rightarrow> False
        | Some (domain, base) \<Rightarrow> domain = name \<or> type_uses_domain base name))"
  by pat_completeness auto
termination
  by (relation "measure (\<lambda>(ty, name). length ty)") (auto dest: domain_body_shorter)

text \<open>The loop of \<open>validate_domains\<close> over the wrappers of one column type.\<close>

function check_domains :: "catalog \<Rightarrow> string \<Rightarrow> unit outcome" where
  "check_domains c ty = (case domain_body ty of
       None \<Rightarrow> Ok ()
     | Some body \<Rightarrow> (case split_once (CHR '','') body of
          None \<Rightarrow> Err (other_error ''invalid domain type'')
        | Some (name, base) \<Rightarrow> (case describe c (DOMAIN_PREFIX @ name) of
             None \<Rightarrow> Err (other_error (''unknown domain: '' @ name))
           | Some e \<Rightarrow>
              if \<not> list_ex (\<lambda>col. sc_name col = ''base'' \<and> sc_ty col = base) (ct_columns e)
              then Err (other_error (''domain base type mismatch: '' @ name))
              else check_domains c base)))"
  by pat_completeness auto
termination
  by (relation "measure (\<lambda>(c, ty). length ty)") (auto dest: domain_body_shorter)

declare type_uses_domain.simps [simp del] check_domains.simps [simp del]

fun check_column_domains :: "catalog \<Rightarrow> schema_column list \<Rightarrow> unit outcome" where
  "check_column_domains c [] = Ok ()"
| "check_column_domains c (col # cols) = (case check_domains c (sc_ty col) of
       Ok _ \<Rightarrow> check_column_domains c cols
     | e \<Rightarrow> e)"

definition domain_in_use :: "catalog \<Rightarrow> string \<Rightarrow> bool" where
  "domain_in_use c name \<longleftrightarrow> list_ex (\<lambda>(_, e). list_ex (\<lambda>col. sc_name col \<notin> ct_dropped_columns e \<and>
     type_uses_domain (sc_ty col) name) (ct_columns e)) (all_tables c)"

section \<open>Decimal types\<close>

lemma length_trim: "length (trim s) \<le> length s"
proof -
  obtain u where "trim_start s = trim_end (trim_start s) @ u" using trim_end_prefix by blast
  then have "length (trim s) \<le> length (trim_start s)" unfolding trim_def by (metis length_append le_add1)
  moreover obtain v where "s = v @ trim_start s" unfolding trim_start_def using trim_words_suffix by blast
  then have "length (trim_start s) \<le> length s" by (metis length_append le_add2)
  ultimately show ?thesis by simp
qed

function decimal_base :: "string \<Rightarrow> string outcome" where
  "decimal_base base = (case domain_body base of
       None \<Rightarrow> Ok base
     | Some body \<Rightarrow> (case split_once (CHR '','') body of
          None \<Rightarrow> Err (other_error ''invalid domain type'')
        | Some (_, rest) \<Rightarrow> decimal_base (trim rest)))"
  by pat_completeness auto
termination
  by (relation "measure length") (auto intro: le_less_trans [OF length_trim] dest: domain_body_shorter)

declare decimal_base.simps [simp del]

definition decimal_error :: io_error where
  "decimal_error = other_error ''invalid decimal precision or scale''"

definition decimal_parameters :: "string \<Rightarrow> (int \<times> int) option outcome" where
  "decimal_parameters ty = (case decimal_base (trim ty) of
       Ok base \<Rightarrow> (let normalized = normalize_type base in
         if normalized = ''decimal'' then Ok (Some (10, 0))
         else if \<not> starts_with ''decimal('' normalized then Ok None
         else (case Option.bind (strip_prefix ''decimal('' normalized) (strip_suffix '')'') of
             None \<Rightarrow> Err decimal_error
           | Some body \<Rightarrow> (case all_some (map (parse_i32 \<circ> trim) (split_char (CHR '','') body)) of
               None \<Rightarrow> Err decimal_error
             | Some values \<Rightarrow> (case (case values of [p] \<Rightarrow> Some (p, 0) | [p, s] \<Rightarrow> Some (p, s) | _ \<Rightarrow> None) of
                 None \<Rightarrow> Err decimal_error
               | Some (precision, scale) \<Rightarrow>
                   if \<not> (1 \<le> precision \<and> precision \<le> 308) \<or> scale < 0 \<or> precision < scale then Err decimal_error
                   else Ok (Some (precision, scale))))))
     | Err e \<Rightarrow> Err e
     | Panic \<Rightarrow> Panic)"

text \<open>
  The bits of a double, and \<open>serde_json::json!\<close> of one; \<open>negative\<close> is the sign of a zero, which
  the values of \<open>f64\<close> here do not carry.
\<close>

definition f64_bits :: "f64 \<Rightarrow> u64" where
  "f64_bits x = (case x of
       NaN \<Rightarrow> 0x7FF8000000000000
     | Infinite neg \<Rightarrow> (if neg then push_bit 63 1 else 0) OR 0x7FF0000000000000
     | Finite q \<Rightarrow> if q = 0 then 0 else (let e = last_place \<bar>q\<bar>; m = nat \<lfloor>\<bar>q\<bar> / two_to e\<rfloor> in
         (if q < 0 then push_bit 63 1 else 0) OR
         word_of_nat (if m < 2 ^ 52 then m else nat (e + 1075) * 2 ^ 52 + (m - 2 ^ 52))))"

definition negative_number :: "json \<Rightarrow> bool" where
  "negative_number v = (case v of JNumber (NegInt _) \<Rightarrow> True | JNumber (Float b) \<Rightarrow> bit b 63 | _ \<Rightarrow> False)"

definition json_f64 :: "bool \<Rightarrow> f64 \<Rightarrow> json" where
  "json_f64 negative x = (case x of
       Finite q \<Rightarrow> JNumber (Float (if q = 0 \<and> negative then push_bit 63 1 else f64_bits x))
     | _ \<Rightarrow> JNull)"

definition round_ties_even :: "f64 \<Rightarrow> f64" where
  "round_ties_even x = (case x of Finite q \<Rightarrow> Finite (of_int (round_half_even q)) | _ \<Rightarrow> x)"

definition f64_abs :: "f64 \<Rightarrow> f64" where
  "f64_abs x = (case x of Finite q \<Rightarrow> Finite \<bar>q\<bar> | Infinite _ \<Rightarrow> Infinite False | NaN \<Rightarrow> NaN)"

definition normalize_decimal :: "(int \<Rightarrow> f64) \<Rightarrow> int \<Rightarrow> int \<Rightarrow> json \<Rightarrow> json outcome" where
  "normalize_decimal pow10 precision scale v = (case as_f64 v of
       None \<Rightarrow> Err (other_error ''invalid decimal value'')
     | Some number \<Rightarrow> (let factor = pow10 scale; scaled = f64_mul number factor in
         case scaled of
           Finite q \<Rightarrow> (let rounded = f64_div (round_ties_even scaled) factor in
             if f64_le (pow10 (precision - scale)) (f64_abs rounded)
             then Err (other_error ''decimal value exceeds precision'')
             else Ok (json_f64 (negative_number v) rounded))
         | _ \<Rightarrow> Err (other_error ''decimal value is not finite or exceeds precision'')))"

definition set_field :: "string \<Rightarrow> json \<Rightarrow> row \<Rightarrow> row" where
  "set_field name v = map (\<lambda>(k, w). if k = name then (k, v) else (k, w))"

fun normalize_decimal_row :: "(int \<Rightarrow> f64) \<Rightarrow> schema_column list \<Rightarrow> row \<Rightarrow> row outcome" where
  "normalize_decimal_row pow10 [] r = Ok r"
| "normalize_decimal_row pow10 (col # cols) r = (case decimal_parameters (sc_ty col) of
       Ok (Some (precision, scale)) \<Rightarrow> (case map_of r (sc_name col) of
           None \<Rightarrow> normalize_decimal_row pow10 cols r
         | Some v \<Rightarrow> if v = JNull then normalize_decimal_row pow10 cols r
             else (case normalize_decimal pow10 precision scale v of
                 Ok w \<Rightarrow> normalize_decimal_row pow10 cols (set_field (sc_name col) w r)
               | Err e \<Rightarrow> Err e
               | Panic \<Rightarrow> Panic))
     | Ok None \<Rightarrow> normalize_decimal_row pow10 cols r
     | Err e \<Rightarrow> Err e
     | Panic \<Rightarrow> Panic)"

fun check_decimals :: "schema_column list \<Rightarrow> unit outcome" where
  "check_decimals [] = Ok ()"
| "check_decimals (col # cols) = (case decimal_parameters (sc_ty col) of
       Ok _ \<Rightarrow> check_decimals cols
     | Err e \<Rightarrow> Err e
     | Panic \<Rightarrow> Panic)"

fun map_rows :: "(row \<Rightarrow> row outcome) \<Rightarrow> row list \<Rightarrow> row list outcome" where
  "map_rows f [] = Ok []"
| "map_rows f (r # rs) = (case f r of
       Ok r' \<Rightarrow> (case map_rows f rs of Ok rs' \<Rightarrow> Ok (r' # rs') | Err e \<Rightarrow> Err e | Panic \<Rightarrow> Panic)
     | Err e \<Rightarrow> Err e
     | Panic \<Rightarrow> Panic)"

section \<open>Checks of one operation\<close>

definition normalize_rows :: "(int \<Rightarrow> f64) \<Rightarrow> catalog \<Rightarrow> string \<Rightarrow> row list \<Rightarrow> row list outcome" where
  "normalize_rows pow10 c t rows = (case describe c t of
       None \<Rightarrow> Ok rows
     | Some e \<Rightarrow> map_rows (normalize_decimal_row pow10 (ct_columns e)) rows)"

definition map_outcome :: "('a \<Rightarrow> 'b) \<Rightarrow> 'a outcome \<Rightarrow> 'b outcome" where
  "map_outcome f r = (case r of Ok x \<Rightarrow> Ok (f x) | Err e \<Rightarrow> Err e | Panic \<Rightarrow> Panic)"

definition normalize_decimal_write :: "(int \<Rightarrow> f64) \<Rightarrow> catalog \<Rightarrow> wal_op \<Rightarrow> wal_op outcome" where
  "normalize_decimal_write pow10 c op = (case op of
       WInsert t r \<Rightarrow> map_outcome (\<lambda>rs. WInsert t (hd rs)) (normalize_rows pow10 c t [r])
     | WInsertBatch t rows \<Rightarrow> map_outcome (WInsertBatch t) (normalize_rows pow10 c t rows)
     | WReplaceAll t rows \<Rightarrow> map_outcome (WReplaceAll t) (normalize_rows pow10 c t rows)
     | WCreateTable t columns i \<Rightarrow> map_outcome (\<lambda>_. op) (check_decimals columns)
     | WReplaceSchema t columns v rows \<Rightarrow> (case check_decimals columns of
           Ok _ \<Rightarrow> map_outcome (WReplaceSchema t columns v) (map_rows (normalize_decimal_row pow10 columns) rows)
         | Err e \<Rightarrow> Err e
         | Panic \<Rightarrow> Panic)
     | _ \<Rightarrow> Ok op)"

definition validate_domains :: "catalog \<Rightarrow> wal_op \<Rightarrow> unit outcome" where
  "validate_domains c op = (case op of
       WCreateTable t columns i \<Rightarrow> check_column_domains c columns
     | WReplaceSchema t columns v rows \<Rightarrow> check_column_domains c columns
     | WDropTable t \<Rightarrow> (case strip_prefix DOMAIN_PREFIX t of
           None \<Rightarrow> Ok ()
         | Some name \<Rightarrow> if domain_in_use c name
             then Err (other_error (''domain is still used by a column: '' @ name)) else Ok ())
     | _ \<Rightarrow> Ok ())"

definition dropped_field :: "catalog \<Rightarrow> string \<Rightarrow> row list \<Rightarrow> string option" where
  "dropped_field c t rows = Option.bind (describe c t) (\<lambda>e.
     find (\<lambda>k. k \<in> ct_dropped_columns e) (concat (map (map fst) rows)))"

definition has_column :: "catalog \<Rightarrow> string \<Rightarrow> string \<Rightarrow> bool" where
  "has_column c t column \<longleftrightarrow> (case describe c t of
       None \<Rightarrow> False
     | Some e \<Rightarrow> column \<in> sc_name ` set (ct_columns e))"

definition validate_rows :: "catalog \<Rightarrow> string \<Rightarrow> row list \<Rightarrow> unit outcome" where
  "validate_rows c t rows = (case dropped_field c t rows of
       None \<Rightarrow> Ok ()
     | Some name \<Rightarrow> Err (other_error (''unknown column: '' @ name)))"

definition validate_op :: "catalog \<Rightarrow> wal_op \<Rightarrow> unit outcome" where
  "validate_op c op = (case op of
       WInsert t r \<Rightarrow> validate_rows c t [r]
     | WInsertBatch t rows \<Rightarrow> validate_rows c t rows
     | WReplaceAll t rows \<Rightarrow> validate_rows c t rows
     | WHideColumn t column v \<Rightarrow> if \<not> has_column c t column
         then Err (other_error (''unknown column: '' @ column)) else Ok ()
     | _ \<Rightarrow> Ok ())"

section \<open>References to domains\<close>

text \<open>Every wrapper of a column type that is not dropped names a domain of the dictionary with that base type.\<close>

definition domains_ok :: "catalog \<Rightarrow> bool" where
  "domains_ok c \<longleftrightarrow> bt_ok (cg_tables c) \<and> (\<forall>t e. describe c t = Some e \<longrightarrow>
     (\<forall>col \<in> set (ct_columns e). sc_name col \<in> ct_dropped_columns e \<or> check_domains c (sc_ty col) = Ok ()))"

lemma check_domains_step:
  "check_domains c ty = Ok () \<longleftrightarrow> (case domain_body ty of
     None \<Rightarrow> True
   | Some body \<Rightarrow> (\<exists>name base e. split_once (CHR '','') body = Some (name, base) \<and> describe c (DOMAIN_PREFIX @ name) = Some e \<and>
       (\<exists>col \<in> set (ct_columns e). sc_name col = ''base'' \<and> sc_ty col = base) \<and> check_domains c base = Ok ()))"
  by (subst check_domains.simps) (auto simp: list_ex_iff split: option.splits)

lemma check_domains_mono:
  assumes "check_domains c ty = Ok ()"
    and "\<And>name e. type_uses_domain ty name \<Longrightarrow> describe c (DOMAIN_PREFIX @ name) = Some e \<Longrightarrow> describe c' (DOMAIN_PREFIX @ name) = Some e"
  shows "check_domains c' ty = Ok ()"
  using assms
proof (induction c ty rule: check_domains.induct)
  case (1 c ty)
  show ?case
  proof (cases "domain_body ty")
    case None
    then show ?thesis by (subst check_domains_step) simp
  next
    case (Some body)
    then obtain name base e where h: "split_once (CHR '','') body = Some (name, base)" "describe c (DOMAIN_PREFIX @ name) = Some e"
      "\<exists>col \<in> set (ct_columns e). sc_name col = ''base'' \<and> sc_ty col = base" "check_domains c base = Ok ()"
      using 1(2) by (subst (asm) check_domains_step) auto
    have uses: "type_uses_domain ty n \<longleftrightarrow> n = name \<or> type_uses_domain base n" for n
      by (subst type_uses_domain.simps) (auto simp: Some h(1))
    have "list_ex (\<lambda>col. sc_name col = ''base'' \<and> sc_ty col = base) (ct_columns e)" using h(3) by (simp add: list_ex_iff)
    then have "check_domains c' base = Ok ()" using 1(1) [OF Some h(1) refl h(2)] h(4) 1(3) uses by simp
    moreover have "describe c' (DOMAIN_PREFIX @ name) = Some e" using 1(3) h(2) uses by simp
    ultimately show ?thesis using Some h(1,3) by (subst check_domains_step) auto
  qed
qed

lemma check_domains_uses:
  "check_domains c ty = Ok () \<Longrightarrow> type_uses_domain ty name \<Longrightarrow> describe c (DOMAIN_PREFIX @ name) \<noteq> None"
proof (induction c ty rule: check_domains.induct)
  case (1 c ty)
  from 1(3) obtain body domain base where b: "domain_body ty = Some body" "split_once (CHR '','') body = Some (domain, base)"
    "domain = name \<or> type_uses_domain base name"
    by (subst (asm) type_uses_domain.simps) (auto split: option.splits)
  then obtain e where e: "describe c (DOMAIN_PREFIX @ domain) = Some e" "check_domains c base = Ok ()"
    "list_ex (\<lambda>col. sc_name col = ''base'' \<and> sc_ty col = base) (ct_columns e)"
    using 1(2) by (subst (asm) check_domains_step) (auto simp: list_ex_iff)
  then show ?case using b(3) 1(1) [OF b(1,2) refl e(1)] by auto
qed

lemma check_column_domains_Ok:
  "check_column_domains c cols = Ok () \<longleftrightarrow> (\<forall>col \<in> set cols. check_domains c (sc_ty col) = Ok ())"
  by (induction cols) (auto split: outcome.splits)

lemma drop_domains:
  assumes ok: "domains_ok c" and v: "validate_domains c (WDropTable t) = Ok ()" and d: "drop_table t c = (Ok (), c')"
  shows "domains_ok c'"
proof -
  have c': "describe c' k = (if k = t then None else describe c k)" for k
    using d by (auto simp: drop_table_def on_entry_def bindM_def getM_def modM_def errM_def describe_def forget_seen_def get_bt_remove
        split: option.splits)
  have bt: "bt_ok (cg_tables c')"
    using d ok by (auto simp: drop_table_def on_entry_def bindM_def getM_def modM_def errM_def forget_seen_def domains_ok_def
        split: option.splits)
  have "check_domains c' (sc_ty col) = Ok ()"
    if e: "describe c u = Some e" "col \<in> set (ct_columns e)" "sc_name col \<notin> ct_dropped_columns e" for u e col
  proof (rule check_domains_mono)
    show "check_domains c (sc_ty col) = Ok ()" using ok e by (auto simp: domains_ok_def)
    fix name f assume f: "type_uses_domain (sc_ty col) name" "describe c (DOMAIN_PREFIX @ name) = Some f"
    have "domain_in_use c name"
      using e f(1) map_of_SomeD [of "cg_tables c" u e]
      by (auto simp: domain_in_use_def all_tables_def list_ex_iff describe_def intro!: bexI [of _ "(u, e)"])
    moreover have "strip_prefix DOMAIN_PREFIX (DOMAIN_PREFIX @ name) = Some name" by (simp add: strip_prefix_Some)
    ultimately have "DOMAIN_PREFIX @ name \<noteq> t" using v by (auto simp: validate_domains_def)
    then show "describe c' (DOMAIN_PREFIX @ name) = Some f" using f(2) c' by simp
  qed
  then show ?thesis using bt c' by (auto simp: domains_ok_def split: if_splits)
qed

lemma create_domains:
  assumes ok: "domains_ok c" and v: "validate_domains c (WCreateTable t cols i) = Ok ()"
    and d: "create_table_with_id t cols i c = (Ok (), c')"
  shows "domains_ok c'"
proof -
  have tables: "describe c t = None \<and> (\<exists>obj. cg_tables c' = bt_insert t (new_table obj cols) (cg_tables c))"
    using d by (auto simp: create_table_with_id_def reserve_object_id_def bindM_def seqM_def getM_def modM_def okM_def errM_def
        put_entry_def describe_def split: option.splits if_splits)
  then obtain obj where t: "describe c t = None" "cg_tables c' = bt_insert t (new_table obj cols) (cg_tables c)" by blast
  have bt: "bt_ok (cg_tables c)" using ok by (simp add: domains_ok_def)
  have c': "describe c' k = (if k = t then Some (new_table obj cols) else describe c k)" for k
    using t(2) bt by (simp add: describe_def get_bt_insert)
  have keep: "check_domains c' ty = Ok ()" if "check_domains c ty = Ok ()" for ty
    by (rule check_domains_mono [OF that]) (use c' t(1) in auto)
  have "check_domains c (sc_ty col) = Ok ()" if "col \<in> set cols" for col
    using v that by (simp add: validate_domains_def check_column_domains_Ok)
  then have new: "check_domains c' (sc_ty col) = Ok ()" if "col \<in> set (ct_columns (new_table obj cols))" for col
    using that keep by (simp add: new_table_def)
  have "bt_ok (cg_tables c')" using bt t(2) by simp
  moreover have "sc_name col \<in> ct_dropped_columns e \<or> check_domains c' (sc_ty col) = Ok ()"
    if "describe c' u = Some e" "col \<in> set (ct_columns e)" for u e col
    using that c' [of u] new ok keep unfolding domains_ok_def by (cases "u = t") fastforce+
  ultimately show ?thesis by (auto simp: domains_ok_def)
qed

text \<open>
  Property (C36).  The checks of a write keep every column type well-formed: if the wrappers of all
  columns in use name domains of the dictionary with the right base type, this still holds after
  creating a table or dropping a table that the checks let pass, and so no column type in use refers
  to a missing domain.
\<close>

theorem domain_references_kept:
  assumes "domains_ok c" and "validate_domains c op = Ok ()"
    and "op = WDropTable t \<and> drop_table t c = (Ok (), c') \<or> op = WCreateTable t cols i \<and> create_table_with_id t cols i c = (Ok (), c')"
  shows "domains_ok c' \<and> (\<forall>u e col name. describe c' u = Some e \<longrightarrow> col \<in> set (ct_columns e) \<longrightarrow>
    sc_name col \<notin> ct_dropped_columns e \<longrightarrow> type_uses_domain (sc_ty col) name \<longrightarrow> describe c' (DOMAIN_PREFIX @ name) \<noteq> None)"
proof -
  have "domains_ok c'" using assms drop_domains create_domains by blast
  then show ?thesis using check_domains_uses unfolding domains_ok_def by metis
qed

definition sample_domains :: catalog where
  "sample_domains = default_catalog\<lparr>cg_tables := [(''__system_domain_d'',
     new_table 1 [default_column\<lparr>sc_name := ''base'', sc_ty := ''int''\<rparr>])]\<rparr>"

theorem domain_references_kept_witness:
  "\<exists>c'. create_table_with_id ''t'' [default_column\<lparr>sc_name := ''x'', sc_ty := ''domain(d,int)''\<rparr>] (Some 2) sample_domains = (Ok (), c') \<and>
     domains_ok c'"
proof -
  let ?cols = "[default_column\<lparr>sc_name := ''x'', sc_ty := ''domain(d,int)''\<rparr>]"
  let ?c' = "put_entry ''t'' (new_table 2 ?cols) (sample_domains\<lparr>cg_object_high_water := 2\<rparr>)"
  have int: "check_domains c ''int'' = Ok ()" for c
    by (subst check_domains_step) (simp add: domain_body_def strip_prefix_def)
  have body: "domain_body ''domain(d,int)'' = Some ''d,int''" by (simp add: domain_body_Some)
  have once: "split_once (CHR '','') ''d,int'' = Some (''d'', ''int'')" by (simp add: split_once_def)
  have "domains_ok sample_domains"
    using int by (auto simp: domains_ok_def sample_domains_def describe_def new_table_def bt_ok_Cons split: if_splits)
  moreover have "check_domains sample_domains ''domain(d,int)'' = Ok ()"
  proof -
    have "describe sample_domains (DOMAIN_PREFIX @ ''d'') = Some (new_table 1 [default_column\<lparr>sc_name := ''base'', sc_ty := ''int''\<rparr>])"
      by (simp add: sample_domains_def describe_def DOMAIN_PREFIX_def)
    then show ?thesis using int [of sample_domains] by (subst check_domains_step) (simp add: body once new_table_def)
  qed
  then have "validate_domains sample_domains (WCreateTable ''t'' ?cols (Some 2)) = Ok ()"
    by (simp add: validate_domains_def)
  moreover have c: "create_table_with_id ''t'' ?cols (Some 2) sample_domains = (Ok (), ?c')"
    by (simp add: create_table_with_id_def sample_domains_def bindM_def getM_def seqM_def modM_def okM_def new_table_def default_table_def
        default_catalog_def put_entry_def)
  ultimately show ?thesis using domain_references_kept by blast
qed

end
