(* ===== verification/Server.thy ===== *)
theory Server
  imports Accounts Domains Log_Config
begin

text \<open>
  The database server of \<open>runtime.rs\<close>: the open tables, the dictionary, the log and the row
  versions of one database, and the commands that change them.  The methods run one at a time behind
  the write lock and the storage gate, so the server is a record and a method is a command on it; a
  poisoned mutex does not occur in one thread.  A table that is not open is its files, found by name
  in the data directory; an open table owns them, and dropping it flushes what it holds
  (\<open>impl Drop for PageFile\<close>) and gives them back.  Every file has its own list of faults, so that
  the failures of different files are independent.
\<close>

section \<open>The state\<close>

text \<open>The codecs of the JSON library, the hash functions, the powers of ten, and the fuel of a walk
  through a tree.\<close>

record libs =
  lb_pages :: "pages_state codec"
  lb_row :: "row codec"
  lb_serde :: serde
  lb_catalog :: "catalog codec"
  lb_durable :: "durable codec"
  lb_delta :: "delta codec"
  lb_hash :: hashing
  lb_pow10 :: "int \<Rightarrow> f64"
  lb_fuel :: nat

record open_table =
  ot_path :: string
  ot_index_paths :: "(string \<times> string) list"
  ot_heap :: heap_table

record server =
  se_cfg :: config
  se_tables :: "(string, open_table) hash_map"
  se_catalog :: catalog
  se_wal :: wal
  se_recovery_required :: bool
  se_page_lsn :: u64
  se_mvcc :: mvcc
  se_generations :: "(string, string) hash_map"
  se_retired :: "(u64 \<times> string list) list"
  se_disk :: "string \<Rightarrow> page_file"
  se_catalog_file :: cat_disk
  se_faults :: "fault list"

definition on_catalog :: "(catalog, 'a) cmd \<Rightarrow> (server, 'a) cmd" where
  "on_catalog m s = (case m (se_catalog s) of (r, c) \<Rightarrow> (r, s\<lparr>se_catalog := c\<rparr>))"

definition on_wal :: "(wal, 'a) cmd \<Rightarrow> (server, 'a) cmd" where
  "on_wal m s = (case m (se_wal s) of (r, w) \<Rightarrow> (r, s\<lparr>se_wal := w\<rparr>))"

definition on_mvcc :: "(mvcc, 'a) cmd \<Rightarrow> (server, 'a) cmd" where
  "on_mvcc m s = (case m (se_mvcc s) of (r, v) \<Rightarrow> (r, s\<lparr>se_mvcc := v\<rparr>))"

text \<open>A command on the files of one name, while no table has them open.\<close>

definition on_path :: "string \<Rightarrow> (page_file, 'a) cmd \<Rightarrow> (server, 'a) cmd" where
  "on_path p m s = (case m (se_disk s p) of (r, f) \<Rightarrow> (r, s\<lparr>se_disk := (se_disk s)(p := f)\<rparr>))"

text \<open>\<open>catalog.save(self.catalog_path())\<close>, and a call on the data directory.\<close>

definition save :: "libs \<Rightarrow> (server, unit) cmd" where
  "save lb s = (case save_catalog (lb_catalog lb) (se_catalog s) (se_catalog_file s) of
     (r, f) \<Rightarrow> (r, s\<lparr>se_catalog_file := f\<rparr>))"

definition dir_call :: "(server, unit) cmd" where
  "dir_call s = (case se_faults s of
       [] \<Rightarrow> (Ok (), s)
     | NoFault # fs \<Rightarrow> (Ok (), s\<lparr>se_faults := fs\<rparr>)
     | Fault k # fs \<Rightarrow> (Err io_failure, s\<lparr>se_faults := fs\<rparr>))"

section \<open>Names of files\<close>

definition table_prefix :: "server \<Rightarrow> string \<Rightarrow> string" where
  "table_prefix s t = (case map_of (se_generations s) t of
       Some g \<Rightarrow> if g \<noteq> [] then t @ ''.g'' @ g else t
     | None \<Rightarrow> t)"

definition table_path :: "server \<Rightarrow> string \<Rightarrow> string" where
  "table_path s t = table_prefix s t @ ''.db''"

definition index_path :: "server \<Rightarrow> string \<Rightarrow> string \<Rightarrow> string" where
  "index_path s t column = table_prefix s t @ (if column = ''id'' then ''.idx'' else ''.'' @ column @ ''.idx'')"

definition has_table :: "server \<Rightarrow> string \<Rightarrow> bool" where
  "has_table s t \<longleftrightarrow> describe (se_catalog s) t \<noteq> None"

definition add_column :: "string \<Rightarrow> string list \<Rightarrow> string list" where
  "add_column c cols = (if c \<in> set cols then cols else cols @ [c])"

definition index_columns :: "server \<Rightarrow> string \<Rightarrow> string list" where
  "index_columns s t = (case describe (se_catalog s) t of
       None \<Rightarrow> [''id'']
     | Some e \<Rightarrow> fold add_column (ct_indexes e) [''id''])"

definition hidden_columns :: "server \<Rightarrow> string \<Rightarrow> string list" where
  "hidden_columns s t = (case describe (se_catalog s) t of
       None \<Rightarrow> []
     | Some e \<Rightarrow> sorted_list_of_set (ct_dropped_columns e))"

section \<open>Opening and closing tables\<close>

text \<open>
  \<open>PageFile::drop\<close>: the dirty pages are written back and a failure is ignored.  With nothing to
  write the flush changes no file.
\<close>

definition drop_file :: "pages_state codec \<Rightarrow> page_file \<Rightarrow> page_file" where
  "drop_file c f = (let g = (if pf_dirty f = [] \<and> \<not> pw_pending f then f else snd (flush c f)) in
     g\<lparr>pf_cache := [], pf_last_used := [], pf_dirty := [], pw_pending := False, pw_failed := False, pw_file := False\<rparr>)"

definition drop_tree :: "pages_state codec \<Rightarrow> (string \<times> string) list \<Rightarrow> named_index \<Rightarrow> (string \<Rightarrow> page_file) \<Rightarrow>
    string \<Rightarrow> page_file" where
  "drop_tree c paths x files = (case map_of paths (ni_column x) of
       None \<Rightarrow> files
     | Some p \<Rightarrow> files(p := drop_file c (ni_tree x)))"

definition close_table :: "pages_state codec \<Rightarrow> open_table \<Rightarrow> (string \<Rightarrow> page_file) \<Rightarrow> string \<Rightarrow> page_file" where
  "close_table c h files = fold (drop_tree c (ot_index_paths h)) (ht_indexes (ot_heap h))
     (files(ot_path h := drop_file c (ht_file (ot_heap h))))"

text \<open>\<open>tables.remove(table)\<close>.\<close>

definition forget_table :: "libs \<Rightarrow> string \<Rightarrow> server \<Rightarrow> server" where
  "forget_table lb t s = (case map_of (se_tables s) t of
       None \<Rightarrow> s
     | Some h \<Rightarrow> s\<lparr>se_tables := hm_remove t (se_tables s), se_disk := close_table (lb_pages lb) h (se_disk s)\<rparr>)"

text \<open>
  Opening takes the files from their names.  When it fails, the index files left over go back
  first and the partly opened table after them, since it may hold the one that failed.
\<close>

definition put_back :: "libs \<Rightarrow> open_table \<Rightarrow> (string \<times> page_file) list \<Rightarrow> server \<Rightarrow> server" where
  "put_back lb h left s = (let index_path_of = (\<lambda>c. map_of (ot_index_paths h) c);
       files = fold (\<lambda>(c, f) fs. case index_path_of c of None \<Rightarrow> fs | Some p \<Rightarrow> fs(p := drop_file (lb_pages lb) f)) left (se_disk s)
     in s\<lparr>se_disk := close_table (lb_pages lb) h files\<rparr>)"

text \<open>A name whose file is open stays in the directory.\<close>

definition mark_existing :: "string list \<Rightarrow> (string \<Rightarrow> page_file) \<Rightarrow> string \<Rightarrow> page_file" where
  "mark_existing ps files p = (if p \<in> set ps then (files p)\<lparr>pf_exists := True\<rparr> else files p)"

definition path_exists :: "server \<Rightarrow> string \<Rightarrow> bool" where
  "path_exists s p \<longleftrightarrow> pf_exists (se_disk s p)"

definition open_files :: "libs \<Rightarrow> string \<Rightarrow> (server, open_table) cmd" where
  "open_files lb t s = (let paths = map (\<lambda>c. (c, index_path s t c)) (index_columns s t) in
     case open_with_indexes (lb_pages lb) (lb_row lb) (lb_fuel lb) (cf_page_size (se_cfg s)) (cf_btree_order (se_cfg s))
         (cf_pool_size (se_cfg s)) (se_disk s (table_path s t)) (map (\<lambda>(c, p). (c, se_disk s p)) paths) of
       (r, heap, left) \<Rightarrow>
         (let h = \<lparr>ot_path = table_path s t, ot_index_paths = paths, ot_heap = heap\<rparr> in
          case r of
            Ok _ \<Rightarrow> (let h' = h\<lparr>ot_heap := set_hidden_columns (hidden_columns s t) heap\<rparr> in
              (Ok h', s\<lparr>se_tables := hm_insert t h' (se_tables s), se_disk := mark_existing (ot_path h # map snd paths) (se_disk s)\<rparr>))
          | Err e \<Rightarrow> (Err e, put_back lb h left s)
          | Panic \<Rightarrow> (Panic, put_back lb h left s)))"

definition table_handle :: "libs \<Rightarrow> string \<Rightarrow> (server, open_table) cmd" where
  "table_handle lb t s = (case map_of (se_tables s) t of
       Some h \<Rightarrow> (Ok h, s)
     | None \<Rightarrow> seqM dir_call (open_files lb t) s)"

text \<open>A closure on the open table, and one that also reaches the files that are not open.\<close>

definition with_open :: "libs \<Rightarrow> string \<Rightarrow> ((string \<Rightarrow> page_file) \<times> open_table, 'a) cmd \<Rightarrow> (server, 'a) cmd" where
  "with_open lb t m = bindM (table_handle lb t) (\<lambda>h s.
     case m (se_disk s, h\<lparr>ot_heap := set_lsn_table (se_page_lsn s) (ot_heap h)\<rparr>) of
       (r, files, h') \<Rightarrow> (r, s\<lparr>se_disk := files, se_tables := hm_insert t h' (se_tables s)\<rparr>))"

definition on_heap :: "(heap_table, 'a) cmd \<Rightarrow> ((string \<Rightarrow> page_file) \<times> open_table, 'a) cmd" where
  "on_heap m x = (case m (ot_heap (snd x)) of (r, heap) \<Rightarrow> (r, fst x, (snd x)\<lparr>ot_heap := heap\<rparr>))"

definition with_table :: "libs \<Rightarrow> string \<Rightarrow> (heap_table, 'a) cmd \<Rightarrow> (server, 'a) cmd" where
  "with_table lb t m = with_open lb t (on_heap m)"

definition with_existing_table :: "libs \<Rightarrow> string \<Rightarrow> (heap_table, 'a) cmd \<Rightarrow> (server, 'a) cmd" where
  "with_existing_table lb t m = bindM (getM (\<lambda>s. has_table s t)) (\<lambda>known.
     if known then with_table lb t m else errM (IoError NotFound (''unknown table: '' @ t)))"

definition scan_rows :: "libs \<Rightarrow> (heap_table, row list) cmd" where
  "scan_rows lb = bindM (getM ht_hidden) (\<lambda>hidden. on_file (scan_table (lb_row lb) hidden))"

text \<open>\<open>detach_index\<close> drops the tree, so its file goes back; \<open>hide_column\<close> detaches too.\<close>

definition release_index :: "libs \<Rightarrow> string \<Rightarrow> (string \<Rightarrow> page_file) \<times> open_table \<Rightarrow> string \<Rightarrow> page_file" where
  "release_index lb column x = (case find_index column (ot_heap (snd x)) of
       None \<Rightarrow> fst x
     | Some i \<Rightarrow> drop_tree (lb_pages lb) (ot_index_paths (snd x)) (ht_indexes (ot_heap (snd x)) ! i) (fst x))"

definition detach :: "libs \<Rightarrow> string \<Rightarrow> ((string \<Rightarrow> page_file) \<times> open_table, unit) cmd" where
  "detach lb column x = (Ok (), release_index lb column x,
     (snd x)\<lparr>ot_heap := snd (detach_index column (ot_heap (snd x)))\<rparr>)"

definition hide_open_column :: "libs \<Rightarrow> string \<Rightarrow> string \<Rightarrow> server \<Rightarrow> server" where
  "hide_open_column lb t column s = (case map_of (se_tables s) t of
       None \<Rightarrow> s
     | Some h \<Rightarrow> s\<lparr>se_disk := release_index lb column (se_disk s, h),
         se_tables := hm_insert t (h\<lparr>ot_heap := hide_column column (ot_heap h)\<rparr>) (se_tables s)\<rparr>)"

text \<open>\<open>build_index\<close> opens the index file of its path; the path is remembered once the tree is attached.\<close>

definition build_at :: "libs \<Rightarrow> config \<Rightarrow> string \<Rightarrow> string \<Rightarrow> ((string \<Rightarrow> page_file) \<times> open_table, unit) cmd" where
  "build_at lb cfg column p x = (let heap = ot_heap (snd x) in
     case build_index (lb_pages lb) (lb_row lb) (lb_fuel lb) column (cf_page_size cfg) (cf_btree_order cfg)
         (cf_pool_size cfg) (fst x p, heap) of
       (r, f, heap') \<Rightarrow>
         if has_index column heap then (r, fst x, (snd x)\<lparr>ot_heap := heap'\<rparr>)
         else if has_index column heap'
         then (r, mark_existing [p] (fst x), (snd x)\<lparr>ot_heap := heap', ot_index_paths := AList.update column p (ot_index_paths (snd x))\<rparr>)
         else (r, (fst x)(p := drop_file (lb_pages lb) f), (snd x)\<lparr>ot_heap := heap'\<rparr>))"

text \<open>\<open>page_wal::remove\<close> of a path.\<close>

definition remove_path :: "string \<Rightarrow> (server, unit) cmd" where
  "remove_path p = on_path p remove_files"

section \<open>Applying a logged operation\<close>

definition hex32 :: "u64 \<Rightarrow> string" where
  "hex32 w = replicate 16 (CHR ''0'') @ bytes_str (to_hex16 w)"

definition OBJECT_ACL :: string where "OBJECT_ACL = ''__system_object_acl''"

text \<open>\<open>File::create(path)?.sync_all()?\<close>: only the data file is emptied.\<close>

definition create_empty :: "string \<Rightarrow> (server, unit) cmd" where
  "create_empty p = on_path p (seqM (io_call (\<lambda>f. f\<lparr>d_data := [], pf_exists := True\<rparr>) (\<lambda>_. id)) io_check)"

definition rewrite_table :: "libs \<Rightarrow> row list \<Rightarrow> (heap_table, unit) cmd" where
  "rewrite_table lb rows = seqM (replace_all (lb_row lb) (lb_fuel lb) rows) (flush_table (lb_pages lb))"

definition apply_migrate :: "libs \<Rightarrow> string \<Rightarrow> u64 \<Rightarrow> string \<Rightarrow> string \<Rightarrow> (server, unit) cmd" where
  "apply_migrate lb t object source target = bindM (getM (\<lambda>s. path_exists s (t @ ''.g'' @ target @ ''.db''))) (\<lambda>there.
     if \<not> there then errM (other_error ''migration target missing'')
     else seqM (on_catalog (set_generation t object source target))
         (seqM (on_catalog (mark_compacted t))
         (seqM (save lb)
         (seqM (modM (\<lambda>s. s\<lparr>se_generations := hm_insert t target (se_generations s)\<rparr>))
               (modM (forget_table lb t))))))"

definition apply_hide_column :: "libs \<Rightarrow> string \<Rightarrow> string \<Rightarrow> u64 option \<Rightarrow> (server, unit) cmd" where
  "apply_hide_column lb t column version = seqM (on_catalog (remove_column_version t column version))
     (seqM (save lb)
     (seqM (modM (hide_open_column lb t column))
     (bindM (getM (\<lambda>s. index_path s t column)) (\<lambda>p s.
        case remove_path p s of
          (Err e, s') \<Rightarrow> if err_kind e = NotFound then (Ok (), s') else (Err e, s')
        | r \<Rightarrow> r))))"

definition apply_compact :: "libs \<Rightarrow> string \<Rightarrow> row list \<Rightarrow> (server, unit) cmd" where
  "apply_compact lb t rows = seqM (with_table lb t (rewrite_table lb rows))
     (seqM (on_catalog (mark_compacted t))
     (seqM (on_catalog (rebuild_stats (lb_hash lb) t rows)) (save lb)))"

definition apply_insert_batch :: "libs \<Rightarrow> string \<Rightarrow> row list \<Rightarrow> (server, unit) cmd" where
  "apply_insert_batch lb t rows = seqM (with_table lb t (insert_rows (lb_row lb) (lb_fuel lb) rows))
     (bindM (on_catalog (insert_all (lb_hash lb) t rows False)) (\<lambda>changed.
        if changed then save lb else okM ()))"

definition apply_insert :: "libs \<Rightarrow> string \<Rightarrow> row \<Rightarrow> (server, unit) cmd" where
  "apply_insert lb t r = seqM (with_table lb t (insert_row (lb_row lb) (lb_fuel lb) r))
     (bindM (on_catalog (record_insert (lb_hash lb) t r)) (\<lambda>changed. if changed then save lb else okM ()))"

definition apply_delete_keys :: "libs \<Rightarrow> string \<Rightarrow> u64 list \<Rightarrow> (server, unit) cmd" where
  "apply_delete_keys lb t keys = bindM (with_table lb t (delete_by_keys (lb_row lb) (lb_fuel lb) keys)) (\<lambda>deleted.
     on_catalog (modM (record_delete (lb_hash lb) t deleted)))"

definition apply_replace_all :: "libs \<Rightarrow> string \<Rightarrow> row list \<Rightarrow> (server, unit) cmd" where
  "apply_replace_all lb t rows = seqM (with_table lb t (replace_all (lb_row lb) (lb_fuel lb) rows))
     (seqM (on_catalog (rebuild_stats (lb_hash lb) t rows)) (save lb))"

definition apply_drop_column :: "libs \<Rightarrow> string \<Rightarrow> string \<Rightarrow> u64 option \<Rightarrow> row list \<Rightarrow> (server, unit) cmd" where
  "apply_drop_column lb t column version rows =
     seqM (with_open lb t (seqM (detach lb column) (on_heap (replace_all (lb_row lb) (lb_fuel lb) rows))))
    (seqM (on_catalog (remove_column_version t column version))
    (seqM (on_catalog (rebuild_stats (lb_hash lb) t rows))
    (seqM (save lb)
    (bindM (getM (\<lambda>s. index_path s t column)) remove_path))))"

definition apply_create_table :: "libs \<Rightarrow> string \<Rightarrow> schema_column list \<Rightarrow> u64 option \<Rightarrow> (server, unit) cmd" where
  "apply_create_table lb t columns object = bindM (getM (\<lambda>s. \<not> has_table s t \<and> path_exists s (t @ ''.db''))) (\<lambda>taken.
     bindM (if \<not> taken then okM [] else (case object of
         None \<Rightarrow> errM (other_error ''new table object id missing'')
       | Some i \<Rightarrow> okM (hex32 i))) (\<lambda>generation.
     seqM (modM (\<lambda>s. s\<lparr>se_generations := hm_insert t generation (se_generations s)\<rparr>))
    (seqM (with_table lb t (okM ()))
    (seqM (on_catalog (create_table_with_id t columns object))
    (bindM (getM (\<lambda>s. describe (se_catalog s) t)) (\<lambda>r. case r of
         None \<Rightarrow> errM (other_error ''new table catalog missing'')
       | Some e \<Rightarrow> seqM (on_catalog (set_generation t (ct_object_id e) [] generation))
           (seqM (if t = TYPES_TABLE \<or> t = OBJECT_ACL then on_catalog (mark_system t) else okM ())
                 (save lb))))))))"

definition declared_indexes :: "server \<Rightarrow> string \<Rightarrow> string list" where
  "declared_indexes s t = (case describe (se_catalog s) t of None \<Rightarrow> [] | Some e \<Rightarrow> ct_indexes e)"

definition remove_indexes :: "string \<Rightarrow> string list \<Rightarrow> (server, unit) cmd" where
  "remove_indexes t cols = forM cols (\<lambda>column. bindM (getM (\<lambda>s. index_path s t column)) remove_path)"

definition apply_drop_table :: "libs \<Rightarrow> string \<Rightarrow> (server, unit) cmd" where
  "apply_drop_table lb t = bindM (getM (\<lambda>s. (declared_indexes s t, has_table s t))) (\<lambda>(cols, known).
     seqM (if known then seqM (on_catalog (drop_table t)) (save lb) else okM ())
    (seqM (modM (forget_table lb t))
    (seqM (bindM (getM (\<lambda>s. table_path s t)) remove_path)
          (remove_indexes t (''id'' # cols)))))"

definition apply_create_index :: "libs \<Rightarrow> string \<Rightarrow> string \<Rightarrow> (server, unit) cmd" where
  "apply_create_index lb t column = bindM (getM (\<lambda>s. (se_cfg s, index_path s t column))) (\<lambda>(cfg, p).
     seqM (with_open lb t (seqM (build_at lb cfg column p) (on_heap (flush_table (lb_pages lb)))))
    (seqM (on_catalog (add_index t column)) (save lb)))"

definition index_exists :: "server \<Rightarrow> string \<Rightarrow> string \<Rightarrow> bool" where
  "index_exists s t column \<longleftrightarrow> column \<in> set (declared_indexes s t)"

definition apply_drop_index :: "libs \<Rightarrow> string \<Rightarrow> string \<Rightarrow> (server, unit) cmd" where
  "apply_drop_index lb t column = bindM (getM (\<lambda>s. has_table s t)) (\<lambda>known.
     seqM (if known
       then seqM (with_open lb t (detach lb column))
           (bindM (getM (\<lambda>s. index_exists s t column)) (\<lambda>there.
              if there then seqM (on_catalog (remove_index t column)) (save lb) else okM ()))
       else okM ())
     (bindM (getM (\<lambda>s. index_path s t column)) remove_path))"

definition apply_replace_schema :: "libs \<Rightarrow> string \<Rightarrow> schema_column list \<Rightarrow> u64 option \<Rightarrow> row list \<Rightarrow> (server, unit) cmd" where
  "apply_replace_schema lb t columns version rows = bindM (getM (\<lambda>s. declared_indexes s t)) (\<lambda>old.
     seqM (with_open lb t (seqM (forM old (detach lb))
        (on_heap (seqM (modM (set_hidden_columns [])) (replace_all (lb_row lb) (lb_fuel lb) rows)))))
    (seqM (on_catalog (set_columns_version t columns version))
    (seqM (on_catalog (rebuild_stats (lb_hash lb) t rows))
    (seqM (save lb) (remove_indexes t old)))))"

subsection \<open>Accounts\<close>

definition declare_system_schema :: "libs \<Rightarrow> row list \<Rightarrow> (catalog, unit) cmd" where
  "declare_system_schema lb rows = seqM (rebuild_stats (lb_hash lb) USERS_TABLE rows)
     (seqM (set_columns USERS_TABLE users_columns)
     (seqM (rebuild_stats (lb_hash lb) USERS_TABLE rows) (mark_system USERS_TABLE)))"

definition declare_identities :: "libs \<Rightarrow> row list \<Rightarrow> account list \<Rightarrow> (catalog, unit) cmd" where
  "declare_identities lb rows as = seqM (rebuild_stats (lb_hash lb) IDENTITIES_TABLE rows)
     (seqM (set_columns IDENTITIES_TABLE identity_columns)
     (seqM (rebuild_stats (lb_hash lb) IDENTITIES_TABLE rows)
     (seqM (mark_system IDENTITIES_TABLE)
     (seqM (add_index IDENTITIES_TABLE ''user'')
     (modM (\<lambda>c. c\<lparr>cg_identity_high_water := word_of_int (max (sint (cg_identity_high_water c))
        (if as = [] then 0 else Max (sint ` ac_id ` set as)))\<rparr>))))))"

definition rewrite_system :: "libs \<Rightarrow> string \<Rightarrow> row list \<Rightarrow> (server, unit) cmd" where
  "rewrite_system lb t rows = seqM (modM (forget_table lb t))
     (seqM (bindM (getM (\<lambda>s. table_path s t)) create_empty)
     (seqM (bindM (getM (\<lambda>s. index_path s t ''id'')) create_empty)
           (with_table lb t (rewrite_table lb rows))))"

definition names_removed :: "string list \<Rightarrow> row \<Rightarrow> bool" where
  "names_removed removed r \<longleftrightarrow> (\<exists>f \<in> {''role'', ''member''}. case field r f as_str of None \<Rightarrow> False | Some name \<Rightarrow> name \<in> set removed)"

definition clean_grants :: "libs \<Rightarrow> string list \<Rightarrow> string \<Rightarrow> (server, (string \<times> row list) list) cmd" where
  "clean_grants lb removed t = bindM (getM (\<lambda>s. has_table s t)) (\<lambda>known.
     if known \<and> removed \<noteq> []
     then bindM (with_existing_table lb t (scan_rows lb)) (\<lambda>stored. let rows = filter (\<lambda>r. \<not> names_removed removed r) stored in
       seqM (with_existing_table lb t (rewrite_table lb rows)) (okM [(t, rows)]))
     else okM [])"

definition apply_accounts :: "libs \<Rightarrow> account list \<Rightarrow> string list \<Rightarrow> bool \<Rightarrow> (server, unit) cmd" where
  "apply_accounts lb as removed migrate_roles = (let rows = account_rows as; identities = identity_rows as in
     seqM (rewrite_system lb USERS_TABLE rows)
    (seqM (rewrite_system lb IDENTITIES_TABLE identities)
    (bindM (getM (\<lambda>s. has_table s LEGACY_ROLES)) (\<lambda>has_roles.
     seqM (if has_roles \<and> migrate_roles then with_existing_table lb LEGACY_ROLES (rewrite_table lb []) else okM ())
    (bindM (mapM [''__system_grants'', ''__system_grant_options'', ''__system_members''] (clean_grants lb removed)) (\<lambda>cleaned.
     seqM (on_catalog (declare_system_schema lb rows))
    (seqM (on_catalog (declare_identities lb identities as))
    (seqM (if has_roles \<and> migrate_roles then seqM (on_catalog (rebuild_stats (lb_hash lb) LEGACY_ROLES [])) (okM ()) else okM ())
    (seqM (forM (concat cleaned) (\<lambda>(t, records). seqM (on_catalog (rebuild_stats (lb_hash lb) t records)) (okM ())))
          (save lb))))))))))"

fun apply_op :: "libs \<Rightarrow> wal_op \<Rightarrow> (server, unit) cmd" where
  "apply_op lb (WMigrate t object source target) = apply_migrate lb t object source target"
| "apply_op lb WCommit = okM ()"
| "apply_op lb (WHideColumn t column version) = apply_hide_column lb t column version"
| "apply_op lb (WCompact t rows) = apply_compact lb t rows"
| "apply_op lb (WAccounts as removed migrate_roles) = apply_accounts lb as removed migrate_roles"
| "apply_op lb (WInsert t r) = apply_insert lb t r"
| "apply_op lb (WInsertBatch t rows) = apply_insert_batch lb t rows"
| "apply_op lb (WDeleteKeys t keys) = apply_delete_keys lb t keys"
| "apply_op lb (WReplaceAll t rows) = apply_replace_all lb t rows"
| "apply_op lb (WDropColumn t column version rows) = apply_drop_column lb t column version rows"
| "apply_op lb (WCreateTable t columns object) = apply_create_table lb t columns object"
| "apply_op lb (WDropTable t) = apply_drop_table lb t"
| "apply_op lb (WCreateIndex t column) = apply_create_index lb t column"
| "apply_op lb (WDropIndex t column) = apply_drop_index lb t column"
| "apply_op lb (WReplaceSchema t columns version rows) = apply_replace_schema lb t columns version rows"

section \<open>Checks before a group is logged\<close>

fun op_rows :: "wal_op \<Rightarrow> row list option" where
  "op_rows (WInsert t r) = Some [r]"
| "op_rows (WInsertBatch t rows) = Some rows"
| "op_rows (WReplaceAll t rows) = Some rows"
| "op_rows (WReplaceSchema t columns v rows) = Some rows"
| "op_rows (WDropColumn t column v rows) = Some rows"
| "op_rows (WCompact t rows) = Some rows"
| "op_rows _ = None"

definition checked_columns :: "server \<Rightarrow> wal_op \<Rightarrow> string list" where
  "checked_columns s op = (let columns = index_columns s (wtable op) in
     case op of
       WReplaceSchema t cs v rows \<Rightarrow> filter (\<lambda>c. c = ''id'') columns
     | WDropColumn t column v rows \<Rightarrow> filter (\<lambda>c. c \<noteq> column) columns
     | _ \<Rightarrow> columns)"

definition check_row_keys :: "libs \<Rightarrow> config \<Rightarrow> string list \<Rightarrow> row \<Rightarrow> (server, unit) cmd" where
  "check_row_keys lb cfg columns r = seqM (liftM (encode_row (lb_row lb) r (cf_page_size cfg)))
     (forM columns (\<lambda>c. liftM (check_index_key r c (cf_page_size cfg) (cf_btree_order cfg))))"

definition check_op :: "libs \<Rightarrow> wal_op \<Rightarrow> (server, unit) cmd" where
  "check_op lb op = (case op_rows op of
       None \<Rightarrow> okM ()
     | Some rows \<Rightarrow> bindM (getM (\<lambda>s. (se_cfg s, checked_columns s op))) (\<lambda>(cfg, columns).
         forM rows (check_row_keys lb cfg columns)))"

text \<open>\<open>PendingIds\<close>: the counts of the identity keys after the operations seen so far.\<close>

record pending_ids =
  pi_replaced :: bool
  pi_counts :: "(bytes, nat) hash_map"

definition default_pending :: pending_ids where
  "default_pending = \<lparr>pi_replaced = False, pi_counts = []\<rparr>"

definition set_count :: "bytes \<Rightarrow> nat \<Rightarrow> pending_ids \<Rightarrow> pending_ids" where
  "set_count k n p = p\<lparr>pi_counts := hm_insert k n (pi_counts p)\<rparr>"

definition pending_count :: "libs \<Rightarrow> string \<Rightarrow> bytes \<Rightarrow> pending_ids \<Rightarrow> (server, nat) cmd" where
  "pending_count lb t k p = (case map_of (pi_counts p) k of
       Some n \<Rightarrow> okM n
     | None \<Rightarrow> if pi_replaced p then okM 0
         else bindM (getM (\<lambda>s. has_table s t)) (\<lambda>known.
           if \<not> known then okM 0 else with_existing_table lb t (id_key_count (lb_fuel lb) k)))"

fun delete_ids :: "libs \<Rightarrow> string \<Rightarrow> u64 list \<Rightarrow> u64 list \<Rightarrow> pending_ids \<Rightarrow> (server, pending_ids) cmd" where
  "delete_ids lb t seen [] p = okM p"
| "delete_ids lb t seen (k # ks) p = (if k \<in> set seen then delete_ids lb t seen ks p
     else bindM (pending_count lb t (key_of k) p) (\<lambda>n. delete_ids lb t (k # seen) ks (set_count (key_of k) (n - 1) p)))"

fun insert_ids :: "libs \<Rightarrow> string \<Rightarrow> row list \<Rightarrow> pending_ids \<Rightarrow> (server, pending_ids) cmd" where
  "insert_ids lb t [] p = okM p"
| "insert_ids lb t (r # rs) p = (case row_key r ''id'' of
       None \<Rightarrow> insert_ids lb t rs p
     | Some k \<Rightarrow> bindM (pending_count lb t k p) (\<lambda>n.
         if 0 < n then errM (IoError InvalidInput DUPLICATE_ID) else insert_ids lb t rs (set_count k 1 p)))"

definition count_row :: "(bytes, nat) hash_map \<Rightarrow> row \<Rightarrow> (bytes, nat) hash_map" where
  "count_row cs r = (case row_key r ''id'' of
       None \<Rightarrow> cs
     | Some k \<Rightarrow> hm_insert k (Suc (case map_of cs k of None \<Rightarrow> 0 | Some n \<Rightarrow> n)) cs)"

definition replaced_ids :: "row list \<Rightarrow> pending_ids" where
  "replaced_ids rows = \<lparr>pi_replaced = True, pi_counts = foldl count_row [] rows\<rparr>"

definition pending_of :: "(string, pending_ids) hash_map \<Rightarrow> string \<Rightarrow> pending_ids" where
  "pending_of tables t = (case map_of tables t of None \<Rightarrow> default_pending | Some p \<Rightarrow> p)"

definition step_ids :: "libs \<Rightarrow> wal_op \<Rightarrow> (string, pending_ids) hash_map \<Rightarrow> (server, (string, pending_ids) hash_map) cmd" where
  "step_ids lb op tables = (let put = (\<lambda>t m. bindM m (\<lambda>p. okM (hm_insert t p tables))) in case op of
       WInsert t r \<Rightarrow> put t (insert_ids lb t [r] (pending_of tables t))
     | WInsertBatch t rows \<Rightarrow> put t (insert_ids lb t rows (pending_of tables t))
     | WDeleteKeys t keys \<Rightarrow> put t (delete_ids lb t [] keys (pending_of tables t))
     | WReplaceAll t rows \<Rightarrow> put t (okM (replaced_ids rows))
     | WReplaceSchema t columns v rows \<Rightarrow> put t (okM (replaced_ids rows))
     | WDropColumn t column v rows \<Rightarrow> put t (okM (replaced_ids rows))
     | WCompact t rows \<Rightarrow> put t (okM (replaced_ids rows))
     | WCreateTable t columns i \<Rightarrow> put t (okM (replaced_ids []))
     | WDropTable t \<Rightarrow> put t (okM (replaced_ids []))
     | _ \<Rightarrow> okM tables)"

fun validate_ids :: "libs \<Rightarrow> wal_op list \<Rightarrow> (string, pending_ids) hash_map \<Rightarrow> (server, unit) cmd" where
  "validate_ids lb [] tables = okM ()"
| "validate_ids lb (op # ops) tables = bindM (step_ids lb op tables) (validate_ids lb ops)"

definition validate_insert_ids :: "libs \<Rightarrow> wal_op list \<Rightarrow> (server, unit) cmd" where
  "validate_insert_ids lb ops = validate_ids lb ops []"

text \<open>Object numbers for the tables to create, and schema versions from a copy of the dictionary.\<close>

fun number_table :: "wal_op \<Rightarrow> (catalog, wal_op) cmd" where
  "number_table (WCreateTable t columns None) = bindM reserve_object_id (\<lambda>i. okM (WCreateTable t columns (Some i)))"
| "number_table op = okM op"

definition may_add_columns :: "catalog \<Rightarrow> string \<Rightarrow> row \<Rightarrow> bool" where
  "may_add_columns c t r = (case describe c t of
       None \<Rightarrow> True
     | Some e \<Rightarrow> list_ex (\<lambda>(name, _). name \<notin> sc_name ` set (ct_columns e) \<and> name \<notin> ct_dropped_columns e) r)"

fun needs_schema_preview :: "catalog \<Rightarrow> wal_op \<Rightarrow> bool" where
  "needs_schema_preview c (WInsert t r) = may_add_columns c t r"
| "needs_schema_preview c (WInsertBatch t rows) = list_ex (may_add_columns c t) rows"
| "needs_schema_preview c (WReplaceAll t rows) = list_ex (may_add_columns c t) rows"
| "needs_schema_preview c (WCompact t rows) = list_ex (may_add_columns c t) rows"
| "needs_schema_preview c (WHideColumn t column v) = True"
| "needs_schema_preview c (WDropColumn t column v rows) = True"
| "needs_schema_preview c (WReplaceSchema t columns v rows) = True"
| "needs_schema_preview c _ = False"

definition next_version :: "string \<Rightarrow> (catalog, u64 option) cmd" where
  "next_version t = bindM (getM (\<lambda>c. describe c t)) (\<lambda>r. case r of
       None \<Rightarrow> errM (other_error ''missing schema version'')
     | Some e \<Rightarrow> okM (Some (max (ct_schema_version e) 1)))"

definition ensure_rows :: "string \<Rightarrow> row list \<Rightarrow> (catalog, unit) cmd" where
  "ensure_rows t rows = forM rows (ensure_columns t)"

fun preview_op :: "wal_op \<Rightarrow> (catalog, wal_op) cmd" where
  "preview_op (WHideColumn t column v) = seqM (remove_column t column)
     (bindM (next_version t) (\<lambda>v'. okM (WHideColumn t column v')))"
| "preview_op (WDropColumn t column v rows) = seqM (remove_column t column)
     (bindM (next_version t) (\<lambda>v'. seqM (ensure_rows t rows) (okM (WDropColumn t column v' rows))))"
| "preview_op (WReplaceSchema t columns v rows) = seqM (set_columns t columns)
     (bindM (next_version t) (\<lambda>v'. seqM (ensure_rows t rows) (okM (WReplaceSchema t columns v' rows))))"
| "preview_op (WCreateTable t columns i) = seqM (create_table_with_id t columns i) (okM (WCreateTable t columns i))"
| "preview_op (WDropTable t) = seqM (drop_table t) (okM (WDropTable t))"
| "preview_op (WInsert t r) = seqM (ensure_columns t r) (okM (WInsert t r))"
| "preview_op (WInsertBatch t rows) = seqM (ensure_rows t rows) (okM (WInsertBatch t rows))"
| "preview_op (WReplaceAll t rows) = seqM (ensure_rows t rows) (okM (WReplaceAll t rows))"
| "preview_op (WCompact t rows) = seqM (ensure_rows t rows) (okM (WCompact t rows))"
| "preview_op op = okM op"

definition preview_ops :: "wal_op list \<Rightarrow> (server, wal_op list) cmd" where
  "preview_ops ops = bindM (getM se_catalog) (\<lambda>c.
     if list_ex (needs_schema_preview c) ops then liftM (fst (mapM ops preview_op c)) else okM ops)"

section \<open>Publishing row versions\<close>

definition index_wires :: "cat_table \<Rightarrow> string list" where
  "index_wires e = ''id'' # filter (\<lambda>c. c \<noteq> ''id'') (ct_indexes e)"

definition stat_wires :: "cat_table \<Rightarrow> column_stat list" where
  "stat_wires e = map (\<lambda>(name, st). \<lparr>cs_name = name, cs_distinct = st_distinct st, cs_capped = st_capped st,
     cs_lo = map_option f64_bits (st_lo st), cs_hi = map_option f64_bits (st_hi st), cs_hist = st_hist st\<rparr>) (ct_stats e)"

definition catalog_schemas :: "catalog \<Rightarrow> table_schema list" where
  "catalog_schemas c = map (\<lambda>(name, e). \<lparr>ts_table = name, ts_database_id = cg_database_id c, ts_object_id = ct_object_id e,
       ts_schema_version = ct_schema_version e, ts_columns = ct_columns e, ts_row_count = ct_row_count e,
       ts_indexes = index_wires e, ts_stats = stat_wires e\<rparr>)
     (filter (\<lambda>(name, _). \<not> blocked_table name) (all_tables c))"

definition scan_schema :: "libs \<Rightarrow> table_schema \<Rightarrow> (server, table_schema \<times> row list) cmd" where
  "scan_schema lb sch = bindM (with_existing_table lb (ts_table sch) (scan_rows lb)) (\<lambda>rows. okM (sch, rows))"

definition version_tables :: "libs \<Rightarrow> (server, (table_schema \<times> row list) list) cmd" where
  "version_tables lb = bindM (getM (catalog_schemas \<circ> se_catalog)) (\<lambda>schemas. mapM schemas (scan_schema lb))"

definition publish_mvcc :: "libs \<Rightarrow> u64 \<Rightarrow> (server, unit) cmd" where
  "publish_mvcc lb csn = bindM (version_tables lb) (\<lambda>tables. on_mvcc (publish (lb_durable lb) (lb_delta lb) csn tables))"

definition server_csn :: "server \<Rightarrow> u64" where
  "server_csn s = du_csn (ms_durable (mv_state (se_mvcc s)))"

definition stored_checkpoint :: "(server, u64) cmd" where
  "stored_checkpoint = bindM (on_wal read_checkpoint) (\<lambda>r. okM (case r of None \<Rightarrow> 0 | Some n \<Rightarrow> n))"

definition ensure_mvcc :: "libs \<Rightarrow> (server, unit) cmd" where
  "ensure_mvcc lb = bindM stored_checkpoint (\<lambda>cp.
     bindM (getM (\<lambda>s. server_csn s < cp \<or> mv_file (se_mvcc s) = None)) (\<lambda>stale.
       if stale then publish_mvcc lb cp else okM ()))"

fun is_accounts :: "wal_op \<Rightarrow> bool" where
  "is_accounts (WAccounts as removed m) = True"
| "is_accounts _ = False"

definition publish_changed_mvcc :: "libs \<Rightarrow> u64 \<Rightarrow> wal_op list \<Rightarrow> (server, unit) cmd" where
  "publish_changed_mvcc lb csn ops = (if list_ex is_accounts ops then publish_mvcc lb csn
     else bindM (getM (catalog_schemas \<circ> se_catalog)) (\<lambda>schemas.
       bindM (mapM (filter (\<lambda>sch. list_ex (\<lambda>op. op_table op = Some (ts_table sch)) ops) schemas) (scan_schema lb)) (\<lambda>tables.
         on_mvcc (publish_changed (lb_durable lb) (lb_delta lb) csn schemas tables))))"

section \<open>Writing a group\<close>

definition flush_open :: "libs \<Rightarrow> string \<Rightarrow> (server, unit) cmd" where
  "flush_open lb t s = (case map_of (se_tables s) t of
       None \<Rightarrow> (Ok (), s)
     | Some h \<Rightarrow> (case flush_table (lb_pages lb) (ot_heap h) of
         (r, heap) \<Rightarrow> (r, s\<lparr>se_tables := hm_insert t (h\<lparr>ot_heap := heap\<rparr>) (se_tables s)\<rparr>)))"

definition flush_all_tables :: "libs \<Rightarrow> (server, unit) cmd" where
  "flush_all_tables lb = bindM (getM (\<lambda>s. map fst (se_tables s))) (\<lambda>ts. forM ts (flush_open lb))"

fun flushed_table :: "wal_op \<Rightarrow> string option" where
  "flushed_table (WHideColumn t column v) = None"
| "flushed_table WCommit = None"
| "flushed_table (WDropTable t) = None"
| "flushed_table (WAccounts as removed m) = Some USERS_TABLE"
| "flushed_table op = Some (wtable op)"

definition flush_op_tables :: "libs \<Rightarrow> wal_op \<Rightarrow> (server, unit) cmd" where
  "flush_op_tables lb op = (case flushed_table op of
       None \<Rightarrow> okM ()
     | Some t \<Rightarrow> with_table lb t (flush_table (lb_pages lb)))"

fun data_op :: "wal_op \<Rightarrow> bool" where
  "data_op (WInsert t r) = True"
| "data_op (WInsertBatch t rows) = True"
| "data_op (WDeleteKeys t keys) = True"
| "data_op (WReplaceAll t rows) = True"
| "data_op _ = False"

text \<open>The three parts of \<open>group_via_wal\<close>: up to the log, applying, and closing.\<close>

definition prepare_group :: "libs \<Rightarrow> wal_op list \<Rightarrow> (server, wal_op list) cmd" where
  "prepare_group lb ops = seqM (forM ops (check_op lb))
     (seqM (validate_insert_ids lb ops)
     (seqM dir_call
     (bindM (on_catalog (mapM ops number_table)) (\<lambda>numbered.
      bindM (preview_ops numbered) (\<lambda>stamped.
      seqM (ensure_mvcc lb) (okM stamped))))))"

definition apply_group :: "libs \<Rightarrow> u64 \<Rightarrow> wal_op list \<Rightarrow> (server, unit) cmd" where
  "apply_group lb lsn ops = seqM (modM (\<lambda>s. s\<lparr>se_page_lsn := lsn\<rparr>))
     (seqM (forM ops (apply_op lb))
     (seqM (forM ops (flush_op_tables lb))
     (seqM (if \<not> list_all data_op ops then flush_all_tables lb else okM ())
           (publish_changed_mvcc lb lsn ops))))"

definition close_group :: "libs \<Rightarrow> u64 \<Rightarrow> (server, unit) cmd" where
  "close_group lb lsn = seqM (on_wal (write_checkpoint lsn)) (on_wal (truncate_before (lb_serde lb) lsn))"

definition set_recovery :: "bool \<Rightarrow> (server, unit) cmd" where
  "set_recovery b = modM (\<lambda>s. s\<lparr>se_recovery_required := b\<rparr>)"

definition group_via_wal :: "libs \<Rightarrow> wal_op list \<Rightarrow> (server, unit) cmd" where
  "group_via_wal lb ops = bindM (prepare_group lb ops) (\<lambda>stamped.
     bindM (on_wal (append_group (lb_serde lb) stamped)) (\<lambda>lsn.
     seqM (set_recovery True)
    (seqM (apply_group lb lsn stamped)
    (seqM (close_group lb lsn) (set_recovery False)))))"

definition recovery_error :: io_error where
  "recovery_error = other_error ''storage recovery required''"

definition write_via_wal :: "libs \<Rightarrow> wal_op \<Rightarrow> (server, unit) cmd" where
  "write_via_wal lb op = bindM (getM se_recovery_required) (\<lambda>broken.
     if broken then errM recovery_error
     else bindM (getM se_catalog) (\<lambda>c.
       bindM (liftM (normalize_decimal_write (lb_pow10 lb) c op)) (\<lambda>op'.
       seqM (liftM (validate_op c op'))
      (seqM (liftM (validate_domains c op')) (group_via_wal lb [op'])))))"

fun storage_wal_op :: "storage_op \<Rightarrow> wal_op" where
  "storage_wal_op (Upsert t rows) = WInsertBatch t rows"
| "storage_wal_op (Delete t ids) = WDeleteKeys t ids"
| "storage_wal_op (Replace t rows) = WReplaceAll t rows"

definition transaction_op :: "libs \<Rightarrow> catalog \<Rightarrow> storage_op \<Rightarrow> wal_op outcome" where
  "transaction_op lb c op = (if blocked_table (op_name op) then Err (other_error ''reserved system table'')
     else if \<not> valid_storage_name (op_name op) then Err (other_error ''invalid table name'')
     else bindO (normalize_decimal_write (lb_pow10 lb) c (storage_wal_op op)) (\<lambda>w.
       bindO (validate_op c w) (\<lambda>_. Ok w)))"

definition apply_transaction :: "libs \<Rightarrow> storage_op list \<Rightarrow> (server, unit) cmd" where
  "apply_transaction lb ops = bindM (getM se_recovery_required) (\<lambda>broken.
     if broken then errM recovery_error
     else bindM (getM se_catalog) (\<lambda>c. bindM (liftM (collect (transaction_op lb c) ops)) (group_via_wal lb)))"

section \<open>Recovery\<close>

definition latest_commit :: "u64 \<Rightarrow> log_record list \<Rightarrow> u64" where
  "latest_commit cp records = (let commits = map fst (filter (\<lambda>r. snd r = WCommit) records) in
     if commits = [] then cp else Max (set commits))"

definition replay_lsn :: "log_record list \<Rightarrow> log_record list \<Rightarrow> u64" where
  "replay_lsn pending records = (case find (\<lambda>r. snd r = WCommit) (rev pending) of
       Some r \<Rightarrow> fst r
     | None \<Rightarrow> if records = [] then 0 else fst (last records))"

definition touched_tables :: "catalog \<Rightarrow> log_record list \<Rightarrow> string list" where
  "touched_tables c records = remdups (concat (map (\<lambda>(_, op).
     (case op_table op of None \<Rightarrow> [] | Some t \<Rightarrow> [t]) @ (if is_accounts op then table_names c else [])) records))"

definition drop_indexes :: "libs \<Rightarrow> string \<Rightarrow> (server, unit) cmd" where
  "drop_indexes lb t = seqM (modM (forget_table lb t))
     (bindM (getM (\<lambda>s. index_columns s t)) (remove_indexes t))"

definition rebuild_recovery_indexes :: "libs \<Rightarrow> log_record list \<Rightarrow> (server, unit) cmd" where
  "rebuild_recovery_indexes lb records = bindM (getM (\<lambda>s. touched_tables (se_catalog s) records)) (\<lambda>ts.
     forM ts (drop_indexes lb))"

definition applied_rows :: "libs \<Rightarrow> string \<Rightarrow> row list \<Rightarrow> (server, bool) cmd" where
  "applied_rows lb t rows = (if rows = [] then okM True
     else bindM (getM (\<lambda>s. has_table s t)) (\<lambda>known. if \<not> known then okM False
       else bindM (with_table lb t (scan_rows lb)) (\<lambda>stored.
         okM (list_all (\<lambda>r. list_ex (\<lambda>one. row_eq one r) stored) rows))))"

fun op_already_applied :: "libs \<Rightarrow> wal_op \<Rightarrow> (server, bool) cmd" where
  "op_already_applied lb (WInsert t r) = applied_rows lb t [r]"
| "op_already_applied lb (WInsertBatch t rows) = applied_rows lb t rows"
| "op_already_applied lb (WReplaceAll t rows) = bindM (getM (\<lambda>s. has_table s t)) (\<lambda>known. if \<not> known then okM False
     else bindM (with_table lb t (scan_rows lb)) (\<lambda>stored. okM (list_all2 row_eq stored rows)))"
| "op_already_applied lb (WDeleteKeys t keys) = (if keys = [] then okM True
     else bindM (getM (\<lambda>s. has_table s t)) (\<lambda>known. if \<not> known then okM False
       else bindM (with_table lb t (scan_rows lb)) (\<lambda>stored.
         okM (\<not> list_ex (\<lambda>r. case row_int r ''id'' of None \<Rightarrow> False | Some i \<Rightarrow> i \<in> set keys) stored))))"
| "op_already_applied lb (WHideColumn t column version) = getM (\<lambda>s. case describe (se_catalog s) t of
     None \<Rightarrow> False
   | Some e \<Rightarrow> column \<notin> sc_name ` set (ct_columns e) \<and> (case version of None \<Rightarrow> True | Some v \<Rightarrow> ct_schema_version e = v))"
| "op_already_applied lb (WCreateTable t columns object) = bindM (getM (\<lambda>s. describe (se_catalog s) t)) (\<lambda>r. case r of
     None \<Rightarrow> okM False
   | Some e \<Rightarrow> if (case object of None \<Rightarrow> False | Some i \<Rightarrow> i \<noteq> ct_object_id e)
       then errM (other_error ''WAL catalog object id mismatch'') else okM True)"
| "op_already_applied lb (WDropTable t) = getM (\<lambda>s. \<not> has_table s t \<and> \<not> path_exists s (table_path s t) \<and>
     \<not> path_exists s (index_path s t ''id''))"
| "op_already_applied lb (WCreateIndex t column) = getM (\<lambda>s. index_exists s t column)"
| "op_already_applied lb (WDropIndex t column) = getM (\<lambda>s. \<not> index_exists s t column \<and> \<not> path_exists s (index_path s t column))"
| "op_already_applied lb _ = okM False"

fun is_replace :: "wal_op \<Rightarrow> bool" where
  "is_replace (WReplaceAll t rows) = True"
| "is_replace _ = False"

definition replay_op :: "libs \<Rightarrow> wal_op \<Rightarrow> (server, unit) cmd" where
  "replay_op lb op = bindM (if is_replace op then okM False else op_already_applied lb op) (\<lambda>applied.
     if applied then okM () else apply_op lb op)"

definition replay_records :: "libs \<Rightarrow> u64 \<Rightarrow> log_record list \<Rightarrow> (server, unit) cmd" where
  "replay_records lb lsn records = seqM (modM (\<lambda>s. s\<lparr>se_page_lsn := lsn\<rparr>))
     (seqM (rebuild_recovery_indexes lb records)
     (seqM (forM records (\<lambda>(_, op). seqM (replay_op lb op) (flush_op_tables lb op)))
     (seqM (flush_all_tables lb)
           (publish_mvcc lb lsn))))"

definition recover_wal :: "libs \<Rightarrow> (server, unit) cmd" where
  "recover_wal lb = seqM dir_call (bindM stored_checkpoint (\<lambda>cp.
     bindM (on_wal (read_all (lb_serde lb))) (\<lambda>(scan, good_len).
     bindM (getM (\<lambda>s. max cp (latest_commit cp scan) < server_csn s)) (\<lambda>ahead.
     if ahead then errM (other_error ''MVCC version is ahead of recoverable WAL'')
     else if scan = []
     then bindM (getM (\<lambda>s. w_log (se_wal s) \<noteq> None)) (\<lambda>there.
       if there then on_wal (truncate_to good_len) else okM ())
     else (let pending = records_after scan cp; records = committed_ops pending in
       if records = [] then on_wal (truncate_after (lb_serde lb) cp)
       else (let lsn = replay_lsn pending records in
         seqM (replay_records lb lsn records) (close_group lb lsn)))))))"

section \<open>Starting\<close>

definition new_server :: "libs \<Rightarrow> config \<Rightarrow> (string \<Rightarrow> page_file) \<Rightarrow> cat_disk \<Rightarrow> wal \<Rightarrow> mvcc \<Rightarrow> string \<Rightarrow> fault list \<Rightarrow> server outcome" where
  "new_server lb cfg files cat lf versions nonce fs =
     (case bindM (load_catalog (lb_catalog lb)) (\<lambda>c. seqM (save_catalog (lb_catalog lb) c) (okM c)) cat of
        (Ok c, cat') \<Rightarrow> (case open_mvcc (lb_durable lb) (lb_delta lb) nonce versions of
            (Ok _, versions') \<Rightarrow> Ok \<lparr>se_cfg = cfg, se_tables = [], se_catalog = c,
              se_wal = new_wal (w_log lf) (w_checkpoint lf) (w_wal_faults lf), se_recovery_required = False,
              se_page_lsn = 0, se_mvcc = versions',
              se_generations = map (\<lambda>(name, e). (name, ct_file_generation e)) (all_tables c), se_retired = [],
              se_disk = files, se_catalog_file = cat', se_faults = fs\<rparr>
          | (Err e, _) \<Rightarrow> Err e
          | (Panic, _) \<Rightarrow> Panic)
      | (Err e, _) \<Rightarrow> Err e
      | (Panic, _) \<Rightarrow> Panic)"

definition rebuild_table_stats :: "libs \<Rightarrow> string \<Rightarrow> (server, bool) cmd" where
  "rebuild_table_stats lb t = bindM (getM (\<lambda>s. path_exists s (table_path s t))) (\<lambda>there.
     if \<not> there then okM False
     else bindM (with_table lb t (scan_rows lb)) (\<lambda>rows.
       seqM (on_catalog (rebuild_stats (lb_hash lb) t rows)) (okM True)))"

definition rebuild_all_stats :: "libs \<Rightarrow> (server, unit) cmd" where
  "rebuild_all_stats lb = bindM (getM (table_names \<circ> se_catalog)) (\<lambda>names.
     bindM (mapM names (rebuild_table_stats lb)) (\<lambda>touched. if list_ex id touched then save lb else okM ()))"

definition fill_missing :: "schema_column list \<Rightarrow> row \<Rightarrow> row" where
  "fill_missing columns r = fold (\<lambda>c r. if map_of r (sc_name c) = None then hm_insert (sc_name c) JNull r else r) columns r"

definition migrate_table :: "libs \<Rightarrow> string \<Rightarrow> (server, unit) cmd" where
  "migrate_table lb t = bindM (getM (\<lambda>s. (path_exists s (table_path s t), describe (se_catalog s) t))) (\<lambda>(there, r).
     if \<not> there then okM ()
     else (case r of
         None \<Rightarrow> okM ()
       | Some e \<Rightarrow> bindM (with_existing_table lb t (scan_rows lb)) (\<lambda>rows.
           if list_all (\<lambda>r. list_all (\<lambda>c. map_of r (sc_name c) \<noteq> None) (ct_columns e)) rows then okM ()
           else write_via_wal lb (WReplaceAll t (map (fill_missing (ct_columns e)) rows)))))"

definition migrate_rows :: "libs \<Rightarrow> (server, unit) cmd" where
  "migrate_rows lb = bindM (getM (table_names \<circ> se_catalog)) (\<lambda>names.
     seqM (forM names (migrate_table lb))
    (bindM (on_catalog normalize_types) (\<lambda>changed. if changed then save lb else okM ())))"

definition compact_table :: "libs \<Rightarrow> string \<Rightarrow> (server, unit) cmd" where
  "compact_table lb t = bindM (with_existing_table lb t (scan_rows lb)) (\<lambda>rows. write_via_wal lb (WCompact t rows))"

definition compact_tables :: "libs \<Rightarrow> (server, unit) cmd" where
  "compact_tables lb = bindM (getM (dropped_tables \<circ> se_catalog)) (\<lambda>ts. forM ts (compact_table lb))"

end
