(* ===== verification/Requests.thy ===== *)
theory Requests
  imports Server
begin

text \<open>
  The requests of \<open>runtime.rs\<close> on one database: the checks before a change, the snapshots, and
  \<open>dispatch\<close>, which answers a request under the storage gate.  An error becomes a response with its
  message.  The identity requests (theory \<open>Accounts\<close>, on its own view of the system database) and the
  bootstrap of the types are the argument \<open>elsewhere\<close> of \<open>dispatch\<close>.
\<close>

section \<open>A second handle\<close>

text \<open>
  The scan of a shard opens the data file of the table again.  The two handles share what is on disk
  and nothing in memory: the second one starts with an empty pool, may replay the page journal when
  it opens, and is dropped at the end.  When opening fails there is no handle to drop.
\<close>

definition with_files :: "page_file \<Rightarrow> page_file \<Rightarrow> page_file" where
  "with_files g f = f\<lparr>d_data := d_data g, d_journal := d_journal g, d_meta := d_meta g, d_tmp := d_tmp g,
     d_faults := d_faults g, pf_exists := pf_exists g\<rparr>"

definition second_handle :: "string \<Rightarrow> (page_file, 'a) cmd \<Rightarrow> (server, 'a) cmd" where
  "second_handle t m s = (let p = table_path s t in
     case map_of (se_tables s) t of
       Some h \<Rightarrow> (if ot_path h = p
         then (case m (ht_file (ot_heap h)) of (r, g) \<Rightarrow> (r, s\<lparr>se_tables := hm_insert t
                 (h\<lparr>ot_heap := (ot_heap h)\<lparr>ht_file := with_files g (ht_file (ot_heap h))\<rparr>\<rparr>) (se_tables s)\<rparr>))
         else on_path p m s)
     | None \<Rightarrow> on_path p m s)"

text \<open>
  The bound of a shard: \<open>k.saturating_mul(n.div_ceil(shards)).min(n)\<close>; a product that saturates is
  above \<open>n\<close> anyway.
\<close>

definition shard_bound :: "page_id \<Rightarrow> nat \<Rightarrow> u32 \<Rightarrow> page_id" where
  "shard_bound n k shards = word_of_nat (min (k * ((unat n + unat shards - 1) div unat shards)) (unat n))"

definition shard_rows :: "libs \<Rightarrow> config \<Rightarrow> string list \<Rightarrow> string list option \<Rightarrow> u32 \<Rightarrow> u32 \<Rightarrow> (page_file, row list) cmd" where
  "shard_rows lb cfg hidden columns shard shards f =
     (case open_heap (lb_pages lb) (cf_page_size cfg) (cf_pool_size cfg) f of
        (Ok _, h) \<Rightarrow> (case bindM num_pages (\<lambda>n. scan_columns_pages (lb_row lb) hidden columns
              (shard_bound n (unat shard) shards) (shard_bound n (unat shard + 1) shards)) (ht_file h) of
            (r, g) \<Rightarrow> (r, drop_file (lb_pages lb) g))
      | (Err e, h) \<Rightarrow> (Err e, ht_file h)
      | (Panic, h) \<Rightarrow> (Panic, ht_file h))"

definition scan_shard :: "libs \<Rightarrow> string \<Rightarrow> string list option \<Rightarrow> u32 \<Rightarrow> u32 \<Rightarrow> (server, row list) cmd" where
  "scan_shard lb t columns shard shards =
     (if shards = 0 \<or> shards \<le> shard then errM (other_error ''invalid shard range'')
      else bindM (getM (\<lambda>s. has_table s t)) (\<lambda>known.
        if \<not> known then errM (IoError NotFound (''unknown table: '' @ t))
        else bindM (getM (\<lambda>s. (se_cfg s, hidden_columns s t))) (\<lambda>(cfg, hidden).
          second_handle t (shard_rows lb cfg hidden columns shard shards))))"

section \<open>Checks\<close>

definition unknown_table_error :: "string \<Rightarrow> io_error" where
  "unknown_table_error t = IoError NotFound (''unknown table: '' @ t)"

definition check_columns :: "string \<Rightarrow> string list option \<Rightarrow> (server, unit) cmd" where
  "check_columns t columns = (case columns of
       None \<Rightarrow> okM ()
     | Some cols \<Rightarrow> bindM (getM (\<lambda>s. describe (se_catalog s) t)) (\<lambda>r. case r of
         None \<Rightarrow> errM (other_error (''unknown table: '' @ t))
       | Some e \<Rightarrow> forM cols (\<lambda>c. if c \<in> sc_name ` set (ct_columns e) then okM ()
           else errM (other_error (''unknown column: '' @ c)))))"

definition check_create_index :: "libs \<Rightarrow> string \<Rightarrow> string \<Rightarrow> (server, unit) cmd" where
  "check_create_index lb t column = (if column = ''id''
     then errM (IoError AlreadyExists ''id is the built-in index and cannot be created twice'')
     else bindM (getM (\<lambda>s. describe (se_catalog s) t)) (\<lambda>r. case r of
         None \<Rightarrow> errM (unknown_table_error t)
       | Some e \<Rightarrow>
          if column \<notin> sc_name ` set (ct_columns e) then errM (IoError NotFound (''unknown column: '' @ column))
          else if column \<in> set (ct_indexes e)
          then errM (IoError AlreadyExists (''index on column '' @ [CHR 0x22] @ column @ [CHR 0x22] @ '' already exists''))
          else bindM (with_existing_table lb t (bindM (getM ht_hidden) (\<lambda>hidden.
                 on_file (scan_columns (lb_row lb) hidden (Some [column]))))) (\<lambda>rows.
               bindM (getM se_cfg) (\<lambda>cfg.
               forM rows (\<lambda>r. liftM (check_index_key r column (cf_page_size cfg) (cf_btree_order cfg)))))))"

definition check_drop_index :: "string \<Rightarrow> string \<Rightarrow> (server, unit) cmd" where
  "check_drop_index t column = (if column = ''id''
     then errM (IoError InvalidInput ''id is the built-in index and cannot be dropped'')
     else bindM (getM (\<lambda>s. describe (se_catalog s) t)) (\<lambda>r. case r of
         None \<Rightarrow> errM (unknown_table_error t)
       | Some e \<Rightarrow> if column \<in> set (ct_indexes e) then okM ()
          else errM (IoError NotFound (''no index on column '' @ [CHR 0x22] @ column @ [CHR 0x22]))))"

definition drop_column :: "libs \<Rightarrow> string \<Rightarrow> string \<Rightarrow> (server, unit) cmd" where
  "drop_column lb t column = (if column = ''id''
     then errM (IoError InvalidInput ''the built-in id column cannot be dropped'')
     else bindM (getM (\<lambda>s. describe (se_catalog s) t)) (\<lambda>r. case r of
         None \<Rightarrow> errM (unknown_table_error t)
       | Some e \<Rightarrow> if column \<notin> sc_name ` set (ct_columns e) then errM (IoError NotFound (''unknown column: '' @ column))
          else write_via_wal lb (WHideColumn t column None)))"

record bound_schema =
  bs_table :: string
  bs_database_id :: "string option"
  bs_object_id :: "string option"
  bs_schema_version :: "string option"
  bs_columns :: "schema_column list"

definition parse_bound_number :: "string \<Rightarrow> u64 outcome" where
  "parse_bound_number v = (if v = [] \<or> 20 < length v \<or> \<not> list_all ascii_digit v
     then Err (other_error ''invalid bound catalog number'')
     else (case parse_u64 v of None \<Rightarrow> Err (other_error ''number too large to fit in target type'') | Some n \<Rightarrow> Ok n))"

definition schema_changed :: "string \<Rightarrow> io_error" where
  "schema_changed t = other_error (''bound query schema changed: '' @ t)"

definition validate_bound_schema :: "server \<Rightarrow> string \<Rightarrow> bound_schema \<Rightarrow> unit outcome" where
  "validate_bound_schema s t expected =
     (if se_recovery_required s then Err recovery_error
      else if blocked_table t then Err (other_error ''reserved system table'')
      else (case describe (se_catalog s) t of
          None \<Rightarrow> Err (schema_changed (bs_table expected))
        | Some e \<Rightarrow>
           bindO (case (bs_database_id expected, bs_object_id expected) of
               (Some database, Some object) \<Rightarrow> bindO (parse_bound_number database) (\<lambda>d.
                 if d \<noteq> cg_database_id (se_catalog s) then Err (other_error (''bound query object changed: '' @ bs_table expected))
                 else bindO (parse_bound_number object) (\<lambda>i. if i \<noteq> ct_object_id e
                   then Err (other_error (''bound query object changed: '' @ bs_table expected)) else Ok ()))
             | (None, None) \<Rightarrow> Ok ()
             | _ \<Rightarrow> Err (other_error ''incomplete bound object identity'')) (\<lambda>_.
           bindO (case bs_schema_version expected of
               None \<Rightarrow> Ok ()
             | Some version \<Rightarrow> bindO (parse_bound_number version) (\<lambda>v.
                 if v \<noteq> ct_schema_version e then Err (schema_changed (bs_table expected)) else Ok ())) (\<lambda>_.
           if \<not> columns_eq (bs_columns expected) (ct_columns e) then Err (schema_changed (bs_table expected)) else Ok ()))))"

section \<open>Snapshots\<close>

definition domain_checkpoint :: "(server, string) cmd" where
  "domain_checkpoint = bindM (getM (cg_database_id \<circ> se_catalog)) (\<lambda>database.
     bindM stored_checkpoint (\<lambda>cp. okM (dec_digits (unat database) @ '':'' @ dec_digits (unat cp))))"

definition domain_snapshot :: "libs \<Rightarrow> (server, response) cmd" where
  "domain_snapshot lb = bindM (version_tables lb) (\<lambda>tables. bindM domain_checkpoint (\<lambda>cp.
     okM (RDomainSnapshot (map fst tables) (map (\<lambda>(sch, rows). (ts_table sch, rows)) tables) cp)))"

definition base_type :: "schema_column list \<Rightarrow> string option" where
  "base_type columns = map_option sc_ty (find (\<lambda>c. sc_name c = ''base'') columns)"

definition alter_domain :: "libs \<Rightarrow> string \<Rightarrow> schema_column list \<Rightarrow> string \<Rightarrow> (server, unit) cmd" where
  "alter_domain lb t columns cp = bindM domain_checkpoint (\<lambda>current.
     if current \<noteq> cp then errM (other_error ''serialization_failure: domain snapshot changed'')
     else if \<not> starts_with DOMAIN_PREFIX t then errM (other_error ''ALTER DOMAIN requires a domain catalog'')
     else bindM (getM (\<lambda>s. describe (se_catalog s) t)) (\<lambda>r. case r of
         None \<Rightarrow> errM (other_error ''unknown domain'')
       | Some e \<Rightarrow> (case (base_type (ct_columns e), base_type columns) of
             (Some old, Some new) \<Rightarrow> if old \<noteq> new then errM (other_error ''ALTER DOMAIN cannot change base type'')
               else write_via_wal lb (WReplaceSchema t columns None [])
           | _ \<Rightarrow> errM (other_error ''invalid domain base''))))"

definition list_tables :: "server \<Rightarrow> string list" where
  "list_tables s = filter (\<lambda>t. \<not> blocked_table t) (table_names (se_catalog s))"

definition describe_table :: "string \<Rightarrow> (server, response) cmd" where
  "describe_table t = bindM (getM (\<lambda>s. describe (se_catalog s) t)) (\<lambda>r. case r of
       None \<Rightarrow> errM (unknown_table_error t)
     | Some e \<Rightarrow> okM (Schema t (ct_schema_version e) (ct_columns e) (ct_row_count e) (index_wires e) (stat_wires e)))"

section \<open>Transactions\<close>

definition on_mstate :: "(mstate, 'a) cmd \<Rightarrow> (server, 'a) cmd" where
  "on_mstate m = on_mvcc (\<lambda>v. case m (mv_state v) of (r, st) \<Rightarrow> (r, v\<lparr>mv_state := st\<rparr>))"

definition read_mstate :: "(mstate \<Rightarrow> 'a outcome) \<Rightarrow> (server, 'a) cmd" where
  "read_mstate f s = (f (mv_state (se_mvcc s)), s)"

text \<open>\<open>collect_retired\<close>: the retired files that no snapshot can still need.\<close>

fun collect_loop :: "u64 option \<Rightarrow> (u64 \<times> string list) list \<Rightarrow> (u64 \<times> string list) list \<Rightarrow> (server, unit) cmd" where
  "collect_loop oldest before [] = okM ()"
| "collect_loop oldest before ((lsn, paths) # rest) =
     (if (case oldest of None \<Rightarrow> True | Some snapshot \<Rightarrow> lsn \<le> snapshot)
      then seqM (forM paths remove_path)
          (seqM (modM (\<lambda>s. s\<lparr>se_retired := before @ rest\<rparr>)) (collect_loop oldest before rest))
      else collect_loop oldest (before @ [(lsn, paths)]) rest)"

definition collect_retired :: "(server, unit) cmd" where
  "collect_retired = bindM (getM (\<lambda>s. (oldest_snapshot (mv_state (se_mvcc s)), se_retired s))) (\<lambda>(oldest, retired).
     collect_loop oldest [] retired)"

definition mvcc_begin :: "libs \<Rightarrow> bool \<Rightarrow> string list option \<Rightarrow> (server, response) cmd" where
  "mvcc_begin lb serializable tables = seqM (ensure_mvcc lb)
     (bindM (getM (\<lambda>s. (catalog_schemas (se_catalog s), mv_nonce (se_mvcc s)))) (\<lambda>(schemas, nonce).
      bindM (on_mstate (begin_selected nonce schemas serializable tables)) (\<lambda>(token, rows, _).
      bindM domain_checkpoint (\<lambda>cp. okM (MvccSnapshot token schemas rows cp)))))"

definition mvcc_preview :: "string \<Rightarrow> string list option \<Rightarrow> (server, response) cmd" where
  "mvcc_preview token tables = bindM (getM (\<lambda>s. filter (\<lambda>sch. case tables of None \<Rightarrow> True | Some names \<Rightarrow> ts_table sch \<in> set names)
       (catalog_schemas (se_catalog s)))) (\<lambda>schemas.
     bindM (read_mstate (\<lambda>st. preview st token schemas)) (\<lambda>(rows, _).
     bindM domain_checkpoint (\<lambda>cp. okM (RDomainSnapshot schemas rows cp))))"

text \<open>The closure of \<open>MvccCommit\<close>, and what follows it: a broken server ends every transaction.\<close>

definition commit_transaction :: "libs \<Rightarrow> string \<Rightarrow> string \<Rightarrow> (server, unit) cmd" where
  "commit_transaction lb token cp = bindM domain_checkpoint (\<lambda>current.
     if current \<noteq> cp then errM (other_error ''serialization_failure: commit point changed'')
     else bindM (read_mstate (\<lambda>st. commit_ops st token)) (\<lambda>ops.
       seqM (read_mstate (\<lambda>st. validate_commit st token ops))
      (seqM (if ops \<noteq> [] then apply_transaction lb ops else okM ())
      (seqM (on_mstate (modM (finish token))) collect_retired))))"

definition mvcc_commit :: "libs \<Rightarrow> string \<Rightarrow> string \<Rightarrow> (server, unit) cmd" where
  "mvcc_commit lb token cp s = (case commit_transaction lb token cp s of
       (r, s') \<Rightarrow> (r, if r \<noteq> Panic \<and> se_recovery_required s'
         then snd (on_mstate (modM fail_all) s') else s'))"

section \<open>Dispatch\<close>

definition respond :: "string \<Rightarrow> (server, response) cmd \<Rightarrow> (server, response) cmd" where
  "respond before m s = (case m s of
       (Ok a, s') \<Rightarrow> (Ok a, s')
     | (Err e, s') \<Rightarrow> (Ok (RError (before @ err_message e)), s')
     | (Panic, s') \<Rightarrow> (Panic, s'))"

definition answer_ok :: "(server, unit) cmd \<Rightarrow> (server, response) cmd" where
  "answer_ok m = seqM m (okM ROk)"

definition answer_rows :: "(server, row list) cmd \<Rightarrow> (server, response) cmd" where
  "answer_rows m = bindM m (\<lambda>rows. okM (Rows rows))"

definition lookup_by_index :: "libs \<Rightarrow> string \<Rightarrow> string \<Rightarrow> json \<Rightarrow> (server, response) cmd" where
  "lookup_by_index lb t column key = (let before = ''lookup_by_index '' @ t @ '': '' in
     bindM (\<lambda>s. case with_existing_table lb t (getM (has_index column)) s of
          (Err e, s') \<Rightarrow> (Ok (Inl (RError (before @ err_message e))), s')
        | (Ok b, s') \<Rightarrow> (Ok (Inr b), s')
        | (Panic, s') \<Rightarrow> (Panic, s')) (\<lambda>r. case r of
       Inl response \<Rightarrow> okM response
     | Inr indexed \<Rightarrow> if \<not> indexed then okM NoIndex
         else (case (case scalar_int key of None \<Rightarrow> enum_rank key | Some k \<Rightarrow> Some k) of
             Some k \<Rightarrow> respond before (answer_rows (with_table lb t (get_all_by_column_key (lb_row lb) (lb_fuel lb) column k)))
           | None \<Rightarrow> (case as_str key of
               Some str \<Rightarrow> respond before (answer_rows (with_table lb t (get_all_by_string_key (lb_row lb) (lb_fuel lb) column str)))
             | None \<Rightarrow> okM (RError ''lookup_by_index: key must be a number, string or valid enum'')))))"

definition range_by_index :: "libs \<Rightarrow> string \<Rightarrow> string \<Rightarrow> (json \<times> bool) option \<Rightarrow> (json \<times> bool) option \<Rightarrow> (server, response) cmd" where
  "range_by_index lb t column lo hi = respond (''range_by_index '' @ t @ '': '')
     (bindM (with_existing_table lb t (getM (has_index column))) (\<lambda>indexed. if \<not> indexed then okM NoIndex
      else bindM (with_table lb t (scan_range (lb_row lb) (lb_fuel lb) column lo hi)) (\<lambda>r. okM (case r of
          Some rows \<Rightarrow> Rows rows
        | None \<Rightarrow> NoIndex))))"

definition create_table_request :: "libs \<Rightarrow> string \<Rightarrow> schema_column list \<Rightarrow> (server, response) cmd" where
  "create_table_request lb t columns = bindM (getM (\<lambda>s. has_table s t)) (\<lambda>known.
     if known then okM (RError (''create_table '' @ t @ '': table already exists''))
     else respond (''create_table '' @ t @ '': '') (answer_ok (write_via_wal lb (WCreateTable t columns None))))"

definition drop_table_request :: "libs \<Rightarrow> string \<Rightarrow> (server, response) cmd" where
  "drop_table_request lb t = bindM (getM (\<lambda>s. has_table s t)) (\<lambda>known.
     if \<not> known then okM (RError (''drop_table '' @ t @ '': unknown table: '' @ t))
     else respond (''drop_table '' @ t @ '': '') (answer_ok (write_via_wal lb (WDropTable t))))"

text \<open>A checked index request: the message names the column when the check fails.\<close>

definition index_request :: "libs \<Rightarrow> string \<Rightarrow> string \<Rightarrow> string \<Rightarrow> (server, unit) cmd \<Rightarrow> wal_op \<Rightarrow> (server, response) cmd" where
  "index_request lb name t column check op = bindM (\<lambda>s. case check s of
        (Ok _, s') \<Rightarrow> (Ok None, s')
      | (Err e, s') \<Rightarrow> (Ok (Some (name @ '' '' @ t @ ''('' @ column @ ''): '' @ err_message e)), s')
      | (Panic, s') \<Rightarrow> (Panic, s')) (\<lambda>failure. case failure of
       Some message \<Rightarrow> okM (RError message)
     | None \<Rightarrow> respond (name @ '' '' @ t @ '': '') (answer_ok (write_via_wal lb op)))"

definition write_request :: "libs \<Rightarrow> string \<Rightarrow> wal_op \<Rightarrow> (server, response) cmd" where
  "write_request lb name op = respond (name @ '' '' @ wtable op @ '': '') (answer_ok (write_via_wal lb op))"

definition bound_of :: "json option \<Rightarrow> bool \<Rightarrow> (json \<times> bool) option" where
  "bound_of v inclusive = map_option (\<lambda>j. (j, inclusive)) v"

fun answer :: "libs \<Rightarrow> (request \<Rightarrow> (server, response) cmd) \<Rightarrow> request \<Rightarrow> (server, response) cmd" where
  "answer lb elsewhere (ValidateWrite t) = okM ROk"
| "answer lb elsewhere Ping = okM Pong"
| "answer lb elsewhere (ApplyTransaction ops) = respond ''apply_transaction: '' (answer_ok (apply_transaction lb ops))"
| "answer lb elsewhere (Scan t columns) = respond (''scan '' @ t @ '': '') (answer_rows (seqM (check_columns t columns)
     (with_existing_table lb t (bindM (getM ht_hidden) (\<lambda>hidden. on_file (scan_columns (lb_row lb) hidden columns))))))"
| "answer lb elsewhere (ScanShard t columns shard shards) = respond (''scan '' @ t @ '': '') (answer_rows (seqM (check_columns t columns)
     (scan_shard lb t columns shard shards)))"
| "answer lb elsewhere (Insert t r) = write_request lb ''insert'' (WInsert t r)"
| "answer lb elsewhere (InsertBatch t rows) = write_request lb ''insert_batch'' (WInsertBatch t rows)"
| "answer lb elsewhere (DeleteKeys t keys) = write_request lb ''delete_keys'' (WDeleteKeys t keys)"
| "answer lb elsewhere (LookupByIndex t column key) = lookup_by_index lb t column key"
| "answer lb elsewhere (RangeByIndex t column lo lo_inclusive hi hi_inclusive) =
     range_by_index lb t column (bound_of lo lo_inclusive) (bound_of hi hi_inclusive)"
| "answer lb elsewhere (ReplaceAll t rows) = write_request lb ''replace_all'' (WReplaceAll t rows)"
| "answer lb elsewhere ListTables = getM (Tables \<circ> list_tables)"
| "answer lb elsewhere ListCatalog = getM (\<lambda>s. Catalog (catalog_schemas (se_catalog s)))"
| "answer lb elsewhere (MvccPreview token tables) = respond [] (mvcc_preview token tables)"
| "answer lb elsewhere (MvccRead token names columns) = respond [] (bindM (read_mstate (\<lambda>st. mvcc_read st token names columns))
     (\<lambda>(schemas, rows). okM (RDomainSnapshot schemas rows [])))"
| "answer lb elsewhere (MvccBegin serializable tables) = respond [] (mvcc_begin lb serializable tables)"
| "answer lb elsewhere (MvccCommit token cp ops) = respond [] (answer_ok (mvcc_commit lb token cp))"
| "answer lb elsewhere (MvccLock token ops reads) = okM (RError ''transaction request dispatched under storage gate'')"
| "answer lb elsewhere (MvccRollback token) = okM (RError ''transaction request dispatched under storage gate'')"
| "answer lb elsewhere (DatabaseSnapshot cp) = respond [] (bindM domain_checkpoint (\<lambda>current.
     if cp = Some current then okM (SnapshotUnchanged current) else domain_snapshot lb))"
| "answer lb elsewhere DomainSnapshot = respond [] (domain_snapshot lb)"
| "answer lb elsewhere (AlterDomain t columns cp) = respond [] (answer_ok (alter_domain lb t columns cp))"
| "answer lb elsewhere (DescribeTable t) = respond (''describe_table '' @ t @ '': '') (describe_table t)"
| "answer lb elsewhere (CreateTable t columns) = create_table_request lb t columns"
| "answer lb elsewhere (DropTable t) = drop_table_request lb t"
| "answer lb elsewhere (CreateIndex t column) = index_request lb ''create_index'' t column (check_create_index lb t column) (WCreateIndex t column)"
| "answer lb elsewhere (DropIndex t column) = index_request lb ''drop_index'' t column (check_drop_index t column) (WDropIndex t column)"
| "answer lb elsewhere (DropColumn t column) = respond (''drop_column '' @ t @ ''('' @ column @ ''): '') (answer_ok (drop_column lb t column))"
| "answer lb elsewhere (Compact t) = respond (''compact '' @ t @ '': '') (answer_ok (compact_table lb t))"
| "answer lb elsewhere (ReplaceSchema t columns rows) = write_request lb ''replace_schema'' (WReplaceSchema t columns None rows)"
| "answer lb elsewhere req = elsewhere req"

definition dispatch :: "libs \<Rightarrow> (request \<Rightarrow> (server, response) cmd) \<Rightarrow> request \<Rightarrow> (server, response) cmd" where
  "dispatch lb elsewhere req = bindM (getM se_recovery_required) (\<lambda>broken.
     if broken \<and> req \<noteq> Ping then okM (RError ''storage recovery required'')
     else if \<not> valid_columns req then okM (RError ''invalid column name'')
     else (case request_table req of
         Some t \<Rightarrow> if blocked_table t then okM (RError ''reserved system table'')
           else if \<not> valid_storage_name t then okM (RError ''invalid table name'')
           else answer lb elsewhere req
       | None \<Rightarrow> answer lb elsewhere req))"

definition concurrent_read :: "request \<Rightarrow> bool" where
  "concurrent_read req = (case req of
       DomainSnapshot \<Rightarrow> True | MvccRead _ _ _ \<Rightarrow> True | DatabaseSnapshot _ \<Rightarrow> True | Scan _ _ \<Rightarrow> True
     | ValidateWrite _ \<Rightarrow> True | ScanShard _ _ _ _ \<Rightarrow> True | LookupByIndex _ _ _ \<Rightarrow> True | RangeByIndex _ _ _ _ _ _ \<Rightarrow> True
     | _ \<Rightarrow> False)"

definition rollback_request :: "string \<Rightarrow> (server, response) cmd" where
  "rollback_request token = respond [] (answer_ok (seqM (on_mstate (modM (finish token))) collect_retired))"

end
