(* ===== verification/Mvcc_Versions.thy ===== *)
theory Mvcc_Versions
  imports Mvcc
begin

text \<open>
  What a snapshot of the multi-version store sees: the invariant of version chains, the rows a
  published commit makes visible, and that publishing and reclaiming leave every active
  snapshot alone.
\<close>

section \<open>Visible versions as a map\<close>

definition seen_map :: "history \<Rightarrow> u64 \<Rightarrow> u64 \<Rightarrow> version option" where
  "seen_map h s rid = Option.bind (map_of (hs_rows h) rid) (seen_version s)"

text \<open>A version without its end, which later commits fill in.\<close>

definition core :: "version \<Rightarrow> version" where
  "core v = v\<lparr>vn_end := None\<rparr>"

lemma core_simps [simp]:
  "vn_begin (core v) = vn_begin v" "vn_value_begin (core v) = vn_value_begin v" "vn_order (core v) = vn_order v"
  "vn_row (core v) = vn_row v" "core (v\<lparr>vn_end := e\<rparr>) = core v"
  by (simp_all add: core_def)

definition seen_list :: "history \<Rightarrow> u64 \<Rightarrow> (u64 \<times> version) list" where
  "seen_list h s = List.map_filter (\<lambda>e. map_option (Pair (fst e)) (seen_version s (snd e))) (hs_rows h)"

lemma visible_seen_list: "visible h s = sort_key (\<lambda>e. (vn_order (snd e), fst e)) (seen_list h s)"
  by (simp add: visible_def seen_list_def)

lemma seen_list_ok:
  assumes "bt_ok (hs_rows h)"
  shows "bt_ok (seen_list h s) \<and> map_of (seen_list h s) = seen_map h s"
proof -
  have "bt_ok (List.map_filter (\<lambda>e. map_option (Pair (fst e)) (seen_version s (snd e))) m) \<and>
      fst ` set (List.map_filter (\<lambda>e. map_option (Pair (fst e)) (seen_version s (snd e))) m) \<subseteq> fst ` set m \<and>
      map_of (List.map_filter (\<lambda>e. map_option (Pair (fst e)) (seen_version s (snd e))) m) =
        (\<lambda>rid. Option.bind (map_of m rid) (seen_version s))" if "bt_ok m" for m :: "(u64, version list) btree_map"
    using that
  proof (induction m)
    case (Cons e m)
    then have no: "map_of m (fst e) = None" by (auto simp: bt_ok_Cons map_of_eq_None_iff)
    let ?mf = "List.map_filter (\<lambda>e. map_option (Pair (fst e)) (seen_version s (snd e)))"
    have ih: "bt_ok (?mf m)" "fst ` set (?mf m) \<subseteq> fst ` set m"
      "map_of (?mf m) = (\<lambda>rid. Option.bind (map_of m rid) (seen_version s))" using Cons by (auto simp: bt_ok_Cons)
    moreover have "\<forall>k \<in> fst ` set (?mf m). fst e < k" using ih(2) Cons.prems unfolding bt_ok_Cons by blast
    ultimately show ?case
      by (cases "seen_version s (snd e)") (auto simp: bt_ok_Cons List.map_filter_simps fun_eq_iff no)
  qed (simp add: List.map_filter_simps)
  with assms show ?thesis by (simp add: seen_list_def seen_map_def fun_eq_iff)
qed

lemma insort_key_map:
  assumes "\<And>x. f x = f' (g x)"
  shows "map g (insort_key f x xs) = insort_key f' (g x) (map g xs)"
  by (induction xs) (auto simp: assms)

lemma sort_key_map:
  assumes "\<And>x. f x = f' (g x)"
  shows "map g (sort_key f xs) = sort_key f' (map g xs)"
proof (induction xs)
  case (Cons x xs)
  then show ?case using insort_key_map [of f f' g, OF assms] by simp
qed simp

text \<open>The visible rows depend only on what each row number shows.\<close>

lemma visible_cong:
  assumes "bt_ok (hs_rows h)" and "bt_ok (hs_rows h')"
    and "\<And>rid. map_option core (seen_map h s rid) = map_option core (seen_map h' s' rid)"
  shows "map (map_prod id core) (visible h s) = map (map_prod id core) (visible h' s')"
proof -
  have "map (map_prod id core) (seen_list h s) = map (map_prod id core) (seen_list h' s')"
  proof (rule bt_ext)
    have m: "map (map_prod id core) xs = bt_map (\<lambda>_. core) xs" for xs :: "(u64 \<times> version) list"
      by (simp add: bt_map_def map_prod_def split_beta)
    show "bt_ok (map (map_prod id core) (seen_list h s))" "bt_ok (map (map_prod id core) (seen_list h' s'))"
      using seen_list_ok [OF assms(1)] seen_list_ok [OF assms(2)] by (simp_all add: m)
    show "map_of (map (map_prod id core) (seen_list h s)) rid = map_of (map (map_prod id core) (seen_list h' s')) rid" for rid
      using seen_list_ok [OF assms(1), of s] seen_list_ok [OF assms(2), of s'] assms(3) by (simp add: m get_bt_map)
  qed
  moreover have "map (map_prod id core) (sort_key (\<lambda>e. (vn_order (snd e), fst e)) xs) =
      sort_key (\<lambda>e. (vn_order (snd e), fst e)) (map (map_prod id core) xs)" for xs :: "(u64 \<times> version) list"
    by (rule sort_key_map) simp
  ultimately show ?thesis by (simp add: visible_seen_list)
qed

lemma visible_rows_cong:
  assumes "bt_ok (hs_rows h)" and "bt_ok (hs_rows h')"
    and "\<And>rid. map_option core (seen_map h s rid) = map_option core (seen_map h' s' rid)"
  shows "visible_rows h s = visible_rows h' s'"
proof -
  have "map (\<lambda>e. vn_row (snd e)) (map (map_prod id core) xs) = map (\<lambda>e. vn_row (snd e)) xs" for xs :: "(u64 \<times> version) list"
    by simp
  then show ?thesis using visible_cong [OF assms] unfolding visible_rows_def by metis
qed

lemma set_visible: "bt_ok (hs_rows h) \<Longrightarrow> (rid, v) \<in> set (visible h s) \<longleftrightarrow> seen_map h s rid = Some v"
  using seen_list_ok [of h s] bt_get_Some [of "seen_list h s" rid v] by (auto simp: visible_seen_list)

lemma distinct_visible: "bt_ok (hs_rows h) \<Longrightarrow> distinct (map fst (visible h s))"
proof -
  assume "bt_ok (hs_rows h)"
  then have "distinct (map fst (seen_list h s))" using seen_list_ok bt_ok_distinct by blast
  then show ?thesis by (simp add: visible_seen_list distinct_map)
qed

lemma word_of_nat_less: "i < j \<Longrightarrow> j < 2 ^ 64 \<Longrightarrow> (word_of_nat i :: u64) < word_of_nat j"
  by (simp add: word_less_nat_alt unat_of_nat)

lemma sorted_word_upt: "n \<le> 2 ^ 64 \<Longrightarrow> sorted_wrt (<) (map word_of_nat [0..<n] :: u64 list)"
  by (auto simp: sorted_wrt_iff_nth_less intro!: word_of_nat_less)

text \<open>When the seen versions carry the orders 0, 1, 2 and so on, they come out in that order.\<close>

lemma visible_enumerated:
  assumes ok: "bt_ok (hs_rows h)" and len: "length ids = length vs" "length vs \<le> 2 ^ 64" and dist: "distinct ids"
    and seen: "\<And>rid. seen_map h s rid = map_of (zip ids vs) rid"
    and order: "\<And>i. i < length vs \<Longrightarrow> vn_order (vs ! i) = word_of_nat i"
  shows "visible h s = zip ids vs"
proof -
  let ?f = "\<lambda>e :: u64 \<times> version. (vn_order (snd e), fst e)"
  have ord: "map (vn_order \<circ> snd) (zip ids vs) = map word_of_nat [0..<length vs]"
    using len(1) by (intro nth_equalityI) (simp_all add: order)
  have strict: "sorted_wrt (<) (map word_of_nat [0..<length vs] :: u64 list)"
    using len(2) by (rule sorted_word_upt)
  have sf: "sorted_wrt (<) (map ?f (zip ids vs))"
  proof -
    have "sorted_wrt (\<lambda>e e'. vn_order (snd e) < vn_order (snd e')) (zip ids vs)"
      using strict unfolding ord [symmetric] by (simp add: sorted_wrt_map)
    then show ?thesis by (simp add: sorted_wrt_map less_prod_def sorted_wrt_mono_rel [rotated])
  qed
  have "set (visible h s) = set (zip ids vs)"
  proof -
    have "map_of (zip ids vs) rid = Some v \<longleftrightarrow> (rid, v) \<in> set (zip ids vs)" for rid v
      using dist len(1) by (intro map_of_eq_Some_iff) simp
    then show ?thesis using set_visible [OF ok, of _ _ s] seen by auto
  qed
  moreover have "sorted (map ?f (visible h s))" by (simp add: visible_seen_list)
  moreover have "distinct (map ?f (visible h s))"
    using distinct_visible [OF ok, of s] by (auto simp: distinct_map inj_on_def)
  moreover have "inj_on ?f (set (visible h s) \<union> set (zip ids vs))"
    using distinct_visible [OF ok, of s] calculation(1) by (auto simp: distinct_map inj_on_def)
  ultimately show ?thesis
    using sf by (intro map_sorted_distinct_set_unique [where f = ?f]) (auto simp: strict_sorted_iff)
qed

section \<open>Version chains\<close>

text \<open>
  The invariant of a chain: it is not empty, every version began and ended by the current
  commit, and each version ends before the next one begins.
\<close>

definition follows :: "version \<Rightarrow> version \<Rightarrow> bool" where
  "follows v w \<longleftrightarrow> (\<exists>e. vn_end v = Some e \<and> e \<le> vn_begin w)"

definition chain_ok :: "u64 \<Rightarrow> version list \<Rightarrow> bool" where
  "chain_ok csn chain \<longleftrightarrow> chain \<noteq> [] \<and> (\<forall>v \<in> set chain. version_valid csn v) \<and> sorted_wrt follows chain"

named_theorems chain_simps "what a snapshot sees of an extended chain"

lemma version_valid_mono: "version_valid cur v \<Longrightarrow> cur \<le> csn \<Longrightarrow> version_valid csn v"
  by (auto simp: version_valid_def split: option.splits)

lemma chain_ok_mono: "chain_ok cur chain \<Longrightarrow> cur \<le> csn \<Longrightarrow> chain_ok csn chain"
  by (auto simp: chain_ok_def intro: version_valid_mono)

lemma find_None: "(\<And>x. x \<in> set xs \<Longrightarrow> \<not> P x) \<Longrightarrow> find P xs = None"
  by (simp add: find_None_iff)

lemma find_filter: "(\<And>x. x \<in> set xs \<Longrightarrow> P x \<Longrightarrow> Q x) \<Longrightarrow> find P (filter Q xs) = find P xs"
  by (induction xs) auto

lemma seen_snoc [chain_simps]: "seen_version s (xs @ [v]) = (if sees s v then Some v else seen_version s xs)"
  by (simp add: seen_version_def)

text \<open>A version that has ended is not seen at the current commit or later.\<close>

lemma ended_unseen: "version_valid cur v \<Longrightarrow> vn_end v \<noteq> None \<Longrightarrow> cur \<le> s \<Longrightarrow> \<not> sees s v"
  by (auto simp: version_valid_def sees_def)

lemma seen_current:
  assumes "chain_ok cur chain" and "cur \<le> s"
  shows "seen_version s chain = (if vn_end (last chain) = None then Some (last chain) else None)"
proof -
  have c: "chain = butlast chain @ [last chain]" using assms(1) by (simp add: chain_ok_def)
  have "vn_end v \<noteq> None" if "v \<in> set (butlast chain)" for v
  proof -
    have "sorted_wrt follows (butlast chain @ [last chain])" using assms(1) c by (simp add: chain_ok_def)
    with that show ?thesis by (auto simp: sorted_wrt_append follows_def)
  qed
  then have "\<not> sees s v" if "v \<in> set (butlast chain)" for v
    using that assms in_set_butlastD [OF that] by (intro ended_unseen [of cur]) (auto simp: chain_ok_def)
  then have "seen_version s (butlast chain) = None" unfolding seen_version_def by (intro find_None) simp
  moreover have "sees s (last chain) \<longleftrightarrow> vn_end (last chain) = None"
  proof -
    have "version_valid cur (last chain)" using assms(1) by (simp add: chain_ok_def)
    then show ?thesis
      using assms(2) by (cases "vn_end (last chain)") (auto simp: sees_def version_valid_def)
  qed
  ultimately show ?thesis by (subst c) (simp add: seen_snoc)
qed

lemma set_last_end_snoc: "chain \<noteq> [] \<Longrightarrow> set_last_end csn chain = butlast chain @ [(last chain)\<lparr>vn_end := Some csn\<rparr>]"
  by (simp add: set_last_end_def)

lemma seen_set_last_end:
  assumes "chain \<noteq> []" and "vn_end (last chain) = None" and "s < csn"
  shows "map_option core (seen_version s (set_last_end csn chain)) = map_option core (seen_version s chain)"
proof -
  have c: "chain = butlast chain @ [last chain]" using assms(1) by simp
  have "sees s ((last chain)\<lparr>vn_end := Some csn\<rparr>) \<longleftrightarrow> sees s (last chain)" using assms(2,3) by (simp add: sees_def)
  then show ?thesis by (subst (2) c) (simp add: set_last_end_snoc [OF assms(1)] seen_snoc)
qed

lemma chain_ok_set_last_end:
  assumes "chain_ok cur chain" and "vn_end (last chain) = None" and "cur < csn"
  shows "chain_ok csn (set_last_end csn chain)"
proof -
  have ne: "chain \<noteq> []" and c: "chain = butlast chain @ [last chain]" using assms(1) by (simp_all add: chain_ok_def)
  have "sorted_wrt follows (butlast chain @ [last chain])" using assms(1) c by (simp add: chain_ok_def)
  then have "sorted_wrt follows (butlast chain @ [(last chain)\<lparr>vn_end := Some csn\<rparr>])"
    by (simp add: sorted_wrt_append follows_def)
  moreover have "version_valid csn v" if "v \<in> set (butlast chain)" for v
  proof (rule version_valid_mono)
    show "version_valid cur v" using assms(1) in_set_butlastD [OF that] by (simp add: chain_ok_def)
    show "cur \<le> csn" using assms(3) by simp
  qed
  moreover have "version_valid csn ((last chain)\<lparr>vn_end := Some csn\<rparr>)"
  proof -
    have "vn_begin (last chain) \<le> cur" using assms(1) ne by (simp add: chain_ok_def version_valid_def)
    then have "vn_begin (last chain) < csn" using assms(3) by (rule le_less_trans)
    then show ?thesis by (simp add: version_valid_def)
  qed
  ultimately show ?thesis by (auto simp: chain_ok_def set_last_end_snoc [OF ne])
qed

lemma chain_last: "chain_ok csn chain \<Longrightarrow> v \<in> set chain \<Longrightarrow> v = last chain \<or> vn_end v \<noteq> None"
  by (cases chain rule: rev_cases) (auto simp: chain_ok_def sorted_wrt_append follows_def)

lemma ended_last: "chain \<noteq> [] \<Longrightarrow> vn_end (last (set_last_end csn chain)) = Some csn"
  by (simp add: set_last_end_snoc)

lemma chain_ok_snoc:
  assumes "chain_ok csn chain" and "vn_end (last chain) = Some csn" and "vn_begin v = csn" and "vn_end v = None"
  shows "chain_ok csn (chain @ [v])"
proof -
  have "follows w v" if "w \<in> set chain" for w
  proof -
    have "version_valid csn w" using that assms(1) by (simp add: chain_ok_def)
    moreover have "vn_end w \<noteq> None" using chain_last [OF assms(1) that] assms(2) by auto
    ultimately show ?thesis using assms(3) by (auto simp: follows_def version_valid_def)
  qed
  then show ?thesis using assms by (auto simp: chain_ok_def sorted_wrt_append version_valid_def)
qed

lemma seen_prune:
  assumes "oldest \<le> s"
  shows "seen_version s (filter (\<lambda>v. \<not> expired oldest v) chain) = seen_version s chain"
  unfolding seen_version_def rev_filter using assms
  by (intro find_filter) (auto simp: sees_def expired_def split: option.splits)

lemma chain_ok_filter: "chain_ok csn chain \<Longrightarrow> filter P chain \<noteq> [] \<Longrightarrow> chain_ok csn (filter P chain)"
  by (auto simp: chain_ok_def sorted_wrt_filter)

section \<open>Histories\<close>

definition row_ok :: "row \<Rightarrow> bool" where
  "row_ok r \<longleftrightarrow> distinct (map fst r)"

definition rows_ok :: "u64 \<Rightarrow> u64 \<Rightarrow> (u64, version list) btree_map \<Rightarrow> bool" where
  "rows_ok csn next_row rows \<longleftrightarrow> bt_ok rows \<and> (\<forall>(rid, chain) \<in> set rows. rid \<le> next_row \<and> chain_ok csn chain \<and>
     (\<forall>v \<in> set chain. row_ok (vn_row v)))"

definition durable_ok :: "durable \<Rightarrow> bool" where
  "durable_ok d \<longleftrightarrow> bt_ok (du_tables d) \<and>
     (\<forall>(tid, h) \<in> set (du_tables d). rows_ok (du_csn d) (du_next_row d) (hs_rows h) \<and>
       (hs_live h \<or> (\<forall>(rid, chain) \<in> set (hs_rows h). vn_end (last chain) \<noteq> None)))"

lemma rows_okD:
  assumes "rows_ok csn n rows"
  shows "bt_ok rows" and "map_of rows rid = Some chain \<Longrightarrow> rid \<le> n"
    and "map_of rows rid = Some chain \<Longrightarrow> chain_ok csn chain"
    and "map_of rows rid = Some chain \<Longrightarrow> v \<in> set chain \<Longrightarrow> row_ok (vn_row v)"
  using assms by (auto simp: rows_ok_def dest!: map_of_SomeD)

lemma rows_okI:
  assumes "bt_ok rows" and "\<And>rid chain. map_of rows rid = Some chain \<Longrightarrow> rid \<le> n \<and> chain_ok csn chain \<and>
     (\<forall>v \<in> set chain. row_ok (vn_row v))"
  shows "rows_ok csn n rows"
  using assms bt_get_Some [OF assms(1)] by (auto simp: rows_ok_def)

section \<open>Equal rows have equal keys\<close>

lemma jsons_eq_iff: "jsons_eq xs ys \<longleftrightarrow> list_all2 json_eq xs ys"
  by (induction xs arbitrary: ys) (auto simp: list_all2_Cons1 split: list.splits)

lemma json_eq_as_str: "json_eq v w \<Longrightarrow> as_str v = as_str w"
  by (cases v; cases w) (auto simp: as_str_def)

lemma json_eq_as_array: "json_eq v w \<Longrightarrow> rel_option (list_all2 json_eq) (as_array v) (as_array w)"
  by (cases v; cases w) (auto simp: as_array_def jsons_eq_iff)

lemma labels_ok_cong: "list_all2 json_eq xs ys \<Longrightarrow> labels_ok seen xs = labels_ok seen ys"
  by (induction xs ys arbitrary: seen rule: list_all2_induct) (auto simp: json_eq_as_str split: option.splits)

lemma position_label_cong:
  "list_all2 json_eq xs ys \<Longrightarrow> position (\<lambda>l. as_str l = a) xs = position (\<lambda>l. as_str l = a) ys"
  by (induction xs ys rule: list_all2_induct) (auto simp: json_eq_as_str)

lemma double_zero: "(x :: u64) + x = 0 \<Longrightarrow> x = 0 \<or> x = 0x8000000000000000"
proof -
  assume "x + x = 0"
  then have "(unat x + unat x) mod 2 ^ 64 = 0" using unat_word_ariths(1) [of x x] by simp
  moreover have "unat x < 2 ^ 64" using unat_bound [of x] by simp
  moreover have "n = 0 \<or> n = 9223372036854775808" if "(n + n) mod 18446744073709551616 = 0" "n < 18446744073709551616" for n :: nat
  proof -
    have "18446744073709551616 dvd n + n" using that(1) by (rule dvd_eq_mod_eq_0 [THEN iffD2])
    then obtain k where k: "n + n = 18446744073709551616 * k" by (rule dvdE)
    then have "k < 2" using that(2) by linarith
    then have "k = 0 \<or> k = 1" by auto
    then show ?thesis using k by auto
  qed
  ultimately have "unat x = 0 \<or> unat x = unat (0x8000000000000000 :: u64)" by simp
  then show ?thesis by (simp only: unat_eq_0 unsigned_word_eqI word_eq_iff_unsigned [symmetric])
qed

lemma zero_bits: "f64_int 0 = Some 0" "f64_int 0x8000000000000000 = Some 0"
  by code_simp+

lemma double_zero_bits: "(x :: u64) + x = 0 \<Longrightarrow> f64_int x = Some 0"
  using double_zero zero_bits by blast

lemma number_eq_scalar: "number_eq a b \<Longrightarrow> scalar_int (JNumber a) = scalar_int (JNumber b)"
  by (cases a; cases b) (auto simp: number_eq_def scalar_int_def double_zero_bits [simplified])

lemma json_eq_enum_rank:
  assumes "json_eq v w"
  shows "enum_rank v = enum_rank w"
proof (cases "as_object v")
  case None
  then show ?thesis using assms by (cases v; cases w) (auto simp: enum_rank_def as_object_def)
next
  case (Some fs)
  then obtain gs where vw: "v = JObject fs" "w = JObject gs" "length fs = length gs" "fields_eq fs gs"
    using assms by (cases v; cases w) (auto simp: as_object_def)
  show ?thesis
  proof (cases "length fs = 1")
    case False
    then show ?thesis using vw by (auto simp: enum_rank_def as_object_def split: list.splits)
  next
    case True
    then obtain f p g q where fg: "fs = [(f, p)]" "gs = [(g, q)]" using vw(3) by (auto simp: length_Suc_conv)
    then have "f = g" and pq: "json_eq p q" using vw(4) by (auto split: if_splits)
    from json_eq_as_array [OF pq] show ?thesis
    proof (cases rule: option.rel_cases)
      case None
      then show ?thesis using vw fg \<open>f = g\<close> by (simp add: enum_rank_def as_object_def)
    next
      case (Some xs ys)
      note rel = Some
      show ?thesis
      proof (cases "length xs = 3")
        case False
        then have "length ys \<noteq> 3" using rel by (auto dest: list_all2_lengthD)
        have no: "(case zs of [t, ls, l] \<Rightarrow> F t ls l | _ \<Rightarrow> None) = None" if "length zs \<noteq> 3"
          for zs :: "json list" and F :: "json \<Rightarrow> json \<Rightarrow> json \<Rightarrow> u64 option"
          using that by (auto split: list.splits)
        show ?thesis using rel False \<open>length ys \<noteq> 3\<close> by (simp add: enum_rank_def as_object_def vw fg no)
      next
        case True
        then obtain t ls l t' ls' l' where xy: "xs = [t, ls, l]" "ys = [t', ls', l']" and
          e: "json_eq t t'" "json_eq ls ls'" "json_eq l l'"
          using rel by (auto simp: length_Suc_conv list_all2_Cons1 numeral_3_eq_3)
        have "as_str t = as_str t'" "as_str l = as_str l'" using e json_eq_as_str by blast+
        moreover have "rel_option (list_all2 json_eq) (as_array ls) (as_array ls')" using e(2) by (rule json_eq_as_array)
        ultimately show ?thesis
          using rel by (cases "as_array ls"; cases "as_array ls'")
            (auto simp: enum_rank_def as_object_def vw fg \<open>f = g\<close> xy labels_ok_cong position_label_cong split: option.splits)
      qed
    qed
  qed
qed

lemma json_eq_value_key: "json_eq v w \<Longrightarrow> value_key v = value_key w"
  using number_eq_scalar json_eq_enum_rank [of v w]
  by (cases v; cases w) (auto simp: value_key_def)

lemma row_eq_get:
  assumes "row_eq r s" and "row_ok r" and "row_ok s"
  shows "rel_option json_eq (map_of r c) (map_of s c)"
proof (cases "map_of r c")
  case (Some v)
  then have "(c, v) \<in> set r" by (rule map_of_SomeD)
  then show ?thesis using assms(1) Some by (fastforce simp: row_eq_def fields_eq_iff)
next
  case None
  have sub: "fst ` set r \<subseteq> fst ` set s"
    using assms(1) by (force simp: row_eq_def fields_eq_iff dest: map_of_SomeD)
  moreover have "card (fst ` set r) = card (fst ` set s)"
    using assms distinct_card [of "map fst r"] distinct_card [of "map fst s"] by (simp add: row_eq_def row_ok_def)
  ultimately have "fst ` set r = fst ` set s" by (intro card_subset_eq) simp_all
  with None have "map_of s c = None" by (simp add: map_of_eq_None_iff)
  with None show ?thesis by simp
qed

lemma row_eq_unique_key:
  assumes "row_eq r s" and "row_ok r" and "row_ok s"
  shows "unique_key r c = unique_key s c"
  using row_eq_get [OF assms, of c]
proof (cases rule: option.rel_cases)
  case None
  then show ?thesis by (simp add: unique_key_def)
next
  case (Some v w)
  have k: "value_key v = value_key w" using Some(3) by (rule json_eq_value_key)
  then have rk: "row_key r c = row_key s c" by (simp add: row_key_def Some(1,2))
  show ?thesis
  proof (cases "row_key r c")
    case None
    then show ?thesis
      using Some rk
      by (cases v; cases w) (auto simp: unique_key_def number_eq_def row_key_def value_key_def scalar_int_def
          double_zero_bits [simplified] split: number.splits)
  next
    case (Some key)
    then show ?thesis using \<open>json_eq v w\<close> \<open>map_of r c = Some v\<close> \<open>map_of s c = Some w\<close> rk
      by (cases v; cases w) (auto simp: unique_key_def)
  qed
qed

section \<open>Matching rows\<close>

text \<open>The remaining positions: of old rows with the given key that are not taken yet.\<close>

definition positions_ok :: "(u64 \<times> version) list \<Rightarrow> u64 set \<Rightarrow> positions \<Rightarrow> bool" where
  "positions_ok old taken ps \<longleftrightarrow> (\<forall>key is. map_of ps key = Some is \<longrightarrow> distinct is \<and>
     (\<forall>i \<in> set is. i < length old \<and> fst (old ! i) \<notin> taken \<and> unique_key (vn_row (snd (old ! i))) ''id'' = Some key))"

lemma add_positions_ok:
  assumes "i = length pre" and
    "\<forall>key is. map_of ps key = Some is \<longrightarrow> distinct is \<and> (\<forall>j \<in> set is. j < i \<and> unique_key ((pre @ rs) ! j) ''id'' = Some key)"
  shows "\<forall>key is. map_of (add_positions i rs ps) key = Some is \<longrightarrow> distinct is \<and>
    (\<forall>j \<in> set is. j < length (pre @ rs) \<and> unique_key ((pre @ rs) ! j) ''id'' = Some key)"
  using assms
proof (induction i rs ps arbitrary: pre rule: add_positions.induct)
  case (1 i ps)
  then show ?case by auto
next
  case (2 i r rs ps)
  let ?ps = "case unique_key r ''id'' of None \<Rightarrow> ps
     | Some key \<Rightarrow> hm_insert key ((case map_of ps key of None \<Rightarrow> [] | Some is \<Rightarrow> is) @ [i]) ps"
  have H: "\<forall>key is. map_of ?ps key = Some is \<longrightarrow> distinct is \<and>
      (\<forall>j \<in> set is. j < Suc i \<and> unique_key (((pre @ [r]) @ rs) ! j) ''id'' = Some key)"
  proof (cases "unique_key r ''id''")
    case None
    then show ?thesis using 2(3) by (fastforce simp: less_Suc_eq)
  next
    case (Some k)
    have r: "((pre @ [r]) @ rs) ! i = r" using 2(2) by (simp add: nth_append)
    show ?thesis
      using 2(3) Some r by (auto simp: update_conv' less_Suc_eq split: option.splits if_splits)
  qed
  have "Suc i = length (pre @ [r])" using 2(2) by simp
  from 2(1) [OF this H] show ?case by simp
qed

lemma key_positions_ok: "positions_ok old {} (key_positions (map (\<lambda>e. vn_row (snd e)) old))"
  using add_positions_ok [of 0 "[]" "[]" "map (\<lambda>e. vn_row (snd e)) old"]
  by (fastforce simp: positions_ok_def key_positions_def)

lemma positions_ok_insert_new: "positions_ok old taken ps \<Longrightarrow> n \<notin> fst ` set old \<Longrightarrow> positions_ok old (insert n taken) ps"
  by (fastforce simp: positions_ok_def)

lemma nth_ids_eq: "distinct (map fst old) \<Longrightarrow> i < length old \<Longrightarrow> j < length old \<Longrightarrow> fst (old ! i) = fst (old ! j) \<Longrightarrow> i = j"
  using nth_eq_iff_index_eq [of "map fst old" i j] by simp

lemma take_prior_Some:
  assumes dist: "distinct (map fst old)" and ps: "positions_ok old taken ps" and used: "taken \<inter> fst ` set old \<subseteq> used"
    and rows: "\<forall>e \<in> set old. row_ok (vn_row (snd e))" and r: "row_ok r"
    and prior: "take_prior old ps used r = (Some e, ps')"
  shows "e \<in> set old \<and> fst e \<notin> taken \<and> positions_ok old (insert (fst e) taken) ps'"
proof (cases "unique_key r ''id''")
  case None
  then have f: "find (\<lambda>e. fst e \<notin> used \<and> row_eq (vn_row (snd e)) r) old = Some e" and [simp]: "ps' = ps"
    using prior by (simp_all add: take_prior_def)
  then have e: "e \<in> set old" "fst e \<notin> used" "row_eq (vn_row (snd e)) r" by (auto simp: find_Some_iff)
  then have k: "unique_key (vn_row (snd e)) ''id'' = None" using None rows r row_eq_unique_key by metis
  have "fst (old ! i) \<noteq> fst e" if "i < length old" "unique_key (vn_row (snd (old ! i))) ''id'' = Some key" for i key
  proof
    assume eq: "fst (old ! i) = fst e"
    obtain j where "j < length old" "old ! j = e" using e(1) by (auto simp: in_set_conv_nth)
    then have "old ! i = e" using eq that(1) nth_ids_eq [OF dist] by metis
    then show False using k that(2) by simp
  qed
  then show ?thesis using e used ps by (auto simp: positions_ok_def)
next
  case (Some key)
  then obtain i "is" where m: "map_of ps key = Some (i # is)" "i < length old" "e = old ! i" "ps' = hm_insert key is ps"
    using prior ps by (fastforce simp: take_prior_def positions_ok_def split: option.splits list.splits if_splits)
  have i: "i \<notin> set is" "distinct is" "fst (old ! i) \<notin> taken" "unique_key (vn_row (snd (old ! i))) ''id'' = Some key"
    using ps [unfolded positions_ok_def, rule_format, OF m(1)] by simp_all
  have "distinct js \<and> (\<forall>j \<in> set js. j < length old \<and> fst (old ! j) \<notin> insert (fst e) taken \<and>
      unique_key (vn_row (snd (old ! j))) ''id'' = Some k)" if js: "map_of ps' k = Some js" for k js
  proof (cases "k = key")
    case True
    then have "js = is" using js m(4) by (simp add: update_conv')
    moreover have "fst (old ! j) \<noteq> fst e" if "j \<in> set is" for j
      using that ps m nth_ids_eq [OF dist, of j i] i(1) by (fastforce simp: positions_ok_def)
    ultimately show ?thesis using ps m(1) True i(2) by (auto simp: positions_ok_def)
  next
    case False
    then have js': "map_of ps k = Some js" using js m(4) by (simp add: update_conv')
    moreover have "fst (old ! j) \<noteq> fst e" if "j \<in> set js" for j
    proof
      assume "fst (old ! j) = fst e"
      then have "j = i" using that ps js' m(2,3) nth_ids_eq [OF dist] by (auto simp: positions_ok_def)
      then show False using that ps js' i(4) False by (auto simp: positions_ok_def)
    qed
    ultimately show ?thesis using ps by (auto simp: positions_ok_def)
  qed
  then have "positions_ok old (insert (fst e) taken) ps'" by (simp add: positions_ok_def)
  then show ?thesis using m i by simp
qed

lemma take_prior_None:
  assumes "positions_ok old taken ps" and "take_prior old ps used r = (None, ps')"
  shows "ps' = ps"
  using assms by (fastforce simp: take_prior_def positions_ok_def split: option.splits list.splits if_splits)

section \<open>Publishing one table\<close>

definition shows_at :: "(u64, version list) btree_map \<Rightarrow> u64 \<Rightarrow> u64 \<Rightarrow> version option" where
  "shows_at rows s rid = Option.bind (map_of rows rid) (seen_version s)"

lemma seen_map_shows: "seen_map h s = shows_at (hs_rows h) s"
  by (simp add: seen_map_def shows_at_def fun_eq_iff)

text \<open>A stored row is the published one, or equal to it as a JSON object.\<close>

definition same_row :: "row \<Rightarrow> row \<Rightarrow> bool" where
  "same_row r s \<longleftrightarrow> r = s \<or> row_eq r s"

text \<open>
  The state of the publishing loop after the rows \<open>rs\<close>: \<open>ids\<close> are the row numbers they got.
\<close>

definition published :: "u64 \<Rightarrow> u64 \<Rightarrow> (u64, version list) btree_map \<Rightarrow> (u64 \<times> version) list \<Rightarrow> row list \<Rightarrow> u64 list \<Rightarrow>
    publishing \<Rightarrow> bool" where
  "published csn n0 rows0 old rs ids p \<longleftrightarrow> (case p of (rows, next_row, ps, used, _) \<Rightarrow>
     rows_ok csn next_row rows \<and> n0 \<le> next_row \<and> length ids = length rs \<and> distinct ids \<and>
     used = set ids \<inter> fst ` set old \<and> positions_ok old (set ids) ps \<and>
     (\<forall>j < length rs. \<exists>v. shows_at rows csn (ids ! j) = Some v \<and> vn_order v = word_of_nat j \<and> same_row (vn_row v) (rs ! j)) \<and>
     (\<forall>rid. rid \<notin> set ids \<longrightarrow> map_of rows rid = map_of rows0 rid) \<and>
     (\<forall>s rid. s < csn \<longrightarrow> map_option core (shows_at rows s rid) = map_option core (shows_at rows0 s rid)))"

lemma publishedD:
  assumes "published csn n0 rows0 old rs ids (rows, next_row, ps, used, changed)"
  shows "rows_ok csn next_row rows" "length ids = length rs" "distinct ids" "used = set ids \<inter> fst ` set old"
    "positions_ok old (set ids) ps"
    "j < length rs \<Longrightarrow> \<exists>v. shows_at rows csn (ids ! j) = Some v \<and> vn_order v = word_of_nat j \<and> same_row (vn_row v) (rs ! j)"
    "rid \<notin> set ids \<Longrightarrow> map_of rows rid = map_of rows0 rid"
    "s < csn \<Longrightarrow> map_option core (shows_at rows s rid) = map_option core (shows_at rows0 s rid)"
    "n0 \<le> next_row"
  using assms by (simp_all add: published_def)

text \<open>One more row: its number is new to the list, and the rows change at most there.\<close>

lemma published_snoc:
  assumes p: "published csn n0 rows0 old rs ids (rows, next_row, ps, used, changed)"
    and fresh: "rid \<notin> set ids" and rows': "rows_ok csn next_row' rows'" "next_row \<le> next_row'"
    and ps: "positions_ok old (insert rid (set ids)) ps'"
    and used: "used' = insert rid (set ids) \<inter> fst ` set old"
    and other: "\<And>k. k \<noteq> rid \<Longrightarrow> map_of rows' k = map_of rows k"
    and new: "shows_at rows' csn rid = Some v" "vn_order v = word_of_nat (length rs)" "same_row (vn_row v) r"
    and before: "\<And>s. s < csn \<Longrightarrow> map_option core (shows_at rows' s rid) = map_option core (shows_at rows s rid)"
  shows "published csn n0 rows0 old (rs @ [r]) (ids @ [rid]) (rows', next_row', ps', used', changed')"
proof -
  note D = publishedD [OF p]
  have keep: "shows_at rows' s k = shows_at rows s k" if "k \<noteq> rid" for s k using other [OF that] by (simp add: shows_at_def)
  have "\<exists>v. shows_at rows' csn ((ids @ [rid]) ! j) = Some v \<and> vn_order v = word_of_nat j \<and> same_row (vn_row v) ((rs @ [r]) ! j)"
    if "j < Suc (length rs)" for j
  proof (cases "j < length rs")
    case True
    then have "ids ! j \<in> set ids" using D(2) by simp
    then have "ids ! j \<noteq> rid" using fresh by metis
    then show ?thesis using True D(2) D(6) [OF True] keep by (simp add: nth_append)
  next
    case False
    then have "j = length rs" using that by simp
    then show ?thesis using new D(2) by (simp add: nth_append)
  qed
  moreover have "map_option core (shows_at rows' s k) = map_option core (shows_at rows0 s k)" if "s < csn" for s k
    using D(8) [OF that, of k] before [OF that] keep by (cases "k = rid") simp_all
  moreover have "map_of rows' k = map_of rows0 k" if "k \<notin> set (ids @ [rid])" for k using that other D(7) by simp
  ultimately show ?thesis
    using D(2,3) fresh rows' ps used order.trans [OF D(9) rows'(2)] by (simp add: published_def)
qed

lemma old_chain:
  assumes ok: "rows_ok cur n rows0" and old: "(rid, previous) \<in> set (visible h cur)" and h: "hs_rows h = rows0"
  obtains chain where "map_of rows0 rid = Some chain" "chain_ok cur chain" "previous = last chain" "vn_end previous = None"
    "row_ok (vn_row previous)"
proof -
  have "seen_map h cur rid = Some previous" using old rows_okD(1) [OF ok] set_visible [of h] h by simp
  then obtain chain where c: "map_of rows0 rid = Some chain" "seen_version cur chain = Some previous"
    using h by (auto simp: seen_map_def bind_eq_Some_conv)
  moreover have co: "chain_ok cur chain" using rows_okD(3) [OF ok c(1)] .
  ultimately have l: "previous = last chain" "vn_end previous = None"
    using seen_current [OF co order.refl] by (auto split: if_splits)
  have "last chain \<in> set chain" using co by (simp add: chain_ok_def)
  then have "row_ok (vn_row previous)" using rows_okD(4) [OF ok c(1)] l by simp
  with c co l show ?thesis using that by blast
qed

text \<open>A chain with a version added by this commit.\<close>

lemma extended_chain:
  assumes "chain_ok cur chain" "vn_end (last chain) = None" "cur < csn" "vn_begin v = csn" "vn_end v = None"
  shows "chain_ok csn (set_last_end csn chain @ [v])"
    and "seen_version csn (set_last_end csn chain @ [v]) = Some v"
    and "s < csn \<Longrightarrow> map_option core (seen_version s (set_last_end csn chain @ [v])) = map_option core (seen_version s chain)"
proof -
  have ne: "chain \<noteq> []" using assms(1) by (simp add: chain_ok_def)
  show "chain_ok csn (set_last_end csn chain @ [v])"
    using chain_ok_set_last_end [OF assms(1-3)] ended_last [OF ne] assms(4,5) by (rule chain_ok_snoc)
  show "seen_version csn (set_last_end csn chain @ [v]) = Some v" using assms(4,5) by (simp add: seen_snoc sees_def)
  show "map_option core (seen_version s (set_last_end csn chain @ [v])) = map_option core (seen_version s chain)" if "s < csn"
    using seen_set_last_end [OF ne assms(2) that] leD [of csn s] that assms(4) by (auto simp: seen_snoc sees_def)
qed

lemma rows_ok_insert:
  assumes ok: "rows_ok csn n rows" and "n \<le> n'" "rid \<le> n'" "chain_ok csn chain" "\<forall>v \<in> set chain. row_ok (vn_row v)"
  shows "rows_ok csn n' (bt_insert rid chain rows)"
proof (rule rows_okI)
  show "bt_ok (bt_insert rid chain rows)" using rows_okD(1) [OF ok] by simp
  fix k c assume c: "map_of (bt_insert rid chain rows) k = Some c"
  show "k \<le> n' \<and> chain_ok csn c \<and> (\<forall>v \<in> set c. row_ok (vn_row v))"
  proof (cases "k = rid")
    case True
    then have "c = chain" using c get_bt_insert [OF rows_okD(1) [OF ok], of rid chain] by simp
    then show ?thesis using True assms(3-5) by simp
  next
    case False
    then have "map_of rows k = Some c" using c get_bt_insert [OF rows_okD(1) [OF ok], of rid chain] by simp
    then show ?thesis using rows_okD(2-4) [OF ok] order.trans [OF _ assms(2)] by blast
  qed
qed

lemma row_ok_set_last_end: "\<forall>v \<in> set chain. row_ok (vn_row v) \<Longrightarrow> \<forall>v \<in> set (set_last_end csn chain). row_ok (vn_row v)"
  by (auto simp: set_last_end_def dest: in_set_butlastD)

definition row_id_exhausted :: io_error where
  "row_id_exhausted = other_error ''MVCC row id exhausted''"

text \<open>The row continues an old one: its chain is kept or extended.\<close>

lemma publish_row_prior:
  assumes lt: "cur < csn" and ok0: "rows_ok cur n0 rows0" and h: "hs_rows h = rows0" and old: "old = visible h cur"
    and p: "published csn n0 rows0 old rs ids (rows, next_row, ps, used, changed)" and r: "row_ok r"
    and prior: "take_prior old ps used r = (Some (rid, previous), ps')"
  shows "\<exists>p'. publish_row csn old (length rs) r (rows, next_row, ps, used, changed) = Ok p' \<and>
    published csn n0 rows0 old (rs @ [r]) (ids @ [rid]) p'"
proof -
  note D = publishedD [OF p]
  have dist: "distinct (map fst old)" using distinct_visible rows_okD(1) [OF ok0] h old by simp
  have rows_old: "\<forall>e \<in> set old. row_ok (vn_row (snd e))" using old_chain [OF ok0 _ h] old by (metis prod.collapse)
  have e: "(rid, previous) \<in> set old" "rid \<notin> set ids" "positions_ok old (insert rid (set ids)) ps'"
    using take_prior_Some [OF dist D(5) _ rows_old r prior] D(4) by auto
  obtain chain where c: "map_of rows0 rid = Some chain" "chain_ok cur chain" "previous = last chain" "vn_end previous = None"
    using old_chain [OF ok0 _ h] e(1) old by blast
  have cr: "map_of rows rid = Some chain" using D(7) [OF e(2)] c(1) by simp
  have used: "insert rid used = insert rid (set ids) \<inter> fst ` set old" using D(4) e(1) by force
  have ne: "chain \<noteq> []" using c(2) by (simp add: chain_ok_def)
  have nb: "vn_begin previous \<noteq> csn" using c(2,3) ne lt by (auto simp: chain_ok_def version_valid_def dest: leD)
  show ?thesis
  proof (cases "row_eq (vn_row previous) r \<and> vn_order previous = word_of_nat (length rs)")
    case True
    have "shows_at rows csn rid = Some previous"
      using seen_current [OF c(2), of csn] lt c(3,4) by (simp add: shows_at_def cr)
    then have "published csn n0 rows0 old (rs @ [r]) (ids @ [rid]) (rows, next_row, ps', insert rid used, changed)"
      using True used e D(1) by (intro published_snoc [OF p]) (auto simp: same_row_def)
    then show ?thesis using True by (simp add: publish_row_def prior)
  next
    case False
    define v where "v = \<lparr>vn_begin = csn, vn_end = None,
      vn_value_begin = (if row_eq (vn_row previous) r then vn_value_begin previous else csn),
      vn_order = word_of_nat (length rs), vn_row = r\<rparr>"
    define chain' where "chain' = set_last_end csn chain @ [v]"
    have lastN: "vn_end (last chain) = None" using c by simp
    have ext: "chain_ok csn chain'" "seen_version csn chain' = Some v"
      "\<And>s. s < csn \<Longrightarrow> map_option core (seen_version s chain') = map_option core (seen_version s chain)"
      using extended_chain [OF c(2) lastN lt, of v] by (simp_all add: chain'_def v_def)
    have g: "map_of (bt_insert rid chain' rows) = (map_of rows)(rid \<mapsto> chain')" using rows_okD(1) [OF D(1)] by (rule get_bt_insert)
    have rok: "\<forall>v \<in> set chain'. row_ok (vn_row v)"
      using row_ok_set_last_end [of chain csn] rows_okD(4) [OF D(1) cr] r by (auto simp: chain'_def v_def)
    have "rows_ok csn next_row (bt_insert rid chain' rows)"
      using rows_okD(2) [OF D(1) cr] ext(1) rok by (intro rows_ok_insert [OF D(1)]) simp_all
    moreover have "shows_at (bt_insert rid chain' rows) csn rid = Some v" by (simp add: shows_at_def g ext(2))
    moreover have "map_option core (shows_at (bt_insert rid chain' rows) s rid) = map_option core (shows_at rows s rid)"
      if "s < csn" for s using ext(3) [OF that] by (simp add: shows_at_def g cr)
    ultimately have "published csn n0 rows0 old (rs @ [r]) (ids @ [rid])
        (bt_insert rid chain' rows, next_row, ps', insert rid used, changed \<or> \<not> row_eq (vn_row previous) r)"
      using used e by (intro published_snoc [OF p]) (auto simp: v_def same_row_def g)
    moreover have "publish_row csn old (length rs) r (rows, next_row, ps, used, changed) =
        Ok (bt_insert rid chain' rows, next_row, ps', insert rid used, changed \<or> \<not> row_eq (vn_row previous) r)"
      using False nb ne by (simp only: publish_row_def prior prod.case option.case cr if_False)
        (simp add: chain'_def v_def)
    ultimately show ?thesis by blast
  qed
qed

text \<open>The row is new: it gets the next number.\<close>

lemma publish_row_new:
  assumes ok0: "rows_ok cur n0 rows0" and h: "hs_rows h = rows0" and old: "old = visible h cur"
    and p: "published csn n0 rows0 old rs ids (rows, next_row, ps, used, changed)" and r: "row_ok r"
    and prior: "take_prior old ps used r = (None, ps')" and room: "next_row \<noteq> - 1"
  shows "\<exists>p'. publish_row csn old (length rs) r (rows, next_row, ps, used, changed) = Ok p' \<and>
    published csn n0 rows0 old (rs @ [r]) (ids @ [next_row + 1]) p' \<and> fst (snd p') = next_row + 1"
proof -
  note D = publishedD [OF p]
  have less: "next_row < next_row + 1" using room by (rule word_less_Suc)
  have no: "map_of rows (next_row + 1) = None"
    using rows_okD(2) [OF D(1), of "next_row + 1"] less leD by (cases "map_of rows (next_row + 1)") auto
  have fresh: "next_row + 1 \<notin> set ids"
  proof
    assume "next_row + 1 \<in> set ids"
    then obtain j where "j < length rs" "ids ! j = next_row + 1" using D(2) by (metis in_set_conv_nth)
    then show False using D(6) [of j] no by (auto simp: shows_at_def)
  qed
  have "map_of rows0 (next_row + 1) = None" using D(7) [OF fresh] no by simp
  then have not_old: "next_row + 1 \<notin> fst ` set old"
    using old_chain [OF ok0 _ h] old by (force elim!: imageE)
  define v where "v = \<lparr>vn_begin = csn, vn_end = None, vn_value_begin = csn, vn_order = word_of_nat (length rs), vn_row = r\<rparr>"
  have g: "map_of (bt_insert (next_row + 1) [v] rows) = (map_of rows)(next_row + 1 \<mapsto> [v])" using rows_okD(1) [OF D(1)] by (rule get_bt_insert)
  have sv: "seen_version csn [v] = Some v" "vn_order v = word_of_nat (length rs)" "vn_row v = r"
    by (simp_all add: seen_version_def sees_def v_def)
  have "chain_ok csn [v]" by (simp add: chain_ok_def version_valid_def v_def)
  then have "rows_ok csn (next_row + 1) (bt_insert (next_row + 1) [v] rows)"
    using less r by (intro rows_ok_insert [OF D(1)]) (simp_all add: v_def)
  moreover have "map_option core (shows_at (bt_insert (next_row + 1) [v] rows) s (next_row + 1)) =
      map_option core (shows_at rows s (next_row + 1))" if "s < csn" for s
  proof -
    have "seen_version s [v] = None" using that leD [of csn s] by (auto simp: seen_version_def sees_def v_def)
    then show ?thesis by (simp add: shows_at_def g no)
  qed
  ultimately have "published csn n0 rows0 old (rs @ [r]) (ids @ [next_row + 1])
      (bt_insert (next_row + 1) [v] rows, next_row + 1, ps', used, True)"
    using less fresh not_old D(4) positions_ok_insert_new [OF D(5) not_old] take_prior_None [OF D(5) prior]
    by (intro published_snoc [OF p, where v = v]) (auto simp: g shows_at_def sv same_row_def)
  then show ?thesis using room by (simp add: publish_row_def prior v_def)
qed

lemma publish_rows_ok:
  assumes lt: "cur < csn" and ok0: "rows_ok cur n0 rows0" and h: "hs_rows h = rows0" and old: "old = visible h cur"
    and rs: "\<forall>r \<in> set rs'. row_ok r"
    and p: "published csn n0 rows0 old rs ids p" and room: "unat (fst (snd p)) + length rs' < 2 ^ 64"
  shows "\<exists>p' ids'. publish_rows csn old (length rs) rs' p = Ok p' \<and> published csn n0 rows0 old (rs @ rs') (ids @ ids') p' \<and>
    unat (fst (snd p')) \<le> unat (fst (snd p)) + length rs'"
  using rs p room
proof (induction rs' arbitrary: rs ids p)
  case Nil
  then show ?case by (intro exI [of _ p] exI [of _ "[]"]) simp
next
  case (Cons r rs')
  obtain rows n ps used ch where pp: "p = (rows, n, ps, used, ch)" by (cases p) auto
  have r: "row_ok r" using Cons.prems(1) by simp
  have "\<exists>p1 rid. publish_row csn old (length rs) r p = Ok p1 \<and> published csn n0 rows0 old (rs @ [r]) (ids @ [rid]) p1 \<and>
      unat (fst (snd p1)) \<le> Suc (unat n)"
  proof (cases "take_prior old ps used r")
    case (Pair prior ps')
    show ?thesis
    proof (cases prior)
      case None
      have "n \<noteq> - 1" using Cons.prems(3) by (auto simp: pp unsigned_minus_1_eq_mask mask_eq_exp_minus_1)
      moreover have "unat (n + 1) \<le> Suc (unat n)" by (metis unat_word_ariths(1) mod_less_eq_dividend unsigned_1 Suc_eq_plus1)
      ultimately show ?thesis
        using publish_row_new [OF ok0 h old _ r, of csn rs ids rows n ps used ch ps'] Cons.prems(2) Pair None by (auto simp: pp)
    next
      case (Some e)
      have "\<exists>p'. publish_row csn old (length rs) r p = Ok p' \<and> published csn n0 rows0 old (rs @ [r]) (ids @ [fst e]) p'"
        using publish_row_prior [OF lt ok0 h old _ r, of rs ids rows n ps used ch "fst e" "snd e" ps'] Cons.prems(2) Pair Some
        by (simp add: pp)
      moreover have "fst (snd p') = n" if "publish_row csn old (length rs) r p = Ok p'" for p'
        using that Pair Some by (auto simp: pp publish_row_def split: if_splits option.splits prod.splits)
      ultimately show ?thesis by fastforce
    qed
  qed
  then obtain p1 rid where p1: "publish_row csn old (length rs) r p = Ok p1"
    "published csn n0 rows0 old (rs @ [r]) (ids @ [rid]) p1" "unat (fst (snd p1)) \<le> Suc (unat n)" by blast
  have "unat (fst (snd p1)) + length rs' < 2 ^ 64" using p1(3) Cons.prems(3) by (simp add: pp)
  then obtain p' ids' where "publish_rows csn old (length (rs @ [r])) rs' p1 = Ok p'"
    "published csn n0 rows0 old ((rs @ [r]) @ rs') ((ids @ [rid]) @ ids') p'"
    "unat (fst (snd p')) \<le> unat (fst (snd p1)) + length rs'"
    using Cons.IH [of "rs @ [r]" "ids @ [rid]" p1] Cons.prems(1) p1(2) by auto
  then show ?case using p1 by (intro exI [of _ p'] exI [of _ "rid # ids'"]) (simp add: pp)
qed

lemma retire_rows_get:
  assumes "distinct (map fst old)" and "bt_ok R"
    and "\<forall>(rid, previous) \<in> set old. rid \<notin> used \<longrightarrow> vn_begin previous \<noteq> csn \<and> (\<exists>chain. chain \<noteq> [] \<and> map_of R rid = Some chain)"
  shows "\<exists>R' ch'. retire_rows csn used old (R, ch) = Ok (R', ch') \<and> bt_ok R' \<and>
    (\<forall>rid. map_of R' rid = (if rid \<in> fst ` set old - used then map_option (set_last_end csn) (map_of R rid) else map_of R rid))"
  using assms
proof (induction old arbitrary: R ch)
  case (Cons e old)
  obtain rid previous where e: "e = (rid, previous)" by (cases e)
  show ?case
  proof (cases "rid \<in> used")
    case True
    then show ?thesis using Cons.IH [of R ch] Cons.prems by (auto simp: e)
  next
    case False
    then obtain chain where c: "vn_begin previous \<noteq> csn" "chain \<noteq> []" "map_of R rid = Some chain"
      using Cons.prems(3) by (auto simp: e)
    let ?R = "bt_insert rid (set_last_end csn chain) R"
    have g: "map_of ?R = (map_of R)(rid \<mapsto> set_last_end csn chain)" using Cons.prems(2) by (rule get_bt_insert)
    have no: "rid \<notin> fst ` set old" using Cons.prems(1) by (auto simp: e)
    have "\<forall>(k, previous) \<in> set old. k \<notin> used \<longrightarrow> vn_begin previous \<noteq> csn \<and> (\<exists>chain. chain \<noteq> [] \<and> map_of ?R k = Some chain)"
    proof clarify
      fix k previous' assume k: "(k, previous') \<in> set old" "k \<notin> used"
      then have "k \<noteq> rid" using no by force
      then show "vn_begin previous' \<noteq> csn \<and> (\<exists>chain. chain \<noteq> [] \<and> map_of ?R k = Some chain)"
        using Cons.prems(3) k by (auto simp: g)
    qed
    then obtain R' ch' where R': "retire_rows csn used old (?R, True) = Ok (R', ch')" "bt_ok R'"
      "\<forall>k. map_of R' k = (if k \<in> fst ` set old - used then map_option (set_last_end csn) (map_of ?R k) else map_of ?R k)"
      using Cons.IH [of ?R True] Cons.prems(1,2) by auto
    have "retire_rows csn used (e # old) (R, ch) = Ok (R', ch')" using R'(1) False c by (simp add: e)
    moreover have "map_of R' k = (if k \<in> fst ` set (e # old) - used then map_option (set_last_end csn) (map_of R k) else map_of R k)" for k
      using R'(3) False no c(3) by (auto simp: e g)
    ultimately show ?thesis using R'(2) by blast
  qed
qed simp

lemma published_start:
  assumes "rows_ok cur n0 rows0" and "cur < csn"
  shows "published csn n0 rows0 old [] [] (rows0, n0, key_positions (map (\<lambda>e. vn_row (snd e)) old), {}, ch)"
proof -
  have "rows_ok csn n0 rows0" using assms by (auto simp: rows_ok_def intro: chain_ok_mono)
  then show ?thesis using key_positions_ok [of old] by (simp add: published_def)
qed

text \<open>
  The rows of a table after its loop and the retirement of the old rows left over: what
  earlier snapshots see is unchanged, and the new commit sees exactly the published rows.
\<close>

lemma publish_table_rows:
  assumes lt: "cur < csn" and ok0: "rows_ok cur n0 rows0" and h: "hs_rows h = rows0" and old: "old = visible h cur"
    and p: "published csn n0 rows0 old rs ids (rows, n, ps, used, ch)"
  shows "\<exists>R ch'. retire_rows csn used old (rows, ch) = Ok (R, ch') \<and> rows_ok csn n R \<and>
    (\<forall>s rid. s < csn \<longrightarrow> map_option core (shows_at R s rid) = map_option core (shows_at rows0 s rid)) \<and>
    (\<forall>rid. rid \<notin> set ids \<longrightarrow> shows_at R csn rid = None) \<and> (\<forall>rid. rid \<in> set ids \<longrightarrow> shows_at R csn rid = shows_at rows csn rid)"
proof -
  note D = publishedD [OF p]
  have dist: "distinct (map fst old)" using distinct_visible rows_okD(1) [OF ok0] h old by simp
  have left: "\<exists>chain. map_of rows rid = Some chain \<and> map_of rows0 rid = Some chain \<and> chain_ok cur chain \<and>
      vn_end (last chain) = None \<and> previous = last chain" if "(rid, previous) \<in> set old" "rid \<notin> used" for rid previous
  proof -
    have "rid \<notin> set ids" using that D(4) by force
    then show ?thesis using old_chain [OF ok0 _ h, of rid previous] that(1) old D(7) by metis
  qed
  have "\<forall>(rid, previous) \<in> set old. rid \<notin> used \<longrightarrow> vn_begin previous \<noteq> csn \<and> (\<exists>chain. chain \<noteq> [] \<and> map_of rows rid = Some chain)"
    using left lt by (fastforce simp: chain_ok_def version_valid_def dest: leD)
  from retire_rows_get [OF dist rows_okD(1) [OF D(1)] this, of ch] obtain R ch' where
    R: "retire_rows csn used old (rows, ch) = Ok (R, ch')" "bt_ok R"
      "\<forall>rid. map_of R rid = (if rid \<in> fst ` set old - used then map_option (set_last_end csn) (map_of rows rid) else map_of rows rid)"
    by blast
  have ended: "\<exists>chain. map_of R rid = Some (set_last_end csn chain) \<and> map_of rows rid = Some chain \<and> map_of rows0 rid = Some chain \<and>
      chain_ok cur chain \<and> vn_end (last chain) = None" if retired: "rid \<in> fst ` set old - used" for rid
  proof -
    obtain previous where "(rid, previous) \<in> set old" using retired by force
    then show ?thesis using left [of rid previous] retired R(3) by auto
  qed
  have kept: "shows_at R s rid = shows_at rows s rid" if "rid \<notin> fst ` set old - used" for s rid
    using that R(3) by (auto simp: shows_at_def)
  have "rows_ok csn n R"
  proof (rule rows_okI [OF R(2)])
    fix rid chain assume c: "map_of R rid = Some chain"
    show "rid \<le> n \<and> chain_ok csn chain \<and> (\<forall>v \<in> set chain. row_ok (vn_row v))"
    proof (cases "rid \<in> fst ` set old - used")
      case True
      then obtain ch0 where ch0: "chain = set_last_end csn ch0" "map_of rows rid = Some ch0" "chain_ok cur ch0" "vn_end (last ch0) = None"
        using ended [OF True] c by auto
      then show ?thesis
        using chain_ok_set_last_end [OF ch0(3,4) lt] rows_okD(2,4) [OF D(1) ch0(2)] row_ok_set_last_end by blast
    next
      case False
      then have "map_of rows rid = Some chain" using c R(3) by (auto split: if_splits)
      then show ?thesis using rows_okD(2-4) [OF D(1)] by blast
    qed
  qed
  moreover have "map_option core (shows_at R s rid) = map_option core (shows_at rows0 s rid)" if "s < csn" for s rid
  proof (cases "rid \<in> fst ` set old - used")
    case True
    then obtain c where "map_of R rid = Some (set_last_end csn c)" "map_of rows0 rid = Some c" "chain_ok cur c" "vn_end (last c) = None"
      using ended by blast
    then show ?thesis using seen_set_last_end [of c s csn] that by (simp add: shows_at_def chain_ok_def)
  qed (use kept D(8) [OF that] in simp)
  moreover have "shows_at R csn rid = None" if "rid \<notin> set ids" for rid
  proof (cases "rid \<in> fst ` set old - used")
    case True
    then obtain c where c: "map_of R rid = Some (set_last_end csn c)" "chain_ok cur c" "vn_end (last c) = None" using ended by blast
    then have "chain_ok csn (set_last_end csn c)" "vn_end (last (set_last_end csn c)) = Some csn"
      using chain_ok_set_last_end [OF c(2,3) lt] ended_last by (auto simp: chain_ok_def)
    then show ?thesis using seen_current [of csn "set_last_end csn c" csn] c(1) by (simp add: shows_at_def)
  next
    case False
    then have not_old: "rid \<notin> fst ` set old" using that D(4) by auto
    show ?thesis
    proof (cases "map_of rows rid")
      case None
      then show ?thesis using kept [OF False] by (simp add: shows_at_def)
    next
      case (Some c)
      then have c: "map_of rows0 rid = Some c" using D(7) [OF that] by simp
      have co: "chain_ok cur c" using rows_okD(3) [OF ok0 c] .
      have "seen_map h cur rid = None"
      proof (rule ccontr)
        assume "seen_map h cur rid \<noteq> None"
        then obtain v where "(rid, v) \<in> set old" using set_visible [of h rid _ cur] rows_okD(1) [OF ok0] h old by auto
        then show False using not_old by force
      qed
      then have "vn_end (last c) \<noteq> None" using seen_current [OF co order.refl] c h by (auto simp: seen_map_def split: if_splits)
      then show ?thesis using kept [OF False] Some seen_current [OF co, of csn] lt by (simp add: shows_at_def)
    qed
  qed
  moreover have "shows_at R csn rid = shows_at rows csn rid" if "rid \<in> set ids" for rid
    using that D(4) by (intro kept) auto
  ultimately show ?thesis using R(1) by blast
qed

definition prior_rows :: "history option \<Rightarrow> (u64, version list) btree_map" where
  "prior_rows h = (case h of None \<Rightarrow> [] | Some h \<Rightarrow> hs_rows h)"

text \<open>What publishing a table promises of its new history.\<close>

definition table_published :: "u64 \<Rightarrow> u64 \<Rightarrow> history option \<Rightarrow> table_schema \<Rightarrow> row list \<Rightarrow> history \<Rightarrow> bool" where
  "table_published csn n prior schema rows h \<longleftrightarrow> rows_ok csn n (hs_rows h) \<and> hs_live h \<and> hs_schema h = schema \<and>
     (\<forall>s rid. s < csn \<longrightarrow> map_option core (shows_at (hs_rows h) s rid) = map_option core (shows_at (prior_rows prior) s rid)) \<and>
     list_all2 same_row (visible_rows h csn) rows"

lemma rows_ok_Nil: "rows_ok csn n []"
  by (simp add: rows_ok_def)

lemma rows_ok_next: "rows_ok csn n rows \<Longrightarrow> n \<le> n' \<Longrightarrow> rows_ok csn n' rows"
  by (auto simp: rows_ok_def intro: order.trans)

lemma publish_table_ok:
  assumes lt: "cur < csn" and ok0: "rows_ok cur n (prior_rows (map_of tables (ts_object_id schema)))"
    and rs: "\<forall>r \<in> set rows. row_ok r" and room: "unat n + length rows < 2 ^ 64"
  shows "\<exists>h n'. publish_table csn cur (schema, rows) (tables, n) = Ok (bt_insert (ts_object_id schema) h tables, n') \<and>
    n \<le> n' \<and> unat n' \<le> unat n + length rows \<and> table_published csn n' (map_of tables (ts_object_id schema)) schema rows h"
proof -
  define h0 where "h0 = (case map_of tables (ts_object_id schema) of Some h \<Rightarrow> h
     | None \<Rightarrow> \<lparr>hs_schema = schema, hs_changed = csn, hs_live = True, hs_rows = []\<rparr>)"
  let ?rows0 = "prior_rows (map_of tables (ts_object_id schema))"
  have h0: "hs_rows h0 = ?rows0" by (simp add: h0_def prior_rows_def split: option.split)
  define old where "old = visible h0 cur"
  define ch0 where "ch0 = (\<not> columns_eq (ts_columns (hs_schema h0)) (ts_columns schema) \<or> ts_schema_version (hs_schema h0) \<noteq> ts_schema_version schema)"
  let ?p0 = "(hs_rows h0, n, key_positions (map (\<lambda>e. vn_row (snd e)) old), {}, ch0)"
  have start: "published csn n ?rows0 old [] [] ?p0" unfolding h0 by (rule published_start [OF ok0 lt])
  have room': "unat (fst (snd ?p0)) + length rows < 2 ^ 64" using room by simp
  obtain p' ids where loop: "publish_rows csn old 0 rows ?p0 = Ok p'" "published csn n ?rows0 old rows ids p'"
      "unat (fst (snd p')) \<le> unat n + length rows"
    using publish_rows_ok [OF lt ok0 h0 old_def rs start room'] by auto
  obtain R0 n' ps used ch where p': "p' = (R0, n', ps, used, ch)" by (cases p') auto
  note D = publishedD [OF loop(2) [unfolded p']]
  obtain R ch' where R: "retire_rows csn used old (R0, ch) = Ok (R, ch')" "rows_ok csn n' R"
      "\<forall>s rid. s < csn \<longrightarrow> map_option core (shows_at R s rid) = map_option core (shows_at ?rows0 s rid)"
      "\<forall>rid. rid \<notin> set ids \<longrightarrow> shows_at R csn rid = None" "\<forall>rid. rid \<in> set ids \<longrightarrow> shows_at R csn rid = shows_at R0 csn rid"
    using publish_table_rows [OF lt ok0 h0 old_def loop(2) [unfolded p']] by blast
  define h where "h = \<lparr>hs_schema = schema, hs_changed = (if ch' then csn else hs_changed h0), hs_live = True, hs_rows = R\<rparr>"
  define vs where "vs = map (\<lambda>j. the (shows_at R csn (ids ! j))) [0..<length rows]"
  have vs: "shows_at R csn (ids ! j) = Some (vs ! j)" "vn_order (vs ! j) = word_of_nat j" "same_row (vn_row (vs ! j)) (rows ! j)"
    if "j < length rows" for j using D(6) [OF that] R(5) that D(2) by (auto simp: vs_def)
  have len: "length vs = length rows" "length ids = length vs" using D(2) by (simp_all add: vs_def)
  have "visible h csn = zip ids vs"
  proof (rule visible_enumerated)
    show "bt_ok (hs_rows h)" using rows_okD(1) [OF R(2)] by (simp add: h_def)
    show "length vs \<le> 2 ^ 64" using room len by simp
    show "seen_map h csn rid = map_of (zip ids vs) rid" for rid
    proof (cases "rid \<in> set ids")
      case True
      then obtain j where j: "j < length rows" "ids ! j = rid" using D(2) by (auto simp: in_set_conv_nth)
      then have "map_of (zip ids vs) rid = Some (vs ! j)"
        using map_of_zip_nth [of ids vs j] D(3) len by auto
      then show ?thesis using vs(1) [OF j(1)] j(2) by (simp add: seen_map_shows h_def)
    next
      case False
      then have "map_of (zip ids vs) rid = None" using len by (simp add: map_of_zip_is_None)
      with False show ?thesis using R(4) by (simp add: seen_map_shows h_def)
    qed
  qed (use len D(3) vs in simp_all)
  then have "list_all2 same_row (visible_rows h csn) rows"
    using len vs(3) by (simp add: visible_rows_def list_all2_conv_all_nth)
  then have "table_published csn n' (map_of tables (ts_object_id schema)) schema rows h"
    using R(2,3) by (simp add: table_published_def h_def)
  moreover have "publish_table csn cur (schema, rows) (tables, n) = Ok (bt_insert (ts_object_id schema) h tables, n')"
    unfolding publish_table_def prod.case Let_def h0_def [symmetric] old_def [symmetric] ch0_def [symmetric] loop(1)
      outcome.case p' R(1) by (simp add: h_def)
  ultimately show ?thesis using D(9) loop(3) p' by auto
qed

definition total_rows :: "(table_schema \<times> row list) list \<Rightarrow> nat" where
  "total_rows ts = sum_list (map (\<lambda>t. length (snd t)) ts)"

lemma table_published_next: "table_published csn n prior schema rows h \<Longrightarrow> n \<le> n' \<Longrightarrow> table_published csn n' prior schema rows h"
  by (auto simp: table_published_def intro: rows_ok_next)

lemma publish_tables_ok:
  assumes lt: "cur < csn" and "distinct (map (ts_object_id \<circ> fst) ts)" and "\<forall>t \<in> set ts. \<forall>r \<in> set (snd t). row_ok r"
    and "unat n + total_rows ts < 2 ^ 64" and "bt_ok tables"
    and "\<forall>t \<in> set ts. rows_ok cur n (prior_rows (map_of tables (ts_object_id (fst t))))"
  shows "\<exists>tables' n'. publish_tables csn cur ts (tables, n) = Ok (tables', n') \<and> bt_ok tables' \<and> n \<le> n' \<and>
    (\<forall>tid. tid \<notin> (ts_object_id \<circ> fst) ` set ts \<longrightarrow> map_of tables' tid = map_of tables tid) \<and>
    (\<forall>t \<in> set ts. \<exists>h. map_of tables' (ts_object_id (fst t)) = Some h \<and>
       table_published csn n' (map_of tables (ts_object_id (fst t))) (fst t) (snd t) h)"
  using assms(2-)
proof (induction ts arbitrary: tables n)
  case (Cons t ts)
  obtain schema rows where t: "t = (schema, rows)" by (cases t)
  let ?id = "ts_object_id schema"
  obtain h n1 where h: "publish_table csn cur (schema, rows) (tables, n) = Ok (bt_insert ?id h tables, n1)"
      "n \<le> n1" "unat n1 \<le> unat n + length rows" "table_published csn n1 (map_of tables ?id) schema rows h"
    using publish_table_ok [OF lt, of n tables schema rows] Cons.prems(2,3,5) by (auto simp: t total_rows_def)
  have g: "map_of (bt_insert ?id h tables) = (map_of tables)(?id \<mapsto> h)" using Cons.prems(4) by (rule get_bt_insert)
  have other: "ts_object_id (fst u) \<noteq> ?id" if "u \<in> set ts" for u using Cons.prems(1) that by (force simp: t)
  have "\<forall>u \<in> set ts. rows_ok cur n1 (prior_rows (map_of (bt_insert ?id h tables) (ts_object_id (fst u))))"
    using Cons.prems(5) other h(2) by (auto simp: g intro: rows_ok_next)
  moreover have "unat n1 + total_rows ts < 2 ^ 64" using Cons.prems(3) h(3) by (simp add: t total_rows_def)
  ultimately obtain tables' n' where IH: "publish_tables csn cur ts (bt_insert ?id h tables, n1) = Ok (tables', n')" "bt_ok tables'" "n1 \<le> n'"
      "\<forall>tid. tid \<notin> (ts_object_id \<circ> fst) ` set ts \<longrightarrow> map_of tables' tid = map_of (bt_insert ?id h tables) tid"
      "\<forall>u \<in> set ts. \<exists>h'. map_of tables' (ts_object_id (fst u)) = Some h' \<and>
         table_published csn n' (map_of (bt_insert ?id h tables) (ts_object_id (fst u))) (fst u) (snd u) h'"
    using Cons.IH [of n1 "bt_insert ?id h tables"] Cons.prems(1,2,4) by (auto simp: t)
  have "?id \<notin> (ts_object_id \<circ> fst) ` set ts" using other by force
  then have "map_of tables' ?id = Some h" using IH(4) by (simp add: g)
  then have "\<forall>u \<in> set (t # ts). \<exists>h'. map_of tables' (ts_object_id (fst u)) = Some h' \<and>
      table_published csn n' (map_of tables (ts_object_id (fst u))) (fst u) (snd u) h'"
    using IH(5) other h(4) table_published_next [OF _ IH(3)] by (auto simp: t g)
  moreover have "publish_tables csn cur (t # ts) (tables, n) = Ok (tables', n')" using h(1) IH(1) by (simp add: t)
  moreover have "\<forall>tid. tid \<notin> (ts_object_id \<circ> fst) ` set (t # ts) \<longrightarrow> map_of tables' tid = map_of tables tid"
    using IH(4) by (auto simp: t g)
  ultimately show ?case using IH(2) order.trans [OF h(2) IH(3)] by blast
qed (use assms in auto)

section \<open>Retiring and reclaiming\<close>

lemma shows_prune_rows:
  assumes "bt_ok rows" and "oldest \<le> s"
  shows "shows_at (prune_rows oldest rows) s rid = shows_at rows s rid"
proof (cases "map_of rows rid")
  case None
  then show ?thesis using assms(1) by (simp add: shows_at_def prune_rows_def get_bt_retain get_bt_map)
next
  case (Some chain)
  have "seen_version s chain = None" if "filter (\<lambda>v. \<not> expired oldest v) chain = []"
    using seen_prune [OF assms(2), of chain] that by (simp add: seen_version_def)
  then show ?thesis
    using Some assms(1) seen_prune [OF assms(2), of chain] by (simp add: shows_at_def prune_rows_def get_bt_retain get_bt_map)
qed

lemma rows_ok_prune:
  assumes ok: "rows_ok csn n rows"
  shows "rows_ok csn n (prune_rows oldest rows)"
proof (rule rows_okI)
  show "bt_ok (prune_rows oldest rows)" using rows_okD(1) [OF ok] by (simp add: prune_rows_def)
  fix rid c assume "map_of (prune_rows oldest rows) rid = Some c"
  then obtain chain where "map_of rows rid = Some chain" "c = filter (\<lambda>v. \<not> expired oldest v) chain" "c \<noteq> []"
    using rows_okD(1) [OF ok] by (auto simp: prune_rows_def get_bt_retain get_bt_map split: option.splits if_splits)
  then show "rid \<le> n \<and> chain_ok csn c \<and> (\<forall>v \<in> set c. row_ok (vn_row v))"
    using rows_okD(2-4) [OF ok] chain_ok_filter by auto
qed

text \<open>All versions of a table have ended.\<close>

definition all_ended :: "(u64, version list) btree_map \<Rightarrow> bool" where
  "all_ended rows \<longleftrightarrow> (\<forall>rid chain. map_of rows rid = Some chain \<longrightarrow> vn_end (last chain) \<noteq> None)"

lemma all_ended_shows:
  assumes "rows_ok csn n rows" and "all_ended rows" and "csn \<le> s"
  shows "shows_at rows s rid = None"
  using assms seen_current [OF rows_okD(3) [OF assms(1), of rid]]
  by (cases "map_of rows rid") (auto simp: shows_at_def all_ended_def)

lemma all_ended_prune:
  assumes ok: "rows_ok csn n rows" and "all_ended rows"
  shows "all_ended (prune_rows oldest rows)"
  unfolding all_ended_def
proof (intro allI impI)
  fix rid c assume "map_of (prune_rows oldest rows) rid = Some c"
  then obtain chain where c: "map_of rows rid = Some chain" "c = filter (\<lambda>v. \<not> expired oldest v) chain" "c \<noteq> []"
    using rows_okD(1) [OF ok] by (auto simp: prune_rows_def get_bt_retain get_bt_map split: option.splits if_splits)
  have co: "chain_ok csn chain" using rows_okD(3) [OF ok c(1)] .
  have ends: "vn_end v \<noteq> None" if "v \<in> set chain" for v
    using chain_last [OF co that] assms(2) c(1) by (auto simp: all_ended_def)
  have "last c \<in> set chain" using c(2,3) last_in_set [of c] by auto
  then show "vn_end (last c) \<noteq> None" by (rule ends)
qed

lemma retire_rows_map:
  assumes ok: "rows_ok cur n rows" and lt: "cur < csn"
  shows "rows_ok csn n (bt_map (\<lambda>_. end_chain csn) rows)" and "all_ended (bt_map (\<lambda>_. end_chain csn) rows)"
    and "s < csn \<Longrightarrow> map_option core (shows_at (bt_map (\<lambda>_. end_chain csn) rows) s rid) = map_option core (shows_at rows s rid)"
proof -
  have chain: "chain_ok csn (end_chain csn c) \<and> vn_end (last (end_chain csn c)) \<noteq> None \<and>
      (\<forall>v \<in> set (end_chain csn c). row_ok (vn_row v)) \<and>
      (\<forall>s < csn. map_option core (seen_version s (end_chain csn c)) = map_option core (seen_version s c))"
    if c: "map_of rows rid = Some c" for rid c
  proof -
    have co: "chain_ok cur c" and ro: "\<forall>v \<in> set c. row_ok (vn_row v)" using rows_okD(3,4) [OF ok c] by auto
    then have ne: "c \<noteq> []" by (simp add: chain_ok_def)
    show ?thesis
    proof (cases "vn_end (last c) = None")
      case True
      then show ?thesis
        using ne chain_ok_set_last_end [OF co True lt] ended_last [OF ne] row_ok_set_last_end [OF ro] seen_set_last_end [OF ne True]
        by (simp add: end_chain_def)
    next
      case False
      then have "end_chain csn c = c" by (auto simp: end_chain_def)
      then show ?thesis using chain_ok_mono [OF co, of csn] lt ro False by simp
    qed
  qed
  show "rows_ok csn n (bt_map (\<lambda>_. end_chain csn) rows)"
  proof (rule rows_okI)
    show "bt_ok (bt_map (\<lambda>_. end_chain csn) rows)" using rows_okD(1) [OF ok] by simp
    fix rid c assume "map_of (bt_map (\<lambda>_. end_chain csn) rows) rid = Some c"
    then obtain c0 where c0: "map_of rows rid = Some c0" "c = end_chain csn c0" by (auto simp: get_bt_map)
    then show "rid \<le> n \<and> chain_ok csn c \<and> (\<forall>v \<in> set c. row_ok (vn_row v))"
      using rows_okD(2) [OF ok c0(1)] chain [OF c0(1)] by simp
  qed
  show "all_ended (bt_map (\<lambda>_. end_chain csn) rows)" using chain by (auto simp: all_ended_def get_bt_map)
  show "map_option core (shows_at (bt_map (\<lambda>_. end_chain csn) rows) s rid) = map_option core (shows_at rows s rid)" if "s < csn"
    using chain that by (cases "map_of rows rid") (auto simp: shows_at_def get_bt_map)
qed

section \<open>Publishing a commit\<close>

definition snapshot_rows :: "durable \<Rightarrow> u64 \<Rightarrow> u64 \<Rightarrow> row list" where
  "snapshot_rows d tid s = (case map_of (du_tables d) tid of None \<Rightarrow> [] | Some h \<Rightarrow> visible_rows h s)"

lemma snapshot_rows_prior:
  "snapshot_rows d tid s = visible_rows \<lparr>hs_schema = undefined, hs_changed = 0, hs_live = True, hs_rows = prior_rows (map_of (du_tables d) tid)\<rparr> s"
  by (cases "map_of (du_tables d) tid")
    (simp_all add: snapshot_rows_def prior_rows_def visible_rows_def visible_def List.map_filter_simps)

lemma snapshot_rows_cong:
  assumes "bt_ok (prior_rows (map_of (du_tables d) tid))" and "bt_ok (prior_rows (map_of (du_tables d') tid))"
    and "\<And>rid. map_option core (shows_at (prior_rows (map_of (du_tables d) tid)) s rid) =
       map_option core (shows_at (prior_rows (map_of (du_tables d') tid)) s' rid)"
  shows "snapshot_rows d tid s = snapshot_rows d' tid s'"
  unfolding snapshot_rows_prior using assms by (intro visible_rows_cong) (simp_all add: seen_map_shows)

lemma durable_okD:
  assumes "durable_ok d"
  shows "bt_ok (du_tables d)" and "rows_ok (du_csn d) (du_next_row d) (prior_rows (map_of (du_tables d) tid))"
    and "map_of (du_tables d) tid = Some h \<Longrightarrow> \<not> hs_live h \<Longrightarrow> all_ended (hs_rows h)"
proof -
  show "bt_ok (du_tables d)" using assms by (simp add: durable_ok_def)
  show "rows_ok (du_csn d) (du_next_row d) (prior_rows (map_of (du_tables d) tid))"
    using assms by (auto simp: durable_ok_def prior_rows_def rows_ok_Nil split: option.split dest: map_of_SomeD)
  show "all_ended (hs_rows h)" if "map_of (du_tables d) tid = Some h" "\<not> hs_live h"
    using assms that by (fastforce simp: durable_ok_def all_ended_def dest!: map_of_SomeD)
qed

lemma durable_okI:
  assumes "bt_ok (du_tables d)" and "\<And>tid h. map_of (du_tables d) tid = Some h \<Longrightarrow>
      rows_ok (du_csn d) (du_next_row d) (hs_rows h) \<and> (hs_live h \<or> all_ended (hs_rows h))"
  shows "durable_ok d"
proof -
  have "rows_ok (du_csn d) (du_next_row d) (hs_rows (snd e)) \<and>
      (hs_live (snd e) \<or> (\<forall>p \<in> set (hs_rows (snd e)). vn_end (last (snd p)) \<noteq> None))" if e: "e \<in> set (du_tables d)" for e
  proof -
    have "map_of (du_tables d) (fst e) = Some (snd e)" using e bt_get_Some [OF assms(1), of "fst e" "snd e"] by simp
    note A = assms(2) [OF this]
    then have "bt_ok (hs_rows (snd e))" using rows_okD(1) by blast
    then have "vn_end (last (snd c)) \<noteq> None" if "all_ended (hs_rows (snd e))" "c \<in> set (hs_rows (snd e))" for c
      using that bt_get_Some [of "hs_rows (snd e)" "fst c" "snd c"] unfolding all_ended_def by (metis prod.collapse)
    then show ?thesis using A by blast
  qed
  then show ?thesis using assms(1) by (auto simp: durable_ok_def split_beta)
qed

lemma prior_rows_simps [simp]: "prior_rows None = []" "prior_rows (Some h) = hs_rows h"
  by (simp_all add: prior_rows_def)

text \<open>Reclaiming the expired versions of a history.\<close>

lemma prune_history_ok:
  assumes ok: "rows_ok csn n (hs_rows h)"
  shows "rows_ok csn n (hs_rows (prune_history oldest h))" and "hs_live (prune_history oldest h) = hs_live h"
    and "all_ended (hs_rows h) \<Longrightarrow> all_ended (hs_rows (prune_history oldest h))"
    and "oldest \<le> s \<Longrightarrow> shows_at (hs_rows (prune_history oldest h)) s rid = shows_at (hs_rows h) s rid"
  using rows_ok_prune [OF ok, of oldest] all_ended_prune [OF ok, of oldest] shows_prune_rows [OF rows_okD(1) [OF ok], of oldest] ok
  by (simp_all add: prune_history_def)

text \<open>
  The tables between publishing and the end of a commit: each is pruned, and a table that is
  no longer in the schema is retired.
\<close>

definition settled :: "u64 \<Rightarrow> u64 \<Rightarrow> u64 list \<Rightarrow> u64 \<Rightarrow> history \<Rightarrow> history" where
  "settled csn oldest current_ids tid h = prune_history oldest (retire_table csn current_ids tid h)"

lemma settled_current:
  assumes "rows_ok csn n (hs_rows h)" and "tid \<in> set ids"
  shows "rows_ok csn n (hs_rows (settled csn oldest ids tid h))" and "hs_live (settled csn oldest ids tid h) = hs_live h"
    and "all_ended (hs_rows h) \<Longrightarrow> all_ended (hs_rows (settled csn oldest ids tid h))"
    and "oldest \<le> s \<Longrightarrow> shows_at (hs_rows (settled csn oldest ids tid h)) s rid = shows_at (hs_rows h) s rid"
  using assms prune_history_ok [OF assms(1), of oldest] by (simp_all add: settled_def retire_table_def)

lemma settled_retired:
  assumes ok: "rows_ok cur n (hs_rows h)" and lt: "cur < csn" and out: "tid \<notin> set ids"
    and ended: "\<not> hs_live h \<longrightarrow> all_ended (hs_rows h)"
  shows "rows_ok csn n (hs_rows (settled csn oldest ids tid h))" and "all_ended (hs_rows (settled csn oldest ids tid h))"
    and "oldest \<le> s \<Longrightarrow> s < csn \<Longrightarrow>
      map_option core (shows_at (hs_rows (settled csn oldest ids tid h)) s rid) = map_option core (shows_at (hs_rows h) s rid)"
proof -
  let ?h = "retire_table csn ids tid h"
  have r: "rows_ok csn n (hs_rows ?h) \<and> all_ended (hs_rows ?h) \<and>
      (\<forall>s rid. s < csn \<longrightarrow> map_option core (shows_at (hs_rows ?h) s rid) = map_option core (shows_at (hs_rows h) s rid))"
  proof (cases "hs_live h")
    case True
    then have "hs_rows ?h = bt_map (\<lambda>_. end_chain csn) (hs_rows h)" using out by (simp add: retire_table_def)
    then show ?thesis using retire_rows_map [OF ok lt] by simp
  next
    case False
    then have "?h = h" by (simp add: retire_table_def)
    then show ?thesis using False ended ok lt by (auto simp: rows_ok_def intro: chain_ok_mono)
  qed
  then have ok': "rows_ok csn n (hs_rows ?h)" by blast
  show "rows_ok csn n (hs_rows (settled csn oldest ids tid h))" "all_ended (hs_rows (settled csn oldest ids tid h))"
    using r prune_history_ok [OF ok', of oldest] by (simp_all add: settled_def)
  show "map_option core (shows_at (hs_rows (settled csn oldest ids tid h)) s rid) = map_option core (shows_at (hs_rows h) s rid)"
    if "oldest \<le> s" "s < csn" using r prune_history_ok(4) [OF ok' that(1)] that(2) by (simp add: settled_def)
qed

text \<open>The conditions on what the runtime publishes.\<close>

definition publishable :: "durable \<Rightarrow> u64 \<Rightarrow> table_schema list \<Rightarrow> (table_schema \<times> row list) list \<Rightarrow> bool" where
  "publishable d csn schemas tables \<longleftrightarrow> du_csn d < csn \<and> distinct (map (ts_object_id \<circ> fst) tables) \<and>
     (ts_object_id \<circ> fst) ` set tables \<subseteq> ts_object_id ` set schemas \<and>
     (\<forall>t \<in> set tables. \<forall>r \<in> set (snd t). row_ok r) \<and> unat (du_next_row d) + total_rows tables < 2 ^ 64"

text \<open>
  A commit from catalog \<open>d\<close> to \<open>d'\<close>: \<open>ts\<close> are the tables after the loop over the published
  ones and \<open>n\<close> the last row number.
\<close>

definition commits :: "durable \<Rightarrow> u64 \<Rightarrow> u64 \<Rightarrow> table_schema list \<Rightarrow> (table_schema \<times> row list) list \<Rightarrow>
    (u64, history) btree_map \<Rightarrow> u64 \<Rightarrow> durable \<Rightarrow> bool" where
  "commits d csn oldest schemas tables ts n d' \<longleftrightarrow> durable_ok d \<and> publishable d csn schemas tables \<and> oldest \<le> csn \<and>
     d' = \<lparr>du_format = 2, du_csn = csn, du_next_row = n,
       du_tables = drop_retired (map ts_object_id schemas) (bt_map (settled csn oldest (map ts_object_id schemas)) ts)\<rparr> \<and>
     bt_ok ts \<and> du_next_row d \<le> n \<and>
     (\<forall>tid. tid \<notin> (ts_object_id \<circ> fst) ` set tables \<longrightarrow> map_of ts tid = map_of (du_tables d) tid) \<and>
     (\<forall>t \<in> set tables. \<exists>h. map_of ts (ts_object_id (fst t)) = Some h \<and>
       table_published csn n (map_of (du_tables d) (ts_object_id (fst t))) (fst t) (snd t) h)"

lemma publish_next_commits:
  assumes d: "durable_ok d" and p: "publishable d csn schemas tables" and old: "oldest \<le> csn"
  obtains ts n d' where "publish_next d csn oldest schemas tables = Ok d'" and "commits d csn oldest schemas tables ts n d'"
proof -
  have "\<exists>ts n. publish_tables csn (du_csn d) tables (du_tables d, du_next_row d) = Ok (ts, n) \<and> bt_ok ts \<and> du_next_row d \<le> n \<and>
    (\<forall>tid. tid \<notin> (ts_object_id \<circ> fst) ` set tables \<longrightarrow> map_of ts tid = map_of (du_tables d) tid) \<and>
    (\<forall>t \<in> set tables. \<exists>h. map_of ts (ts_object_id (fst t)) = Some h \<and>
       table_published csn n (map_of (du_tables d) (ts_object_id (fst t))) (fst t) (snd t) h)"
    using p durable_okD(1,2) [OF d] by (intro publish_tables_ok) (auto simp: publishable_def)
  then obtain ts n where ts: "publish_tables csn (du_csn d) tables (du_tables d, du_next_row d) = Ok (ts, n)" "bt_ok ts" "du_next_row d \<le> n"
    "\<forall>tid. tid \<notin> (ts_object_id \<circ> fst) ` set tables \<longrightarrow> map_of ts tid = map_of (du_tables d) tid"
    "\<forall>t \<in> set tables. \<exists>h. map_of ts (ts_object_id (fst t)) = Some h \<and>
       table_published csn n (map_of (du_tables d) (ts_object_id (fst t))) (fst t) (snd t) h"
    by blast
  have "bt_map (\<lambda>_. prune_history oldest) (bt_map (retire_table csn ids) ts) = bt_map (settled csn oldest ids) ts" for ids
    by (simp add: bt_map_def settled_def)
  then have "publish_next d csn oldest schemas tables = Ok \<lparr>du_format = 2, du_csn = csn, du_next_row = n,
       du_tables = drop_retired (map ts_object_id schemas) (bt_map (settled csn oldest (map ts_object_id schemas)) ts)\<rparr>"
    using p ts(1) leD by (auto simp: publish_next_def publishable_def Let_def)
  then show ?thesis using that d p old ts(2-5) unfolding commits_def by blast
qed

lemma commits_basic:
  assumes "commits d csn oldest schemas tables ts n d'"
  shows "durable_ok d" "du_csn d < csn" "oldest \<le> csn" "du_csn d' = csn" "du_next_row d' = n" "bt_ok ts" "du_next_row d \<le> n"
    "tid \<notin> (ts_object_id \<circ> fst) ` set tables \<Longrightarrow> map_of ts tid = map_of (du_tables d) tid"
    "t \<in> set tables \<Longrightarrow> \<exists>h. map_of ts (ts_object_id (fst t)) = Some h \<and>
       table_published csn n (map_of (du_tables d) (ts_object_id (fst t))) (fst t) (snd t) h"
    "t \<in> set tables \<Longrightarrow> ts_object_id (fst t) \<in> set (map ts_object_id schemas)"
  using assms by (auto simp: commits_def publishable_def)

lemma commits_get:
  assumes c: "commits d csn oldest schemas tables ts n d'"
  shows "map_of (du_tables d') tid = (case map_of ts tid of None \<Rightarrow> None
      | Some h \<Rightarrow> let h' = settled csn oldest (map ts_object_id schemas) tid h in
          if tid \<in> set (map ts_object_id schemas) \<or> hs_rows h' \<noteq> [] then Some h' else None)"
    and "prior_rows (map_of (du_tables d') tid) = (case map_of ts tid of None \<Rightarrow> []
      | Some h \<Rightarrow> hs_rows (settled csn oldest (map ts_object_id schemas) tid h))"
proof -
  show g: "map_of (du_tables d') tid = (case map_of ts tid of None \<Rightarrow> None
      | Some h \<Rightarrow> let h' = settled csn oldest (map ts_object_id schemas) tid h in
          if tid \<in> set (map ts_object_id schemas) \<or> hs_rows h' \<noteq> [] then Some h' else None)"
    using c by (simp add: commits_def drop_retired_def get_bt_retain get_bt_map Let_def split: option.split)
  show "prior_rows (map_of (du_tables d') tid) = (case map_of ts tid of None \<Rightarrow> []
      | Some h \<Rightarrow> hs_rows (settled csn oldest (map ts_object_id schemas) tid h))"
    by (auto simp: g Let_def split: option.split)
qed

lemma commits_new:
  assumes c: "commits d csn oldest schemas tables ts n d'" and t: "tid \<in> (ts_object_id \<circ> fst) ` set tables"
  obtains h where "map_of ts tid = Some h" "rows_ok csn n (hs_rows h)" "hs_live h" "tid \<in> set (map ts_object_id schemas)"
    "\<And>s rid. s < csn \<Longrightarrow> map_option core (shows_at (hs_rows h) s rid) =
      map_option core (shows_at (prior_rows (map_of (du_tables d) tid)) s rid)"
proof -
  obtain t where t': "t \<in> set tables" "tid = ts_object_id (fst t)" using t by auto
  obtain h where "map_of ts tid = Some h" "table_published csn n (map_of (du_tables d) tid) (fst t) (snd t) h"
    using commits_basic(9) [OF c t'(1)] t'(2) by blast
  then show ?thesis using that commits_basic(10) [OF c t'(1)] t'(2) by (simp add: table_published_def)
qed

lemma commits_untouched:
  assumes c: "commits d csn oldest schemas tables ts n d'" and t: "tid \<notin> (ts_object_id \<circ> fst) ` set tables"
    and h: "map_of ts tid = Some h"
  shows "map_of (du_tables d) tid = Some h" "rows_ok (du_csn d) n (hs_rows h)" "rows_ok csn n (hs_rows h)"
    "\<not> hs_live h \<longrightarrow> all_ended (hs_rows h)"
proof -
  show m: "map_of (du_tables d) tid = Some h" using commits_basic(8) [OF c t] h by simp
  show r: "rows_ok (du_csn d) n (hs_rows h)"
    using durable_okD(2) [OF commits_basic(1) [OF c], of tid] m rows_ok_next [OF _ commits_basic(7) [OF c]] by simp
  then show "rows_ok csn n (hs_rows h)" using commits_basic(2) [OF c] by (auto simp: rows_ok_def intro: chain_ok_mono)
  show "\<not> hs_live h \<longrightarrow> all_ended (hs_rows h)" using durable_okD(3) [OF commits_basic(1) [OF c] m] by blast
qed

lemma commits_settled:
  assumes c: "commits d csn oldest schemas tables ts n d'" and h: "map_of ts tid = Some h"
  defines "h' \<equiv> settled csn oldest (map ts_object_id schemas) tid h"
  shows "rows_ok csn n (hs_rows h')" "hs_live h' \<or> all_ended (hs_rows h')"
    "tid \<notin> ts_object_id ` set schemas \<Longrightarrow> all_ended (hs_rows h')"
proof -
  let ?ids = "map ts_object_id schemas"
  have "rows_ok csn n (hs_rows h') \<and> (hs_live h' \<or> all_ended (hs_rows h')) \<and> (tid \<notin> set ?ids \<longrightarrow> all_ended (hs_rows h'))"
  proof (cases "tid \<in> set ?ids")
    case True
    have "rows_ok csn n (hs_rows h) \<and> (hs_live h \<or> all_ended (hs_rows h))"
      using commits_new [OF c, of tid] commits_untouched [OF c _ h] h by (metis option.inject)
    then show ?thesis using settled_current [OF _ True, of csn n h oldest] True by (auto simp: h'_def)
  next
    case False
    then have "tid \<notin> (ts_object_id \<circ> fst) ` set tables" using commits_new [OF c] by metis
    then show ?thesis
      using settled_retired(1,2) [OF _ commits_basic(2) [OF c] False, of n h oldest] commits_untouched [OF c _ h] by (auto simp: h'_def)
  qed
  then show "rows_ok csn n (hs_rows h')" "hs_live h' \<or> all_ended (hs_rows h')"
    "tid \<notin> ts_object_id ` set schemas \<Longrightarrow> all_ended (hs_rows h')" by auto
qed

lemma commits_ok:
  assumes c: "commits d csn oldest schemas tables ts n d'"
  shows "durable_ok d'"
proof (rule durable_okI)
  show "bt_ok (du_tables d')" using c by (simp add: commits_def drop_retired_def)
  show "rows_ok (du_csn d') (du_next_row d') (hs_rows h) \<and> (hs_live h \<or> all_ended (hs_rows h))" if "map_of (du_tables d') tid = Some h" for tid h
    using that commits_settled(1,2) [OF c] commits_basic(4,5) [OF c]
    by (auto simp: commits_get(1) [OF c] Let_def split: option.splits if_splits)
qed

lemma commits_bt_ok:
  assumes "commits d csn oldest schemas tables ts n d'"
  shows "bt_ok (prior_rows (map_of (du_tables d) tid))" "bt_ok (prior_rows (map_of (du_tables d') tid))"
  using durable_okD(2) [OF commits_basic(1) [OF assms]] durable_okD(2) [OF commits_ok [OF assms]] rows_okD(1) by blast+

text \<open>Earlier snapshots keep their rows.\<close>

lemma commits_earlier:
  assumes c: "commits d csn oldest schemas tables ts n d'" and s: "oldest \<le> s" "s < csn"
  shows "snapshot_rows d' tid s = snapshot_rows d tid s"
proof (rule snapshot_rows_cong [OF commits_bt_ok(2) [OF c] commits_bt_ok(1) [OF c]])
  fix rid
  show "map_option core (shows_at (prior_rows (map_of (du_tables d') tid)) s rid) =
      map_option core (shows_at (prior_rows (map_of (du_tables d) tid)) s rid)"
  proof (cases "tid \<in> (ts_object_id \<circ> fst) ` set tables")
    case True
    obtain h where h: "map_of ts tid = Some h" "rows_ok csn n (hs_rows h)" "hs_live h" "tid \<in> set (map ts_object_id schemas)"
      "\<And>s rid. s < csn \<Longrightarrow> map_option core (shows_at (hs_rows h) s rid) = map_option core (shows_at (prior_rows (map_of (du_tables d) tid)) s rid)"
      using commits_new [OF c True] by metis
    then show ?thesis using settled_current(4) [OF h(2,4) s(1)] s(2) by (simp add: commits_get(2) [OF c])
  next
    case False
    show ?thesis
    proof (cases "map_of ts tid")
      case (Some h)
      note u = commits_untouched [OF c False Some]
      show ?thesis
        using Some u(1) settled_current(4) [OF u(3) _ s(1)] settled_retired(3) [OF u(2) commits_basic(2) [OF c] _ u(4) s]
        by (cases "tid \<in> set (map ts_object_id schemas)") (simp_all add: commits_get(2) [OF c])
    qed (use commits_basic(8) [OF c False] in \<open>simp add: commits_get(2) [OF c]\<close>)
  qed
qed

text \<open>The new commit shows the published rows, the rows of the other tables, and nothing of a
  table that is gone.\<close>

lemma commits_published:
  assumes c: "commits d csn oldest schemas tables ts n d'" and t: "t \<in> set tables"
  shows "list_all2 same_row (snapshot_rows d' (ts_object_id (fst t)) csn) (snd t)"
proof -
  let ?tid = "ts_object_id (fst t)" and ?ids = "map ts_object_id schemas"
  obtain h where h: "map_of ts ?tid = Some h" "table_published csn n (map_of (du_tables d) ?tid) (fst t) (snd t) h"
    using commits_basic(9) [OF c t] by blast
  have id: "?tid \<in> set ?ids" using commits_basic(10) [OF c t] .
  have hok: "rows_ok csn n (hs_rows h)" using h(2) by (simp add: table_published_def)
  have "visible_rows (settled csn oldest ?ids ?tid h) csn = visible_rows h csn"
    using settled_current(1,4) [OF hok id] rows_okD(1) [OF hok] commits_basic(3) [OF c]
    by (intro visible_rows_cong) (auto simp: seen_map_shows intro: rows_okD(1))
  then have "snapshot_rows d' ?tid csn = visible_rows h csn" using id h(1) by (simp add: snapshot_rows_def commits_get(1) [OF c] Let_def)
  then show ?thesis using h(2) by (simp add: table_published_def)
qed

lemma commits_unpublished:
  assumes c: "commits d csn oldest schemas tables ts n d'" and out: "tid \<notin> (ts_object_id \<circ> fst) ` set tables"
    and "tid \<in> ts_object_id ` set schemas"
  shows "snapshot_rows d' tid csn = snapshot_rows d tid (du_csn d)"
proof (rule snapshot_rows_cong [OF commits_bt_ok(2) [OF c] commits_bt_ok(1) [OF c]])
  fix rid
  have id: "tid \<in> set (map ts_object_id schemas)" using assms(3) by simp
  show "map_option core (shows_at (prior_rows (map_of (du_tables d') tid)) csn rid) =
      map_option core (shows_at (prior_rows (map_of (du_tables d) tid)) (du_csn d) rid)"
  proof (cases "map_of ts tid")
    case (Some h)
    note u = commits_untouched [OF c out Some]
    have "shows_at (hs_rows h) csn rid = shows_at (hs_rows h) (du_csn d) rid"
    proof (cases "map_of (hs_rows h) rid")
      case (Some ch)
      then have "chain_ok (du_csn d) ch" using rows_okD(3) [OF u(2)] by blast
      then show ?thesis using Some seen_current [of "du_csn d" ch] commits_basic(2) [OF c] by (simp add: shows_at_def)
    qed (simp add: shows_at_def)
    then show ?thesis using settled_current(4) [OF u(3) id commits_basic(3) [OF c]] Some u(1) by (simp add: commits_get(2) [OF c])
  qed (use commits_basic(8) [OF c out] in \<open>simp add: commits_get(2) [OF c] shows_at_def\<close>)
qed

lemma visible_rows_Nil:
  assumes "bt_ok (hs_rows h)" and "\<And>rid. shows_at (hs_rows h) s rid = None"
  shows "visible_rows h s = []"
proof -
  have "seen_list h s = []" using seen_list_ok [OF assms(1), of s] assms(2) by (intro bt_ext) (simp_all add: seen_map_shows)
  then show ?thesis by (simp add: visible_rows_def visible_seen_list)
qed

lemma commits_dropped:
  assumes c: "commits d csn oldest schemas tables ts n d'" and "tid \<notin> ts_object_id ` set schemas"
  shows "snapshot_rows d' tid csn = []"
  unfolding snapshot_rows_prior
proof (rule visible_rows_Nil)
  show "bt_ok (hs_rows \<lparr>hs_schema = undefined, hs_changed = 0, hs_live = True, hs_rows = prior_rows (map_of (du_tables d') tid)\<rparr>)"
    using commits_bt_ok(2) [OF c] by simp
  fix rid
  have "shows_at (prior_rows (map_of (du_tables d') tid)) csn rid = None"
  proof (cases "map_of ts tid")
    case (Some h)
    then show ?thesis
      using all_ended_shows [OF commits_settled(1) [OF c Some] commits_settled(3) [OF c Some assms(2)] order.refl]
      by (simp add: commits_get(2) [OF c])
  qed (simp add: commits_get(2) [OF c] shows_at_def)
  then show "shows_at (hs_rows \<lparr>hs_schema = undefined, hs_changed = 0, hs_live = True, hs_rows = prior_rows (map_of (du_tables d') tid)\<rparr>) csn rid = None"
    by simp
qed

lemma windows_ascend_ok: "chain_ok csn chain \<Longrightarrow> windows_ascend chain"
proof -
  assume ok: "chain_ok csn chain"
  have "vn_begin (chain ! i) < vn_begin (chain ! Suc i)" if "Suc i < length chain" for i
  proof -
    have "follows (chain ! i) (chain ! Suc i)" using ok that by (simp add: chain_ok_def sorted_wrt_iff_nth_less)
    moreover have "version_valid csn (chain ! i)" using ok that by (simp add: chain_ok_def)
    ultimately show ?thesis by (auto simp: follows_def version_valid_def)
  qed
  then show ?thesis by (auto simp: windows_ascend_def list_all_iff)
qed

lemma catalog_valid_ok: "durable_ok d \<Longrightarrow> du_format d = 2 \<Longrightarrow> catalog_valid d"
  using windows_ascend_ok by (fastforce simp: durable_ok_def catalog_valid_def rows_ok_def list_all_iff chain_ok_def)

lemma oldest_least:
  assumes "(t, tx) \<in> set txs" and "tx_aborted tx = None"
  shows "oldest_or csn txs \<le> tx_snapshot tx"
proof -
  have fold: "foldl min a xs \<le> a \<and> (\<forall>x \<in> set xs. foldl min a xs \<le> x)" for a :: u64 and xs
  proof (induction xs arbitrary: a)
    case (Cons x xs)
    have "foldl min (min a x) xs \<le> min a x" "\<forall>y \<in> set xs. foldl min (min a x) xs \<le> y" using Cons.IH by blast+
    then show ?case by simp
  qed simp
  have "tx_snapshot tx \<in> set (active_snapshots txs)" using assms by (force simp: active_snapshots_def)
  then show ?thesis using fold by (cases "active_snapshots txs") (auto simp: oldest_or_def)
qed

lemma oldest_bound:
  assumes "\<forall>(t, tx) \<in> set txs. tx_aborted tx = None \<longrightarrow> tx_snapshot tx \<le> csn"
  shows "oldest_or csn txs \<le> csn"
proof (cases "active_snapshots txs")
  case (Cons s ss)
  then have "s \<in> set (active_snapshots txs)" by simp
  then obtain t tx where "(t, tx) \<in> set txs" "tx_aborted tx = None" "tx_snapshot tx = s" by (auto simp: active_snapshots_def)
  then show ?thesis using oldest_least [of t tx txs csn] assms by (auto intro: order.trans)
qed (simp add: oldest_or_def)

section \<open>Properties\<close>

text \<open>
  Property (C3).  A commit beyond the current one always succeeds on a well-formed catalog (as
  long as row numbers last), leaves a well-formed catalog that passes the check on opening, and
  every snapshot from the oldest active one on sees the same rows of every table as before.
\<close>

theorem publish_keeps_snapshots:
  assumes "durable_ok d" and "publishable d csn schemas tables" and "oldest \<le> csn"
  shows "\<exists>d'. publish_next d csn oldest schemas tables = Ok d' \<and> durable_ok d' \<and> catalog_valid d' \<and>
    (\<forall>tid s. oldest \<le> s \<and> s < csn \<longrightarrow> snapshot_rows d' tid s = snapshot_rows d tid s)"
proof -
  obtain ts n d' where p: "publish_next d csn oldest schemas tables = Ok d'" and c: "commits d csn oldest schemas tables ts n d'"
    using publish_next_commits [OF assms] by metis
  have "du_format d' = 2" using c by (simp add: commits_def)
  then have "catalog_valid d'" using catalog_valid_ok [OF commits_ok [OF c]] by simp
  then show ?thesis using p commits_ok [OF c] commits_earlier [OF c] by blast
qed

text \<open>
  Property (C4).  After a commit, a snapshot at its number sees exactly the published rows of
  each published table in their order, the previous rows of the tables that were not published,
  and no row of a table that left the schema.
\<close>

theorem publish_shows_commit:
  assumes "durable_ok d" and "publishable d csn schemas tables" and "oldest \<le> csn"
    and "publish_next d csn oldest schemas tables = Ok d'"
  shows "(\<forall>t \<in> set tables. list_all2 same_row (snapshot_rows d' (ts_object_id (fst t)) csn) (snd t)) \<and>
    (\<forall>tid. tid \<notin> (ts_object_id \<circ> fst) ` set tables \<and> tid \<in> ts_object_id ` set schemas \<longrightarrow>
      snapshot_rows d' tid csn = snapshot_rows d tid (du_csn d)) \<and>
    (\<forall>tid. tid \<notin> ts_object_id ` set schemas \<longrightarrow> snapshot_rows d' tid csn = [])"
proof -
  obtain ts n where c: "commits d csn oldest schemas tables ts n d'"
    using publish_next_commits [OF assms(1-3)] assms(4) by (metis outcome.inject(1))
  then show ?thesis using commits_published [OF c] commits_unpublished [OF c] commits_dropped [OF c] by blast
qed

text \<open>A catalog with one table of two rows, one of them already changed, for the witnesses.\<close>

definition sample_row :: "u64 \<Rightarrow> string \<Rightarrow> row" where
  "sample_row k name = [(''id'', JNumber (PosInt k)), (''name'', JString name)]"

definition sample_schema :: "u64 \<Rightarrow> table_schema" where
  "sample_schema tid = \<lparr>ts_table = ''items'', ts_database_id = 1, ts_object_id = tid, ts_schema_version = 1,
     ts_columns = [], ts_row_count = 2, ts_indexes = [], ts_stats = []\<rparr>"

definition sample_version :: "u64 \<Rightarrow> u64 option \<Rightarrow> u64 \<Rightarrow> row \<Rightarrow> version" where
  "sample_version b e ord r = \<lparr>vn_begin = b, vn_end = e, vn_value_begin = b, vn_order = ord, vn_row = r\<rparr>"

definition sample_history :: history where
  "sample_history = \<lparr>hs_schema = sample_schema 7, hs_changed = 3, hs_live = True,
     hs_rows = [(1, [sample_version 2 (Some 3) 0 (sample_row 1 ''a''), sample_version 3 None 0 (sample_row 1 ''b'')]),
       (2, [sample_version 2 None 1 (sample_row 2 ''c'')])]\<rparr>"

definition sample_durable :: durable where
  "sample_durable = \<lparr>du_format = 2, du_csn = 3, du_next_row = 2, du_tables = [(7, sample_history)]\<rparr>"

lemmas sample_defs = sample_row_def sample_schema_def sample_version_def sample_history_def sample_durable_def

lemma sample_durable_ok: "durable_ok sample_durable"
  by (simp add: sample_defs durable_ok_def rows_ok_def bt_ok_def chain_ok_def version_valid_def follows_def row_ok_def)

lemma sample_publishable:
  "publishable sample_durable 5 [sample_schema 7, sample_schema 8] [(sample_schema 8, [sample_row 4 ''x''])]"
  by (simp add: publishable_def sample_defs total_rows_def row_ok_def)

theorem publish_keeps_snapshots_witness:
  "\<exists>d'. publish_next sample_durable 5 2 [sample_schema 7, sample_schema 8] [(sample_schema 8, [sample_row 4 ''x''])] = Ok d' \<and>
     durable_ok d' \<and> snapshot_rows d' 7 2 = snapshot_rows sample_durable 7 2"
proof -
  have "(2 :: u64) \<le> 5" "(2 :: u64) < 5" by simp_all
  then show ?thesis using publish_keeps_snapshots [OF sample_durable_ok sample_publishable, of 2] by blast
qed

theorem publish_shows_commit_witness:
  "\<exists>d'. publish_next sample_durable 5 3 [sample_schema 7, sample_schema 8] [(sample_schema 8, [sample_row 4 ''x''])] = Ok d' \<and>
     list_all2 same_row (snapshot_rows d' 8 5) [sample_row 4 ''x''] \<and>
     snapshot_rows d' 7 5 = snapshot_rows sample_durable 7 3 \<and> snapshot_rows d' 9 5 = []"
proof -
  have "(3 :: u64) \<le> 5" by simp
  from publish_next_commits [OF sample_durable_ok sample_publishable this] obtain d' where
    d': "publish_next sample_durable 5 3 [sample_schema 7, sample_schema 8] [(sample_schema 8, [sample_row 4 ''x''])] = Ok d'" by metis
  from publish_shows_commit [OF sample_durable_ok sample_publishable \<open>3 \<le> 5\<close> d'] d' show ?thesis
    by (simp add: sample_schema_def sample_durable_def)
qed

section \<open>Ending a transaction\<close>

lemma prune_table:
  assumes d: "durable_ok (ms_durable st)"
  shows "prior_rows (map_of (du_tables (ms_durable (prune st))) tid) =
    prune_rows (oldest_or (du_csn (ms_durable st)) (ms_transactions st)) (prior_rows (map_of (du_tables (ms_durable st)) tid))"
proof (cases "map_of (du_tables (ms_durable st)) tid")
  case None
  have "prune_rows oldest [] = []" for oldest by (simp add: prune_rows_def bt_retain_def bt_map_def)
  with None show ?thesis using durable_okD(1) [OF d] by (simp add: prune_def Let_def get_bt_retain get_bt_map)
next
  case (Some h)
  then show ?thesis using durable_okD(1) [OF d] by (auto simp: prune_def Let_def get_bt_retain get_bt_map)
qed

lemma prune_ok:
  assumes d: "durable_ok (ms_durable st)"
  shows "durable_ok (ms_durable (prune st))"
proof (rule durable_okI)
  let ?d = "ms_durable st" and ?o = "oldest_or (du_csn (ms_durable st)) (ms_transactions st)"
  show "bt_ok (du_tables (ms_durable (prune st)))" using durable_okD(1) [OF d] by (simp add: prune_def Let_def)
  fix tid h assume "map_of (du_tables (ms_durable (prune st))) tid = Some h"
  then obtain h0 where h0: "map_of (du_tables ?d) tid = Some h0" "h = h0\<lparr>hs_rows := prune_rows ?o (hs_rows h0)\<rparr>"
    using durable_okD(1) [OF d] by (auto simp: prune_def Let_def get_bt_retain get_bt_map split: option.splits if_splits)
  have ok: "rows_ok (du_csn ?d) (du_next_row ?d) (hs_rows h0)" using durable_okD(2) [OF d, of tid] h0(1) by simp
  show "rows_ok (du_csn (ms_durable (prune st))) (du_next_row (ms_durable (prune st))) (hs_rows h) \<and> (hs_live h \<or> all_ended (hs_rows h))"
    using h0(2) rows_ok_prune [OF ok] all_ended_prune [OF ok] durable_okD(3) [OF d h0(1)] by (auto simp: prune_def Let_def)
qed

lemma prune_snapshot_rows:
  assumes d: "durable_ok (ms_durable st)" and s: "oldest_or (du_csn (ms_durable st)) (ms_transactions st) \<le> s"
  shows "snapshot_rows (ms_durable (prune st)) tid s = snapshot_rows (ms_durable st) tid s"
proof -
  have b: "bt_ok (prior_rows (map_of (du_tables (ms_durable st)) tid))" using durable_okD(2) [OF d] rows_okD(1) by blast
  show ?thesis
    using b shows_prune_rows [OF b s] rows_okD(1) [OF durable_okD(2) [OF prune_ok [OF d]]]
    by (intro snapshot_rows_cong) (auto simp: prune_table [OF d])
qed

lemma durable_finish: "ms_durable (finish token st) = ms_durable (prune (st\<lparr>ms_transactions := hm_remove token (ms_transactions st)\<rparr>))"
  by (simp add: finish_def Let_def)

lemma finish_ok: "durable_ok (ms_durable st) \<Longrightarrow> durable_ok (ms_durable (finish token st))"
  by (simp add: durable_finish prune_ok)

lemma finish_snapshot_rows:
  assumes "durable_ok (ms_durable st)" and "oldest_or (du_csn (ms_durable st)) (hm_remove token (ms_transactions st)) \<le> s"
  shows "snapshot_rows (ms_durable (finish token st)) tid s = snapshot_rows (ms_durable st) tid s"
  using prune_snapshot_rows [of "st\<lparr>ms_transactions := hm_remove token (ms_transactions st)\<rparr>" s tid] assms
  by (simp add: durable_finish)

text \<open>
  Property (C24).  Ending a transaction reclaims versions, but the catalog stays well formed and
  every transaction that is still active sees the same rows of every table as before.
\<close>

theorem finish_keeps_snapshots:
  assumes d: "durable_ok (ms_durable st)" and other: "(t, tx) \<in> set (ms_transactions st)" "t \<noteq> token" "tx_aborted tx = None"
  shows "durable_ok (ms_durable (finish token st)) \<and>
    snapshot_rows (ms_durable (finish token st)) tid (tx_snapshot tx) = snapshot_rows (ms_durable st) tid (tx_snapshot tx)"
proof -
  have "(t, tx) \<in> set (hm_remove token (ms_transactions st))" using other by (auto simp: AList.delete_eq)
  then have "oldest_or (du_csn (ms_durable st)) (hm_remove token (ms_transactions st)) \<le> tx_snapshot tx"
    using other(3) by (rule oldest_least)
  then show ?thesis using finish_ok [OF d] finish_snapshot_rows [OF d] by blast
qed

definition sample_tx :: "u64 \<Rightarrow> transaction" where
  "sample_tx s = \<lparr>tx_snapshot = s, tx_schemas = [sample_schema 7], tx_serializable = False, tx_reads = {}, tx_held = [],
     tx_waiting = [], tx_aborted = None, tx_plan = []\<rparr>"

theorem finish_keeps_snapshots_witness:
  "snapshot_rows (ms_durable (finish ''a'' \<lparr>ms_durable = sample_durable, ms_transactions = [(''a'', sample_tx 2), (''b'', sample_tx 3)],
      ms_next_transaction = 2\<rparr>)) 7 3 = snapshot_rows sample_durable 7 3"
  using finish_keeps_snapshots [of "\<lparr>ms_durable = sample_durable, ms_transactions = [(''a'', sample_tx 2), (''b'', sample_tx 3)],
      ms_next_transaction = 2\<rparr>" "''b''" "sample_tx 3" "''a''" 7] sample_durable_ok
  by (simp add: sample_tx_def)

end
