(* ===== verification/Server_Props.thy ===== *)
theory Server_Props
  imports Requests Mvcc_Versions
begin

text \<open>
  What a group of writes and a recovery leave behind when they stop at any point, which requests
  change nothing, and the names of the files.
\<close>

section \<open>What a command leaves alone\<close>

text \<open>A command leaves a part of the state alone on every outcome.\<close>

definition leaves :: "('s \<Rightarrow> 'b) \<Rightarrow> ('s, 'a) cmd \<Rightarrow> bool" where
  "leaves f m \<longleftrightarrow> (\<forall>s. f (snd (m s)) = f s)"

named_theorems frame_intros

lemma leavesD: "leaves f m \<Longrightarrow> m s = (r, t) \<Longrightarrow> f t = f s"
  unfolding leaves_def by (metis snd_conv)

lemma leaves_basic [frame_intros]:
  "leaves f (okM a)" "leaves f (errM e)" "leaves f panicM" "leaves f (getM g)" "leaves f (liftM r)"
  by (simp_all add: leaves_def okM_def errM_def panicM_def getM_def liftM_def)

lemma leaves_modM [frame_intros]: "(\<And>s. f (g s) = f s) \<Longrightarrow> leaves f (modM g)"
  by (simp add: leaves_def modM_def)

lemma leaves_bindM [frame_intros]: "leaves f m \<Longrightarrow> (\<And>a. leaves f (n a)) \<Longrightarrow> leaves f (bindM m n)"
  by (auto simp: leaves_def bindM_def split: prod.splits outcome.splits) (metis snd_conv)+

lemma leaves_seqM [frame_intros]: "leaves f m \<Longrightarrow> leaves f n \<Longrightarrow> leaves f (seqM m n)"
  unfolding seqM_def by (intro leaves_bindM)

lemma leaves_forM [frame_intros]: "(\<And>x. leaves f (m x)) \<Longrightarrow> leaves f (forM xs m)"
  by (induction xs) (auto intro: frame_intros)

lemma leaves_mapM [frame_intros]: "(\<And>x. leaves f (m x)) \<Longrightarrow> leaves f (mapM xs m)"
  by (induction xs) (auto intro!: frame_intros)

lemma leaves_if [frame_intros]: "(b \<Longrightarrow> leaves f m) \<Longrightarrow> (\<not> b \<Longrightarrow> leaves f n) \<Longrightarrow> leaves f (if b then m else n)"
  by simp

lemma leaves_split [frame_intros]: "(\<And>a b. leaves f (m a b)) \<Longrightarrow> leaves f (case p of (a, b) \<Rightarrow> m a b)"
  by (cases p) simp

lemma leaves_option [frame_intros]:
  "leaves f m \<Longrightarrow> (\<And>a. leaves f (n a)) \<Longrightarrow> leaves f (case r of None \<Rightarrow> m | Some a \<Rightarrow> n a)"
  by (cases r) simp_all

lemma leaves_Let [frame_intros]: "leaves f (m x) \<Longrightarrow> leaves f (let y = x in m y)"
  by simp

lemma leaves_sum [frame_intros]:
  "(\<And>a. leaves f (m a)) \<Longrightarrow> (\<And>b. leaves f (n b)) \<Longrightarrow> leaves f (case r of Inl a \<Rightarrow> m a | Inr b \<Rightarrow> n b)"
  by (cases r) simp_all

section \<open>Applying touches neither the log nor the flag\<close>

definition log_state :: "server \<Rightarrow> wal \<times> bool" where
  "log_state s = (se_wal s, se_recovery_required s)"

lemma log_state_simps [simp]:
  "log_state (s\<lparr>se_tables := a\<rparr>) = log_state s" "log_state (s\<lparr>se_catalog := b\<rparr>) = log_state s"
  "log_state (s\<lparr>se_page_lsn := c\<rparr>) = log_state s" "log_state (s\<lparr>se_mvcc := d\<rparr>) = log_state s"
  "log_state (s\<lparr>se_generations := e\<rparr>) = log_state s" "log_state (s\<lparr>se_retired := g\<rparr>) = log_state s"
  "log_state (s\<lparr>se_disk := h\<rparr>) = log_state s" "log_state (s\<lparr>se_catalog_file := i\<rparr>) = log_state s"
  "log_state (s\<lparr>se_faults := j\<rparr>) = log_state s"
  by (simp_all add: log_state_def)

text \<open>
  The frame of a table operation: it may open, change and close files, and nothing else of the
  server but its page caches, its directory and its list of open tables.
\<close>

definition beside_tables :: "server \<Rightarrow> config \<times> catalog \<times> cat_disk \<times> wal \<times> bool \<times> u64 \<times> mvcc \<times> (string, string) hash_map" where
  "beside_tables s = (se_cfg s, se_catalog s, se_catalog_file s, se_wal s, se_recovery_required s, se_page_lsn s, se_mvcc s,
     se_generations s)"

lemma beside_tables_simps [simp]:
  "beside_tables (s\<lparr>se_tables := a\<rparr>) = beside_tables s" "beside_tables (s\<lparr>se_disk := h\<rparr>) = beside_tables s"
  "beside_tables (s\<lparr>se_faults := j\<rparr>) = beside_tables s" "beside_tables (s\<lparr>se_retired := g\<rparr>) = beside_tables s"
  by (simp_all add: beside_tables_def)

lemma beside_log: "leaves beside_tables m \<Longrightarrow> leaves log_state m"
  by (auto simp: leaves_def beside_tables_def log_state_def)

lemma leaves_dir_call: "leaves beside_tables dir_call"
  by (auto simp: leaves_def dir_call_def split: list.split fault.split)

lemma leaves_open_files: "leaves beside_tables (open_files lb t)"
  by (auto simp: leaves_def open_files_def put_back_def Let_def split: prod.split outcome.split)

lemma leaves_table_handle: "leaves beside_tables (table_handle lb t)"
proof -
  have "leaves beside_tables (seqM dir_call (open_files lb t))"
    by (intro frame_intros leaves_dir_call leaves_open_files)
  then show ?thesis by (auto simp: leaves_def table_handle_def split: option.split)
qed

lemma leaves_with_open: "leaves beside_tables (with_open lb t m)"
  unfolding with_open_def
  by (rule leaves_bindM [OF leaves_table_handle]) (auto simp: leaves_def split: prod.split)

lemma leaves_table_ops:
  "leaves beside_tables (with_table lb t m)" "leaves beside_tables (with_existing_table lb t m)"
  "leaves beside_tables (flush_open lb t)" "leaves beside_tables (flush_all_tables lb)"
  "leaves beside_tables (flush_op_tables lb op)" "leaves beside_tables (on_path p n)"
  "leaves beside_tables (modM (forget_table lb t))" "leaves beside_tables (modM (hide_open_column lb t c))"
proof -
  show w: "leaves beside_tables (with_table lb t m)" for t and m :: "(heap_table, 'x) cmd"
    unfolding with_table_def by (rule leaves_with_open)
  show "leaves beside_tables (with_existing_table lb t m)"
    unfolding with_existing_table_def by (intro frame_intros w)
  show o: "leaves beside_tables (flush_open lb t)" for t
    by (auto simp: leaves_def flush_open_def split: option.split prod.split)
  show "leaves beside_tables (flush_all_tables lb)" unfolding flush_all_tables_def by (intro frame_intros o)
  show "leaves beside_tables (flush_op_tables lb op)" unfolding flush_op_tables_def by (intro frame_intros w)
  show "leaves beside_tables (on_path p n)" by (auto simp: leaves_def on_path_def split: prod.split)
  show "leaves beside_tables (modM (forget_table lb t))"
    by (rule leaves_modM) (auto simp: forget_table_def split: option.split)
  show "leaves beside_tables (modM (hide_open_column lb t c))"
    by (rule leaves_modM) (auto simp: hide_open_column_def split: option.split)
qed

lemmas leaves_log_tables = leaves_table_ops [THEN beside_log] leaves_with_open [THEN beside_log] leaves_dir_call [THEN beside_log]

lemma leaves_log_lifts [frame_intros]:
  "leaves log_state (on_catalog m)" "leaves log_state (on_mvcc n)" "leaves log_state (save lb)"
  by (auto simp: leaves_def on_catalog_def on_mvcc_def save_def split: prod.split)

lemmas apply_defs = apply_migrate_def apply_hide_column_def apply_compact_def apply_accounts_def apply_insert_def
  apply_insert_batch_def apply_delete_keys_def apply_replace_all_def apply_drop_column_def apply_create_table_def
  apply_drop_table_def apply_create_index_def apply_drop_index_def apply_replace_schema_def rewrite_system_def
  clean_grants_def remove_path_def create_empty_def remove_indexes_def

lemma leaves_hide: "leaves log_state (apply_hide_column lb t column v)"
proof -
  have "leaves log_state (\<lambda>s. case remove_path p s of
      (Err e, s') \<Rightarrow> if err_kind e = NotFound then (Ok (), s') else (Err e, s') | r \<Rightarrow> r)" for p
    using leaves_log_tables(6) [of p remove_files]
    by (auto simp: leaves_def remove_path_def split: prod.splits outcome.splits) (metis snd_conv)+
  then show ?thesis unfolding apply_hide_column_def by (intro frame_intros leaves_log_tables)
qed

lemma leaves_applies:
  "leaves log_state (apply_migrate lb t i src tgt)" "leaves log_state (apply_compact lb t rows)"
  "leaves log_state (apply_accounts lb as removed m)" "leaves log_state (apply_insert lb t r)"
  "leaves log_state (apply_insert_batch lb t rows)" "leaves log_state (apply_delete_keys lb t keys)"
  "leaves log_state (apply_replace_all lb t rows)" "leaves log_state (apply_drop_column lb t column v rows)"
  "leaves log_state (apply_create_table lb t columns object)" "leaves log_state (apply_drop_table lb t)"
  "leaves log_state (apply_create_index lb t column)" "leaves log_state (apply_drop_index lb t column)"
  "leaves log_state (apply_replace_schema lb t columns v rows)"
  unfolding apply_defs by (intro frame_intros leaves_log_tables log_state_simps)+

lemma leaves_apply_op: "leaves log_state (apply_op lb op)"
  by (cases op) (simp_all add: leaves_applies leaves_hide leaves_basic)

lemma leaves_publish:
  "leaves log_state (version_tables lb)" "leaves log_state (publish_mvcc lb csn)"
  "leaves log_state (publish_changed_mvcc lb csn ops)"
  unfolding version_tables_def publish_mvcc_def publish_changed_mvcc_def scan_schema_def
  by (intro frame_intros leaves_log_tables)+

lemma leaves_apply_group: "leaves log_state (apply_group lb lsn ops)"
  unfolding apply_group_def
  by (intro frame_intros leaves_log_tables leaves_apply_op leaves_publish log_state_simps)

section \<open>Before the log\<close>

text \<open>What the checks and the numbering of a group leave alone: the log, the flag, and the tables of the dictionary.\<close>

definition before_log :: "server \<Rightarrow> (bytes option \<times> bytes option \<times> u64 \<times> bool) \<times> bool \<times> (string, cat_table) btree_map \<times>
    cat_disk \<times> u64 \<times> (string, string) hash_map" where
  "before_log s = ((w_log (se_wal s), w_checkpoint (se_wal s), w_next_lsn (se_wal s), w_handle (se_wal s)),
     se_recovery_required s, cg_tables (se_catalog s), se_catalog_file s, se_page_lsn s, se_generations s)"

lemma beside_before: "leaves beside_tables m \<Longrightarrow> leaves before_log m"
  by (auto simp: leaves_def beside_tables_def before_log_def)

lemmas leaves_before_tables = leaves_table_ops [THEN beside_before] leaves_with_open [THEN beside_before]
  leaves_dir_call [THEN beside_before]

lemma leaves_before_mvcc: "leaves before_log (on_mvcc m)"
  by (auto simp: leaves_def before_log_def on_mvcc_def split: prod.split)

lemma read_checkpoint_files:
  "read_checkpoint w = (r, v) \<Longrightarrow> w_log v = w_log w \<and> w_checkpoint v = w_checkpoint w \<and> w_next_lsn v = w_next_lsn w \<and>
     w_handle v = w_handle w"
  by (auto simp: read_checkpoint_def bindM_def getM_def seqM_def okM_def errM_def wal_check_def wal_io_def
      split: option.splits list.splits fault.splits if_splits)

lemma leaves_checkpoint: "leaves before_log stored_checkpoint"
proof -
  have "leaves before_log (on_wal read_checkpoint)"
    by (auto simp: leaves_def before_log_def on_wal_def split: prod.split dest: read_checkpoint_files)
  then show ?thesis unfolding stored_checkpoint_def by (intro frame_intros)
qed

lemma leaves_number: "leaves before_log (on_catalog (mapM ops number_table))"
proof -
  have "leaves cg_tables reserve_object_id"
    by (auto simp: leaves_def reserve_object_id_def bindM_def seqM_def getM_def modM_def okM_def errM_def)
  then have "leaves cg_tables (number_table op)" for op
    by (cases op rule: number_table.cases) (auto intro!: frame_intros)
  then have "leaves cg_tables (mapM ops number_table)" by (intro frame_intros)
  then show ?thesis
    by (auto simp: leaves_def before_log_def on_catalog_def split: prod.split) (metis snd_conv)
qed

lemma leaves_ids: "leaves beside_tables (validate_insert_ids lb ops)"
proof -
  have count: "leaves beside_tables (pending_count lb t k p)" for lb t k p
    unfolding pending_count_def by (intro frame_intros leaves_table_ops)
  have del: "leaves beside_tables (delete_ids lb t seen ks p)" for t seen ks p
    by (induction lb t seen ks p rule: delete_ids.induct) (auto intro!: frame_intros count)
  have ins: "leaves beside_tables (insert_ids lb t rs p)" for t rs p
    by (induction lb t rs p rule: insert_ids.induct) (auto intro!: frame_intros count split: option.split)
  have "leaves beside_tables (step_ids lb op tables)" for op tables
    unfolding step_ids_def by (cases op) (auto simp: Let_def intro!: frame_intros del ins count)
  then have "leaves beside_tables (validate_ids lb ops tables)" for tables
    by (induction ops arbitrary: tables) (auto intro!: frame_intros)
  then show ?thesis by (simp add: validate_insert_ids_def)
qed

lemma leaves_before_publish: "leaves before_log (publish_mvcc lb csn)"
  unfolding version_tables_def publish_mvcc_def scan_schema_def
  by (intro frame_intros leaves_before_tables leaves_before_mvcc)

lemma leaves_prepare: "leaves before_log (prepare_group lb ops)"
  unfolding prepare_group_def check_op_def check_row_keys_def preview_ops_def ensure_mvcc_def
  by (intro frame_intros leaves_ids [THEN beside_before] leaves_number leaves_checkpoint leaves_before_publish leaves_before_tables)

section \<open>What the next start replays\<close>

definition to_replay :: "serde \<Rightarrow> wal \<Rightarrow> log_record list outcome" where
  "to_replay sj w = (case fst (read_all sj (new_wal (w_log w) (w_checkpoint w) [])) of
       Ok (records, _) \<Rightarrow> Ok (committed_ops (records_after records (checkpoint_lsn w)))
     | Err e \<Rightarrow> Err e
     | Panic \<Rightarrow> Panic)"

lemma to_replay_log:
  assumes "\<forall>r \<in> set rs. op_ok sj (snd r)" and "torn tail" and "log_of w = log_bytes sj rs @ tail"
  shows "to_replay sj w = Ok (committed_ops (records_after rs (checkpoint_lsn w)))"
  using read_all_disk [OF assms] by (simp add: to_replay_def)

lemma records_after_all: "\<forall>r \<in> set rs. fst r \<le> cp \<Longrightarrow> records_after rs cp = []"
  by (auto simp: records_after_def filter_empty_conv not_less)

lemma records_after_none: "\<forall>r \<in> set rs. cp < fst r \<Longrightarrow> records_after rs cp = rs"
  by (simp add: records_after_def)

lemma records_after_append: "records_after (rs @ qs) cp = records_after rs cp @ records_after qs cp"
  by (simp add: records_after_def)

lemma committed_Nil [simp]: "committed_ops [] = []"
  by (simp add: committed_ops_def)

lemma write_checkpoint_wp:
  assumes "\<And>t. w_log t = w_log s \<Longrightarrow> w_handle t = w_handle s \<Longrightarrow> w_next_lsn t = w_next_lsn s \<Longrightarrow>
      w_checkpoint t = Some (u64_le lsn) \<Longrightarrow> Q () t"
    and "\<And>t. w_log t = w_log s \<Longrightarrow> w_checkpoint t = w_checkpoint s \<Longrightarrow> E t"
  shows "wp (write_checkpoint lsn) Q E s"
  unfolding write_checkpoint_def wp_seqM using assms by (auto intro!: wp_wal_check wp_wal_io)

section \<open>How a command ends\<close>

text \<open>
  \<open>ends m Q N s\<close>: from \<open>s\<close> the command ends well with \<open>Q\<close>, or it stops early, by an error or a
  panic, in a state with \<open>N\<close>.
\<close>

definition ends :: "('s, 'a) cmd \<Rightarrow> ('a \<Rightarrow> 's \<Rightarrow> bool) \<Rightarrow> ('s \<Rightarrow> bool) \<Rightarrow> 's \<Rightarrow> bool" where
  "ends m Q N s = (case m s of (Ok a, t) \<Rightarrow> Q a t | (Err e, t) \<Rightarrow> N t | (Panic, t) \<Rightarrow> N t)"

lemma ends_bindI:
  assumes "\<And>a t. m s = (Ok a, t) \<Longrightarrow> ends (n a) Q N t" and "\<And>r t. m s = (r, t) \<Longrightarrow> N t"
  shows "ends (bindM m n) Q N s"
  using assms by (auto simp: ends_def bindM_def split: prod.splits outcome.splits)

lemma ends_seqI:
  assumes "\<And>a t. m s = (Ok a, t) \<Longrightarrow> ends n Q N t" and "\<And>r t. m s = (r, t) \<Longrightarrow> N t"
  shows "ends (seqM m n) Q N s"
  unfolding seqM_def using assms by (rule ends_bindI)

lemma ends_bind: "ends (bindM m n) Q N s = ends m (\<lambda>a. ends (n a) Q N) N s"
  by (simp add: ends_def bindM_def split: prod.splits outcome.splits)

lemma ends_seq: "ends (seqM m n) Q N s = ends m (\<lambda>_. ends n Q N) N s"
  by (simp add: seqM_def ends_bind)

lemma ends_getM: "ends (getM f) Q N s = Q (f s) s"
  by (simp add: ends_def getM_def)

lemma ends_modM [simp]: "ends (modM f) Q N s = Q () (f s)"
  by (simp add: ends_def modM_def)

lemma ends_okM [simp]: "ends (okM a) Q N s = Q a s"
  by (simp add: ends_def okM_def)

lemma ends_on_wal: "wp m (\<lambda>a w. Q a (s\<lparr>se_wal := w\<rparr>)) (\<lambda>w. N (s\<lparr>se_wal := w\<rparr>)) (se_wal s) \<Longrightarrow> ends (on_wal m) Q N s"
  by (auto simp: ends_def wp_def on_wal_def split: prod.splits outcome.splits)

lemma ends_mono:
  "ends m Q N s \<Longrightarrow> (\<And>a t. Q a t \<Longrightarrow> Q' a t) \<Longrightarrow> (\<And>t. N t \<Longrightarrow> N' t) \<Longrightarrow> ends m Q' N' s"
  by (auto simp: ends_def split: prod.splits outcome.splits)

section \<open>Groups\<close>

lemma publish_changed_csn:
  "publish_changed dc c csn schemas tables v = (Ok (), v') \<Longrightarrow> du_csn (ms_durable (mv_state v')) = csn"
  by (auto simp: publish_changed_def bindM_def seqM_def getM_def liftM_def modM_def set_durable_def publish_next_def Let_def
      split: prod.splits outcome.splits if_splits)

lemma publish_csn:
  "publish_mvcc lb csn s = (Ok (), t) \<Longrightarrow> server_csn t = csn"
  "publish_changed_mvcc lb csn ops s = (Ok (), t) \<Longrightarrow> server_csn t = csn"
proof -
  show *: "publish_mvcc lb csn s = (Ok (), t) \<Longrightarrow> server_csn t = csn" for s
    by (auto simp: publish_mvcc_def publish_def bindM_def on_mvcc_def server_csn_def split: prod.splits outcome.splits
        dest!: publish_changed_csn)
  show "publish_changed_mvcc lb csn ops s = (Ok (), t) \<Longrightarrow> server_csn t = csn"
    by (cases "list_ex is_accounts ops")
      (auto simp: publish_changed_mvcc_def * bindM_def getM_def on_mvcc_def server_csn_def split: prod.splits outcome.splits
        dest!: publish_changed_csn dest: *)
qed

lemma bindM_Ok: "bindM m n s = (Ok b, t) \<Longrightarrow> \<exists>a u. m s = (Ok a, u) \<and> n a u = (Ok b, t)"
  by (auto simp: bindM_def split: prod.splits outcome.splits)

lemma seqM_Ok: "seqM m n s = (Ok b, t) \<Longrightarrow> \<exists>a u. m s = (Ok a, u) \<and> n u = (Ok b, t)"
  unfolding seqM_def by (drule bindM_Ok) blast

lemma apply_group_csn: "apply_group lb lsn ops s = (Ok (), t) \<Longrightarrow> server_csn t = lsn"
  unfolding apply_group_def by (auto dest!: seqM_Ok publish_csn(2))

lemma checkpoint_written: "w_checkpoint w = Some (u64_le n) \<Longrightarrow> checkpoint_lsn w = n"
  by (simp add: checkpoint_lsn_def)

text \<open>The end of a group: the checkpoint, then the log cut behind it.\<close>

lemma close_group_ends:
  assumes log: "log_holds (lb_serde lb) rs tail (se_wal s)" and some: "\<exists>r \<in> set rs. fst r \<le> lsn"
    and Q: "\<And>w. log_of w = log_bytes (lb_serde lb) (filter (\<lambda>r. lsn < fst r) rs) \<Longrightarrow> w_checkpoint w = Some (u64_le lsn) \<Longrightarrow>
      w_next_lsn w = w_next_lsn (se_wal s) \<Longrightarrow> w_handle w \<longrightarrow> w_log w \<noteq> None \<Longrightarrow> Q () (s\<lparr>se_wal := w\<rparr>)"
    and N: "\<And>w. log_of w = log_of (se_wal s) \<Longrightarrow> w_checkpoint w = w_checkpoint (se_wal s) \<Longrightarrow> N (s\<lparr>se_wal := w\<rparr>)"
    and N': "\<And>w. log_of w \<in> {log_of (se_wal s), log_bytes (lb_serde lb) (filter (\<lambda>r. lsn < fst r) rs)} \<Longrightarrow>
      w_checkpoint w = Some (u64_le lsn) \<Longrightarrow> N (s\<lparr>se_wal := w\<rparr>)"
  shows "ends (close_group lb lsn) Q N s"
  unfolding close_group_def ends_seq
proof (rule ends_on_wal, rule write_checkpoint_wp)
  fix w :: wal assume w: "w_log w = w_log (se_wal s)" "w_handle w = w_handle (se_wal s)" "w_next_lsn w = w_next_lsn (se_wal s)"
    "w_checkpoint w = Some (u64_le lsn)"
  then have same: "log_of w = log_of (se_wal s)" by (simp add: log_of_def)
  have "log_holds (lb_serde lb) rs tail w" using log w same by (simp add: log_holds_def)
  then show "ends (on_wal (truncate_before (lb_serde lb) lsn)) Q N (s\<lparr>se_wal := w\<rparr>)"
    using some w same Q N' by (intro ends_on_wal truncate_before_wp) auto
qed (use N in \<open>simp add: log_of_def\<close>)

lemma to_replay_cong: "log_of v = log_of w \<Longrightarrow> w_checkpoint v = w_checkpoint w \<Longrightarrow> log_holds sj rs tail w \<Longrightarrow>
    to_replay sj v = Ok (committed_ops (records_after rs (checkpoint_lsn w)))"
  using to_replay_log [of rs sj tail v] by (simp add: log_holds_def checkpoint_lsn_def)

lemma committed_one_group:
  assumes "length ls = length ops" and "WCommit \<notin> set ops"
  shows "committed_ops (take i (group_records ls ops n)) \<in> {zip ls ops, [], take 1 (zip ls ops)}"
    and "committed_ops (group_records ls ops n) = zip ls ops"
proof -
  have "closed_log []" by (simp add: closed_log_def)
  note g = committed_group(1) [OF this assms, simplified]
  show "committed_ops (take i (group_records ls ops n)) \<in> {zip ls ops, [], take 1 (zip ls ops)}"
    using g [of i n] by auto
  show "committed_ops (group_records ls ops n) = zip ls ops"
    using g [of "Suc (length ops)" n] assms(1) by (simp add: group_records_def)
qed

text \<open>A group that stopped: before its log record was whole, or with the flag set.\<close>

definition group_failed :: "libs \<Rightarrow> wal_op list \<Rightarrow> server \<Rightarrow> server \<Rightarrow> bool" where
  "group_failed lb ops s t = (let sj = lb_serde lb; w = se_wal s; v = se_wal t in
     if se_recovery_required t
     then \<exists>ops' ls u. prepare_group lb ops s = (Ok ops', u) \<and> length ls = length ops' \<and>
       (to_replay sj v = Ok (zip ls ops') \<and> checkpoint_lsn v = checkpoint_lsn w \<or>
        to_replay sj v = Ok [] \<and> checkpoint_lsn w < checkpoint_lsn v \<and> server_csn t = checkpoint_lsn v)
     else cg_tables (se_catalog t) = cg_tables (se_catalog s) \<and> se_catalog_file t = se_catalog_file s \<and>
       se_generations t = se_generations s \<and> checkpoint_lsn v = checkpoint_lsn w \<and>
       (to_replay sj v = Ok [] \<or>
        (\<exists>ops' ls u. prepare_group lb ops s = (Ok ops', u) \<and> length ls = length ops' \<and>
           to_replay sj v \<in> {Ok (take 1 (zip ls ops')), Ok (zip ls ops')})))"

definition group_done :: "libs \<Rightarrow> server \<Rightarrow> server \<Rightarrow> bool" where
  "group_done lb s t \<longleftrightarrow> \<not> se_recovery_required t \<and> wal_inv (lb_serde lb) [] (se_wal t) \<and>
     to_replay (lb_serde lb) (se_wal t) = Ok [] \<and> checkpoint_lsn (se_wal s) < checkpoint_lsn (se_wal t) \<and>
     server_csn t = checkpoint_lsn (se_wal t)"

lemma to_replay_empty: "log_of w = [] \<Longrightarrow> to_replay sj w = Ok []"
  using to_replay_log [of "[]" sj "[]" w] by (simp add: records_after_def)

text \<open>From the whole record of a group to its end.\<close>

lemma logged_group_ends:
  assumes inv: "wal_inv (lb_serde lb) (rs @ group_records ls ops' n) (se_wal u)"
    and old: "\<forall>r \<in> set rs. fst r \<le> checkpoint_lsn (se_wal s)" and ls: "length ls = length ops'" "WCommit \<notin> set ops'"
    and beyond: "\<forall>l \<in> set ls. checkpoint_lsn (se_wal s) < l" "checkpoint_lsn (se_wal s) < n"
    and cp: "w_checkpoint (se_wal u) = w_checkpoint (se_wal s)" and p: "prepare_group lb ops s = (Ok ops', u')"
  shows "ends (seqM (set_recovery True) (seqM (apply_group lb n ops') (seqM (close_group lb n) (set_recovery False))))
    (\<lambda>_. group_done lb s) (group_failed lb ops s) u"
  unfolding set_recovery_def ends_seq ends_modM
proof (rule ends_mono [where Q = "\<lambda>a t. log_state t = (se_wal u, True) \<and> server_csn t = n" and N = "\<lambda>t. log_state t = (se_wal u, True)"])
  let ?sj = "lb_serde lb" and ?rs = "rs @ group_records ls ops' n"
  have hold: "log_holds ?sj ?rs [] (se_wal u)" using inv by (rule wal_inv_holds)
  have cpn: "checkpoint_lsn (se_wal u) = checkpoint_lsn (se_wal s)" using cp by (simp add: checkpoint_lsn_def)
  have "records_after (group_records ls ops' n) (checkpoint_lsn (se_wal s)) = group_records ls ops' n"
    using beyond by (intro records_after_none) (auto simp: group_records_def dest: set_zip_leftD)
  then have replay: "committed_ops (records_after ?rs (checkpoint_lsn (se_wal u))) = zip ls ops'"
    using records_after_all [OF old] committed_one_group(2) [OF ls] by (simp add: cpn records_after_append)
  have bad: "group_failed lb ops s t" if "log_of (se_wal t) = log_of (se_wal u)" "w_checkpoint (se_wal t) = w_checkpoint (se_wal u)"
      "se_recovery_required t" for t
  proof -
    have "to_replay ?sj (se_wal t) = Ok (zip ls ops')" using to_replay_cong [OF that(1,2) hold] replay by simp
    moreover have "checkpoint_lsn (se_wal t) = checkpoint_lsn (se_wal s)" using that(2) cp by (simp add: checkpoint_lsn_def)
    ultimately show ?thesis using that(3) p ls(1) by (auto simp: group_failed_def Let_def)
  qed
  have "sorted_wrt (<) (map fst ?rs)" using inv by (simp add: wal_inv_def)
  then have top: "\<forall>r \<in> set ?rs. fst r \<le> n" using last_greatest [of ?rs] by (auto simp: group_records_def)
  then have nil: "filter (\<lambda>r. n < fst r) ?rs = []" by (auto simp: filter_empty_conv not_less)
  have nxt: "w_next_lsn (se_wal u) \<noteq> 0 \<longrightarrow> n < w_next_lsn (se_wal u)"
    using inv by (auto simp: wal_inv_def group_records_def)
  show "ends (apply_group lb n ops') (\<lambda>a t. log_state t = (se_wal u, True) \<and> server_csn t = n)
      (\<lambda>t. log_state t = (se_wal u, True)) (u\<lparr>se_recovery_required := True\<rparr>)"
  proof -
    obtain r t where e: "apply_group lb n ops' (u\<lparr>se_recovery_required := True\<rparr>) = (r, t)" by fastforce
    then have "log_state t = (se_wal u, True)" using leavesD [OF leaves_apply_group] by (simp add: log_state_def)
    then show ?thesis using e apply_group_csn [of lb n ops' _ t] by (cases r) (auto simp: ends_def)
  qed
  show "group_failed lb ops s t" if "log_state t = (se_wal u, True)" for t
    using that bad [of t] by (simp add: log_state_def)
  show "ends (close_group lb n) (\<lambda>_ t. group_done lb s (t\<lparr>se_recovery_required := False\<rparr>)) (group_failed lb ops s) t" if t: "log_state t = (se_wal u, True) \<and> server_csn t = n" for t
  proof (rule close_group_ends [where tail = "[]" and rs = ?rs])
    show "log_holds ?sj ?rs [] (se_wal t)" using hold t by (simp add: log_state_def)
    show "\<exists>r \<in> set ?rs. fst r \<le> n" by (auto simp: group_records_def)
  next
    fix w assume "log_of w = log_of (se_wal t)" "w_checkpoint w = w_checkpoint (se_wal t)"
    then show "group_failed lb ops s (t\<lparr>se_wal := w\<rparr>)" using t by (intro bad) (simp_all add: log_state_def)
  next
    fix w assume w: "log_of w \<in> {log_of (se_wal t), log_bytes ?sj (filter (\<lambda>r. n < fst r) ?rs)}" "w_checkpoint w = Some (u64_le n)"
    have "to_replay ?sj w = Ok []"
    proof (cases "log_of w = log_of (se_wal t)")
      case True
      then have "log_of w = log_bytes ?sj ?rs @ []" using hold t by (simp add: log_holds_def log_state_def)
      then have "to_replay ?sj w = Ok (committed_ops (records_after ?rs (checkpoint_lsn w)))"
        using hold by (intro to_replay_log) (auto simp: log_holds_def)
      then show ?thesis using records_after_all [OF top] checkpoint_written [OF w(2)] by simp
    next
      case False
      then show ?thesis using w(1) nil to_replay_empty [of w] by simp
    qed
    then show "group_failed lb ops s (t\<lparr>se_wal := w\<rparr>)"
      using t p ls(1) beyond(2) checkpoint_written [OF w(2)] by (auto simp: group_failed_def log_state_def server_csn_def Let_def)
  next
    fix w assume w: "log_of w = log_bytes ?sj (filter (\<lambda>r. n < fst r) ?rs)" "w_checkpoint w = Some (u64_le n)"
      "w_next_lsn w = w_next_lsn (se_wal t)" "w_handle w \<longrightarrow> w_log w \<noteq> None"
    have "log_of w = []" using w(1) nil by simp
    moreover from this have "wal_inv ?sj [] w"
      using w nxt t checkpoint_written [OF w(2)] by (simp add: wal_inv_def log_state_def)
    ultimately show "group_done lb s (t\<lparr>se_wal := w, se_recovery_required := False\<rparr>)"
      using t beyond(2) checkpoint_written [OF w(2)] to_replay_empty by (simp add: group_done_def server_csn_def)
  qed
qed

text \<open>
  Property (C1).  A group of operations is written on a server whose log holds nothing to replay,
  with an arbitrary failure at any I/O call, an error or a panic in any step.  When it succeeds, the
  recovery flag is clear, the log is empty, the checkpoint has moved on, the row versions are
  published at the checkpoint, and a restart replays nothing.  When it stops after its log record is
  whole, the flag is set, and a restart replays exactly the group, or nothing if the checkpoint behind
  it was written and the row versions are published at it.  When it stops earlier, the flag is clear, the tables of the dictionary, its file, the file generations and the
  checkpoint are as before, and a restart finds nothing, the first operation alone (the property on
  groups cut after their first frame), or the whole group whose sync failed.
\<close>

theorem group_all_or_nothing:
  assumes "wal_inv (lb_serde lb) rs (se_wal s)" and "\<forall>r \<in> set rs. fst r \<le> checkpoint_lsn (se_wal s)"
    and "\<not> se_recovery_required s"
    and "\<And>ops' u. prepare_group lb ops s = (Ok ops', u) \<Longrightarrow> WCommit \<notin> set ops' \<and> (\<forall>op \<in> set ops'. op_ok (lb_serde lb) op)"
  shows "case group_via_wal lb ops s of
      (Ok _, t) \<Rightarrow> group_done lb s t
    | (Err _, t) \<Rightarrow> group_failed lb ops s t
    | (Panic, t) \<Rightarrow> group_failed lb ops s t"
proof -
  let ?sj = "lb_serde lb"
  have early: "group_failed lb ops s t" if "before_log t = before_log s" for t
  proof -
    have "to_replay ?sj (se_wal t) = Ok (committed_ops (records_after rs (checkpoint_lsn (se_wal s))))"
      using that by (intro to_replay_cong [OF _ _ wal_inv_holds [OF assms(1)]]) (simp_all add: before_log_def log_of_def)
    then show ?thesis
      using that assms(3) records_after_all [OF assms(2)] by (simp add: group_failed_def before_log_def checkpoint_lsn_def)
  qed
  have "ends (group_via_wal lb ops) (\<lambda>_. group_done lb s) (group_failed lb ops s) s"
    unfolding group_via_wal_def
  proof (rule ends_bindI)
    show "group_failed lb ops s t" if "prepare_group lb ops s = (r, t)" for r t
      using leavesD [OF leaves_prepare that] by (rule early)
    fix ops' u assume p: "prepare_group lb ops s = (Ok ops', u)"
    then have u: "before_log u = before_log s" by (rule leavesD [OF leaves_prepare])
    have good: "WCommit \<notin> set ops'" "\<forall>op \<in> set ops'. op_ok ?sj op" using assms(4) [OF p] by simp_all
    have inv: "wal_inv ?sj rs (se_wal u)"
      using wal_inv_cong [of "se_wal s" "se_wal u"] assms(1) u by (simp add: same_wal_def before_log_def)
    have cp: "w_checkpoint (se_wal u) = w_checkpoint (se_wal s)" "checkpoint_lsn (se_wal u) = checkpoint_lsn (se_wal s)"
      using u by (simp_all add: before_log_def checkpoint_lsn_def)
    show "ends (bindM (on_wal (append_group ?sj ops')) (\<lambda>lsn. seqM (set_recovery True)
        (seqM (apply_group lb lsn ops') (seqM (close_group lb lsn) (set_recovery False)))))
        (\<lambda>_. group_done lb s) (group_failed lb ops s) u"
      unfolding ends_bind
    proof (rule ends_on_wal, rule append_group_wp [OF inv good(2)])
      fix ls n w
      assume h: "length ls = length ops'" "wal_inv ?sj (rs @ group_records ls ops' n) w"
        "\<forall>l \<in> set ls. checkpoint_lsn (se_wal u) < l" "checkpoint_lsn (se_wal u) < n" "w_checkpoint w = w_checkpoint (se_wal u)"
      then show "ends (seqM (set_recovery True) (seqM (apply_group lb n ops') (seqM (close_group lb n) (set_recovery False))))
          (\<lambda>_. group_done lb s) (group_failed lb ops s) (u\<lparr>se_wal := w\<rparr>)"
        using p good(1) assms(2) cp by (intro logged_group_ends [where rs = rs and ls = ls]) simp_all
    next
      fix ls n i tail w
      assume h: "length ls = length ops'" "torn tail" "log_of w = log_bytes ?sj (rs @ take i (group_records ls ops' n)) @ tail"
        "w_checkpoint w = w_checkpoint (se_wal u)" "\<forall>r \<in> set (take i (group_records ls ops' n)). checkpoint_lsn (se_wal u) < fst r"
      have ok: "\<forall>r \<in> set (rs @ take i (group_records ls ops' n)). op_ok ?sj (snd r)"
        using assms(1) group_records_ok [OF good(2)] by (fastforce simp: wal_inv_def dest: in_set_takeD)
      have "checkpoint_lsn w = checkpoint_lsn (se_wal s)" using h(4) cp by (simp add: checkpoint_lsn_def)
      moreover from this have "to_replay ?sj w = Ok (committed_ops (take i (group_records ls ops' n)))"
        using to_replay_log [OF ok h(2,3)] records_after_all [OF assms(2)] records_after_none h(5) cp(2)
        by (simp add: records_after_append)
      ultimately show "group_failed lb ops s (u\<lparr>se_wal := w\<rparr>)"
        using committed_one_group(1) [OF h(1) good(1), of i n] p h(1) u assms(3)
        by (auto simp: group_failed_def before_log_def Let_def)
    qed
  qed
  then show ?thesis by (simp add: ends_def)
qed

text \<open>A server over empty files; the faults are those of the log.\<close>

definition sample_libs :: libs where
  "sample_libs = \<lparr>lb_pages = table_codec, lb_row = no_codec, lb_serde = plain_serde, lb_catalog = no_codec,
     lb_durable = no_codec, lb_delta = no_codec, lb_hash = \<lparr>hg_hasher = \<lambda>_. 0, hg_printed = \<lambda>_. []\<rparr>,
     lb_pow10 = \<lambda>_. Finite 1, lb_fuel = 0\<rparr>"

definition sample_server :: "fault list \<Rightarrow> server" where
  "sample_server fs = \<lparr>se_cfg = default_config (\<lambda>_. None), se_tables = [], se_catalog = default_catalog,
     se_wal = new_wal None None fs, se_recovery_required = False, se_page_lsn = 0,
     se_mvcc = \<lparr>mv_file = Some [], mv_delta = None, mv_nonce = [],
       mv_state = \<lparr>ms_durable = empty_durable, ms_transactions = [], ms_next_transaction = 0\<rparr>, mv_faults = []\<rparr>,
     se_generations = [], se_retired = [], se_disk = (\<lambda>_. sample_file []), se_catalog_file = \<lparr>cd_file = None, cd_faults = []\<rparr>,
     se_faults = []\<rparr>"

lemma sample_prepare: "prepare_group sample_libs [WDropTable ''u''] (sample_server fs) = (Ok [WDropTable ''u''], sample_server fs)"
  by (simp add: prepare_group_def check_op_def validate_insert_ids_def step_ids_def dir_call_def on_catalog_def preview_ops_def
      ensure_mvcc_def stored_checkpoint_def on_wal_def read_checkpoint_def new_wal_def server_csn_def sample_server_def
      empty_durable_def bindM_def seqM_def getM_def okM_def liftM_def Let_def)

theorem group_all_or_nothing_witness:
  "case group_via_wal sample_libs [WDropTable ''u''] (sample_server [NoFault, NoFault, Fault 1]) of
      (Ok _, t) \<Rightarrow> group_done sample_libs (sample_server [NoFault, NoFault, Fault 1]) t
    | (Err _, t) \<Rightarrow> group_failed sample_libs [WDropTable ''u''] (sample_server [NoFault, NoFault, Fault 1]) t
    | (Panic, t) \<Rightarrow> group_failed sample_libs [WDropTable ''u''] (sample_server [NoFault, NoFault, Fault 1]) t"
proof (rule group_all_or_nothing [where rs = "[]"])
  show "wal_inv (lb_serde sample_libs) [] (se_wal (sample_server [NoFault, NoFault, Fault 1]))"
    by (simp add: sample_server_def wal_inv_def new_wal_def log_of_def)
  show "WCommit \<notin> set ops' \<and> (\<forall>op \<in> set ops'. op_ok (lb_serde sample_libs) op)"
    if "prepare_group sample_libs [WDropTable ''u''] (sample_server [NoFault, NoFault, Fault 1]) = (Ok ops', u)" for ops' u
  proof -
    have "ops' = [WDropTable ''u'']" "lb_serde sample_libs = plain_serde"
      using that by (simp_all add: sample_prepare) (simp add: sample_libs_def)
    then show ?thesis using plain_ops_ok by simp
  qed
qed (simp_all add: sample_server_def)

section \<open>Recovery\<close>

text \<open>The committed records beyond the checkpoint, and the open group behind the last commit marker.\<close>

definition open_group :: "log_record list \<Rightarrow> log_record list" where
  "open_group rs = snd (commit_groups [] [] rs)"

lemma commit_groups_tail:
  assumes "WCommit \<notin> snd ` set post"
  shows "commit_groups [] [] (pre @ (n, WCommit) # post) = (fst (commit_groups [] [] (pre @ [(n, WCommit)])), post)"
proof -
  obtain out pend where pre: "commit_groups [] [] pre = (out, pend)" by fastforce
  have no: "\<forall>r \<in> set post. snd r \<noteq> WCommit" using assms by force
  show ?thesis using pre commit_groups_open [OF no] by (simp add: commit_groups_append)
qed

lemma commit_groups_single:
  assumes "WCommit \<notin> snd ` set rs"
  shows "commit_groups [] [] rs = ([], rs)"
proof -
  have "\<forall>r \<in> set rs. snd r \<noteq> WCommit" using assms by force
  then show ?thesis using commit_groups_open by simp
qed

lemma committed_open:
  assumes "WCommit \<notin> snd ` set rs" and "length rs \<noteq> 1"
  shows "committed_ops rs = []"
  using commit_groups_single [OF assms(1)] assms(2) by (simp add: committed_ops_def)

lemma find_skip: "find P xs = None \<Longrightarrow> find P (xs @ ys) = find P ys"
  by (induction xs) (auto split: if_splits)

lemma find_rev:
  assumes "WCommit \<notin> snd ` set post"
  shows "find (\<lambda>r. snd r = WCommit) (rev (pre @ (n, WCommit) # post)) = Some (n, WCommit)"
proof -
  have "find (\<lambda>r. snd r = WCommit) (rev post) = None" using assms by (force simp: find_None_iff)
  then show ?thesis by (simp add: find_skip)
qed

lemma sorted_after:
  fixes n :: u64
  assumes "sorted_wrt (<) (map fst (pre @ (n, op) # post))"
  shows "filter (\<lambda>r. n < fst r) (pre @ (n, op) # post) = post"
  using assms by (auto simp: sorted_wrt_append filter_empty_conv intro!: filter_True dest: order.asym)

text \<open>
  A single record behind the last commit marker counts as committed and is replayed, but recovery
  numbers its replay by the marker.
\<close>

definition lone_record :: "log_record list \<Rightarrow> log_record list" where
  "lone_record pending = (if WCommit \<in> snd ` set pending \<and> length (open_group pending) = 1 then open_group pending else [])"

lemma committed_single:
  assumes "WCommit \<notin> snd ` set rs" and "length rs = 1"
  shows "committed_ops rs = rs"
  using commit_groups_single [OF assms(1)] assms(2) by (simp add: committed_ops_def)

text \<open>Beyond the number that recovery writes as the checkpoint no committed record is left but this one.\<close>

lemma replay_lsn_rest:
  assumes sorted: "sorted_wrt (<) (map fst rs)" and pend: "pending = records_after rs cp"
    and some: "committed_ops pending \<noteq> []"
    and lsn: "lsn = replay_lsn pending (committed_ops pending)"
  shows "committed_ops (records_after rs lsn) = lone_record pending" and "\<exists>r \<in> set rs. fst r \<le> lsn" and "cp < lsn"
    and "lone_record (records_after rs lsn) = []"
proof -
  have sp: "sorted_wrt (<) (map fst pending)" using sorted by (simp add: pend records_after_def sorted_wrt_map sorted_wrt_filter)
  have in_rs: "set pending \<subseteq> set rs" "\<forall>r \<in> set pending. cp < fst r" by (auto simp: pend records_after_def)
  have after: "records_after rs lsn = filter (\<lambda>r. lsn < fst r) pending" if "cp < lsn"
    unfolding pend records_after_def filter_filter using that by (intro filter_cong) auto
  have "committed_ops (records_after rs lsn) = lone_record pending \<and> lsn \<in> fst ` set pending \<and>
      WCommit \<notin> snd ` set (records_after rs lsn)"
  proof (cases "WCommit \<in> snd ` set pending")
    case True
    then obtain n pre post where p: "pending = pre @ (n, WCommit) # post" "WCommit \<notin> snd ` set post"
      using split_list_last_prop [of pending "\<lambda>r. snd r = WCommit"] by (force simp: image_iff)
    then have n: "lsn = n" using find_rev [OF p(2), of pre n] by (simp add: lsn replay_lsn_def)
    then have "records_after rs lsn = post" using after p(1) sorted_after sp in_rs(2) by auto
    moreover have "open_group pending = post" using commit_groups_tail [OF p(2), of pre n] by (simp add: open_group_def p(1))
    ultimately show ?thesis using committed_open [OF p(2)] committed_single [OF p(2)] True n p by (simp add: lone_record_def)
  next
    case False
    then have one: "length pending = 1" "committed_ops pending = pending"
      using some commit_groups_single [OF False] by (auto simp: committed_ops_def split: if_splits)
    then obtain n op where p: "pending = [(n, op)]" by (metis length_0_conv length_Suc_conv One_nat_def surj_pair)
    then have "lsn = n" using False one(2) by (auto simp: lsn replay_lsn_def)
    then show ?thesis using after p in_rs(2) False by (simp add: lone_record_def committed_ops_def)
  qed
  then show "committed_ops (records_after rs lsn) = lone_record pending" "\<exists>r \<in> set rs. fst r \<le> lsn" "cp < lsn"
    "lone_record (records_after rs lsn) = []"
    using in_rs by (auto simp: lone_record_def)
qed

lemma lone_record_none: "committed_ops pending = [] \<Longrightarrow> lone_record pending = []"
  by (auto simp: lone_record_def committed_ops_def open_group_def split: if_splits prod.splits)

lemma leaves_already: "leaves beside_tables (op_already_applied lb op)"
  by (cases op) (auto simp: applied_rows_def scan_rows_def intro!: frame_intros leaves_table_ops)

lemma leaves_replay: "leaves log_state (replay_records lb lsn records)"
proof -
  have "leaves log_state (rebuild_recovery_indexes lb records)"
    unfolding rebuild_recovery_indexes_def drop_indexes_def remove_indexes_def remove_path_def
    by (intro frame_intros leaves_log_tables)
  moreover have "leaves log_state (replay_op lb op)" for op
    unfolding replay_op_def by (intro frame_intros leaves_apply_op beside_log [OF leaves_already])
  ultimately show ?thesis
    unfolding replay_records_def by (intro frame_intros leaves_log_tables leaves_publish log_state_simps)
qed

lemma replay_csn: "replay_records lb lsn records s = (Ok (), t) \<Longrightarrow> server_csn t = lsn"
  unfolding replay_records_def by (auto dest!: seqM_Ok publish_csn(1))

lemma stored_checkpoint_ends:
  assumes len: "\<And>b. w_checkpoint (se_wal s) = Some b \<Longrightarrow> length b = 8"
    and Q: "\<And>fs. Q (checkpoint_lsn (se_wal s)) (s\<lparr>se_wal := (se_wal s)\<lparr>w_wal_faults := fs\<rparr>\<rparr>)"
    and N: "\<And>fs. N (s\<lparr>se_wal := (se_wal s)\<lparr>w_wal_faults := fs\<rparr>\<rparr>)"
  shows "ends stored_checkpoint Q N s"
  unfolding stored_checkpoint_def ends_bind
proof (rule ends_on_wal)
  have same: "s\<lparr>se_wal := se_wal s\<rparr> = s\<lparr>se_wal := (se_wal s)\<lparr>w_wal_faults := w_wal_faults (se_wal s)\<rparr>\<rparr>" by simp
  show "wp read_checkpoint (\<lambda>a w. ends (okM (case a of None \<Rightarrow> 0 | Some n \<Rightarrow> n)) Q N (s\<lparr>se_wal := w\<rparr>))
      (\<lambda>w. N (s\<lparr>se_wal := w\<rparr>)) (se_wal s)"
  proof (cases "w_checkpoint (se_wal s)")
    case None
    then show ?thesis using Q [of "w_wal_faults (se_wal s)"]
      by (simp add: read_checkpoint_def wp_simps checkpoint_lsn_def)
  next
    case (Some b)
    then show ?thesis using Q N len [OF Some]
      by (simp add: read_checkpoint_def wp_simps checkpoint_lsn_def) (auto intro!: wp_wal_check simp: wp_simps)
  qed
qed

lemma read_all_ends:
  assumes log: "log_holds sj rs tail (se_wal s)"
    and Q: "\<And>fs. Q (rs, length (log_bytes sj rs)) (s\<lparr>se_wal := (se_wal s)\<lparr>w_wal_faults := fs\<rparr>\<rparr>)"
    and N: "\<And>fs. N (s\<lparr>se_wal := (se_wal s)\<lparr>w_wal_faults := fs\<rparr>\<rparr>)"
  shows "ends (on_wal (read_all sj)) Q N s"
  unfolding read_all_def
proof (rule ends_on_wal, unfold wp_bindM, rule parse_torn_wp [OF log], goal_cases)
  case (1 fs)
  then show ?case using Q [of fs] by (simp add: wp_simps)
qed (rule N)

text \<open>
  What recovery leaves: in a clean log the lone record behind the last marker, if there is one, and
  otherwise nothing to replay; or the state it started from.
\<close>

definition left_over :: "log_record list \<Rightarrow> server \<Rightarrow> log_record list" where
  "left_over rs s = lone_record (records_after rs (checkpoint_lsn (se_wal s)))"

definition recovered :: "libs \<Rightarrow> log_record list \<Rightarrow> server \<Rightarrow> server \<Rightarrow> bool" where
  "recovered lb rs s t \<longleftrightarrow> to_replay (lb_serde lb) (se_wal t) = Ok (left_over rs s) \<and>
     (\<exists>rs'. set rs' \<subseteq> set rs \<and> log_of (se_wal t) = log_bytes (lb_serde lb) rs' \<and> left_over rs' t = []) \<and>
     (if committed_ops (records_after rs (checkpoint_lsn (se_wal s))) = [] then checkpoint_lsn (se_wal t) = checkpoint_lsn (se_wal s)
      else checkpoint_lsn (se_wal s) < checkpoint_lsn (se_wal t) \<and> server_csn t = checkpoint_lsn (se_wal t))"

definition not_recovered :: "libs \<Rightarrow> log_record list \<Rightarrow> server \<Rightarrow> server \<Rightarrow> bool" where
  "not_recovered lb rs s t \<longleftrightarrow> to_replay (lb_serde lb) (se_wal t) = to_replay (lb_serde lb) (se_wal s) \<and>
       checkpoint_lsn (se_wal t) = checkpoint_lsn (se_wal s) \<or>
     to_replay (lb_serde lb) (se_wal t) = Ok (left_over rs s) \<and> checkpoint_lsn (se_wal s) < checkpoint_lsn (se_wal t) \<and>
       server_csn t = checkpoint_lsn (se_wal t)"

lemma not_recovered_same:
  assumes "log_holds (lb_serde lb) rs tail (se_wal s)" "log_of (se_wal t) = log_of (se_wal s)"
    "w_checkpoint (se_wal t) = w_checkpoint (se_wal s)"
  shows "not_recovered lb rs s t"
  using to_replay_cong [OF assms(2,3,1)] to_replay_cong [OF refl refl assms(1)] assms(3)
  by (simp add: not_recovered_def checkpoint_lsn_def)

lemma replay_ends:
  assumes log: "log_holds (lb_serde lb) rs tail (se_wal s)" and pend: "pending = records_after rs (checkpoint_lsn (se_wal s))"
    and some: "committed_ops pending \<noteq> []"
    and u: "log_of (se_wal u) = log_of (se_wal s)" "w_checkpoint (se_wal u) = w_checkpoint (se_wal s)"
      "log_holds (lb_serde lb) rs tail (se_wal u)"
    and lsn: "lsn = replay_lsn pending (committed_ops pending)"
  shows "ends (seqM (replay_records lb lsn (committed_ops pending)) (close_group lb lsn))
    (\<lambda>_. recovered lb rs s) (not_recovered lb rs s) u"
proof (rule ends_seqI)
  let ?sj = "lb_serde lb"
  have sorted: "sorted_wrt (<) (map fst rs)" and ok: "\<forall>r \<in> set rs. op_ok ?sj (snd r)" using log by (simp_all add: log_holds_def)
  note rest = replay_lsn_rest [OF sorted pend some lsn]
  show "not_recovered lb rs s t" if "replay_records lb lsn (committed_ops pending) u = (r, t)" for r t
    using leavesD [OF leaves_replay that] u(1,2) by (intro not_recovered_same [OF log]) (simp_all add: log_state_def)
  fix x t assume "replay_records lb lsn (committed_ops pending) u = (Ok x, t)"
  then have t: "se_wal t = se_wal u" "server_csn t = lsn"
    using leavesD [OF leaves_replay, of lb lsn "committed_ops pending" u] replay_csn [of lb lsn _ u t] by (simp_all add: log_state_def)
  have later: "filter (\<lambda>r. lsn < fst r) rs = records_after rs lsn" by (simp add: records_after_def)
  have ok': "\<forall>r \<in> set (records_after rs lsn). op_ok ?sj (snd r)" using ok by (simp add: records_after_def)
  have twice: "records_after (records_after rs lsn) lsn = records_after rs lsn" by (simp add: records_after_def)
  have kept: "to_replay ?sj w = Ok (left_over rs s)"
    if "log_of w \<in> {log_of (se_wal t), log_bytes ?sj (filter (\<lambda>r. lsn < fst r) rs)}" "w_checkpoint w = Some (u64_le lsn)" for w
  proof (cases "log_of w = log_of (se_wal t)")
    case True
    then have "to_replay ?sj w = Ok (committed_ops (records_after rs (checkpoint_lsn w)))"
      using u(3) t(1) ok by (intro to_replay_log [where tail = tail]) (simp_all add: log_holds_def)
    then show ?thesis using rest(1) checkpoint_written [OF that(2)] by (simp add: left_over_def pend)
  next
    case False
    then have "to_replay ?sj w = Ok (committed_ops (records_after (records_after rs lsn) (checkpoint_lsn w)))"
      using that(1) ok' by (intro to_replay_log [where tail = "[]"]) (simp_all add: later)
    then show ?thesis using rest(1) checkpoint_written [OF that(2)] twice by (simp add: left_over_def pend)
  qed
  have clean: "left_over (records_after rs lsn) t' = []" if "w_checkpoint (se_wal t') = Some (u64_le lsn)" for t'
    using rest(4) checkpoint_written [OF that] twice by (simp add: left_over_def)
  show "ends (close_group lb lsn) (\<lambda>_. recovered lb rs s) (not_recovered lb rs s) t"
  proof (rule close_group_ends [where rs = rs and tail = tail])
    show "log_holds ?sj rs tail (se_wal t)" using u(3) t(1) by simp
    show "\<exists>r \<in> set rs. fst r \<le> lsn" by (rule rest(2))
  next
    fix w assume w: "log_of w = log_bytes ?sj (filter (\<lambda>r. lsn < fst r) rs)" "w_checkpoint w = Some (u64_le lsn)"
    have "set (records_after rs lsn) \<subseteq> set rs" by (auto simp: records_after_def)
    then have "\<exists>rs'. set rs' \<subseteq> set rs \<and> log_of w = log_bytes ?sj rs' \<and> left_over rs' (t\<lparr>se_wal := w\<rparr>) = []"
      using w clean [of "t\<lparr>se_wal := w\<rparr>"] later by (intro exI [of _ "records_after rs lsn"]) simp
    then show "recovered lb rs s (t\<lparr>se_wal := w\<rparr>)"
      using w kept [of w] checkpoint_written [of w lsn] rest(3) t(2) some pend by (simp add: recovered_def server_csn_def)
  next
    fix w assume "log_of w = log_of (se_wal t)" "w_checkpoint w = w_checkpoint (se_wal t)"
    then show "not_recovered lb rs s (t\<lparr>se_wal := w\<rparr>)" using t(1) u(1,2) by (intro not_recovered_same [OF log]) simp_all
  next
    fix w assume "log_of w \<in> {log_of (se_wal t), log_bytes ?sj (filter (\<lambda>r. lsn < fst r) rs)}" "w_checkpoint w = Some (u64_le lsn)"
    then show "not_recovered lb rs s (t\<lparr>se_wal := w\<rparr>)"
      using kept [of w] checkpoint_written [of w lsn] rest(3) t(2) by (simp add: not_recovered_def server_csn_def)
  qed
qed

lemma truncate_after_ends:
  assumes log: "log_holds (lb_serde lb) rs tail (se_wal s)" "log_holds (lb_serde lb) rs tail (se_wal u)"
    and u: "log_of (se_wal u) = log_of (se_wal s)" "w_checkpoint (se_wal u) = w_checkpoint (se_wal s)"
    and none: "committed_ops (records_after rs (checkpoint_lsn (se_wal s))) = []"
  shows "ends (on_wal (truncate_after (lb_serde lb) (checkpoint_lsn (se_wal s)))) (\<lambda>_. recovered lb rs s) (not_recovered lb rs s) u"
proof (rule ends_on_wal, rule truncate_after_wp [OF log(2)])
  let ?sj = "lb_serde lb" and ?cp = "checkpoint_lsn (se_wal s)"
  let ?early = "filter (\<lambda>r. fst r \<le> ?cp) rs"
  have ok: "\<forall>r \<in> set ?early. op_ok ?sj (snd r)" using log(1) by (simp add: log_holds_def)
  have no_rest: "left_over rs s = []" using lone_record_none [OF none] by (simp add: left_over_def)
  have early: "records_after ?early ?cp = []" by (rule records_after_all) simp
  have cut: "to_replay ?sj w = Ok []" if "log_of w = log_bytes ?sj ?early" "w_checkpoint w = w_checkpoint (se_wal u)" for w
  proof -
    have "checkpoint_lsn w = ?cp" using that(2) u(2) by (simp add: checkpoint_lsn_def)
    then show ?thesis using to_replay_log [OF ok torn_Nil, of w] that(1) early by simp
  qed
  show "recovered lb rs s (u\<lparr>se_wal := w\<rparr>)" if "log_of w = log_bytes ?sj ?early" "w_checkpoint w = w_checkpoint (se_wal u)" for w
  proof -
    have "checkpoint_lsn w = ?cp" using that(2) u(2) by (simp add: checkpoint_lsn_def)
    moreover have "left_over ?early (u\<lparr>se_wal := w\<rparr>) = []" using early calculation by (simp add: left_over_def lone_record_def)
    ultimately show ?thesis
      using cut [OF that] that(1) none no_rest by (auto simp: recovered_def intro!: exI [of _ "?early"])
  qed
  show "not_recovered lb rs s (u\<lparr>se_wal := w\<rparr>)"
    if "log_of w \<in> {log_of (se_wal u), log_bytes ?sj ?early}" "w_checkpoint w = w_checkpoint (se_wal u)" for w
  proof (cases "log_of w = log_of (se_wal u)")
    case True
    then show ?thesis using that(2) u by (intro not_recovered_same [OF log(1)]) simp_all
  next
    case False
    then show ?thesis using cut [of w] that u(2) none to_replay_cong [OF refl refl log(1)]
      by (simp add: not_recovered_def checkpoint_lsn_def)
  qed
qed

lemma left_over_Nil: "left_over [] s = []"
  by (simp add: left_over_def lone_record_def records_after_def)

lemma empty_log_ends:
  assumes log: "log_holds (lb_serde lb) rs tail (se_wal s)" "log_holds (lb_serde lb) rs tail (se_wal u)"
    and u: "log_of (se_wal u) = log_of (se_wal s)" "w_checkpoint (se_wal u) = w_checkpoint (se_wal s)" and nil: "rs = []"
  shows "ends (bindM (getM (\<lambda>s. w_log (se_wal s) \<noteq> None)) (\<lambda>there. if there then on_wal (truncate_to 0) else okM ()))
    (\<lambda>_. recovered lb rs s) (not_recovered lb rs s) u"
proof -
  have none: "committed_ops (records_after rs (checkpoint_lsn (se_wal s))) = []" using nil by (simp add: records_after_def)
  have empty: "recovered lb rs s (u\<lparr>se_wal := w\<rparr>)" if "log_of w = []" "w_checkpoint w = w_checkpoint (se_wal u)" for w
    using that u(2) none nil to_replay_empty [of w] by (auto simp: recovered_def checkpoint_lsn_def left_over_Nil intro!: exI [of _ "[]"])
  show ?thesis
  proof (cases "w_log (se_wal u) = None")
    case True
    then have "log_of (se_wal u) = []" by (simp add: log_of_def)
    then show ?thesis using True empty [of "se_wal u"] by (simp add: ends_def bindM_def getM_def okM_def)
  next
    case False
    have "ends (on_wal (truncate_to 0)) (\<lambda>_. recovered lb rs s) (not_recovered lb rs s) u"
      unfolding truncate_to_def
    proof (rule ends_on_wal, rule cut_wp)
      show "w_handle (se_wal u) \<longrightarrow> w_log (se_wal u) \<noteq> None" using False by simp
      show "recovered lb rs s (u\<lparr>se_wal := w\<rparr>)"
        if "w_log w = Some (take 0 (log_of (se_wal u)))" "w_checkpoint w = w_checkpoint (se_wal u)" for w
        using that by (intro empty) (simp_all add: log_of_def)
      show "not_recovered lb rs s (u\<lparr>se_wal := w\<rparr>)"
        if w: "log_of w \<in> {log_of (se_wal u), take 0 (log_of (se_wal u))}" "w_checkpoint w = w_checkpoint (se_wal u)" for w
      proof (cases "log_of w = log_of (se_wal u)")
        case True
        then show ?thesis using w(2) u by (intro not_recovered_same [OF log(1)]) simp_all
      next
        case False
        then have "to_replay (lb_serde lb) w = Ok []" using w(1) by (intro to_replay_empty) simp
        then show ?thesis using w(2) u(2) none to_replay_cong [OF refl refl log(1)]
          by (simp add: not_recovered_def checkpoint_lsn_def)
      qed
    qed simp
    then show ?thesis using False by (simp add: ends_bind) (simp add: ends_def getM_def)
  qed
qed

text \<open>What recovery does once it has read the checkpoint and the log.\<close>

lemma recover_branches:
  assumes log: "log_holds (lb_serde lb) rs tail (se_wal s)"
    and u: "log_of (se_wal u) = log_of (se_wal s)" "w_checkpoint (se_wal u) = w_checkpoint (se_wal s)"
      "log_holds (lb_serde lb) rs tail (se_wal u)"
    and cp: "cp = checkpoint_lsn (se_wal s)"
  shows "ends (if max cp (latest_commit cp rs) < server_csn u then errM (other_error ''MVCC version is ahead of recoverable WAL'')
      else if rs = []
      then bindM (getM (\<lambda>s. w_log (se_wal s) \<noteq> None)) (\<lambda>there. if there then on_wal (truncate_to (length (log_bytes (lb_serde lb) rs))) else okM ())
      else (let pending = records_after rs cp; records = committed_ops pending in
        if records = [] then on_wal (truncate_after (lb_serde lb) cp)
        else (let lsn = replay_lsn pending records in seqM (replay_records lb lsn records) (close_group lb lsn))))
      (\<lambda>_. recovered lb rs s) (not_recovered lb rs s) u"
proof -
  have err: "ends (errM e :: (server, unit) cmd) (\<lambda>_. recovered lb rs s) (not_recovered lb rs s) u" for e
    using not_recovered_same [OF log u(1,2)] by (simp add: ends_def errM_def)
  show ?thesis
  proof (cases "rs = []")
    case True
    then have "length (log_bytes (lb_serde lb) rs) = 0" by simp
    then show ?thesis using True err empty_log_ends [OF log u(3,1,2) True] by (simp only: if_P split: if_split) blast
  next
    case False
    then show ?thesis
      using err truncate_after_ends [OF log u(3,1,2)] replay_ends [OF log refl _ u refl]
      by (simp add: Let_def cp)
  qed
qed

text \<open>
  Property (C2).  Recovery at the start, on a log of whole records and a torn tail, with any failure
  at any call, error or panic.  When it succeeds, the torn tail is gone, and if there were committed
  records beyond the checkpoint, the checkpoint has moved and the row versions are published at it.
  Nothing is left to replay, with one exception, which the statement names: a single record behind
  the last commit marker counts as committed and is replayed, but stays beyond the checkpoint, so
  the next start replays it once more, and what that start would leave is nothing.  When recovery
  fails, the next start replays the same records again, or only what a success leaves because the
  new checkpoint was written.
\<close>

theorem recovery_complete:
  assumes "log_holds (lb_serde lb) rs tail (se_wal s)" and "\<And>b. w_checkpoint (se_wal s) = Some b \<Longrightarrow> length b = 8"
  shows "case recover_wal lb s of
      (Ok _, t) \<Rightarrow> recovered lb rs s t
    | (Err _, t) \<Rightarrow> not_recovered lb rs s t
    | (Panic, t) \<Rightarrow> not_recovered lb rs s t"
proof -
  let ?sj = "lb_serde lb" and ?cp = "checkpoint_lsn (se_wal s)"
  note same = not_recovered_same [OF assms(1)] and branches = recover_branches [OF assms(1)]
  have "ends (recover_wal lb) (\<lambda>_. recovered lb rs s) (not_recovered lb rs s) s"
    unfolding recover_wal_def
  proof (rule ends_seqI)
    show "not_recovered lb rs s t" if "dir_call s = (r, t)" for r t
      using leavesD [OF leaves_dir_call that] by (intro same) (simp_all add: beside_tables_def)
    fix x v assume "dir_call s = (Ok x, v)"
    then have v: "se_wal v = se_wal s" using leavesD [OF leaves_dir_call] by (fastforce simp: beside_tables_def)
    have files: "log_of (w\<lparr>w_wal_faults := fs\<rparr>) = log_of w" for w fs by (simp add: log_of_def)
    show "ends (bindM stored_checkpoint (\<lambda>cp. bindM (on_wal (read_all ?sj)) (\<lambda>(scan, good_len).
       bindM (getM (\<lambda>s. max cp (latest_commit cp scan) < server_csn s)) (\<lambda>ahead.
       if ahead then errM (other_error ''MVCC version is ahead of recoverable WAL'')
       else if scan = []
       then bindM (getM (\<lambda>s. w_log (se_wal s) \<noteq> None)) (\<lambda>there.
         if there then on_wal (truncate_to good_len) else okM ())
       else (let pending = records_after scan cp; records = committed_ops pending in
         if records = [] then on_wal (truncate_after ?sj cp)
         else (let lsn = replay_lsn pending records in
           seqM (replay_records lb lsn records) (close_group lb lsn))))))) (\<lambda>_. recovered lb rs s) (not_recovered lb rs s) v"
      unfolding ends_bind
    proof (rule stored_checkpoint_ends, goal_cases)
      case (1 b)
      then show ?case using assms(2) v by simp
    next
      case (2 fs)
      show ?case
      proof (rule read_all_ends [where rs = rs and tail = tail], goal_cases)
        case 1
        then show ?case using assms(1) v by simp
      next
        case (2 fs')
        then show ?case using v assms(1) files unfolding prod.case ends_bind ends_getM by (intro branches) simp_all
      next
        case (3 fs')
        then show ?case using v files by (intro same) simp_all
      qed
    next
      case (3 fs)
      then show ?case using v files by (intro same) simp_all
    qed
  qed
  then show ?thesis by (simp add: ends_def)
qed

definition crashed_log :: "log_record list" where
  "crashed_log = [(1, WDropTable ''u''), (2, WCommit), (3, WCreateIndex ''t'' ''c'')]"

definition crashed_server :: server where
  "crashed_server = (sample_server [])\<lparr>se_wal := new_wal (Some (log_bytes plain_serde crashed_log @ [7])) None
     [NoFault, NoFault, Fault 0]\<rparr>"

theorem recovery_complete_witness:
  "(case recover_wal sample_libs crashed_server of
      (Ok _, t) \<Rightarrow> recovered sample_libs crashed_log crashed_server t
    | (Err _, t) \<Rightarrow> not_recovered sample_libs crashed_log crashed_server t
    | (Panic, t) \<Rightarrow> not_recovered sample_libs crashed_log crashed_server t) \<and>
   left_over crashed_log crashed_server = [(3, WCreateIndex ''t'' ''c'')]"
proof (rule conjI, rule recovery_complete [where tail = "[7]"])
  have "lb_serde sample_libs = plain_serde" by (simp add: sample_libs_def)
  then show "log_holds (lb_serde sample_libs) crashed_log [7] (se_wal crashed_server)"
    using plain_ops_ok op_ok_Commit by (simp add: log_holds_def crashed_log_def crashed_server_def new_wal_def log_of_def torn_def)
  have "checkpoint_lsn (se_wal crashed_server) = 0" by (simp add: crashed_server_def new_wal_def checkpoint_lsn_def)
  then show "left_over crashed_log crashed_server = [(3, WCreateIndex ''t'' ''c'')]"
    by (simp add: left_over_def lone_record_def crashed_log_def records_after_def open_group_def)
qed (simp add: crashed_server_def new_wal_def)

section \<open>Requests\<close>

text \<open>
  A server that needs recovery answers every request but a ping with an error and
  changes nothing, and so does any server for a request with an invalid column name, a blocked
  table or a table name that is no file name.
\<close>

theorem dispatch_refuses:
  assumes "se_recovery_required s \<and> req \<noteq> Ping \<or> \<not> valid_columns req \<or>
    (\<exists>t. request_table req = Some t \<and> (blocked_table t \<or> \<not> valid_storage_name t))"
  shows "\<exists>message. dispatch lb elsewhere req s = (Ok (RError message), s)"
  using assms
  by (auto simp: dispatch_def bindM_def getM_def okM_def split: option.split)

theorem dispatch_refuses_witness:
  "\<exists>message. dispatch sample_libs (\<lambda>_. okM Pong) (DropTable ''__system_users'') (sample_server []) =
     (Ok (RError message), sample_server [])"
proof (rule dispatch_refuses)
  have "blocked_table ''__system_users''" by code_simp
  then show "se_recovery_required (sample_server []) \<and> DropTable ''__system_users'' \<noteq> Ping \<or>
      \<not> valid_columns (DropTable ''__system_users'') \<or>
      (\<exists>t. request_table (DropTable ''__system_users'') = Some t \<and> (blocked_table t \<or> \<not> valid_storage_name t))" by simp
qed

text \<open>The part of the server that the requests under the shared gate have to leave alone.\<close>

definition shared_state :: "server \<Rightarrow> catalog \<times> cat_disk \<times> (bytes option \<times> bytes option \<times> u64 \<times> bool) \<times> bool \<times> u64 \<times>
    mvcc \<times> (string, string) hash_map" where
  "shared_state s = (se_catalog s, se_catalog_file s, (w_log (se_wal s), w_checkpoint (se_wal s), w_next_lsn (se_wal s), w_handle (se_wal s)),
     se_recovery_required s, se_page_lsn s, se_mvcc s, se_generations s)"

lemma beside_shared: "leaves beside_tables m \<Longrightarrow> leaves shared_state m"
  by (auto simp: leaves_def beside_tables_def shared_state_def)

lemmas leaves_shared_tables = leaves_table_ops [THEN beside_shared] leaves_with_open [THEN beside_shared]

lemma leaves_shared_checkpoint: "leaves shared_state stored_checkpoint"
proof -
  have "leaves shared_state (on_wal read_checkpoint)"
    by (auto simp: leaves_def shared_state_def on_wal_def split: prod.split dest: read_checkpoint_files)
  then show ?thesis unfolding stored_checkpoint_def by (intro frame_intros)
qed

lemma leaves_respond: "leaves f m \<Longrightarrow> leaves f (respond before m)"
  by (auto simp: leaves_def respond_def split: prod.splits outcome.splits) (metis snd_conv)+

lemma leaves_read_mstate: "leaves f (read_mstate g)"
  by (simp add: leaves_def read_mstate_def)

lemma leaves_catch:
  "leaves f m \<Longrightarrow> leaves f (\<lambda>s. case m s of (Err e, t) \<Rightarrow> (Ok (a e), t) | (Ok b, t) \<Rightarrow> (Ok (c b), t) | (Panic, t) \<Rightarrow> (Panic, t))"
  by (auto simp: leaves_def split: prod.splits outcome.splits) (metis snd_conv)+

lemma leaves_snapshot: "leaves shared_state domain_checkpoint" "leaves shared_state (domain_snapshot lb)"
  unfolding domain_snapshot_def domain_checkpoint_def version_tables_def scan_schema_def
  by (intro frame_intros leaves_shared_checkpoint leaves_shared_tables)+

lemma leaves_second_handle: "leaves shared_state (second_handle t m)"
  by (auto simp: leaves_def second_handle_def on_path_def shared_state_def Let_def split: option.split prod.split)

text \<open>The shards of a scan cover the pages of the file, each page once, in order.\<close>

lemma concat_upt:
  assumes "\<And>k. k < m \<Longrightarrow> b k \<le> (b (Suc k) :: nat)"
  shows "concat (map (\<lambda>k. [b k..<b (Suc k)]) [0..<m]) = [b 0..<b m] \<and> b 0 \<le> b m"
  using assms
proof (induction m)
  case (Suc m)
  then have IH: "concat (map (\<lambda>k. [b k..<b (Suc k)]) [0..<m]) = [b 0..<b m]" "b 0 \<le> b m" "b m \<le> b (Suc m)" by simp_all
  then have "[b 0..<b (Suc m)] = [b 0..<b m] @ [b m..<b (Suc m)]" using upt_add_eq_append [of "b 0" "b m" "b (Suc m) - b m"] by simp
  then show ?case using IH by simp
qed simp

theorem shards_cover_pages:
  assumes "shards \<noteq> 0"
  shows "concat (map (\<lambda>k. page_range (shard_bound n k shards) (shard_bound n (Suc k) shards)) [0..<unat shards]) = page_range 0 n"
proof -
  define c where "c = (unat n + unat shards - 1) div unat shards"
  define b where "b k = min (k * c) (unat n)" for k
  have "unat (shard_bound n k shards) = b k" for k
    by (simp add: shard_bound_def b_def c_def le_unat_uoi [of _ n])
  then have parts: "page_range (shard_bound n k shards) (shard_bound n (Suc k) shards) = map word_of_nat [b k..<b (Suc k)]" for k
    by (simp add: page_range_def)
  have s: "0 < unat shards" using assms by (simp add: unat_gt_0)
  then have "unat n \<le> unat shards * c"
    using dividend_less_times_div [of "unat shards" "unat n + unat shards - 1"] by (simp add: c_def)
  then have "b (unat shards) = unat n" "b 0 = 0" by (simp_all add: b_def)
  moreover have "b k \<le> b (Suc k)" for k by (auto simp: b_def min_def)
  ultimately have "concat (map (\<lambda>k. [b k..<b (Suc k)]) [0..<unat shards]) = [0..<unat n]"
    using concat_upt [of "unat shards" b] by simp
  then have "map word_of_nat (concat (map (\<lambda>k. [b k..<b (Suc k)]) [0..<unat shards])) = page_range 0 n" by (simp add: page_range_def)
  then show ?thesis by (simp add: parts map_concat comp_def)
qed

text \<open>
  Property (C37).  A request that runs under the shared side of the gate, concurrently with others,
  leaves the dictionary and its file, the log and the checkpoint, the recovery flag, the row versions
  and the generations of the files as they were, whatever fails.  The scan of a shard is among them;
  what it may change are the files of the table it opens again.
\<close>

theorem concurrent_reads_write_nothing:
  assumes "concurrent_read req"
  shows "shared_state (snd (dispatch lb elsewhere req s)) = shared_state s"
proof -
  have "leaves shared_state (answer lb elsewhere req)"
    using assms
    by (cases req) (auto simp: concurrent_read_def check_columns_def answer_rows_def lookup_by_index_def range_by_index_def
        scan_shard_def Let_def
        intro!: frame_intros leaves_respond leaves_read_mstate leaves_snapshot leaves_shared_tables leaves_catch leaves_second_handle)
  then have "leaves shared_state (dispatch lb elsewhere req)" unfolding dispatch_def by (intro frame_intros)
  then show ?thesis by (simp add: leaves_def)
qed

theorem concurrent_reads_write_nothing_witness:
  "shared_state (snd (dispatch sample_libs (\<lambda>_. okM Pong) (ScanShard ''t'' None 0 2) (sample_server []))) = shared_state (sample_server [])"
  by (rule concurrent_reads_write_nothing) (simp add: concurrent_read_def)

section \<open>Files\<close>

lemma valid_name_plain: "valid_storage_name t \<Longrightarrow> t \<noteq> [] \<and> CHR ''.'' \<notin> set t"
  by (auto simp: valid_storage_name_def list_all_iff ascii_alphanumeric_def ascii_digit_def ascii_upper_def ascii_lower_def)

lemma before_dot: "CHR ''.'' \<notin> set t \<Longrightarrow> takeWhile (\<lambda>c. c \<noteq> CHR ''.'') (t @ CHR ''.'' # rest) = t"
  by (simp add: takeWhile_append)

lemma prefix_name:
  assumes "valid_storage_name t"
  shows "takeWhile (\<lambda>c. c \<noteq> CHR ''.'') (table_prefix s t @ CHR ''.'' # rest) = t"
  using valid_name_plain [OF assms] before_dot [of t] by (simp add: table_prefix_def split: option.split)

definition index_suffix :: "string \<Rightarrow> string" where
  "index_suffix c = (if c = ''id'' then ''idx'' else c @ ''.idx'')"

lemma index_path_suffix: "index_path s t c = table_prefix s t @ CHR ''.'' # index_suffix c"
  by (simp add: index_path_def index_suffix_def)

lemma index_suffix_inj: "valid_storage_name c \<Longrightarrow> valid_storage_name d \<Longrightarrow> index_suffix c = index_suffix d \<longleftrightarrow> c = d"
  using valid_name_plain [of c] valid_name_plain [of d] arg_cong [of "index_suffix c" "index_suffix d" "\<lambda>x. CHR ''.'' \<in> set x"]
  by (auto simp: index_suffix_def split: if_splits)

text \<open>
  Property (C38).  The data files and index files of the tables have different names: tables and
  columns with valid names share a file only if they are the same, and a data file is never an index
  file, whatever the generations of the files are.
\<close>

theorem file_names_distinct:
  assumes "valid_storage_name t" and "valid_storage_name u" and "valid_storage_name c" and "valid_storage_name d"
  shows "(table_path s t = table_path s u \<longleftrightarrow> t = u) \<and> (index_path s t c = index_path s u d \<longleftrightarrow> t = u \<and> c = d) \<and>
    table_path s t \<noteq> index_path s u d"
proof -
  have name: "t = u" if "table_prefix s t @ CHR ''.'' # x = table_prefix s u @ CHR ''.'' # y" for x y
    using prefix_name [OF assms(1), of s x] prefix_name [OF assms(2), of s y] that by simp
  have "last (table_path s t) = CHR ''b''" "last (index_path s u d) = CHR ''x''"
    by (simp_all add: table_path_def index_path_def)
  then have "table_path s t \<noteq> index_path s u d" by auto
  moreover have "t = u" if "table_path s t = table_path s u" using name [of "''db''" "''db''"] that by (simp add: table_path_def)
  moreover have "t = u \<and> c = d" if i: "index_path s t c = index_path s u d"
  proof -
    have "t = u" using name i by (simp only: index_path_suffix)
    then have "index_suffix c = index_suffix d" using i by (simp add: index_path_suffix)
    with \<open>t = u\<close> show ?thesis using index_suffix_inj [OF assms(3,4)] by simp
  qed
  ultimately show ?thesis by blast
qed

theorem file_names_distinct_witness:
  "table_path (sample_server []) ''a'' \<noteq> table_path (sample_server []) ''b''"
  using file_names_distinct [of "''a''" "''b''" "''id''" "''id''" "sample_server []"]
  by (simp add: valid_storage_name_def ascii_alphanumeric_def ascii_digit_def ascii_upper_def ascii_lower_def)

end
