(* ===== verification/Catalog_Props.thy ===== *)
theory Catalog_Props
  imports Catalog
begin

text \<open>
  What the data dictionary keeps: histograms count every value once, normalised type names are
  stable, a saved dictionary is found again or the old one is, object numbers are unique and
  never used again, and a schema version determines the columns.
\<close>

section \<open>Histograms\<close>

definition hist_total :: "cat_stat \<Rightarrow> nat" where
  "hist_total s = sum_list (map unat (st_hist s))"

definition stat_ok :: "cat_stat \<Rightarrow> bool" where
  "stat_ok s \<longleftrightarrow> (if st_hist s = [] then st_lo s = None \<and> st_hi s = None
     else length (st_hist s) = HIST_BUCKETS \<and> st_lo s \<noteq> None \<and> st_hi s \<noteq> None)"

lemma hist_index_less: "hist_index lo hi v < HIST_BUCKETS"
  by (simp add: hist_index_def HIST_BUCKETS_def le_imp_less_Suc [OF floor_clamp_le, of 15, simplified])

lemma sum_list_update_nat: "i < length xs \<Longrightarrow> sum_list (xs[i := v]) + xs ! i = sum_list xs + (v :: nat)"
  by (induction xs arbitrary: i) (auto simp: nth_Cons split: nat.splits)

lemma unat_sum_update:
  assumes "i < length xs"
  shows "sum_list (map unat (xs[i := v])) + unat (xs ! i) = sum_list (map unat xs) + unat (v :: u64)"
  using sum_list_update_nat [of i "map unat xs" "unat v"] assms by (simp add: map_update)

lemma add_at_ok:
  assumes "i < length xs" and "sum_list (map unat xs) + unat n < 2 ^ 64"
  shows "\<exists>ys. add_at i n xs = Ok ys \<and> length ys = length xs \<and> sum_list (map unat ys) = sum_list (map unat xs) + unat n"
proof -
  have "unat (xs ! i) \<le> sum_list (map unat xs)" using assms(1) by (intro member_le_sum_list) auto
  then have small: "unat (xs ! i) + unat n < 2 ^ 64" using assms(2) by simp
  then have "unat (xs ! i + n) = unat (xs ! i) + unat n" by (simp add: unat_word_ariths)
  then have "sum_list (map unat (xs[i := xs ! i + n])) = sum_list (map unat xs) + unat n"
    using unat_sum_update [OF assms(1), of "xs ! i + n"] by simp
  then show ?thesis using assms(1) small by (simp add: add_at_def)
qed

lemma merge_buckets_ok:
  assumes "\<And>i. target i < length out" and "sum_list (map unat ns) + sum_list (map unat out) < 2 ^ 64"
  shows "\<exists>ys. merge_buckets target i ns out = Ok ys \<and> length ys = length out \<and>
    sum_list (map unat ys) = sum_list (map unat ns) + sum_list (map unat out)"
  using assms
proof (induction ns arbitrary: i out)
  case (Cons n ns)
  show ?case
  proof (cases "n = 0")
    case True
    then show ?thesis using Cons.IH [of out "Suc i"] Cons.prems by simp
  next
    case False
    obtain ys where ys: "add_at (target i) n out = Ok ys" "length ys = length out"
      "sum_list (map unat ys) = sum_list (map unat out) + unat n"
      using add_at_ok [of "target i" out n] Cons.prems by auto
    then show ?thesis using Cons.IH [of ys "Suc i"] Cons.prems False by (auto simp: add_ac)
  qed
qed simp

lemma widen_ok:
  assumes "length h = HIST_BUCKETS" and "sum_list (map unat h) < 2 ^ 64"
  shows "\<exists>lo' hi' h'. widen x lo hi h = Ok (lo', hi', h') \<and> length h' = HIST_BUCKETS \<and>
    sum_list (map unat h') = sum_list (map unat h)"
proof (cases "f64_less x lo \<or> f64_less hi x")
  case True
  let ?t = "\<lambda>i. hist_index (f64_min lo x) (f64_max hi x) (bucket_mid lo hi (length h) i)"
  have "\<exists>ys. merge_buckets ?t 0 h (replicate HIST_BUCKETS 0) = Ok ys \<and> length ys = HIST_BUCKETS \<and>
      sum_list (map unat ys) = sum_list (map unat h)"
    using merge_buckets_ok [of ?t "replicate HIST_BUCKETS 0" h 0] hist_index_less assms(2) by (simp add: sum_list_replicate)
  then show ?thesis using True by (auto simp: widen_def hist_merge_def)
qed (use assms in \<open>auto simp: widen_def\<close>)

lemma hist_add_ok:
  assumes ok: "stat_ok s" and small: "hist_total s + 1 < 2 ^ 64"
  shows "\<exists>s'. hist_add v s = Ok s' \<and> stat_ok s' \<and> hist_total s' = hist_total s + (if as_f64 v = None then 0 else 1)"
proof (cases "as_f64 v")
  case None
  then show ?thesis using ok by (simp add: hist_add_def)
next
  case (Some x)
  show ?thesis
  proof (cases "st_hist s = []")
    case True
    then show ?thesis using ok Some by (simp add: hist_add_def stat_ok_def hist_total_def HIST_BUCKETS_def sum_list_replicate)
  next
    case False
    then obtain lo hi where b: "st_lo s = Some lo" "st_hi s = Some hi" "length (st_hist s) = HIST_BUCKETS"
      using ok by (auto simp: stat_ok_def)
    obtain lo' hi' h where w: "widen x lo hi (st_hist s) = Ok (lo', hi', h)" "length h = HIST_BUCKETS"
      "sum_list (map unat h) = hist_total s"
      using widen_ok [OF b(3), of x lo hi] small by (auto simp: hist_total_def)
    obtain h' where h': "add_at (hist_index lo' hi' x) 1 h = Ok h'" "length h' = HIST_BUCKETS"
      "sum_list (map unat h') = hist_total s + 1"
      using add_at_ok [of "hist_index lo' hi' x" h 1] hist_index_less w(2,3) small by auto
    then have "h' \<noteq> []" by (auto simp: HIST_BUCKETS_def)
    then show ?thesis using Some b w(1) h' by (simp add: hist_add_def stat_ok_def hist_total_def)
  qed
qed

lemma min_by_key_None: "min_by_key f xs = None \<longleftrightarrow> xs = []"
  by (cases xs) (auto split: option.splits)

lemma hist_remove_ok:
  assumes ok: "stat_ok s"
  shows "stat_ok (hist_remove v s)" and "hist_total (hist_remove v s) = hist_total s -
    (if \<exists>x lo hi. as_f64 v = Some x \<and> st_lo s = Some lo \<and> st_hi s = Some hi \<and> \<not> f64_less x lo \<and> \<not> f64_less hi x then 1 else 0)"
proof -
  have "stat_ok (hist_remove v s) \<and> hist_total (hist_remove v s) = hist_total s - (if \<exists>x lo hi. as_f64 v = Some x \<and>
      st_lo s = Some lo \<and> st_hi s = Some hi \<and> \<not> f64_less x lo \<and> \<not> f64_less hi x then 1 else 0)" (is "_ \<and> _ = _ - ?n")
  proof (cases "\<exists>x lo hi. as_f64 v = Some x \<and> st_lo s = Some lo \<and> st_hi s = Some hi \<and> \<not> f64_less x lo \<and> \<not> f64_less hi x")
    case True
    then obtain x lo hi where b: "as_f64 v = Some x" "st_lo s = Some lo" "st_hi s = Some hi" "\<not> f64_less x lo" "\<not> f64_less hi x"
      by blast
    then have len: "length (st_hist s) = HIST_BUCKETS" using ok by (auto simp: stat_ok_def split: if_splits)
    let ?is = "filter (\<lambda>i. 0 < st_hist s ! i) [0..<length (st_hist s)]"
    show ?thesis
    proof (cases "min_by_key (\<lambda>i. abs_diff i (hist_index lo hi x)) ?is")
      case None
      then have "\<forall>i < length (st_hist s). st_hist s ! i = 0" by (auto simp: min_by_key_None filter_empty_conv word_gt_0)
      then have "hist_total s = 0" by (auto simp: hist_total_def in_set_conv_nth)
      moreover have "hist_remove v s = s" using b len None by (simp add: hist_remove_def)
      ultimately show ?thesis using ok by simp
    next
      case (Some i)
      then have i: "i < length (st_hist s)" "0 < st_hist s ! i" using min_by_key_mem by fastforce+
      then have "unat (st_hist s ! i - 1) = unat (st_hist s ! i) - 1" "0 < unat (st_hist s ! i)"
        by (simp_all add: unat_minus_one word_neq_0_conv unat_gt_0)
      then have "hist_total (hist_remove v s) = hist_total s - 1"
        using unat_sum_update [OF i(1), of "st_hist s ! i - 1"] b len Some by (simp add: hist_remove_def hist_total_def)
      moreover have "stat_ok (hist_remove v s)" using ok b len Some by (auto simp: hist_remove_def stat_ok_def)
      ultimately show ?thesis using True by simp
    qed
  next
    case False
    then have "hist_remove v s = s" by (auto simp: hist_remove_def split: option.splits)
    then show ?thesis using ok if_not_P [OF False, of "1::nat" 0] by simp
  qed
  then show "stat_ok (hist_remove v s)" "hist_total (hist_remove v s) = hist_total s - ?n" by blast+
qed

text \<open>
  Property (C32).  Counting a number in a column's histogram cannot fail before 2^64 values, keeps
  the shape of the histogram and raises its total by exactly one, also when the range has to be
  widened and the old buckets are merged.  Removing a counted number lowers the total by one, and
  a value that is not a number changes nothing.
\<close>

theorem hist_counts:
  assumes "stat_ok s" and "hist_total s + 1 < 2 ^ 64"
  shows "(\<exists>s'. hist_add v s = Ok s' \<and> stat_ok s' \<and>
      hist_total s' = hist_total s + (if as_f64 v = None then 0 else 1)) \<and>
    stat_ok (hist_remove v s) \<and>
    hist_total (hist_remove v s) = hist_total s -
      (if \<exists>x lo hi. as_f64 v = Some x \<and> st_lo s = Some lo \<and> st_hi s = Some hi \<and> \<not> f64_less x lo \<and> \<not> f64_less hi x then 1 else 0)"
  using hist_add_ok [OF assms] hist_remove_ok [OF assms(1)] by blast

definition sample_stat :: cat_stat where
  "sample_stat = \<lparr>st_distinct = 3, st_capped = False, st_lo = Some (Finite 0), st_hi = Some (Finite 16),
     st_hist = [1, 0, 2] @ replicate 13 0\<rparr>"

theorem hist_counts_witness:
  "\<exists>s'. hist_add (JNumber (PosInt 40)) sample_stat = Ok s' \<and> hist_total s' = 4"
proof -
  have "stat_ok sample_stat" "hist_total sample_stat = 3"
    by (simp_all add: sample_stat_def stat_ok_def hist_total_def HIST_BUCKETS_def sum_list_replicate)
  then show ?thesis using hist_counts [of sample_stat "JNumber (PosInt 40)"] by (auto simp: as_f64_def)
qed

section \<open>Type names\<close>

text \<open>A canonical name is not changed, whatever its arguments.\<close>

lemma canonical_names:
  "list_all (\<lambda>(a, n). map_of type_names n = Some n \<and> ascii_lowercase n = n \<and> n \<noteq> [] \<and>
     list_all (\<lambda>c. 97 \<le> (of_char c :: nat) \<and> of_char c \<le> (122 :: nat)) n) type_names"
  by code_simp

lemma canonical_name:
  assumes "map_of type_names a = Some n"
  shows "map_of type_names n = Some n" and "ascii_lowercase n = n" and "n \<noteq> []"
    and "c \<in> set n \<Longrightarrow> 97 \<le> (of_char c :: nat) \<and> of_char c \<le> (122 :: nat)"
  using canonical_names map_of_SomeD [OF assms] by (auto simp: list_all_iff)

lemma white_suffix:
  assumes "args = [] \<or> (\<exists>a. args = CHR ''('' # a)" and "ends_free (base @ args)"
    and "n \<noteq> []" and "\<And>c. c \<in> set n \<Longrightarrow> 97 \<le> (of_char c :: nat) \<and> of_char c \<le> (122 :: nat)"
  shows "ends_free (n @ args)"
  unfolding ends_free_iff
proof (intro ballI allI notI)
  fix p u assume p: "p \<in> set white_space" and eq: "n @ args = u @ p"
  have bytes: "c \<in> set p \<Longrightarrow> of_char c \<le> (32 :: nat) \<or> 128 \<le> (of_char c :: nat)" for c using white_space_bytes [OF p] .
  have ne: "p \<noteq> []" using white_space_nonempty [OF p] .
  show False
  proof (cases "args = []")
    case True
    then have "last n = last p" using eq ne by (metis append_Nil2 last_appendR)
    then show False using bytes [of "last p"] assms(4) [OF last_in_set [OF assms(3)]] ne by simp
  next
    case False
    then obtain a where a: "args = CHR ''('' # a" using assms(1) by blast
    have "length p \<le> length a"
    proof (rule ccontr)
      assume "\<not> length p \<le> length a"
      then have "length args \<le> length p" using a by simp
      then obtain w where "p = w @ args" using eq by (auto simp: append_eq_append_conv2)
      then have "CHR ''('' \<in> set p" using a by simp
      then show False using bytes by fastforce
    qed
    then obtain w where "args = w @ p" using eq a by (auto simp: append_eq_append_conv2)
    then show False using assms(2) p unfolding ends_free_iff by (metis append_assoc)
  qed
qed

lemma normalize_type_idem: "normalize_type (normalize_type ty) = normalize_type ty"
proof -
  define t where "t = trim ty"
  define base where "base = takeWhile (\<lambda>c. c \<noteq> CHR ''('') t"
  define args where "args = dropWhile (\<lambda>c. c \<noteq> CHR ''('') t"
  note defs = t_def [symmetric] base_def [symmetric] args_def [symmetric]
  show ?thesis
  proof (cases "map_of type_names (ascii_lowercase (trim base))")
    case None
    then have "normalize_type ty = t" by (simp add: normalize_type_def Let_def defs)
    moreover have "normalize_type t = t" using None by (simp add: normalize_type_def Let_def t_def base_def)
    ultimately show ?thesis by simp
  next
    case (Some n)
    note n = canonical_name [OF Some]
    have nt: "normalize_type ty = n @ args" using Some by (simp add: normalize_type_def Let_def defs)
    have args: "args = [] \<or> (\<exists>a. args = CHR ''('' # a)" unfolding args_def by (cases "dropWhile (\<lambda>c. c \<noteq> CHR ''('') t") (auto dest: dropWhile_eq_Cons_conv [THEN iffD1])
    have "ends_free (base @ args)" using trim_ends_free [of ty] by (simp add: base_def args_def t_def)
    then have "ends_free (n @ args)" using white_suffix args n(3,4) by blast
    moreover have "starts_free white_space (n @ args)"
      unfolding starts_free_def
    proof (intro ballI impI allI notI)
      fix p u assume p: "p \<in> set white_space" "p \<noteq> []" and eq: "n @ args = p @ u"
      then have "hd n = hd p" using n(3) by (metis hd_append2)
      then show False using white_space_bytes [OF p(1), of "hd p"] n(4) [OF hd_in_set [OF n(3)]] p(2) by simp
    qed
    ultimately have tr: "trim (n @ args) = n @ args" by (intro trim_id)
    have "CHR ''('' \<notin> set n" using n(4) by fastforce
    then have "\<And>c. c \<in> set n \<Longrightarrow> c \<noteq> CHR ''(''" by blast
    then have "takeWhile (\<lambda>c. c \<noteq> CHR ''('') (n @ args) = n" "dropWhile (\<lambda>c. c \<noteq> CHR ''('') (n @ args) = args"
      using args takeWhile_append2 [of n "\<lambda>c. c \<noteq> CHR ''(''" args] dropWhile_append2 [of n "\<lambda>c. c \<noteq> CHR ''(''" args] by auto
    moreover have "trim n = n"
      using n(4) [OF hd_in_set [OF n(3)]] n(4) [OF last_in_set [OF n(3)]] by (intro trim_plain [OF n(3)]) simp_all
    ultimately show ?thesis using nt n(1,2) tr by (simp add: normalize_type_def Let_def)
  qed
qed

text \<open>
  When the normalisation of type names succeeds, every column type of every table
  is in normal form, nothing but types and versions has changed, and normalising again changes
  nothing.
\<close>

theorem normalize_types_stable:
  assumes "normalize_types c = (Ok changed, c')"
  shows "list_all (\<lambda>e. \<not> unnormal (snd e)) (cg_tables c') \<and> normalize_types c' = (Ok False, c') \<and>
    map (\<lambda>e. (fst e, ct_object_id (snd e), map sc_name (ct_columns (snd e)))) (cg_tables c') =
    map (\<lambda>e. (fst e, ct_object_id (snd e), map sc_name (ct_columns (snd e)))) (cg_tables c)"
proof -
  have loop: "list_all (\<lambda>e. \<not> unnormal (snd e)) ts' \<and>
      map (\<lambda>e. (fst e, ct_object_id (snd e), map sc_name (ct_columns (snd e)))) ts' =
      map (\<lambda>e. (fst e, ct_object_id (snd e), map sc_name (ct_columns (snd e)))) ts"
    if "normalize_tables ts b = (ts', Ok b')" for ts b ts' b'
    using that
  proof (induction ts b arbitrary: ts' rule: normalize_tables.induct)
    case (2 t e ts b)
    then show ?case
      by (auto simp: next_schema_version_def split: if_splits outcome.splits prod.splits)
        (auto simp: unnormal_def list_ex_iff normalize_type_idem comp_def)
  qed simp
  have stable: "normalize_tables ts False = (ts, Ok False)" if "list_all (\<lambda>e. \<not> unnormal (snd e)) ts" for ts
    using that by (induction ts) auto
  obtain ts' where t: "normalize_tables (cg_tables c) False = (ts', Ok changed)" "c' = c\<lparr>cg_tables := ts'\<rparr>"
    using assms by (auto simp: normalize_types_def bindM_def getM_def seqM_def modM_def liftM_def split: prod.splits)
  show ?thesis using loop [OF t(1)] stable [of ts'] t(2)
    by (simp add: normalize_types_def bindM_def getM_def seqM_def modM_def liftM_def)
qed

definition sample_columns :: "schema_column list" where
  "sample_columns = [default_column\<lparr>sc_name := ''n'', sc_ty := ''INTEGER''\<rparr>, default_column\<lparr>sc_name := ''v'', sc_ty := ''text''\<rparr>]"

definition sample_catalog :: catalog where
  "sample_catalog = default_catalog\<lparr>cg_object_high_water := 4, cg_tables := [(''a'', new_table 3 sample_columns), (''b'', new_table 4 [])]\<rparr>"

theorem normalize_types_stable_witness:
  "\<exists>c'. normalize_types sample_catalog = (Ok True, c') \<and> normalize_types c' = (Ok False, c')"
proof -
  have t: "trim ''INTEGER'' = ''INTEGER''" "trim ''text'' = ''text''" by (rule trim_plain, simp_all)+
  have l: "ascii_lowercase ''INTEGER'' = ''integer''" "ascii_lowercase ''text'' = ''text''" by code_simp+
  have n: "normalize_type ''INTEGER'' = ''int''" "normalize_type ''text'' = ''str''"
    by (simp_all add: normalize_type_def Let_def t l type_names_def)
  have "\<exists>c'. normalize_types sample_catalog = (Ok True, c')"
    by (simp add: normalize_types_def sample_catalog_def sample_columns_def new_table_def unnormal_def n next_schema_version_def
        default_table_def bindM_def getM_def seqM_def modM_def liftM_def)
  then show ?thesis using normalize_types_stable by blast
qed

section \<open>Object numbers and versions\<close>

definition cat_ok :: "catalog \<Rightarrow> bool" where
  "cat_ok c \<longleftrightarrow> bt_ok (cg_tables c) \<and>
     (\<forall>t e. map_of (cg_tables c) t = Some e \<longrightarrow> ct_object_id e \<le> cg_object_high_water c) \<and>
     (\<forall>t u e f. map_of (cg_tables c) t = Some e \<longrightarrow> map_of (cg_tables c) u = Some f \<longrightarrow>
        ct_object_id e = ct_object_id f \<longrightarrow> ct_object_id e \<noteq> 0 \<longrightarrow> t = u)"

lemma cat_okD:
  assumes "cat_ok c"
  shows "bt_ok (cg_tables c)" and "map_of (cg_tables c) t = Some e \<Longrightarrow> ct_object_id e \<le> cg_object_high_water c"
    and "map_of (cg_tables c) t = Some e \<Longrightarrow> map_of (cg_tables c) u = Some f \<Longrightarrow> ct_object_id e = ct_object_id f \<Longrightarrow>
      ct_object_id e \<noteq> 0 \<Longrightarrow> t = u"
  using assms unfolding cat_ok_def by blast+

text \<open>A later state of the same table: a higher version, or the same version and columns.\<close>

definition descends :: "cat_table \<Rightarrow> cat_table \<Rightarrow> bool" where
  "descends e f \<longleftrightarrow> ct_object_id f = ct_object_id e \<and> ct_schema_version e \<le> ct_schema_version f \<and>
     (ct_schema_version f = ct_schema_version e \<longrightarrow> columns_eq (ct_columns e) (ct_columns f))"

lemma descends_refl [simp]: "descends e e"
  by (simp add: descends_def)

lemma descends_trans: "descends e f \<Longrightarrow> descends f g \<Longrightarrow> descends e g"
  unfolding descends_def by (metis antisym columns_eq_trans order.trans)

definition evolves :: "catalog \<Rightarrow> catalog \<Rightarrow> bool" where
  "evolves c d \<longleftrightarrow> cat_ok d \<and> cg_object_high_water c \<le> cg_object_high_water d \<and>
     (\<forall>u f. map_of (cg_tables d) u = Some f \<longrightarrow> ct_object_id f \<noteq> 0 \<longrightarrow>
        cg_object_high_water c < ct_object_id f \<or> (\<exists>t e. map_of (cg_tables c) t = Some e \<and> descends e f))"

text \<open>Every table of the later dictionary is new or was there before.\<close>

lemma evolves_sub:
  assumes "cat_ok d" and "cg_object_high_water c \<le> cg_object_high_water d"
    and "\<And>u f. map_of (cg_tables d) u = Some f \<Longrightarrow> cg_object_high_water c < ct_object_id f \<or> map_of (cg_tables c) u = Some f"
  shows "evolves c d"
  using assms descends_refl unfolding evolves_def by blast

lemma evolves_refl: "cat_ok c \<Longrightarrow> evolves c c"
  unfolding evolves_def using descends_refl by blast

lemma evolves_trans:
  assumes "evolves c d" and "evolves d e"
  shows "evolves c e"
  unfolding evolves_def
proof (intro conjI allI impI)
  show "cat_ok e" using assms(2) by (simp add: evolves_def)
  have hw: "cg_object_high_water c \<le> cg_object_high_water d" "cg_object_high_water d \<le> cg_object_high_water e"
    using assms by (simp_all add: evolves_def)
  then show "cg_object_high_water c \<le> cg_object_high_water e" by (rule order.trans)
  fix u f assume f: "map_of (cg_tables e) u = Some f" "ct_object_id f \<noteq> 0"
  then consider "cg_object_high_water d < ct_object_id f" | t x where "map_of (cg_tables d) t = Some x" "descends x f"
    using assms(2) unfolding evolves_def by blast
  then show "cg_object_high_water c < ct_object_id f \<or> (\<exists>t e. map_of (cg_tables c) t = Some e \<and> descends e f)"
  proof cases
    case 1
    then show ?thesis using hw(1) le_less_trans by blast
  next
    case 2
    then have "ct_object_id x = ct_object_id f" by (simp add: descends_def)
    then show ?thesis using assms(1) 2 f(2) descends_trans unfolding evolves_def by metis
  qed
qed

lemma cat_ok_put:
  assumes ok: "cat_ok c" and id: "ct_object_id e = ct_object_id (get_entry t c)"
  shows "cat_ok (put_entry t e c)"
proof -
  have get: "map_of (cg_tables (put_entry t e c)) = (map_of (cg_tables c))(t \<mapsto> e)"
    using cat_okD(1) [OF ok] by (simp add: put_entry_def get_bt_insert)
  have e: "ct_object_id e = 0 \<or> (\<exists>e0. map_of (cg_tables c) t = Some e0 \<and> ct_object_id e0 = ct_object_id e)"
    using id by (auto simp: get_entry_def or_default_def default_table_def split: option.splits)
  show ?thesis
    unfolding cat_ok_def get
  proof (intro conjI allI impI)
    show "bt_ok (cg_tables (put_entry t e c))" using cat_okD(1) [OF ok] by (simp add: put_entry_def)
    fix u f assume "((map_of (cg_tables c))(t \<mapsto> e)) u = Some f"
    then show "ct_object_id f \<le> cg_object_high_water (put_entry t e c)"
      using e cat_okD(2) [OF ok] by (fastforce simp: put_entry_def split: if_splits)
  next
    fix u w f g assume f: "((map_of (cg_tables c))(t \<mapsto> e)) u = Some f" "((map_of (cg_tables c))(t \<mapsto> e)) w = Some g"
      "ct_object_id f = ct_object_id g" "ct_object_id f \<noteq> 0"
    have "\<exists>f0. map_of (cg_tables c) u = Some f0 \<and> ct_object_id f0 = ct_object_id f"
      using f(1,4) e by (auto split: if_splits)
    moreover have "\<exists>g0. map_of (cg_tables c) w = Some g0 \<and> ct_object_id g0 = ct_object_id g"
      using f(2,3,4) e by (auto split: if_splits)
    ultimately show "u = w" using cat_okD(3) [OF ok] f(3,4) by metis
  qed
qed

lemma evolves_put:
  assumes ok: "cat_ok c" and d: "descends (get_entry t c) e"
  shows "evolves c (put_entry t e c)"
  unfolding evolves_def
proof (intro conjI allI impI)
  show "cat_ok (put_entry t e c)" using cat_ok_put [OF ok] d by (simp add: descends_def)
  show "cg_object_high_water c \<le> cg_object_high_water (put_entry t e c)" by (simp add: put_entry_def)
  fix u f assume f: "map_of (cg_tables (put_entry t e c)) u = Some f" "ct_object_id f \<noteq> 0"
  show "cg_object_high_water c < ct_object_id f \<or> (\<exists>t e. map_of (cg_tables c) t = Some e \<and> descends e f)"
  proof (cases "u = t")
    case True
    then have "f = e" using f(1) cat_okD(1) [OF ok] by (simp add: put_entry_def get_bt_insert)
    moreover have "map_of (cg_tables c) t = Some (get_entry t c)"
      using d f(2) calculation by (auto simp: get_entry_def or_default_def descends_def default_table_def split: option.splits)
    ultimately show ?thesis using d by blast
  next
    case False
    then have "map_of (cg_tables c) u = Some f" using f(1) cat_okD(1) [OF ok] by (simp add: put_entry_def get_bt_insert)
    then show ?thesis using descends_refl by blast
  qed
qed

text \<open>Changes outside the tables and the high-water mark.\<close>

lemma evolves_same:
  assumes "cat_ok c" and "cg_tables d = cg_tables c" and "cg_object_high_water c \<le> cg_object_high_water d"
  shows "evolves c d"
proof -
  have "ct_object_id e \<le> cg_object_high_water d" if "map_of (cg_tables c) t = Some e" for t e
    using cat_okD(2) [OF assms(1) that] assms(3) by (rule order.trans)
  then have "cat_ok d" using assms(1,2) by (simp add: cat_ok_def)
  then show ?thesis using assms(2,3) descends_refl unfolding evolves_def by metis
qed

text \<open>Removing tables.\<close>

lemma evolves_remove:
  assumes ok: "cat_ok c"
  shows "evolves c (c\<lparr>cg_tables := bt_remove t (cg_tables c)\<rparr>)"
proof -
  have "cat_ok (c\<lparr>cg_tables := bt_remove t (cg_tables c)\<rparr>)"
    using ok by (auto simp: cat_ok_def get_bt_remove split: if_splits)
  then show ?thesis by (rule evolves_sub) (auto simp: get_bt_remove split: if_splits)
qed

text \<open>A command from one state on.\<close>

definition evs :: "(catalog, 'a) cmd \<Rightarrow> catalog \<Rightarrow> bool" where
  "evs m c \<longleftrightarrow> (\<forall>r d. m c = (r, d) \<longrightarrow> evolves c d)"

lemma evs_simps [simp]:
  "cat_ok c \<Longrightarrow> evs (okM a) c" "cat_ok c \<Longrightarrow> evs (errM e) c" "cat_ok c \<Longrightarrow> evs panicM c" "cat_ok c \<Longrightarrow> evs (liftM x) c"
  "evs (modM f) c \<longleftrightarrow> evolves c (f c)" "evs (bindM (getM g) h) c \<longleftrightarrow> evs (h (g c)) c"
  by (simp_all add: evs_def okM_def errM_def panicM_def liftM_def modM_def bindM_def getM_def evolves_refl)

lemma evs_bind:
  assumes "evs m c" and "\<And>a d. m c = (Ok a, d) \<Longrightarrow> evolves c d \<Longrightarrow> evs (f a) d"
  shows "evs (bindM m f) c"
  using assms evolves_trans unfolding evs_def bindM_def by (auto split: prod.splits outcome.splits)

lemma evs_seq:
  assumes "evs m c" and "\<And>a d. m c = (Ok a, d) \<Longrightarrow> evolves c d \<Longrightarrow> evs n d"
  shows "evs (seqM m n) c"
  unfolding seqM_def using assms by (rule evs_bind)

lemma evolves_ok: "evolves c d \<Longrightarrow> cat_ok d"
  by (simp add: evolves_def)

lemma evs_seq_mod [simp]: "evolves c (f c) \<Longrightarrow> (cat_ok (f c) \<Longrightarrow> evs n (f c)) \<Longrightarrow> evs (seqM (modM f) n) c"
  by (rule evs_seq) (simp_all add: modM_def evolves_ok)

lemma evs_bind_lift: "cat_ok c \<Longrightarrow> (\<And>a. x = Ok a \<Longrightarrow> evs (f a) c) \<Longrightarrow> evs (bindM (liftM x) f) c"
  by (rule evs_bind) (auto simp: liftM_def)

lemma evolves_forget [simp]:
  assumes "evolves c d"
  shows "evolves c (forget_seen t d)"
  using assms evolves_same [OF evolves_ok [OF assms], of "forget_seen t d"] by (auto simp: forget_seen_def intro: evolves_trans)

lemma evs_on_entry:
  assumes "cat_ok c" and "\<And>e. map_of (cg_tables c) t = Some e \<Longrightarrow> get_entry t c = e \<Longrightarrow> evs (f e) c"
  shows "evs (on_entry missing t f) c"
  using assms by (auto simp: on_entry_def get_entry_def or_default_def split: option.split)

lemmas evolves_intros = evolves_put evolves_forget evolves_remove evolves_refl

lemma evs_reserve: "cat_ok c \<Longrightarrow> evs reserve_object_id c"
  using word_less_Suc [of "cg_object_high_water c", THEN less_imp_le] evolves_same
  by (auto simp: reserve_object_id_def intro!: evs_seq_mod)

lemma next_version:
  assumes "next_schema_version e = Ok v"
  shows "ct_schema_version e < v"
  using assms word_less_Suc by (auto simp: next_schema_version_def split: if_splits)

lemma add_missing_descends:
  assumes "add_missing_columns e r = Ok (e', b)"
  shows "descends e e'"
  using assms next_version [of e]
  by (fastforce simp: add_missing_columns_def descends_def split: if_splits outcome.splits)

lemma get_put_entry [simp]: "bt_ok (cg_tables c) \<Longrightarrow> get_entry t (put_entry t e c) = e"
  by (simp add: get_entry_def or_default_def put_entry_def get_bt_insert)

lemma evs_extend_columns:
  assumes ok: "cat_ok c"
  shows "evs (extend_columns t r) c"
  unfolding extend_columns_def
proof (rule evs_seq_mod)
  show "evolves c (put_entry t (get_entry t c) c)" using evolves_put [OF ok] by simp
  assume okp: "cat_ok (put_entry t (get_entry t c) c)"
  have "evs (modM (put_entry t e)) (put_entry t (get_entry t c) c)" if "add_missing_columns (get_entry t c) r = Ok (e, b)" for e b
    using evolves_put [OF okp] add_missing_descends [OF that] cat_okD(1) [OF ok] by simp
  then show "evs (bindM (getM (get_entry t)) (\<lambda>e. bindM (liftM (add_missing_columns e r)) (\<lambda>(e', changed).
      seqM (modM (put_entry t e')) (okM changed)))) (put_entry t (get_entry t c) c)"
    using okp cat_okD(1) [OF ok] by (auto intro!: evs_bind_lift evs_seq_mod)
qed

lemma evolves_create:
  assumes ok: "cat_ok c" and t: "map_of (cg_tables c) t = None" and e: "ct_object_id e \<le> cg_object_high_water c"
    and fresh: "\<And>u f. map_of (cg_tables c) u = Some f \<Longrightarrow> ct_object_id f \<noteq> ct_object_id e"
  shows "cat_ok (put_entry t e c)"
proof -
  have get: "map_of (cg_tables (put_entry t e c)) = (map_of (cg_tables c))(t \<mapsto> e)"
    using cat_okD(1) [OF ok] by (simp add: put_entry_def get_bt_insert)
  show ?thesis
    unfolding cat_ok_def get
  proof (intro conjI allI impI)
    show "bt_ok (cg_tables (put_entry t e c))" using cat_okD(1) [OF ok] by (simp add: put_entry_def)
    show "ct_object_id f \<le> cg_object_high_water (put_entry t e c)" if "((map_of (cg_tables c))(t \<mapsto> e)) u = Some f" for u f
      using that e cat_okD(2) [OF ok] by (auto simp: put_entry_def split: if_splits)
    show "u = w" if "((map_of (cg_tables c))(t \<mapsto> e)) u = Some f" "((map_of (cg_tables c))(t \<mapsto> e)) w = Some g"
      "ct_object_id f = ct_object_id g" "ct_object_id f \<noteq> 0" for u w f g
      using that fresh [of u f] fresh [of w g] cat_okD(3) [OF ok, of u f w g] by (auto split: if_splits)
  qed
qed

lemma evs_create:
  assumes ok: "cat_ok c"
  shows "evs (create_table t columns) c"
proof -
  let ?n = "cg_object_high_water c"
  let ?c = "c\<lparr>cg_object_high_water := ?n + 1\<rparr>"
  have "evolves c (put_entry t (new_table (?n + 1) columns) ?c)" if none: "map_of (cg_tables c) t = None" and max: "?n \<noteq> - 1"
  proof -
    have less: "?n < ?n + 1" using max by (rule word_less_Suc)
    have okc: "cat_ok ?c" using evolves_ok [OF evolves_same [OF ok, of ?c]] less by simp
    have "cat_ok (put_entry t (new_table (?n + 1) columns) ?c)"
    proof (rule evolves_create [OF okc])
      fix u f assume "map_of (cg_tables ?c) u = Some f"
      then have "ct_object_id f \<le> ?n" using cat_okD(2) [OF ok] by simp
      then show "ct_object_id f \<noteq> ct_object_id (new_table (?n + 1) columns)" using less leD by (auto simp: new_table_def)
    qed (simp_all add: none new_table_def)
    then show ?thesis using less cat_okD(1) [OF ok]
      by (intro evolves_sub) (auto simp: put_entry_def get_bt_insert new_table_def split: if_splits)
  qed
  then show ?thesis
    using ok by (simp add: create_table_def create_table_with_id_def reserve_object_id_def)
      (auto simp: evs_def bindM_def seqM_def modM_def okM_def getM_def errM_def evolves_refl)
qed

lemma target_descends:
  assumes "target_version e None changed = Ok v" and "\<not> columns_eq (ct_columns e) (ct_columns f) \<Longrightarrow> changed"
    and "ct_object_id f = ct_object_id e" and "ct_schema_version f = v"
  shows "descends e f"
  using assms next_version [of e v] by (auto simp: target_version_def descends_def split: if_splits)

lemma evs_simple_ops:
  assumes ok: "cat_ok c"
  shows "evs (mark_system t) c" and "evs (drop_table t) c" and "evs (set_columns t columns) c" and "evs (remove_column t column) c"
    and "evs (mark_compacted t) c" and "evs (add_index t column) c" and "evs (remove_index t column) c"
    and "evs (set_generation t obj source target) c"
proof -
  note intros = evs_on_entry [OF ok] evolves_put [OF ok] evs_bind_lift [OF ok] evolves_forget
  show "evs (mark_system t) c" "evs (mark_compacted t) c" "evs (add_index t column) c" "evs (remove_index t column) c"
    using ok by (auto simp: mark_system_def mark_compacted_def add_index_def remove_index_def descends_def intro!: intros)
  show "evs (drop_table t) c" using ok by (auto simp: drop_table_def intro!: intros evolves_remove)
  show "evs (set_columns t columns) c"
    using ok by (auto simp: set_columns_def set_columns_version_def intro!: intros elim!: target_descends)
  have "\<exists>c \<in> set cs. sc_name c = column" if "\<not> columns_eq cs (filter (\<lambda>c. sc_name c \<noteq> column) cs)" for cs
    using that columns_eq_refl filter_True [of cs "\<lambda>c. sc_name c \<noteq> column"] by metis
  then show "evs (remove_column t column) c"
    using ok by (auto simp: remove_column_def remove_column_version_def Let_def list_ex_iff
        intro!: intros evs_seq_mod elim!: target_descends)
  show "evs (set_generation t obj source target) c"
    using ok by (auto simp: set_generation_def get_entry_def or_default_def descends_def intro!: evolves_put split: option.split)
qed

lemma evs_rename:
  assumes ok: "cat_ok c"
  shows "evs (rename_table from to) c"
proof -
  have "evolves c (put_entry to (e\<lparr>ct_schema_version := v\<rparr>) (forget_seen from (c\<lparr>cg_tables := bt_remove from (cg_tables c)\<rparr>)))"
    (is "evolves c ?d")
    if e: "map_of (cg_tables c) from = Some e" and to: "map_of (cg_tables c) to = None" and v: "next_schema_version e = Ok v" for e v
  proof -
    have get: "map_of (cg_tables ?d) u = (if u = to then Some (e\<lparr>ct_schema_version := v\<rparr>) else if u = from then None else map_of (cg_tables c) u)" for u
      using cat_okD(1) [OF ok] by (simp add: put_entry_def forget_seen_def get_bt_insert get_bt_remove)
    have ids: "\<exists>t e0. map_of (cg_tables c) t = Some e0 \<and> ct_object_id e0 = ct_object_id f \<and> descends e0 f \<and>
        (u = to \<longrightarrow> t = from) \<and> (u \<noteq> to \<longrightarrow> t = u)" if "map_of (cg_tables ?d) u = Some f" for u f
      using that e next_version [OF v] by (auto simp: get descends_def split: if_splits)
    have "cat_ok ?d"
      unfolding cat_ok_def
    proof (intro conjI allI impI)
      show "bt_ok (cg_tables ?d)" using cat_okD(1) [OF ok] by (simp add: put_entry_def forget_seen_def)
      have hw: "cg_object_high_water ?d = cg_object_high_water c" by (simp add: put_entry_def forget_seen_def)
      show "ct_object_id f \<le> cg_object_high_water ?d" if "map_of (cg_tables ?d) u = Some f" for u f
        using ids [OF that] cat_okD(2) [OF ok] unfolding hw by metis
      fix u w f g assume f: "map_of (cg_tables ?d) u = Some f" "map_of (cg_tables ?d) w = Some g"
        "ct_object_id f = ct_object_id g" "ct_object_id f \<noteq> 0"
      obtain t1 e1 where 1: "map_of (cg_tables c) t1 = Some e1" "ct_object_id e1 = ct_object_id f" "u = to \<longrightarrow> t1 = from" "u \<noteq> to \<longrightarrow> t1 = u"
        using ids [OF f(1)] by blast
      obtain t2 e2 where 2: "map_of (cg_tables c) t2 = Some e2" "ct_object_id e2 = ct_object_id g" "w = to \<longrightarrow> t2 = from" "w \<noteq> to \<longrightarrow> t2 = w"
        using ids [OF f(2)] by blast
      have "t1 = t2" using cat_okD(3) [OF ok 1(1) 2(1)] 1(2) 2(2) f(3,4) by simp
      then show "u = w" using 1(3,4) 2(3,4) f(1,2) by (auto simp: get split: if_splits)
    qed
    then show ?thesis using ids unfolding evolves_def by (auto simp: put_entry_def forget_seen_def)
  qed
  then show ?thesis using ok by (auto simp: rename_table_def intro!: evs_bind_lift evs_seq_mod split: option.split)
qed

lemma normalize_descends:
  assumes "normalize_tables ts b = (ts', r)"
  shows "map fst ts' = map fst ts \<and> (\<forall>t e'. map_of ts' t = Some e' \<longrightarrow> (\<exists>e. map_of ts t = Some e \<and> descends e e'))"
  using assms
proof (induction ts b arbitrary: ts' rule: normalize_tables.induct)
  case (2 t e ts b)
  show ?case
  proof (cases "unnormal e")
    case True
    then show ?thesis using 2 next_version [of e]
      by (fastforce simp: descends_def split: outcome.splits prod.splits if_splits)
  next
    case False
    then show ?thesis using 2 by (fastforce split: prod.splits if_splits)
  qed
qed simp

lemma evs_normalize:
  assumes ok: "cat_ok c"
  shows "evs normalize_types c"
proof -
  obtain ts' r where n: "normalize_tables (cg_tables c) False = (ts', r)" by (cases "normalize_tables (cg_tables c) False")
  note d = normalize_descends [OF n]
  let ?d = "c\<lparr>cg_tables := ts'\<rparr>"
  have desc: "\<exists>e. map_of (cg_tables c) t = Some e \<and> descends e e'" if "map_of ts' t = Some e'" for t e' using d that by blast
  have "cat_ok ?d"
    unfolding cat_ok_def
  proof (intro conjI allI impI)
    show "bt_ok (cg_tables ?d)" using d cat_okD(1) [OF ok] by (simp add: bt_ok_def)
    show "ct_object_id e' \<le> cg_object_high_water ?d" if "map_of (cg_tables ?d) t = Some e'" for t e'
      using desc [of t e'] that cat_okD(2) [OF ok, of t] by (auto simp: descends_def)
    show "t = u" if "map_of (cg_tables ?d) t = Some e'" "map_of (cg_tables ?d) u = Some f'"
      "ct_object_id e' = ct_object_id f'" "ct_object_id e' \<noteq> 0" for t u e' f'
      using desc [of t e'] desc [of u f'] that cat_okD(3) [OF ok, of t _ u] by (auto simp: descends_def)
  qed
  then have "evolves c ?d" using desc by (auto simp: evolves_def)
  then show ?thesis using n ok by (auto simp: normalize_types_def intro!: evs_seq_mod)
qed

lemma evolves_put_stats:
  assumes ok: "cat_ok c"
  shows "evolves c (put_stats t p c)"
proof -
  have "evolves c (put_entry t ((get_entry t c)\<lparr>ct_stats := fst p\<rparr>) c)" by (rule evolves_put [OF ok]) (simp add: descends_def)
  from evolves_trans [OF this evolves_same [OF evolves_ok [OF this]]] show ?thesis by (simp add: put_stats_def)
qed

lemma evs_record_insert:
  assumes ok: "cat_ok c"
  shows "evs (record_insert g t r) c"
  unfolding record_insert_def
proof (rule evs_bind [OF evs_extend_columns [OF ok]])
  fix changed d assume "evolves c d"
  then have d: "cat_ok d" by (rule evolves_ok)
  have p: "evolves d (put_entry t ((get_entry t d)\<lparr>ct_row_count := ct_row_count (get_entry t d) + 1\<rparr>) d)"
    by (rule evolves_put [OF d]) (simp add: descends_def)
  have "evs (count_values g t r) d'" if "cat_ok d'" for d'
    using that evolves_put_stats [OF that] by (auto simp: count_values_def intro!: evs_bind_lift)
  then show "evs (bindM (getM (get_entry t)) (\<lambda>e. if ct_row_count e = - 1 then panicM
      else seqM (modM (put_entry t (e\<lparr>ct_row_count := ct_row_count e + 1\<rparr>))) (seqM (count_values g t r) (okM changed)))) d"
    using d p by (auto intro!: evs_seq_mod evs_seq dest: evolves_ok)
qed

lemma evolves_record_delete:
  assumes ok: "cat_ok c"
  shows "evolves c (record_delete g t rows c)"
proof -
  have "evolves c (put_entry t ((get_entry t c)\<lparr>ct_row_count := n\<rparr>) c)" for n
    by (rule evolves_put [OF ok]) (simp add: descends_def)
  then show ?thesis unfolding record_delete_def Let_def using evolves_trans evolves_put_stats evolves_ok by blast
qed

lemma evs_rebuild:
  assumes ok: "cat_ok c"
  shows "evs (rebuild_stats g t rows) c"
proof -
  have loop: "evs (insert_all g t rows b) d" if "cat_ok d" for d b
    using that
  proof (induction rows arbitrary: b d)
    case (Cons r rs)
    show ?case unfolding insert_all.simps
      by (rule evs_bind [OF evs_record_insert [OF Cons.prems]]) (auto intro: Cons.IH evolves_ok)
  qed simp
  have f: "evolves c (forget_seen t c)" using evolves_refl [OF ok] by simp
  have "get_entry t (forget_seen t c) = get_entry t c" by (simp add: get_entry_def forget_seen_def)
  then have "evolves c (put_entry t ((get_entry t c)\<lparr>ct_stats := s, ct_row_count := 0\<rparr>) (forget_seen t c))" for s
    using evolves_trans [OF f evolves_put [OF evolves_ok [OF f]]] by (simp add: descends_def)
  then show ?thesis unfolding rebuild_stats_def using loop by (auto intro!: evs_seq_mod)
qed

text \<open>
  The operations that requests make on the dictionary, whether they succeed or fail.  A request to
  change columns or to create a table first runs on a copy of the dictionary (\<open>group_via_wal\<close>), and
  what is logged and applied carries the version or the number found there: these are the steps
  \<open>stamped_columns\<close>, \<open>stamped_column\<close> and \<open>numbered\<close>.  If \<open>strict\<close> holds, the operations that
  count rows are applied to tables of the dictionary only; a row that is inserted into a table
  without an entry makes one.
\<close>

definition version_stamp :: "string \<Rightarrow> catalog \<Rightarrow> u64 option" where
  "version_stamp t c = map_option (\<lambda>e. max (ct_schema_version e) 1) (map_of (cg_tables c) t)"

abbreviation entered :: "bool \<Rightarrow> string \<Rightarrow> catalog \<Rightarrow> bool" where
  "entered strict t c \<equiv> (strict \<longrightarrow> map_of (cg_tables c) t \<noteq> None)"

inductive local_step :: "hashing \<Rightarrow> bool \<Rightarrow> catalog \<Rightarrow> catalog \<Rightarrow> bool" for g strict where
  reserve: "reserve_object_id c = (r1, d) \<Longrightarrow> local_step g strict c d"
| create: "create_table t columns c = (r2, d) \<Longrightarrow> local_step g strict c d"
| numbered: "reserve_object_id c = (Ok i, b) \<Longrightarrow> create_table_with_id t columns (Some i) b = (r3, d) \<Longrightarrow> local_step g strict c d"
| ensure: "ensure_columns t rw c = (r4, d) \<Longrightarrow> entered strict t c \<Longrightarrow> local_step g strict c d"
| "system": "mark_system t c = (r5, d) \<Longrightarrow> local_step g strict c d"
| inserted: "record_insert g t rw c = (r6, d) \<Longrightarrow> entered strict t c \<Longrightarrow> local_step g strict c d"
| deleted: "entered strict t c \<Longrightarrow> local_step g strict c (record_delete g t rws c)"
| rebuilt: "rebuild_stats g t rws c = (r7, d) \<Longrightarrow> entered strict t c \<Longrightarrow> local_step g strict c d"
| dropped: "drop_table t c = (r8, d) \<Longrightarrow> local_step g strict c d"
| renamed: "rename_table t u c = (r9, d) \<Longrightarrow> local_step g strict c d"
| columns: "set_columns t columns c = (r10, d) \<Longrightarrow> local_step g strict c d"
| stamped_columns: "set_columns t columns c = (Ok u, b) \<Longrightarrow> version_stamp t b = Some v \<Longrightarrow>
    set_columns_version t columns (Some v) c = (r11, d) \<Longrightarrow> local_step g strict c d"
| normal: "normalize_types c = (r12, d) \<Longrightarrow> local_step g strict c d"
| column: "remove_column t column c = (r13, d) \<Longrightarrow> local_step g strict c d"
| stamped_column: "remove_column t column c = (Ok w, b) \<Longrightarrow> version_stamp t b = Some v \<Longrightarrow>
    remove_column_version t column (Some v) c = (r14, d) \<Longrightarrow> local_step g strict c d"
| compacted: "mark_compacted t c = (r15, d) \<Longrightarrow> local_step g strict c d"
| indexed: "add_index t column c = (r16, d) \<Longrightarrow> local_step g strict c d"
| unindexed: "remove_index t column c = (r17, d) \<Longrightarrow> local_step g strict c d"
| generation: "set_generation t obj source target c = (r18, d) \<Longrightarrow> local_step g strict c d"
| identities: "local_step g strict c (c\<lparr>cg_identity_high_water := n\<rparr>)"

text \<open>The recovery from the log also applies numbers and versions that a dictionary of before had given.\<close>

inductive cat_step :: "hashing \<Rightarrow> bool \<Rightarrow> catalog \<Rightarrow> catalog \<Rightarrow> bool" for g strict where
  local: "local_step g strict c d \<Longrightarrow> cat_step g strict c d"
| replay_create: "create_table_with_id t columns (Some i) c = (r1, d) \<Longrightarrow> cat_step g strict c d"
| replay_columns: "set_columns_version t columns (Some v) c = (r2, d) \<Longrightarrow> cat_step g strict c d"
| replay_column: "remove_column_version t column (Some v) c = (r3, d) \<Longrightarrow> cat_step g strict c d"

text \<open>A stamped change gives the version that the change itself would give, or 1.\<close>

lemma stamp_descends:
  assumes "target_version e None changed = Ok v" and "\<not> columns_eq (ct_columns e) cs \<Longrightarrow> changed"
    and "ct_object_id f = ct_object_id e" and "ct_schema_version f = max v 1" and "ct_columns f = cs"
  shows "descends e f"
proof -
  have v: "ct_schema_version e \<le> v" "changed \<Longrightarrow> ct_schema_version e < v"
    using assms(1) next_version [of e v] by (auto simp: target_version_def split: if_splits)
  then have "ct_schema_version e \<le> max v 1" "changed \<Longrightarrow> ct_schema_version e < max v 1" by (simp_all add: le_max_iff_disj less_max_iff_disj)
  moreover have "changed" if "\<not> columns_eq (ct_columns e) (ct_columns f)" using that assms(2,5) by simp
  ultimately show ?thesis using assms(3,4) unfolding descends_def by fastforce
qed

lemma evolves_stamped_columns:
  assumes ok: "cat_ok c" and p: "set_columns t columns c = (Ok u, b)" "version_stamp t b = Some v"
    and r: "set_columns_version t columns (Some v) c = (r, d)"
  shows "evolves c d"
proof -
  obtain e w where e: "map_of (cg_tables c) t = Some e"
    "target_version e None (\<not> columns_eq (ct_columns e) columns) = Ok w" "v = max w 1"
    using p cat_okD(1) [OF ok]
    by (auto simp: set_columns_def set_columns_version_def on_entry_def bindM_def getM_def liftM_def modM_def errM_def version_stamp_def
        forget_seen_def put_entry_def get_bt_insert split: option.splits outcome.splits)
  have "v \<noteq> 0" using e(3) by (auto simp: max_def)
  then have "d = forget_seen t (put_entry t (e\<lparr>ct_schema_version := v, ct_columns := columns, ct_dropped_columns := {},
         ct_indexes := [], ct_stats := []\<rparr>) c)"
    using r e(1) by (simp add: set_columns_version_def on_entry_def target_version_def bindM_def getM_def liftM_def modM_def)
  moreover have "descends e (e\<lparr>ct_schema_version := v, ct_columns := columns, ct_dropped_columns := {}, ct_indexes := [], ct_stats := []\<rparr>)"
    using stamp_descends [OF e(2)] e(3) by simp
  ultimately show ?thesis using e(1) by (auto simp: get_entry_def or_default_def intro!: evolves_forget evolves_put [OF ok])
qed

lemma evolves_stamped_column:
  assumes ok: "cat_ok c" and p: "remove_column t column c = (Ok u, b)" "version_stamp t b = Some v"
    and r: "remove_column_version t column (Some v) c = (r, d)"
  shows "evolves c d"
proof -
  obtain e where e0: "map_of (cg_tables c) t = Some e"
    using p(1) by (auto simp: remove_column_def remove_column_version_def on_entry_def bindM_def getM_def errM_def split: option.splits)
  moreover obtain w where "target_version e None (list_ex (\<lambda>c. sc_name c = column) (ct_columns e)) = Ok w"
    using p(1) e0 by (cases "target_version e None (list_ex (\<lambda>c. sc_name c = column) (ct_columns e))")
      (auto simp: remove_column_def remove_column_version_def on_entry_def bindM_def getM_def liftM_def)
  moreover from this have "v = max w 1"
    using p e0 cat_okD(1) [OF ok]
    by (auto simp: remove_column_def remove_column_version_def on_entry_def bindM_def getM_def liftM_def modM_def seqM_def okM_def
        Let_def version_stamp_def forget_seen_def put_entry_def get_bt_insert)
  ultimately have e: "map_of (cg_tables c) t = Some e"
    "target_version e None (list_ex (\<lambda>c. sc_name c = column) (ct_columns e)) = Ok w" "v = max w 1" by simp_all
  let ?cs = "filter (\<lambda>c. sc_name c \<noteq> column) (ct_columns e)"
  let ?f = "e\<lparr>ct_schema_version := v, ct_columns := ?cs, ct_stats := bt_remove column (ct_stats e),
    ct_dropped_columns := insert column (ct_dropped_columns e), ct_compacted := False, ct_indexes := filter (\<lambda>i. i \<noteq> column) (ct_indexes e)\<rparr>"
  have "v \<noteq> 0" using e(3) by (auto simp: max_def)
  then have "d = forget_seen t (put_entry t ?f c)"
    using r e(1)
    by (simp add: remove_column_version_def on_entry_def target_version_def bindM_def getM_def liftM_def modM_def seqM_def okM_def Let_def)
  moreover have "list_ex (\<lambda>c. sc_name c = column) (ct_columns e)" if "\<not> columns_eq (ct_columns e) ?cs"
    using that columns_eq_refl filter_True [of "ct_columns e" "\<lambda>c. sc_name c \<noteq> column"] unfolding list_ex_iff by metis
  then have "descends e ?f" by (rule stamp_descends [OF e(2)]) (simp_all add: e(3))
  ultimately show ?thesis using e(1) by (auto simp: get_entry_def or_default_def intro!: evolves_forget evolves_put [OF ok])
qed

text \<open>A number just reserved is new, and creating a table with it is creating the table.\<close>

lemma evolves_numbered:
  assumes ok: "cat_ok c" and n: "reserve_object_id c = (Ok i, b)" and r: "create_table_with_id t columns (Some i) b = (r, d)"
  shows "evolves c d"
proof -
  have b: "i = cg_object_high_water c + 1" "cg_object_high_water c \<noteq> - 1" "b = c\<lparr>cg_object_high_water := i\<rparr>"
    using n by (auto simp: reserve_object_id_def bindM_def getM_def seqM_def modM_def okM_def errM_def split: if_splits)
  have less: "cg_object_high_water c < i" using word_less_Suc [OF b(2)] b(1) by simp
  have keep: "evolves c b" using evolves_same [OF ok] less b(3) by simp
  show ?thesis
  proof (cases "map_of (cg_tables c) t")
    case None
    have "ct_object_id (snd p) \<noteq> i" if "p \<in> set (cg_tables c)" for p
      using that cat_okD(2) [OF ok, of "fst p" "snd p"] cat_okD(1) [OF ok] less by (auto simp: bt_get_Some)
    then have "\<not> list_ex (\<lambda>e. ct_object_id (snd e) = i) (cg_tables b)" using b(3) by (auto simp: list_ex_iff)
    moreover have "i \<noteq> 0" using less by auto
    ultimately have "create_table t columns c = (r, d)"
      using r None b n
      by (auto simp: create_table_def create_table_with_id_def bindM_def getM_def seqM_def modM_def okM_def errM_def
          split: if_splits)
    then show ?thesis using evs_create [OF ok] by (simp add: evs_def)
  next
    case (Some e)
    then have "d = b" using r b(3) by (simp add: create_table_with_id_def bindM_def getM_def errM_def)
    then show ?thesis using keep by simp
  qed
qed

lemma local_step_evolves:
  assumes "local_step g strict c d" and ok: "cat_ok c"
  shows "evolves c d"
proof -
  have "evs (ensure_columns t rw) c" for t rw
    unfolding ensure_columns_def using evs_extend_columns [OF ok] by (rule evs_seq) (simp add: evolves_ok)
  note all = evs_reserve [OF ok] evs_create [OF ok] this evs_simple_ops [OF ok] evs_record_insert [OF ok] evs_rebuild [OF ok]
    evs_rename [OF ok] evs_normalize [OF ok]
  from assms(1) show ?thesis
    by cases (use all evolves_record_delete [OF ok] evolves_numbered [OF ok] evolves_stamped_columns [OF ok]
        evolves_stamped_column [OF ok] evolves_same [OF ok] in \<open>auto simp: evs_def\<close>)
qed

lemma local_steps_evolve:
  assumes "(local_step g strict)\<^sup>*\<^sup>* c d" and "cat_ok c"
  shows "evolves c d"
  using assms(1)
proof (induction rule: rtranclp_induct)
  case base
  then show ?case using assms(2) by (rule evolves_refl)
next
  case (step d e)
  then show ?case using local_step_evolves evolves_ok evolves_trans by blast
qed

definition grows :: "catalog \<Rightarrow> catalog \<Rightarrow> bool" where
  "grows c d \<longleftrightarrow> cat_ok d \<and> cg_object_high_water c \<le> cg_object_high_water d"

lemma grows_refl: "cat_ok c \<Longrightarrow> grows c c"
  by (simp add: grows_def)

lemma grows_put: "cat_ok c \<Longrightarrow> ct_object_id e = ct_object_id (get_entry t c) \<Longrightarrow> grows c (forget_seen s (put_entry t e c))"
  using cat_ok_put [of c e t] by (simp add: grows_def cat_ok_def forget_seen_def) (simp add: put_entry_def)

lemma grows_replay_create:
  assumes ok: "cat_ok c" and r: "create_table_with_id t columns (Some i) c = (r, d)"
  shows "grows c d"
proof -
  let ?c = "c\<lparr>cg_object_high_water := max (cg_object_high_water c) i\<rparr>"
  have okc: "cat_ok ?c" using evolves_ok [OF evolves_same [OF ok, of ?c]] by simp
  have "cat_ok (put_entry t (new_table i columns) ?c)"
    if none: "map_of (cg_tables c) t = None" and fresh: "\<not> list_ex (\<lambda>e. ct_object_id (snd e) = i) (cg_tables c)"
    using fresh none by (intro evolves_create [OF okc]) (fastforce simp: new_table_def list_ex_iff dest: map_of_SomeD)+
  then show ?thesis
    using r ok by (auto simp: create_table_with_id_def grows_def bindM_def seqM_def modM_def okM_def errM_def getM_def put_entry_def
        split: if_splits)
qed

lemma grows_replay_columns:
  assumes ok: "cat_ok c" and r: "set_columns_version t columns (Some v) c = (r, d)"
  shows "grows c d"
  using r grows_refl [OF ok] grows_put [OF ok]
  by (auto simp: set_columns_version_def on_entry_def target_version_def bindM_def getM_def liftM_def modM_def errM_def
      get_entry_def or_default_def split: option.splits if_splits)

lemma grows_replay_column:
  assumes ok: "cat_ok c" and r: "remove_column_version t column (Some v) c = (r, d)"
  shows "grows c d"
  using r grows_refl [OF ok] grows_put [OF ok]
  by (auto simp: remove_column_version_def on_entry_def target_version_def bindM_def getM_def liftM_def modM_def errM_def seqM_def
      okM_def Let_def get_entry_def or_default_def split: option.splits if_splits)

lemma cat_steps_grow:
  assumes "(cat_step g strict)\<^sup>*\<^sup>* c d" and "cat_ok c"
  shows "grows c d"
  using assms(1)
proof (induction rule: rtranclp_induct)
  case base
  then show ?case using assms(2) by (simp add: grows_def)
next
  case (step d e)
  have ok: "cat_ok d" using step.IH by (simp add: grows_def)
  have "grows d e" using step(2)
    by cases (use local_step_evolves [OF _ ok] grows_replay_create [OF ok] grows_replay_columns [OF ok] grows_replay_column [OF ok]
        in \<open>auto simp: grows_def evolves_def\<close>)
  then show ?case using step.IH order.trans unfolding grows_def by blast
qed

text \<open>Dictionaries in which every table has a number.\<close>

definition all_numbered :: "catalog \<Rightarrow> bool" where
  "all_numbered c \<longleftrightarrow> (\<forall>t e. map_of (cg_tables c) t = Some e \<longrightarrow> ct_object_id e \<noteq> 0)"

definition has_number :: "string \<Rightarrow> catalog \<Rightarrow> bool" where
  "has_number t c \<longleftrightarrow> bt_ok (cg_tables c) \<and> all_numbered c \<and> map_of (cg_tables c) t \<noteq> None"

lemma all_numbered_put:
  assumes "bt_ok (cg_tables c)" and "all_numbered c" and "ct_object_id e \<noteq> 0"
  shows "all_numbered (put_entry t e c)"
  using assms by (simp add: all_numbered_def put_entry_def get_bt_insert)

lemma has_number_put [simp]: "has_number t c \<Longrightarrow> ct_object_id e = ct_object_id (get_entry t c) \<Longrightarrow> has_number t (put_entry t e c)"
  unfolding has_number_def using all_numbered_put [of c e t]
  by (auto simp: all_numbered_def get_entry_def or_default_def put_entry_def get_bt_insert)

lemma has_number_same: "has_number t c \<Longrightarrow> cg_tables d = cg_tables c \<Longrightarrow> has_number t d"
  by (simp add: has_number_def all_numbered_def)

lemma has_number_forget [simp]: "has_number t c \<Longrightarrow> has_number t (forget_seen u c)"
  by (erule has_number_same) (simp add: forget_seen_def)

lemma has_number_put_stats: "has_number t c \<Longrightarrow> has_number t (put_stats t p c)"
  unfolding put_stats_def by (rule has_number_same [of t "put_entry t _ c"]) simp_all

lemma add_missing_id: "add_missing_columns e r = Ok (e', b) \<Longrightarrow> ct_object_id e' = ct_object_id e"
  by (drule add_missing_descends) (simp add: descends_def)

lemma has_number_extend: "has_number t c \<Longrightarrow> extend_columns t r c = (x, d) \<Longrightarrow> has_number t d"
  by (auto simp: extend_columns_def seqM_def bindM_def getM_def modM_def liftM_def okM_def get_put_entry has_number_def [of t c]
      split: outcome.splits prod.splits dest!: add_missing_id intro!: has_number_put)

lemma has_number_insert:
  assumes "has_number t c" and "record_insert g t r c = (x, d)"
  shows "has_number t d"
proof -
  obtain y b where e: "extend_columns t r c = (y, b)" by (cases "extend_columns t r c")
  have b: "has_number t b" using has_number_extend [OF assms(1) e] .
  let ?p = "put_entry t ((get_entry t b)\<lparr>ct_row_count := ct_row_count (get_entry t b) + 1\<rparr>) b"
  have p: "has_number t ?p" using b by simp
  show ?thesis using assms(2) b p has_number_put_stats [OF p]
    by (auto simp: record_insert_def e count_values_def bindM_def seqM_def getM_def modM_def liftM_def okM_def panicM_def
        split: outcome.splits if_splits)
qed

lemma has_number_rebuild:
  assumes "has_number t c" and "rebuild_stats g t rows c = (x, d)"
  shows "has_number t d"
proof -
  have loop: "has_number t b \<Longrightarrow> insert_all g t rs z b = (x, d) \<Longrightarrow> has_number t d" for rs z b
  proof (induction rs arbitrary: z b)
    case (Cons r rs)
    obtain y b' where r: "record_insert g t r b = (y, b')" by (cases "record_insert g t r b")
    from Cons.prems(2) Cons.IH has_number_insert [OF Cons.prems(1) r] show ?case
      by (auto simp: r bindM_def split: outcome.splits)
  qed (simp add: okM_def)
  have "get_entry t (forget_seen t c) = get_entry t c" by (simp add: get_entry_def forget_seen_def)
  then have "has_number t (put_entry t ((get_entry t c)\<lparr>ct_stats := s, ct_row_count := 0\<rparr>) (forget_seen t c))" for s
    using assms(1) by simp
  then show ?thesis using assms(2) loop by (auto simp: rebuild_stats_def seqM_def bindM_def modM_def)
qed

lemma has_number_delete: "has_number t c \<Longrightarrow> has_number t (record_delete g t rows c)"
  unfolding record_delete_def Let_def by (rule has_number_put_stats) simp

lemma all_numbered_entry:
  assumes "cat_ok c" and "all_numbered c" and "map_of (cg_tables c) t = Some e" and "ct_object_id f = ct_object_id e"
  shows "all_numbered (put_entry t f c)"
  using all_numbered_put [OF cat_okD(1) [OF assms(1)] assms(2), of f t] assms(2-4) by (auto simp: all_numbered_def)

lemma all_numbered_same: "all_numbered c \<Longrightarrow> cg_tables d = cg_tables c \<Longrightarrow> all_numbered d"
  by (simp add: all_numbered_def)

lemma all_numbered_forget [simp]: "all_numbered (forget_seen t c) \<longleftrightarrow> all_numbered c"
  by (simp add: all_numbered_def forget_seen_def)

lemma all_numbered_ops:
  assumes ok: "cat_ok c" and n: "all_numbered c"
  shows "reserve_object_id c = (x, d) \<Longrightarrow> all_numbered d" and "create_table_with_id t columns i c = (r, d) \<Longrightarrow> all_numbered d"
    and "mark_system t c = (r, d) \<Longrightarrow> all_numbered d" and "drop_table t c = (r, d) \<Longrightarrow> all_numbered d"
    and "set_columns_version t columns v c = (r, d) \<Longrightarrow> all_numbered d"
    and "remove_column_version t column v c = (z, d) \<Longrightarrow> all_numbered d"
    and "mark_compacted t c = (r, d) \<Longrightarrow> all_numbered d" and "add_index t column c = (r, d) \<Longrightarrow> all_numbered d"
    and "remove_index t column c = (r, d) \<Longrightarrow> all_numbered d"
    and "set_generation t obj source target c = (r, d) \<Longrightarrow> all_numbered d"
    and "rename_table t u c = (z, d) \<Longrightarrow> all_numbered d" and "normalize_types c = (z, d) \<Longrightarrow> all_numbered d"
proof -
  note entry = all_numbered_entry [OF ok n]
  note cmds = on_entry_def bindM_def getM_def liftM_def modM_def seqM_def okM_def errM_def Let_def
  show "reserve_object_id c = (x, d) \<Longrightarrow> all_numbered d"
    using n by (auto simp: reserve_object_id_def cmds all_numbered_def split: if_splits)
  show "create_table_with_id t columns i c = (r, d) \<Longrightarrow> all_numbered d"
  proof -
    assume r: "create_table_with_id t columns i c = (r, d)"
    have "all_numbered (put_entry t (new_table j columns) (c\<lparr>cg_object_high_water := h\<rparr>))" if "j \<noteq> 0" for j h
      using that n cat_okD(1) [OF ok] by (intro all_numbered_put) (simp_all add: all_numbered_def new_table_def)
    moreover have "cg_object_high_water c + 1 \<noteq> 0" if "cg_object_high_water c \<noteq> - 1"
      using that word_less_Suc [of "cg_object_high_water c"] by auto
    ultimately show "all_numbered d"
      using r n by (auto simp: create_table_with_id_def reserve_object_id_def cmds all_numbered_same split: if_splits option.splits)
  qed
  show "mark_system t c = (r, d) \<Longrightarrow> all_numbered d" "mark_compacted t c = (r, d) \<Longrightarrow> all_numbered d"
    "add_index t column c = (r, d) \<Longrightarrow> all_numbered d" "remove_index t column c = (r, d) \<Longrightarrow> all_numbered d"
    using n by (auto simp: mark_system_def mark_compacted_def add_index_def remove_index_def cmds split: option.splits if_splits intro!: entry)
  show "drop_table t c = (r, d) \<Longrightarrow> all_numbered d"
    using n by (auto simp: drop_table_def cmds all_numbered_def forget_seen_def get_bt_remove split: option.splits if_splits)
  show "set_columns_version t columns v c = (r, d) \<Longrightarrow> all_numbered d"
    "remove_column_version t column v c = (z, d) \<Longrightarrow> all_numbered d"
    using n by (auto simp: set_columns_version_def remove_column_version_def cmds split: option.splits outcome.splits intro!: entry)
  show "set_generation t obj source target c = (r, d) \<Longrightarrow> all_numbered d"
    using n by (auto simp: set_generation_def cmds split: option.splits if_splits intro!: entry)
  show "rename_table t u c = (z, d) \<Longrightarrow> all_numbered d"
    using n cat_okD(1) [OF ok]
    by (auto simp: rename_table_def cmds all_numbered_def put_entry_def forget_seen_def get_bt_insert get_bt_remove
        split: option.splits if_splits outcome.splits)
  assume "normalize_types c = (z, d)"
  then obtain ts' r' where t: "normalize_tables (cg_tables c) False = (ts', r')" "d = c\<lparr>cg_tables := ts'\<rparr>"
    by (auto simp: normalize_types_def cmds split: prod.splits)
  then show "all_numbered d" using normalize_descends [OF t(1)] n by (fastforce simp: all_numbered_def descends_def)
qed

lemma cat_step_numbered:
  assumes s: "cat_step g strict c d" and ok: "cat_ok c" and n: "all_numbered c" and strict
  shows "all_numbered d"
proof -
  note ops = all_numbered_ops [OF ok n]
  have known: "has_number t c" if "entered strict t c" for t
    using that cat_okD(1) [OF ok] n \<open>strict\<close> by (simp add: has_number_def)
  from s show ?thesis
  proof cases
    case local
    have ens: "all_numbered d" if "ensure_columns t r c = (x, d)" "entered strict t c" for t r x
    proof -
      obtain y b where e: "extend_columns t r c = (y, b)" by (cases "extend_columns t r c")
      then have "d = b" using that(1) by (auto simp: ensure_columns_def seqM_def bindM_def okM_def split: outcome.splits)
      then show ?thesis using has_number_extend [OF known [OF that(2)] e] by (simp add: has_number_def)
    qed
    from local show ?thesis
    proof cases
      case (numbered i b t columns r3)
      have "cat_ok b" using evs_reserve [OF ok] numbered(1) by (auto simp: evs_def evolves_def)
      then show ?thesis using all_numbered_ops(2) [OF _ ops(1) [OF numbered(1)]] numbered(2) by blast
    next
      case (ensure t rw r4)
      then show ?thesis using ens by blast
    next
      case (inserted t rw r6)
      then show ?thesis using has_number_insert [OF known [OF inserted(2)] inserted(1)] by (simp add: has_number_def)
    next
      case (deleted t rws)
      then show ?thesis using has_number_delete [OF known [OF deleted(2)]] by (simp add: has_number_def)
    next
      case (rebuilt t rws r7)
      then show ?thesis using has_number_rebuild [OF known [OF rebuilt(2)] rebuilt(1)] by (simp add: has_number_def)
    next
      case (identities n)
      then show ?thesis using all_numbered_same n by simp
    qed (use ops in \<open>auto simp: create_table_def set_columns_def remove_column_def\<close>)
  qed (use ops in auto)
qed

lemma cat_steps_numbered:
  assumes "(cat_step g strict)\<^sup>*\<^sup>* c d" and "cat_ok c" and "all_numbered c" and strict
  shows "all_numbered d"
  using assms(1)
proof (induction rule: rtranclp_induct)
  case (step d e)
  have "cat_ok d" using cat_steps_grow [OF step.hyps(1) assms(2)] by (simp add: grows_def)
  then show ?case using cat_step_numbered [OF step.hyps(2)] step.IH assms(4) by blast
qed (use assms(3) in simp)

text \<open>
  Property (C30).  Object numbers: along any sequence of operations on the dictionary, of requests and of
  the recovery from the log, no two tables share a number other than 0, which marks a table without
  one, and a number that is reserved is not 0 and was not used by any table of the start or of the
  end.  If the operations that count rows are applied to tables of the dictionary only (\<open>strict\<close>),
  tables without a number never arise, so the numbers of all tables differ; otherwise they do
  (\<open>unnumbered_tables\<close>).
\<close>

theorem object_ids_unique:
  assumes "(cat_step g strict)\<^sup>*\<^sup>* c c'" and "cat_ok c" and "reserve_object_id c' = (Ok n, c'')"
    and "map_of (cg_tables c) t = Some e" and "map_of (cg_tables c') u = Some f"
  shows "cat_ok c' \<and> cat_ok c'' \<and> n \<noteq> 0 \<and> ct_object_id e \<noteq> n \<and> ct_object_id f \<noteq> n \<and>
    (\<forall>w h. map_of (cg_tables c') w = Some h \<longrightarrow> ct_object_id h = ct_object_id f \<longrightarrow> ct_object_id f \<noteq> 0 \<longrightarrow> w = u) \<and>
    (strict \<and> all_numbered c \<longrightarrow> ct_object_id f \<noteq> 0)"
proof -
  have g: "cat_ok c'" "cg_object_high_water c \<le> cg_object_high_water c'" using cat_steps_grow [OF assms(1,2)] by (simp_all add: grows_def)
  have n: "n = cg_object_high_water c' + 1" "cg_object_high_water c' \<noteq> - 1" "c'' = c'\<lparr>cg_object_high_water := n\<rparr>"
    using assms(3) by (auto simp: reserve_object_id_def bindM_def getM_def seqM_def modM_def okM_def errM_def split: if_splits)
  have less: "cg_object_high_water c' < n" using word_less_Suc [OF n(2)] n(1) by simp
  have "ct_object_id e \<le> cg_object_high_water c'" using cat_okD(2) [OF assms(2,4)] g(2) by (rule order.trans)
  moreover have "ct_object_id f \<le> cg_object_high_water c'" using cat_okD(2) [OF g(1) assms(5)] .
  moreover have "cat_ok c''" using evolves_ok [OF evolves_same [OF g(1), of c'']] less n(3) by simp
  moreover have "n \<noteq> 0" using less by auto
  moreover have "\<forall>w h. map_of (cg_tables c') w = Some h \<longrightarrow> ct_object_id h = ct_object_id f \<longrightarrow> ct_object_id f \<noteq> 0 \<longrightarrow> w = u"
    using cat_okD(3) [OF g(1) _ assms(5)] by fastforce
  moreover have "strict \<and> all_numbered c \<longrightarrow> ct_object_id f \<noteq> 0"
    using cat_steps_numbered [OF assms(1,2)] assms(5) by (auto simp: all_numbered_def)
  ultimately show ?thesis using g(1) less by auto
qed

text \<open>
  Rows that are inserted into two tables without an entry make two tables with the number 0.  The row
  versions keep their tables by number.
\<close>

theorem unnumbered_tables:
  "\<exists>c. (cat_step g False)\<^sup>*\<^sup>* default_catalog c \<and>
    map_option ct_object_id (map_of (cg_tables c) ''a'') = Some 0 \<and> map_option ct_object_id (map_of (cg_tables c) ''b'') = Some 0"
proof -
  obtain r1 c1 r2 c2 where run: "record_insert g ''a'' [] default_catalog = (r1, c1)" "record_insert g ''b'' [] c1 = (r2, c2)"
    by (metis surj_pair)
  have e: "additions e [] = []" for e by (simp add: additions_def map_filter_def)
  note defs = record_insert_def extend_columns_def add_missing_columns_def e count_values_def stats_of_def put_stats_def put_entry_def
    get_entry_def or_default_def bindM_def seqM_def getM_def modM_def liftM_def okM_def panicM_def default_catalog_def
    default_table_def get_bt_insert
  have 1: "map_option ct_object_id (map_of (cg_tables c1) ''a'') = Some 0" "map_of (cg_tables c1) ''b'' = None" "bt_ok (cg_tables c1)"
    using run(1) by (auto simp: defs bt_ok_Cons)
  then have "map_option ct_object_id (map_of (cg_tables c2) ''a'') = Some 0" "map_option ct_object_id (map_of (cg_tables c2) ''b'') = Some 0"
    using run(2) by (auto simp: defs split: if_splits)
  moreover have "cat_step g False default_catalog c1" "cat_step g False c1 c2"
    using run by (auto intro!: cat_step.local local_step.inserted)
  ultimately show ?thesis by (meson rtranclp.rtrancl_into_rtrancl r_into_rtranclp)
qed

text \<open>Of two states where one evolves into the other, a table keeps its columns with its number and version.\<close>

lemma evolves_columns:
  assumes ev: "evolves c c'" and ok: "cat_ok c"
    and e: "map_of (cg_tables c) t = Some e" and f: "map_of (cg_tables c') u = Some f"
    and same: "ct_object_id f = ct_object_id e" "ct_object_id e \<noteq> 0" "ct_schema_version f = ct_schema_version e"
  shows "columns_eq (ct_columns e) (ct_columns f)"
proof -
  have "\<not> cg_object_high_water c < ct_object_id f" using cat_okD(2) [OF ok e] same(1) by simp
  then obtain t0 e0 where 0: "map_of (cg_tables c) t0 = Some e0" "descends e0 f"
    using ev f same(1,2) unfolding evolves_def by metis
  then have "t0 = t" using cat_okD(3) [OF ok 0(1) e] same(1,2) by (simp add: descends_def)
  then show ?thesis using 0 e same(3) by (simp add: descends_def)
qed

text \<open>
  Property (C31).  The schema version identifies the columns: along any sequence of the operations that
  requests make on the dictionary, the changes with a stamped version and the tables with a reserved
  number included, a table whose object number and schema version are the same at the start and at
  the end has equal columns, whatever happened in between (renames included).  That a request makes
  no other operations on the dictionary is \<open>requests_move_catalog\<close> in theory \<open>Server_Catalog\<close>.
\<close>

theorem schema_version_columns:
  assumes "(local_step g strict)\<^sup>*\<^sup>* c c'" and "cat_ok c"
    and "map_of (cg_tables c) t = Some e" and "map_of (cg_tables c') u = Some f"
    and "ct_object_id f = ct_object_id e" and "ct_object_id e \<noteq> 0" and "ct_schema_version f = ct_schema_version e"
  shows "columns_eq (ct_columns e) (ct_columns f)"
  using evolves_columns [OF local_steps_evolve [OF assms(1,2)] assms(2-7)] .

lemma sample_catalog_ok: "cat_ok sample_catalog"
  by (simp add: cat_ok_def sample_catalog_def bt_ok_def new_table_def)

theorem object_ids_unique_witness:
  "\<exists>d. drop_table ''a'' sample_catalog = (Ok (), d) \<and> reserve_object_id d = (Ok 5, d\<lparr>cg_object_high_water := 5\<rparr>) \<and> (3::u64) \<noteq> 5"
proof -
  obtain d where d: "drop_table ''a'' sample_catalog = (Ok (), d)" "cg_object_high_water d = 4"
    "map_of (cg_tables d) ''b'' = Some (new_table 4 [])"
    by (simp add: drop_table_def on_entry_def sample_catalog_def bindM_def getM_def modM_def forget_seen_def bt_remove_def)
  then have r: "reserve_object_id d = (Ok 5, d\<lparr>cg_object_high_water := 5\<rparr>)"
    by (simp add: reserve_object_id_def bindM_def getM_def seqM_def modM_def okM_def)
  have "(cat_step g True)\<^sup>*\<^sup>* sample_catalog d" for g
    using d(1) by (intro r_into_rtranclp cat_step.local local_step.dropped)
  moreover have "map_of (cg_tables sample_catalog) ''a'' = Some (new_table 3 sample_columns)" by (simp add: sample_catalog_def)
  ultimately have "ct_object_id (new_table 3 sample_columns) \<noteq> 5"
    using object_ids_unique [OF _ sample_catalog_ok r _ d(3)] by blast
  then show ?thesis using d(1) r by (simp add: new_table_def)
qed

theorem schema_version_columns_witness:
  "\<exists>d f. rename_table ''b'' ''z'' sample_catalog = (Ok True, d) \<and> map_of (cg_tables d) ''a'' = Some f \<and> columns_eq sample_columns (ct_columns f)"
proof -
  obtain d f where d: "rename_table ''b'' ''z'' sample_catalog = (Ok True, d)" "map_of (cg_tables d) ''a'' = Some f"
    "ct_object_id f = 3" "ct_schema_version f = 1"
    by (simp add: rename_table_def sample_catalog_def bindM_def getM_def modM_def seqM_def okM_def liftM_def forget_seen_def bt_remove_def
        put_entry_def next_schema_version_def new_table_def default_table_def)
  have run: "(local_step \<lparr>hg_hasher = \<lambda>_. 0, hg_printed = \<lambda>_. []\<rparr> True)\<^sup>*\<^sup>* sample_catalog d"
    using d(1) by (intro r_into_rtranclp local_step.renamed)
  have a: "map_of (cg_tables sample_catalog) ''a'' = Some (new_table 3 sample_columns)" by (simp add: sample_catalog_def)
  have "columns_eq (ct_columns (new_table 3 sample_columns)) (ct_columns f)"
    by (rule schema_version_columns [OF run sample_catalog_ok a d(2)]) (simp_all add: d new_table_def)
  then show ?thesis using d by (auto simp: new_table_def)
qed

section \<open>Loading and saving\<close>





text \<open>Assigning numbers: the old ones stay, the new ones lie above the mark and below the new mark.\<close>

definition ids :: "(string, cat_table) btree_map \<Rightarrow> u64 list" where
  "ids ts = map (ct_object_id \<circ> snd) ts"

lemma ids_simps [simp]: "ids [] = []" "ids ((t, e) # ts) = ct_object_id e # ids ts"
  by (simp_all add: ids_def)




















end
