(* ===== verification/Server_Catalog.thy ===== *)
theory Server_Catalog
  imports Server_Props Catalog_Props
begin

text \<open>
  The requests of \<open>runtime.rs\<close> move the dictionary by the local operations of theory \<open>Catalog_Props\<close>
  and by nothing else: the numbers and the versions that a group is given before it is logged are the
  ones that applying it finds.  So what holds along these operations holds along requests.
\<close>

section \<open>Commands that move by local operations\<close>

text \<open>The view of the dictionary moves by local operations on every outcome.\<close>

definition moves :: "hashing \<Rightarrow> ('s \<Rightarrow> catalog) \<Rightarrow> ('s, 'a) cmd \<Rightarrow> bool" where
  "moves g f m \<longleftrightarrow> (\<forall>s. (local_step g False)\<^sup>*\<^sup>* (f s) (f (snd (m s))))"

named_theorems move_intros

lemma movesD: "moves g f m \<Longrightarrow> m s = (r, t) \<Longrightarrow> (local_step g False)\<^sup>*\<^sup>* (f s) (f t)"
  unfolding moves_def by (metis snd_conv)

lemma moves_leaves: "leaves f m \<Longrightarrow> moves g f m"
  by (simp add: moves_def leaves_def)

lemma moves_step: "(\<And>c r d. m c = (r, d) \<Longrightarrow> local_step g False c d) \<Longrightarrow> moves g (\<lambda>c. c) m"
  unfolding moves_def by (metis prod.collapse r_into_rtranclp)

lemmas moves_basic [move_intros] = leaves_basic [THEN moves_leaves]

lemma moves_bindM [move_intros]:
  assumes "moves g f m" and "\<And>a. moves g f (n a)"
  shows "moves g f (bindM m n)"
  unfolding moves_def
proof
  fix s
  obtain r t where m: "m s = (r, t)" by fastforce
  note steps = movesD [OF assms(1) m]
  show "(local_step g False)\<^sup>*\<^sup>* (f s) (f (snd (bindM m n s)))"
  proof (cases r)
    case (Ok a)
    then show ?thesis using m rtranclp_trans [OF steps] assms(2) [of a] by (simp add: bindM_def moves_def)
  qed (use m steps in \<open>simp_all add: bindM_def\<close>)
qed

lemma moves_seqM [move_intros]: "moves g f m \<Longrightarrow> moves g f n \<Longrightarrow> moves g f (seqM m n)"
  unfolding seqM_def by (intro moves_bindM)

lemma moves_forM [move_intros]: "(\<And>x. x \<in> set xs \<Longrightarrow> moves g f (m x)) \<Longrightarrow> moves g f (forM xs m)"
  by (induction xs) (auto intro!: move_intros)

lemma moves_mapM [move_intros]: "(\<And>x. moves g f (m x)) \<Longrightarrow> moves g f (mapM xs m)"
  by (induction xs) (auto intro!: move_intros)

lemma moves_if [move_intros]: "(b \<Longrightarrow> moves g f m) \<Longrightarrow> (\<not> b \<Longrightarrow> moves g f n) \<Longrightarrow> moves g f (if b then m else n)"
  by simp

lemma moves_split [move_intros]: "(\<And>a b. moves g f (m a b)) \<Longrightarrow> moves g f (case p of (a, b) \<Rightarrow> m a b)"
  by (cases p) simp

lemma moves_option [move_intros]:
  "moves g f m \<Longrightarrow> (\<And>a. moves g f (n a)) \<Longrightarrow> moves g f (case r of None \<Rightarrow> m | Some a \<Rightarrow> n a)"
  by (cases r) simp_all

lemma moves_sum [move_intros]:
  "(\<And>a. moves g f (m a)) \<Longrightarrow> (\<And>b. moves g f (n b)) \<Longrightarrow> moves g f (case r of Inl a \<Rightarrow> m a | Inr b \<Rightarrow> n b)"
  by (cases r) simp_all

lemma moves_Let [move_intros]: "moves g f (m x) \<Longrightarrow> moves g f (let y = x in m y)"
  by simp

lemma moves_catalog [move_intros]: "moves g (\<lambda>c. c) m \<Longrightarrow> moves g se_catalog (on_catalog m)"
  by (simp add: moves_def on_catalog_def split_beta)

section \<open>The operations on the dictionary\<close>

lemma moves_insert_all: "moves g (\<lambda>c. c) (insert_all g t rows changed)"
  by (induction g t rows changed rule: insert_all.induct)
    (auto intro!: move_intros intro: moves_step local_step.inserted)

lemma moves_changes [move_intros]:
  "moves g (\<lambda>c. c) (record_insert g t r)" "moves g (\<lambda>c. c) (rebuild_stats g t rows)"
  "moves g (\<lambda>c. c) (mark_compacted t)" "moves g (\<lambda>c. c) (mark_system t)"
  "moves g (\<lambda>c. c) (drop_table t)" "moves g (\<lambda>c. c) (set_columns t columns)" "moves g (\<lambda>c. c) normalize_types"
  "moves g (\<lambda>c. c) (add_index t column)" "moves g (\<lambda>c. c) (remove_index t column)"
  "moves g (\<lambda>c. c) (set_generation t i src tgt)" "moves g (\<lambda>c. c) reserve_object_id"
  by (rule moves_step, (erule local_step.intros; simp))+

lemma moves_modifies [move_intros]:
  "moves g (\<lambda>c. c) (modM (record_delete g t rows))"
  "moves g (\<lambda>c. c) (modM (\<lambda>c. c\<lparr>cg_identity_high_water := n c\<rparr>))"
  by (auto simp: moves_def modM_def intro!: r_into_rtranclp local_step.deleted local_step.identities)

lemma moves_number: "moves g (\<lambda>c. c) (number_table op)"
  by (cases op rule: number_table.cases) (auto intro!: move_intros)

section \<open>Applying an operation\<close>

lemma beside_catalog: "leaves beside_tables m \<Longrightarrow> leaves se_catalog m"
  by (auto simp: leaves_def beside_tables_def)

lemmas leaves_catalog_tables = leaves_table_ops [THEN beside_catalog] leaves_with_open [THEN beside_catalog]
  leaves_dir_call [THEN beside_catalog]

lemma leaves_catalog_lifts:
  "leaves se_catalog (on_mvcc n)" "leaves se_catalog (on_wal m)" "leaves se_catalog (save lb)" "leaves se_catalog (set_recovery b)"
  by (auto simp: leaves_def on_mvcc_def on_wal_def save_def set_recovery_def modM_def split: prod.split)

lemma leaves_catalog_state:
  "leaves se_catalog (modM (\<lambda>s. s\<lparr>se_generations := a s\<rparr>))" "leaves se_catalog (modM (\<lambda>s. s\<lparr>se_page_lsn := n\<rparr>))"
  "leaves se_catalog (modM (\<lambda>s. s\<lparr>se_retired := x\<rparr>))"
  by (simp_all add: leaves_def modM_def)

lemmas leaves_beside_catalog = leaves_catalog_tables leaves_catalog_lifts leaves_catalog_state
lemmas moves_beside = leaves_beside_catalog [THEN moves_leaves]

lemma moves_remove_quietly: "moves g se_catalog (\<lambda>s. case remove_path p s of
    (Err e, s') \<Rightarrow> if err_kind e = NotFound then (Ok (), s') else (Err e, s') | r \<Rightarrow> r)"
proof (rule moves_leaves)
  show "leaves se_catalog (\<lambda>s. case remove_path p s of
    (Err e, s') \<Rightarrow> if err_kind e = NotFound then (Ok (), s') else (Err e, s') | r \<Rightarrow> r)"
    using leaves_catalog_tables(6) [of p remove_files]
    by (auto simp: leaves_def remove_path_def split: prod.splits outcome.splits) (metis snd_conv)+
qed

text \<open>The operations that are applied as they were asked for, and the ones that are numbered or stamped.\<close>

fun plain_op :: "wal_op \<Rightarrow> bool" where
  "plain_op (WHideColumn t column v) = False"
| "plain_op (WDropColumn t column v rows) = False"
| "plain_op (WReplaceSchema t columns v rows) = False"
| "plain_op (WCreateTable t columns i) = False"
| "plain_op op = True"

lemma moves_rewrites:
  "moves g se_catalog (create_empty p)" "moves g se_catalog (remove_path p)" "moves g se_catalog (remove_indexes t cols)"
  "moves g se_catalog (rewrite_system lb t rows)" "moves g se_catalog (clean_grants lb removed t)"
proof -
  show create: "moves g se_catalog (create_empty p)" for p unfolding create_empty_def by (intro moves_beside)
  show remove: "moves g se_catalog (remove_path p)" for p unfolding remove_path_def by (intro moves_beside)
  show "moves g se_catalog (remove_indexes t cols)" unfolding remove_indexes_def by (intro move_intros remove)
  show "moves g se_catalog (rewrite_system lb t rows)" unfolding rewrite_system_def by (intro move_intros moves_beside create)
  show "moves g se_catalog (clean_grants lb removed t)"
    unfolding clean_grants_def by (simp only: Let_def) (intro move_intros moves_beside)
qed

lemma moves_accounts: "moves (lb_hash lb) se_catalog (apply_accounts lb as removed m)"
  by (simp only: apply_accounts_def declare_system_schema_def declare_identities_def Let_def)
    (intro move_intros moves_beside moves_rewrites)

lemma moves_apply_plain:
  assumes "plain_op op"
  shows "moves (lb_hash lb) se_catalog (apply_op lb op)"
  using assms
  by (cases op) (auto simp: apply_migrate_def apply_compact_def apply_insert_def apply_insert_batch_def apply_delete_keys_def
      apply_replace_all_def apply_drop_table_def apply_create_index_def apply_drop_index_def
      intro!: move_intros moves_beside moves_insert_all moves_rewrites moves_accounts)

section \<open>Applying a numbered or stamped operation\<close>

text \<open>
  From the dictionary \<open>c\<close>, which came from \<open>c0\<close>, the command ends in one that local operations reach
  from \<open>c0\<close>: the next one may need what was reserved between the two.
\<close>

definition moves_from :: "hashing \<Rightarrow> catalog \<Rightarrow> catalog \<Rightarrow> (server, 'a) cmd \<Rightarrow> bool" where
  "moves_from g c0 c m \<longleftrightarrow> (\<forall>s. se_catalog s = c \<longrightarrow> (local_step g False)\<^sup>*\<^sup>* c0 (se_catalog (snd (m s))))"

lemma moves_fromI: "(local_step g False)\<^sup>*\<^sup>* c0 c \<Longrightarrow> moves g se_catalog m \<Longrightarrow> moves_from g c0 c m"
  by (auto simp: moves_from_def moves_def intro: rtranclp_trans)

lemma moves_from_after:
  assumes "(local_step g False)\<^sup>*\<^sup>* c0 c" and "leaves se_catalog m" and "\<And>a. moves_from g c0 c (n a)"
  shows "moves_from g c0 c (bindM m n)"
  unfolding moves_from_def
proof (intro allI impI)
  fix s :: server assume s: "se_catalog s = c"
  obtain r t where m: "m s = (r, t)" by fastforce
  then have "se_catalog t = c" using leavesD [OF assms(2)] s by metis
  then show "(local_step g False)\<^sup>*\<^sup>* c0 (se_catalog (snd (bindM m n s)))"
    using m assms(1,3) by (cases r) (simp_all add: bindM_def moves_from_def)
qed

lemma moves_from_then:
  assumes "moves_from g c0 c m" and "\<And>a. moves g se_catalog (n a)"
  shows "moves_from g c0 c (bindM m n)"
  unfolding moves_from_def
proof (intro allI impI)
  fix s :: server assume s: "se_catalog s = c"
  obtain r t where m: "m s = (r, t)" by fastforce
  then have steps: "(local_step g False)\<^sup>*\<^sup>* c0 (se_catalog t)" using assms(1) s unfolding moves_from_def by (metis snd_conv)
  then show "(local_step g False)\<^sup>*\<^sup>* c0 (se_catalog (snd (bindM m n s)))"
  proof (cases r)
    case (Ok a)
    then show ?thesis using m rtranclp_trans [OF steps] assms(2) [of a] by (simp add: bindM_def moves_def)
  qed (use m steps in \<open>simp_all add: bindM_def\<close>)
qed

lemma moves_from_catalog:
  assumes "\<And>r d. m c = (r, d) \<Longrightarrow> (local_step g False)\<^sup>*\<^sup>* c0 d"
  shows "moves_from g c0 c (on_catalog m)"
  using assms [OF prod.collapse [symmetric]] by (auto simp: moves_from_def on_catalog_def split_beta)

lemmas moves_from_seq_after = moves_from_after [where n = "\<lambda>_. n" for n, folded seqM_def]
lemmas moves_from_seq_then = moves_from_then [where n = "\<lambda>_. n" for n, folded seqM_def]

text \<open>What the operation must be for the dictionary \<open>c\<close> that comes from \<open>c0\<close>.\<close>

fun fits :: "catalog \<Rightarrow> catalog \<Rightarrow> wal_op \<Rightarrow> bool" where
  "fits c0 c (WHideColumn t column v) \<longleftrightarrow> c = c0 \<and> v \<noteq> None \<and> (\<exists>w b. remove_column t column c = (Ok w, b) \<and> version_stamp t b = v)"
| "fits c0 c (WDropColumn t column v rows) \<longleftrightarrow> c = c0 \<and> v \<noteq> None \<and> (\<exists>w b. remove_column t column c = (Ok w, b) \<and> version_stamp t b = v)"
| "fits c0 c (WReplaceSchema t columns v rows) \<longleftrightarrow> c = c0 \<and> v \<noteq> None \<and>
     (\<exists>u b. set_columns t columns c = (Ok u, b) \<and> version_stamp t b = v)"
| "fits c0 c (WCreateTable t columns i) \<longleftrightarrow> (\<exists>n. i = Some n \<and> reserve_object_id c0 = (Ok n, c))"
| "fits c0 c op \<longleftrightarrow> c = c0"

lemma fits_steps: "fits c0 c op \<Longrightarrow> (local_step g False)\<^sup>*\<^sup>* c0 c"
  by (cases op) (auto intro: local_step.reserve)

lemma moves_from_apply:
  assumes "fits c0 c op"
  shows "moves_from (lb_hash lb) c0 c (apply_op lb op)"
proof -
  note here = fits_steps [OF assms, of "lb_hash lb"]
  note tail = move_intros moves_beside moves_rewrites moves_remove_quietly
  have change: "moves_from (lb_hash lb) c0 c (on_catalog m)" if "\<And>r d. m c = (r, d) \<Longrightarrow> local_step (lb_hash lb) False c0 d"
    for m :: "(catalog, 'x) cmd"
    using that by (intro moves_from_catalog r_into_rtranclp)
  show ?thesis
  proof (cases "plain_op op")
    case True
    then show ?thesis by (intro moves_fromI [OF here] moves_apply_plain)
  next
    case False
    then consider (hide) t column v where "op = WHideColumn t column v" | (column) t column v rows where "op = WDropColumn t column v rows"
      | (schema) t columns v rows where "op = WReplaceSchema t columns v rows" | (create) t columns i where "op = WCreateTable t columns i"
      by (cases op) simp_all
    then show ?thesis
    proof cases
      case hide
      then have "moves_from (lb_hash lb) c0 c (on_catalog (remove_column_version t column v))"
        using assms by (intro change) (auto intro: local_step.stamped_column)
      then show ?thesis unfolding hide apply_op.simps apply_hide_column_def by (rule moves_from_seq_then) (intro tail)
    next
      case column
      then have step: "moves_from (lb_hash lb) c0 c (on_catalog (remove_column_version t column v))"
        using assms by (intro change) (auto intro: local_step.stamped_column)
      show ?thesis unfolding column apply_op.simps apply_drop_column_def
        by (intro moves_from_seq_after [OF here leaves_beside_catalog(9)], rule moves_from_seq_then [OF step]) (intro tail)
    next
      case schema
      then have step: "moves_from (lb_hash lb) c0 c (on_catalog (set_columns_version t columns v))"
        using assms by (intro change) (auto intro: local_step.stamped_columns)
      show ?thesis unfolding schema apply_op.simps apply_replace_schema_def
        by (intro moves_from_after [OF here leaves_basic(4)] moves_from_seq_after [OF here leaves_beside_catalog(9)],
            rule moves_from_seq_then [OF step]) (intro tail)
    next
      case create
      then have made: "moves_from (lb_hash lb) c0 c (on_catalog (create_table_with_id t columns i))"
        using assms by (intro change) (auto intro: local_step.numbered)
      have generation: "leaves se_catalog (if \<not> taken then okM [] else (case i of
          None \<Rightarrow> errM (other_error ''new table object id missing'') | Some i \<Rightarrow> okM (hex32 i)))" for taken
        by (intro frame_intros)
      show ?thesis unfolding create apply_op.simps apply_create_table_def
        by (intro moves_from_after [OF here leaves_basic(4)] moves_from_after [OF here generation] moves_from_seq_after [OF here leaves_catalog_state(1)]
            moves_from_seq_after [OF here leaves_beside_catalog(1)], rule moves_from_seq_then [OF made]) (intro tail)
    qed
  qed
qed

section \<open>Groups\<close>

text \<open>A single operation comes without a number of its own; several come from a transaction and are plain.\<close>

fun unnumbered :: "wal_op \<Rightarrow> bool" where
  "unnumbered (WCreateTable t columns i) \<longleftrightarrow> i = None"
| "unnumbered op = True"

lemma leaves_catalog_publish:
  "leaves se_catalog (version_tables lb)" "leaves se_catalog (publish_mvcc lb csn)" "leaves se_catalog (publish_changed_mvcc lb csn ops)"
  "leaves se_catalog stored_checkpoint" "leaves se_catalog (ensure_mvcc lb)"
  unfolding version_tables_def publish_mvcc_def publish_changed_mvcc_def scan_schema_def stored_checkpoint_def ensure_mvcc_def
  by (intro frame_intros leaves_beside_catalog)+

lemma leaves_catalog_checks:
  "leaves se_catalog (forM ops (check_op lb))" "leaves se_catalog (validate_insert_ids lb ops)" "leaves se_catalog (preview_ops ops')"
  unfolding check_op_def check_row_keys_def preview_ops_def
  by (intro frame_intros leaves_ids [THEN beside_catalog])+

lemma moves_prepare: "moves g se_catalog (prepare_group lb ops)"
  unfolding prepare_group_def
  by (intro move_intros moves_number moves_beside leaves_catalog_checks [THEN moves_leaves] leaves_catalog_publish [THEN moves_leaves])

lemma prepare_parts:
  assumes "prepare_group lb ops s = (Ok stamped, t)"
  obtains numbered where "mapM ops number_table (se_catalog s) = (Ok numbered, se_catalog t)"
    and "(if list_ex (needs_schema_preview (se_catalog t)) numbered then fst (mapM numbered preview_op (se_catalog t)) else Ok numbered) = Ok stamped"
proof -
  obtain a1 s1 a2 s2 a3 s3 numbered s4 s5 a6 where run: "forM ops (check_op lb) s = (Ok a1, s1)" "validate_insert_ids lb ops s1 = (Ok a2, s2)"
    "dir_call s2 = (Ok a3, s3)" "on_catalog (mapM ops number_table) s3 = (Ok numbered, s4)"
    "preview_ops numbered s4 = (Ok stamped, s5)" "ensure_mvcc lb s5 = (Ok a6, t)"
    using assms by (auto simp: prepare_group_def okM_def dest!: seqM_Ok bindM_Ok)
  have s3: "se_catalog s3 = se_catalog s"
    using leavesD [OF leaves_catalog_checks(1) run(1)] leavesD [OF leaves_catalog_checks(2) run(2)] leavesD [OF leaves_catalog_tables(10) run(3)] by simp
  have t: "se_catalog t = se_catalog s4" "s5 = s4"
    using leavesD [OF leaves_catalog_checks(3) run(5)] leavesD [OF leaves_catalog_publish(5) run(6)] run(5)
    by (auto simp: preview_ops_def bindM_def getM_def liftM_def okM_def split: if_splits)
  show ?thesis
  proof (rule that [of numbered])
    show "mapM ops number_table (se_catalog s) = (Ok numbered, se_catalog t)"
      using run(4) s3 t(1) by (auto simp: on_catalog_def split: prod.splits)
    show "(if list_ex (needs_schema_preview (se_catalog t)) numbered then fst (mapM numbered preview_op (se_catalog t)) else Ok numbered) = Ok stamped"
      using run(5) t(1) by (auto simp: preview_ops_def bindM_def getM_def liftM_def okM_def split: if_splits)
  qed
qed

lemma next_version_stamp: "next_version t b = (Ok v, d) \<Longrightarrow> d = b \<and> v \<noteq> None \<and> version_stamp t b = v"
  by (auto simp: next_version_def version_stamp_def describe_def bindM_def getM_def okM_def errM_def split: option.splits)

lemma number_fits:
  assumes "number_table op c = (Ok op', d)" and "unnumbered op"
  shows "(\<exists>t columns n. op' = WCreateTable t columns (Some n) \<and> reserve_object_id c = (Ok n, d)) \<or> op' = op \<and> d = c \<and> (\<forall>t columns i. op \<noteq> WCreateTable t columns i)"
  using assms by (cases op rule: number_table.cases) (auto simp: okM_def dest!: bindM_Ok)

lemma preview_fits:
  assumes "preview_op op c = (Ok op', d)" and "\<forall>t columns i. op \<noteq> WCreateTable t columns i"
  shows "fits c c op'"
  using assms by (cases op) (auto simp: okM_def dest!: seqM_Ok bindM_Ok next_version_stamp)

lemma prepare_fits:
  assumes "prepare_group lb [op] s = (Ok stamped, t)" and "unnumbered op"
  obtains op' where "stamped = [op']" and "fits (se_catalog s) (se_catalog t) op'"
proof -
  let ?c = "se_catalog s" and ?d = "se_catalog t"
  obtain numbered where n: "mapM [op] number_table ?c = (Ok numbered, ?d)"
    and p: "(if list_ex (needs_schema_preview ?d) numbered then fst (mapM numbered preview_op ?d) else Ok numbered) = Ok stamped"
    using prepare_parts [OF assms(1)] .
  obtain op1 where op1: "number_table op ?c = (Ok op1, ?d)" "numbered = [op1]"
    using n by (auto simp: okM_def dest!: bindM_Ok)
  consider (create) u columns k where "op1 = WCreateTable u columns (Some k)" "reserve_object_id ?c = (Ok k, ?d)"
    | (other) "op1 = op" "?d = ?c" "\<forall>t columns i. op \<noteq> WCreateTable t columns i"
    using number_fits [OF op1(1) assms(2)] by blast
  then show ?thesis
  proof cases
    case create
    then show ?thesis using that [of op1] p op1(2) by simp
  next
    case other
    show ?thesis
    proof (cases "needs_schema_preview ?c op")
      case True
      then obtain op' e where "preview_op op ?c = (Ok op', e)" "stamped = [op']"
        using p op1(2) other by (auto simp: bindM_def okM_def split: outcome.splits prod.splits)
      then show ?thesis using that [of op'] preview_fits [of op ?c op'] other by simp
    next
      case False
      then have "plain_op op" using other(3) by (cases op) simp_all
      moreover have "stamped = [op]" using False p op1(2) other by simp
      ultimately show ?thesis using that [of op] other by (cases op) simp_all
    qed
  qed
qed

lemma moves_group_end:
  "moves (lb_hash lb) se_catalog (seqM (forM ops (flush_op_tables lb)) (seqM (if b then flush_all_tables lb else okM ()) (publish_changed_mvcc lb lsn ops)))"
  "moves (lb_hash lb) se_catalog (seqM (close_group lb lsn) (set_recovery False))"
  unfolding close_group_def by (intro move_intros moves_beside leaves_catalog_publish [THEN moves_leaves])+

lemma moves_group:
  assumes "unnumbered op"
  shows "moves (lb_hash lb) se_catalog (group_via_wal lb [op])"
  unfolding moves_def
proof
  fix s
  obtain r t where p: "prepare_group lb [op] s = (r, t)" by fastforce
  show "(local_step (lb_hash lb) False)\<^sup>*\<^sup>* (se_catalog s) (se_catalog (snd (group_via_wal lb [op] s)))"
  proof (cases r)
    case (Ok stamped)
    obtain op' where op': "stamped = [op']" "fits (se_catalog s) (se_catalog t) op'"
      using prepare_fits [OF p [unfolded Ok] assms] .
    note here = fits_steps [OF op'(2), of "lb_hash lb"]
    have "moves_from (lb_hash lb) (se_catalog s) (se_catalog t) (forM [op'] (apply_op lb))"
      unfolding forM.simps by (rule moves_from_seq_then [OF moves_from_apply [OF op'(2)]]) (intro move_intros)
    then have "moves_from (lb_hash lb) (se_catalog s) (se_catalog t) (apply_group lb lsn stamped)" for lsn
      unfolding apply_group_def op'(1)
      by (intro moves_from_seq_after [OF here leaves_catalog_state(2)]) (erule moves_from_seq_then, rule moves_group_end)
    then have "moves_from (lb_hash lb) (se_catalog s) (se_catalog t) (bindM (on_wal (append_group (lb_serde lb) stamped)) (\<lambda>lsn.
       seqM (set_recovery True) (seqM (apply_group lb lsn stamped) (seqM (close_group lb lsn) (set_recovery False)))))"
      by (intro moves_from_after [OF here] moves_from_seq_after [OF here] leaves_catalog_lifts moves_from_seq_then moves_group_end)
    then show ?thesis using p Ok by (simp add: group_via_wal_def bindM_def moves_from_def)
  qed (use p movesD [OF moves_prepare p] in \<open>simp_all add: group_via_wal_def bindM_def\<close>)
qed

lemma mapM_same:
  assumes "mapM xs m s = (Ok ys, t)" and "\<And>x u r v. x \<in> set xs \<Longrightarrow> m x u = (Ok r, v) \<Longrightarrow> r = x"
  shows "ys = xs"
  using assms
proof (induction xs arbitrary: s ys t)
  case (Cons x xs)
  obtain y u zs where y: "m x s = (Ok y, u)" "mapM xs m u = (Ok zs, t)" "ys = y # zs"
    using Cons.prems(1) by (auto simp: okM_def dest!: bindM_Ok)
  then show ?case using Cons.IH [OF y(2)] Cons.prems(2) by (metis list.set_intros)
qed (simp add: okM_def)

lemma plain_kept:
  assumes "plain_op op"
  shows "number_table op c = (Ok r, d) \<Longrightarrow> r = op" and "preview_op op c' = (Ok r, d') \<Longrightarrow> r = op"
  using assms by (cases op; auto simp: okM_def dest!: seqM_Ok)+

lemma prepare_plain:
  assumes "prepare_group lb ops s = (Ok stamped, t)" and "list_all plain_op ops"
  shows "stamped = ops"
proof -
  obtain numbered where n: "mapM ops number_table (se_catalog s) = (Ok numbered, se_catalog t)"
    and p: "(if list_ex (needs_schema_preview (se_catalog t)) numbered then fst (mapM numbered preview_op (se_catalog t)) else Ok numbered) = Ok stamped"
    using prepare_parts [OF assms(1)] .
  have "numbered = ops" using mapM_same [OF n] plain_kept(1) assms(2) by (auto simp: list_all_iff)
  moreover have "zs = ops" if "fst (mapM ops preview_op c) = Ok zs" for zs c
    using mapM_same [of ops preview_op c zs] plain_kept(2) assms(2) that by (metis list_all_iff prod.collapse)
  ultimately show ?thesis using p by (auto split: if_splits)
qed

lemma moves_group_plain:
  assumes "list_all plain_op ops"
  shows "moves (lb_hash lb) se_catalog (group_via_wal lb ops)"
  unfolding moves_def
proof
  fix s
  obtain r t where p: "prepare_group lb ops s = (r, t)" by fastforce
  have "moves (lb_hash lb) se_catalog (apply_group lb lsn ops)" for lsn
    using assms unfolding apply_group_def list_all_iff
    by (intro moves_seqM [OF moves_leaves [OF leaves_catalog_state(2)]] moves_seqM [OF moves_forM] moves_apply_plain moves_group_end) simp
  then have rest: "moves (lb_hash lb) se_catalog (bindM (on_wal (append_group (lb_serde lb) ops)) (\<lambda>lsn.
      seqM (set_recovery True) (seqM (apply_group lb lsn ops) (seqM (close_group lb lsn) (set_recovery False)))))"
    by (intro move_intros moves_beside moves_group_end)
  show "(local_step (lb_hash lb) False)\<^sup>*\<^sup>* (se_catalog s) (se_catalog (snd (group_via_wal lb ops s)))"
  proof (cases r)
    case (Ok stamped)
    then have "stamped = ops" using prepare_plain p assms by blast
    then show ?thesis using p Ok rtranclp_trans [OF movesD [OF moves_prepare p]] rest by (simp add: group_via_wal_def bindM_def moves_def)
  qed (use p movesD [OF moves_prepare p] in \<open>simp_all add: group_via_wal_def bindM_def\<close>)
qed

section \<open>Requests\<close>

lemma moves_liftM: "(\<And>a. r = Ok a \<Longrightarrow> moves g f (n a)) \<Longrightarrow> moves g f (bindM (liftM r) n)"
  by (cases r) (auto simp: moves_def bindM_def liftM_def)

lemma normalized_unnumbered:
  "normalize_decimal_write p c op = Ok op' \<Longrightarrow> unnumbered op \<Longrightarrow> unnumbered op'"
  by (cases op) (auto simp: normalize_decimal_write_def map_outcome_def split: outcome.splits)

lemma moves_write: "unnumbered op \<Longrightarrow> moves (lb_hash lb) se_catalog (write_via_wal lb op)"
  unfolding write_via_wal_def
  by (intro moves_bindM [OF moves_basic(4)] moves_if moves_basic(2) moves_liftM moves_seqM [OF moves_basic(5)] moves_group)
    (rule normalized_unnumbered)

lemma transaction_plain: "transaction_op lb c op = Ok w \<Longrightarrow> plain_op w"
  by (cases op) (auto simp: transaction_op_def normalize_decimal_write_def map_outcome_def bindO_def split: if_splits outcome.splits)

lemma collect_all: "collect f xs = Ok ys \<Longrightarrow> (\<And>x y. f x = Ok y \<Longrightarrow> P y) \<Longrightarrow> list_all P ys"
  by (induction xs arbitrary: ys) (auto split: outcome.splits)

lemma moves_transaction: "moves (lb_hash lb) se_catalog (apply_transaction lb ops)"
  unfolding apply_transaction_def
  by (intro moves_bindM [OF moves_basic(4)] moves_if moves_basic(2) moves_liftM moves_group_plain)
    (erule collect_all, rule transaction_plain)

lemma moves_respond: "moves g f m \<Longrightarrow> moves g f (respond before m)"
  by (auto simp: moves_def respond_def split: prod.splits outcome.splits dest: spec) (metis snd_conv)+

lemma moves_answer_parts:
  "moves g f m \<Longrightarrow> moves g f (answer_ok m)" "moves g f n \<Longrightarrow> moves g f (answer_rows n)"
  by (auto simp: answer_ok_def answer_rows_def intro!: move_intros)

lemma leaves_catalog_reads:
  "leaves se_catalog (read_mstate q)" "leaves se_catalog (on_mstate m)" "leaves se_catalog domain_checkpoint"
  "leaves se_catalog (domain_snapshot lb)" "leaves se_catalog collect_retired" "leaves se_catalog (second_handle t n)"
  "leaves se_catalog (scan_shard lb t columns shard shards)"
proof -
  show "leaves se_catalog (read_mstate q)" for q :: "mstate \<Rightarrow> 'x outcome" by (rule leaves_read_mstate)
  show "leaves se_catalog (on_mstate m)" unfolding on_mstate_def by (rule leaves_catalog_lifts)
  show cp: "leaves se_catalog domain_checkpoint" unfolding domain_checkpoint_def by (intro frame_intros leaves_catalog_publish)
  show "leaves se_catalog (domain_snapshot lb)" unfolding domain_snapshot_def by (intro frame_intros leaves_catalog_publish cp)
  have "leaves se_catalog (remove_path p)" for p unfolding remove_path_def by (rule leaves_catalog_tables)
  then have "leaves se_catalog (collect_loop oldest before retired)" for oldest before retired
    by (induction oldest before retired rule: collect_loop.induct) (auto intro!: frame_intros leaves_catalog_state)
  then show "leaves se_catalog collect_retired" unfolding collect_retired_def by (intro frame_intros)
  show second: "leaves se_catalog (second_handle t n)" for n :: "(page_file, 'y) cmd"
    by (auto simp: leaves_def second_handle_def on_path_def Let_def split: option.split prod.split)
  show "leaves se_catalog (scan_shard lb t columns shard shards)" unfolding scan_shard_def by (intro frame_intros second)
qed

lemmas moves_reads = leaves_catalog_reads [THEN moves_leaves] leaves_catalog_publish [THEN moves_leaves]

lemma moves_commit: "moves (lb_hash lb) se_catalog (mvcc_commit lb token cp)"
proof -
  have "moves (lb_hash lb) se_catalog (commit_transaction lb token cp)"
    unfolding commit_transaction_def by (intro move_intros moves_reads moves_transaction)
  then show ?thesis using leaves_catalog_reads(2) [of "modM fail_all"]
    by (simp add: moves_def mvcc_commit_def leaves_def split_beta)
qed

lemma leaves_catalog_checked:
  "leaves se_catalog (check_columns t columns)" "leaves se_catalog (check_create_index lb t column)"
  "leaves se_catalog (check_drop_index t column)" "leaves se_catalog (describe_table t)"
  unfolding check_columns_def check_create_index_def check_drop_index_def describe_table_def
  by (intro frame_intros leaves_beside_catalog)+

lemma leaves_catalog_lookups:
  "leaves se_catalog (lookup_by_index lb t column key)" "leaves se_catalog (range_by_index lb t column lo hi)"
  "leaves se_catalog (mvcc_begin lb serializable tables)" "leaves se_catalog (mvcc_preview token tables)"
proof -
  show "leaves se_catalog (lookup_by_index lb t column key)"
    by (auto simp: lookup_by_index_def Let_def answer_rows_def intro!: frame_intros leaves_respond leaves_catch leaves_beside_catalog)
  show "leaves se_catalog (range_by_index lb t column lo hi)"
    unfolding range_by_index_def by (intro leaves_respond frame_intros leaves_beside_catalog)
  show "leaves se_catalog (mvcc_begin lb serializable tables)" "leaves se_catalog (mvcc_preview token tables)"
    unfolding mvcc_begin_def mvcc_preview_def by (intro frame_intros leaves_catalog_publish leaves_catalog_reads)+
qed

lemmas moves_lookups = leaves_catalog_checked [THEN moves_leaves] leaves_catalog_lookups [THEN moves_leaves]

lemma moves_writes:
  "moves (lb_hash lb) se_catalog (create_table_request lb t columns)" "moves (lb_hash lb) se_catalog (drop_table_request lb t)"
  "unnumbered op \<Longrightarrow> moves (lb_hash lb) se_catalog (write_request lb name op)"
  "unnumbered op \<Longrightarrow> leaves se_catalog check \<Longrightarrow> moves (lb_hash lb) se_catalog (index_request lb name t column check op)"
  "moves (lb_hash lb) se_catalog (drop_column lb t column)" "moves (lb_hash lb) se_catalog (compact_table lb t)"
  "moves (lb_hash lb) se_catalog (alter_domain lb t columns cp)"
  by (auto simp: create_table_request_def drop_table_request_def write_request_def index_request_def drop_column_def compact_table_def
      alter_domain_def intro!: move_intros moves_respond moves_answer_parts moves_write moves_reads moves_beside leaves_catch [THEN moves_leaves])

text \<open>
  The dictionary after a request comes from the one before by local operations, if that is so of the
  requests of the identities, which the model of the requests takes as a parameter; the operation
  that they log is plain (\<open>moves_group_plain\<close>).
\<close>

theorem requests_move_catalog:
  assumes "\<And>req. moves (lb_hash lb) se_catalog (elsewhere req)"
  shows "moves (lb_hash lb) se_catalog (dispatch lb elsewhere req)"
proof -
  have "moves (lb_hash lb) se_catalog (answer lb elsewhere req)"
    using assms
    by (cases req) (auto intro!: move_intros moves_respond moves_answer_parts moves_writes moves_lookups moves_reads moves_beside
        moves_transaction moves_commit leaves_catalog_checked)
  then show ?thesis unfolding dispatch_def by (intro move_intros)
qed

text \<open>So is what the start of a database does after the recovery.\<close>

lemma moves_bootstrap:
  "moves (lb_hash lb) se_catalog (rebuild_all_stats lb)" "moves (lb_hash lb) se_catalog (migrate_rows lb)"
  "moves (lb_hash lb) se_catalog (compact_tables lb)"
proof -
  have stats: "moves (lb_hash lb) se_catalog (rebuild_table_stats lb t)" for t
    unfolding rebuild_table_stats_def by (intro move_intros moves_beside)
  have migrate: "moves (lb_hash lb) se_catalog (migrate_table lb t)" for t
    unfolding migrate_table_def by (intro move_intros moves_beside moves_write) simp
  show "moves (lb_hash lb) se_catalog (rebuild_all_stats lb)"
    unfolding rebuild_all_stats_def by (intro move_intros stats moves_beside)
  show "moves (lb_hash lb) se_catalog (migrate_rows lb)"
    unfolding migrate_rows_def by (intro move_intros migrate moves_beside)
  show "moves (lb_hash lb) se_catalog (compact_tables lb)"
    unfolding compact_tables_def by (intro move_intros moves_writes)
qed

text \<open>
  Along any requests a table with the same object number and schema version has the same columns, and
  no two tables share a number other than 0.
\<close>

definition serve :: "libs \<Rightarrow> (request \<Rightarrow> (server, response) cmd) \<Rightarrow> request list \<Rightarrow> server \<Rightarrow> server" where
  "serve lb elsewhere reqs s = foldl (\<lambda>s req. snd (dispatch lb elsewhere req s)) s reqs"

lemma serve_moves:
  assumes "\<And>req. moves (lb_hash lb) se_catalog (elsewhere req)"
  shows "(local_step (lb_hash lb) False)\<^sup>*\<^sup>* (se_catalog s) (se_catalog (serve lb elsewhere reqs s))"
proof (induction reqs arbitrary: s)
  case (Cons req reqs)
  have "(local_step (lb_hash lb) False)\<^sup>*\<^sup>* (se_catalog s) (se_catalog (snd (dispatch lb elsewhere req s)))"
    using requests_move_catalog [OF assms] by (simp add: moves_def)
  then show ?case using Cons.IH [of "snd (dispatch lb elsewhere req s)"] by (simp add: serve_def)
qed (simp add: serve_def)

theorem serve_keeps_versions:
  assumes "\<And>req. moves (lb_hash lb) se_catalog (elsewhere req)" and "cat_ok (se_catalog s)"
    and "describe (se_catalog s) t = Some e" and "describe (se_catalog (serve lb elsewhere reqs s)) u = Some f"
    and "ct_object_id f = ct_object_id e" and "ct_object_id e \<noteq> 0" and "ct_schema_version f = ct_schema_version e"
  shows "columns_eq (ct_columns e) (ct_columns f) \<and> cat_ok (se_catalog (serve lb elsewhere reqs s))"
proof -
  have ev: "evolves (se_catalog s) (se_catalog (serve lb elsewhere reqs s))"
    using local_steps_evolve [OF serve_moves [OF assms(1)] assms(2)] .
  then show ?thesis using evolves_columns [OF ev assms(2) _ _ assms(5-7)] evolves_ok [OF ev] assms(3,4) by (simp add: describe_def)
qed

end
