(* ===== verification/Mvcc_Locks.thy ===== *)
theory Mvcc_Locks
  imports Mvcc_Versions
begin

text \<open>
  Transactions of the multi-version store running concurrently.  The search for a deadlock finds
  exactly the waiting cycles.  The requests of several clients interleave as a step relation, in
  which a lock request proceeds one key at a time and may sleep between attempts; every reachable
  state keeps locks exclusive, and a transaction sees the same rows until it ends.
\<close>

section \<open>Waiting cycles\<close>

definition waits :: "(string, transaction) hash_map \<Rightarrow> string rel" where
  "waits txs = {(a, b). \<exists>tx. map_of txs a = Some tx \<and> b \<in> set (tx_waiting tx)}"

definition unvisited :: "(string, transaction) hash_map \<Rightarrow> string list \<Rightarrow> nat" where
  "unvisited txs vis = card (fst ` set txs - set vis)"

lemma unvisited_mono: "set vis \<subseteq> set vis' \<Longrightarrow> unvisited txs vis' \<le> unvisited txs vis"
  unfolding unvisited_def by (intro card_mono) auto

lemma unvisited_Cons: "map_of txs c \<noteq> None \<Longrightarrow> c \<notin> set vis \<Longrightarrow> unvisited txs (c # vis) < unvisited txs vis"
  unfolding unvisited_def
  by (intro psubset_card_mono) (auto simp: map_of_eq_None_iff)

text \<open>
  The search is sound, and when it finds nothing, every node it visited has all its successors
  among the visited ones and none of them is the target.
\<close>

lemma cycle_spec:
  "unvisited txs vis < n \<Longrightarrow> cycle n txs c t vis = (b, vis') \<Longrightarrow>
     (b \<longrightarrow> (c, t) \<in> (waits txs)\<^sup>+) \<and>
     (\<not> b \<longrightarrow> set vis \<subseteq> set vis' \<and> c \<in> set vis' \<and>
       (\<forall>x y. x \<in> set vis' - set vis \<and> (x, y) \<in> waits txs \<longrightarrow> y \<noteq> t \<and> y \<in> set vis'))"
  "unvisited txs vis < n \<Longrightarrow> cycle_any n txs ws t vis = (b, vis') \<Longrightarrow>
     (b \<longrightarrow> (\<exists>w \<in> set ws. w = t \<or> (w, t) \<in> (waits txs)\<^sup>+)) \<and>
     (\<not> b \<longrightarrow> set vis \<subseteq> set vis' \<and> set ws \<subseteq> set vis' \<and> t \<notin> set ws \<and>
       (\<forall>x y. x \<in> set vis' - set vis \<and> (x, y) \<in> waits txs \<longrightarrow> y \<noteq> t \<and> y \<in> set vis'))"
proof (induction n txs c t vis and n txs ws t vis arbitrary: b vis' and b vis' rule: cycle_cycle_any.induct)
  case (2 n txs c t vis)
  show ?case
  proof (cases "c \<in> set vis \<or> map_of txs c = None")
    case True
    then show ?thesis using 2(3) by (auto simp: waits_def split: if_splits)
  next
    case False
    then obtain tx where tx: "map_of txs c = Some tx" by auto
    have less: "unvisited txs (c # vis) < n" using unvisited_Cons [of txs c vis] False 2(2) by simp
    have any: "cycle_any n txs (tx_waiting tx) t (c # vis) = (b, vis')" using 2(3) False tx by simp
    have edge: "(c, w) \<in> waits txs \<longleftrightarrow> w \<in> set (tx_waiting tx)" for w using tx by (simp add: waits_def)
    note IH = 2(1) [OF _ tx less any]
    have "(c, t) \<in> (waits txs)\<^sup>+" if found: b
    proof -
      obtain w where "w \<in> set (tx_waiting tx)" "w = t \<or> (w, t) \<in> (waits txs)\<^sup>+" using IH False found by blast
      then show ?thesis using edge by (meson r_into_trancl trancl_into_trancl2)
    qed
    moreover have "set vis \<subseteq> set vis' \<and> c \<in> set vis' \<and>
       (\<forall>x y. x \<in> set vis' - set vis \<and> (x, y) \<in> waits txs \<longrightarrow> y \<noteq> t \<and> y \<in> set vis')" if "\<not> b"
    proof -
      have "set (c # vis) \<subseteq> set vis'" "set (tx_waiting tx) \<subseteq> set vis'" "t \<notin> set (tx_waiting tx)"
        "\<forall>x y. x \<in> set vis' - set (c # vis) \<and> (x, y) \<in> waits txs \<longrightarrow> y \<noteq> t \<and> y \<in> set vis'"
        using IH False that by blast+
      note C = this
      have "y \<noteq> t \<and> y \<in> set vis'" if xy: "x \<in> set vis' - set vis" "(x, y) \<in> waits txs" for x y
      proof (cases "x = c")
        case True
        then have "y \<in> set (tx_waiting tx)" using xy(2) edge by simp
        then show ?thesis using C(2,3) by blast
      next
        case False
        then show ?thesis using C(4) xy by auto
      qed
      then show ?thesis using C(1) by auto
    qed
    ultimately show ?thesis by blast
  qed
next
  case (4 n txs w ws t vis)
  show ?case
  proof (cases "w = t")
    case True
    then show ?thesis using 4(4) by auto
  next
    case False
    obtain b1 vis1 where one: "cycle n txs w t vis = (b1, vis1)" by (cases "cycle n txs w t vis") auto
    note IH1 = 4(1) [OF False 4(3) one]
    show ?thesis
    proof (cases b1)
      case True
      then show ?thesis using IH1 one False 4(4) by auto
    next
      case no: False
      then have any: "cycle_any n txs ws t vis1 = (b, vis')" using 4(4) one False by simp
      have sub: "set vis \<subseteq> set vis1" "w \<in> set vis1"
        "\<forall>x y. x \<in> set vis1 - set vis \<and> (x, y) \<in> waits txs \<longrightarrow> y \<noteq> t \<and> y \<in> set vis1" using IH1 no by blast+
      have "unvisited txs vis1 < n" using unvisited_mono [OF sub(1), of txs] 4(3) by simp
      note IH2 = 4(2) [OF False one [symmetric] _ this any]
      show ?thesis
      proof (cases b)
        case True
        then show ?thesis using IH2 no by auto
      next
        case nb: False
        then have C: "set vis1 \<subseteq> set vis'" "set ws \<subseteq> set vis'" "t \<notin> set ws"
          "\<forall>x y. x \<in> set vis' - set vis1 \<and> (x, y) \<in> waits txs \<longrightarrow> y \<noteq> t \<and> y \<in> set vis'" using IH2 no by blast+
        have "y \<noteq> t \<and> y \<in> set vis'" if xy: "x \<in> set vis' - set vis" "(x, y) \<in> waits txs" for x y
          using sub(3) C(1,4) xy by (cases "x \<in> set vis1") blast+
        then show ?thesis using nb C(1-3) sub(1,2) False by auto
      qed
    qed
  qed
qed auto

lemma on_cycle_waits: "on_cycle st token \<longleftrightarrow> (token, token) \<in> (waits (ms_transactions st))\<^sup>+"
proof -
  let ?txs = "ms_transactions st"
  define n where "n = Suc (length ?txs)"
  obtain b vis where r: "cycle n ?txs token token [] = (b, vis)" by (cases "cycle n ?txs token token []")
  have "unvisited ?txs [] < n"
    using card_length [of "map fst ?txs"] by (simp add: unvisited_def n_def)
  note spec = cycle_spec(1) [OF this r]
  have "(token, token) \<notin> (waits ?txs)\<^sup>+" if "\<not> b"
  proof
    have closed: "token \<in> set vis" "\<And>x y. x \<in> set vis \<Longrightarrow> (x, y) \<in> waits ?txs \<Longrightarrow> y \<noteq> token \<and> y \<in> set vis"
      using spec that by auto
    assume "(token, token) \<in> (waits ?txs)\<^sup>+"
    moreover have "y \<noteq> token \<and> y \<in> set vis" if "(token, y) \<in> (waits ?txs)\<^sup>+" for y
      using that
    proof (induction rule: trancl_induct)
      case (base y)
      then show ?case using closed by blast
    next
      case (step y z)
      then show ?case using closed by blast
    qed
    ultimately show False by blast
  qed
  then show ?thesis using spec by (auto simp: on_cycle_def n_def [symmetric] r)
qed

text \<open>
  Property (C27).  The deadlock check of a waiting transaction answers yes exactly when a chain
  of waiting transactions leads from it back to itself.
\<close>

theorem on_cycle_iff: "on_cycle st token \<longleftrightarrow> (token, token) \<in> (waits (ms_transactions st))\<^sup>+"
  by (rule on_cycle_waits)

section \<open>Interleaved requests\<close>

text \<open>
  A lock request in progress: its transaction, the keys still to lock and the planned
  operations.  The state of the store and the requests in progress make up a configuration.
  Each step runs one critical section of the mutex to its end.
\<close>

type_synonym request_state = "string \<times> (lock_key \<times> bool) list \<times> storage_op list"
type_synonym config = "mstate \<times> request_state list"

inductive mv_step :: "string \<Rightarrow> config \<Rightarrow> config \<Rightarrow> bool" for nonce where
  begins: "begin_selected nonce schemas serializable selected st = (r, st') \<Longrightarrow> mv_step nonce (st, rq) (st', rq)"
| asks: "lock_start token ops reads st = (Ok ks, st') \<Longrightarrow> mv_step nonce (st, rq) (st', (token, ks, ops) # rq)"
| refused: "lock_start token ops reads st = (Err e, st') \<Longrightarrow> mv_step nonce (st, rq) (lock_failed token e st', rq)"
| granted: "lock_try timed_out token key exclusive st = (Ok True, st') \<Longrightarrow>
    mv_step nonce (st, rq1 @ (token, (key, exclusive) # ks, ops) # rq2) (st', rq1 @ (token, ks, ops) # rq2)"
| sleeps: "lock_try timed_out token key exclusive st = (Ok False, st') \<Longrightarrow>
    mv_step nonce (st, rq1 @ (token, (key, exclusive) # ks, ops) # rq2) (st', rq1 @ (token, (key, exclusive) # ks, ops) # rq2)"
| gives_up: "lock_try timed_out token key exclusive st = (Err e, st') \<Longrightarrow>
    mv_step nonce (st, rq1 @ (token, (key, exclusive) # ks, ops) # rq2) (lock_failed token e st', rq1 @ rq2)"
| locked: "lock_finish token ops st = (Ok (), st') \<Longrightarrow> mv_step nonce (st, rq1 @ (token, [], ops) # rq2) (st', rq1 @ rq2)"
| unlocked: "lock_finish token ops st = (Err e, st') \<Longrightarrow>
    mv_step nonce (st, rq1 @ (token, [], ops) # rq2) (lock_failed token e st', rq1 @ rq2)"
| publishes: "publishable (ms_durable st) csn schemas tables \<Longrightarrow>
    publish_next (ms_durable st) csn (oldest_or csn (ms_transactions st)) schemas tables = Ok d' \<Longrightarrow>
    mv_step nonce (st, rq) (st\<lparr>ms_durable := d'\<rparr>, rq)"
| finishes: "mv_step nonce (st, rq) (finish token st, rq)"
| fails: "mv_step nonce (st, rq) (fail_all st, rq)"

inductive_cases mv_stepE: "mv_step nonce (st, rq) c'"

section \<open>Exclusive locks\<close>

text \<open>The locks of a transaction that can still commit.\<close>

definition holds :: "mstate \<Rightarrow> string \<Rightarrow> lock_key \<Rightarrow> bool option" where
  "holds st t key = (case map_of (ms_transactions st) t of
       None \<Rightarrow> None
     | Some tx \<Rightarrow> if tx_aborted tx = None then map_of (tx_held tx) key else None)"

definition locks_ok :: "mstate \<Rightarrow> bool" where
  "locks_ok st \<longleftrightarrow> hm_ok (ms_transactions st) \<and>
     (\<forall>t tx. map_of (ms_transactions st) t = Some tx \<longrightarrow> bt_ok (tx_held tx)) \<and>
     (\<forall>t u key b c. t \<noteq> u \<longrightarrow> holds st t key = Some b \<longrightarrow> holds st u key = Some c \<longrightarrow> \<not> b \<and> \<not> c)"

lemma locks_okD:
  assumes "locks_ok st"
  shows "hm_ok (ms_transactions st)" and "map_of (ms_transactions st) t = Some tx \<Longrightarrow> bt_ok (tx_held tx)"
    and "t \<noteq> u \<Longrightarrow> holds st t key = Some b \<Longrightarrow> holds st u key = Some c \<Longrightarrow> \<not> b \<and> \<not> c"
  using assms unfolding locks_ok_def by blast+

lemma locks_ok_same:
  assumes "ms_transactions st' = ms_transactions st"
  shows "locks_ok st' = locks_ok st"
proof -
  have "holds st' = holds st" by (simp add: fun_eq_iff holds_def assms)
  then show ?thesis by (simp only: locks_ok_def assms)
qed

text \<open>A step that gives no transaction a lock keeps locks exclusive.\<close>

lemma locks_ok_shrink:
  assumes ok: "locks_ok st" and "hm_ok (ms_transactions st')"
    and "\<And>t tx. map_of (ms_transactions st') t = Some tx \<Longrightarrow> bt_ok (tx_held tx)"
    and sub: "\<And>t key b. holds st' t key = Some b \<Longrightarrow> holds st t key = Some b"
  shows "locks_ok st'"
  using assms(2,3) locks_okD(3) [OF ok] sub unfolding locks_ok_def by metis

lemma get_update_tx: "map_of (ms_transactions (update_tx token f st)) t =
    (if t = token then map_option f (map_of (ms_transactions st) t) else map_of (ms_transactions st) t)"
  by (simp add: update_tx_def get_hm_map option.map_ident)

lemma hm_ok_update_tx [simp]: "hm_ok (ms_transactions (update_tx token f st)) = hm_ok (ms_transactions st)"
  by (simp add: update_tx_def)

lemma locks_ok_update_tx:
  assumes ok: "locks_ok st" and f: "\<And>tx. tx_held (f tx) = tx_held tx" "\<And>tx. tx_aborted (f tx) = tx_aborted tx"
  shows "locks_ok (update_tx token f st)"
proof (rule locks_ok_shrink [OF ok])
  show "bt_ok (tx_held tx)" if "map_of (ms_transactions (update_tx token f st)) t = Some tx" for t tx
    using that locks_okD(2) [OF ok] f by (auto simp: get_update_tx split: if_splits)
  show "holds st t key = Some b" if "holds (update_tx token f st) t key = Some b" for t key b
    using that f by (auto simp: holds_def get_update_tx split: if_splits option.splits)
qed (use locks_okD(1) [OF ok] in simp)

lemma locks_ok_abort:
  assumes ok: "locks_ok st"
  shows "locks_ok (abort token msg st)"
proof (rule locks_ok_shrink [OF ok])
  show "bt_ok (tx_held tx)" if "map_of (ms_transactions (abort token msg st)) t = Some tx" for t tx
    using that locks_okD(2) [OF ok] by (auto simp: abort_def get_hm_map split: if_splits)
  show "holds st t key = Some b" if "holds (abort token msg st) t key = Some b" for t key b
    using that by (auto simp: holds_def abort_def get_hm_map split: if_splits option.splits)
qed (use locks_okD(1) [OF ok] in \<open>simp add: abort_def\<close>)

text \<open>A lock is granted only when no other live transaction holds it in a conflicting way.\<close>

lemma no_blockers:
  assumes "hm_ok (ms_transactions st)" and "blockers st token key exclusive = []" and "t \<noteq> token" and "holds st t key = Some b"
  shows "\<not> b \<and> \<not> exclusive"
proof -
  obtain tx where tx: "map_of (ms_transactions st) t = Some tx" "tx_aborted tx = None" "map_of (tx_held tx) key = Some b"
    using assms(4) by (auto simp: holds_def split: option.splits if_splits)
  have "(t, tx) \<in> set (ms_transactions st)" using tx(1) by (rule map_of_SomeD)
  then show ?thesis using assms(2,3) tx(2,3) by (auto simp: blockers_def filter_empty_conv)
qed

lemma locks_ok_grant:
  assumes ok: "locks_ok st" and none: "blockers st token key exclusive = []"
  shows "locks_ok (update_tx token (grant key exclusive) st)" (is "locks_ok ?st")
  unfolding locks_ok_def
proof (intro conjI allI impI)
  show "hm_ok (ms_transactions ?st)" using locks_okD(1) [OF ok] by simp
  show "bt_ok (tx_held tx)" if "map_of (ms_transactions ?st) t = Some tx" for t tx
    using that locks_okD(2) [OF ok] by (auto simp: get_update_tx grant_def split: if_splits)
  have other: "holds ?st t k = holds st t k" if "t \<noteq> token" for t k using that by (simp add: holds_def get_update_tx)
  have mine: "holds st token k = Some b \<or> k = key \<and> b = (exclusive \<or> holds st token key = Some True)"
    if h: "holds ?st token k = Some b" for k b
  proof -
    obtain tx where tx: "map_of (ms_transactions st) token = Some tx" "tx_aborted tx = None"
      "map_of (tx_held (grant key exclusive tx)) k = Some b"
      using h by (auto simp: holds_def get_update_tx grant_def split: option.splits if_splits)
    then show ?thesis using get_bt_insert [OF locks_okD(2) [OF ok tx(1)]]
      by (auto simp: grant_def holds_def split: if_splits)
  qed
  have pair: "\<not> b \<and> \<not> c" if t: "t \<noteq> token" and h: "holds ?st token k = Some b" "holds ?st t k = Some c" for t k b c
  proof -
    have c: "holds st t k = Some c" using h(2) other [OF t] by simp
    from mine [OF h(1)] show ?thesis
    proof
      assume "holds st token k = Some b"
      then show ?thesis using locks_okD(3) [OF ok t [symmetric]] c by blast
    next
      assume k: "k = key \<and> b = (exclusive \<or> holds st token key = Some True)"
      have "\<not> c \<and> \<not> exclusive" using no_blockers [OF locks_okD(1) [OF ok] none t] c k by simp
      moreover have "holds st token key \<noteq> Some True" using locks_okD(3) [OF ok t [symmetric], of key True] c k by auto
      ultimately show ?thesis using k by simp
    qed
  qed
  fix t u k b c
  assume "t \<noteq> u" "holds ?st t k = Some b" "holds ?st u k = Some c"
  then show "\<not> b" "\<not> c"
    using pair [of t k c b] pair [of u k b c] other [of t k] other [of u k] locks_okD(3) [OF ok, of t u k b c]
    by (metis)+
qed

lemma locks_ok_lock_failed: "locks_ok st \<Longrightarrow> locks_ok (lock_failed token e st)"
  by (simp add: lock_failed_def locks_ok_abort)

text \<open>The operations on locks, one by one.\<close>

lemma bind_getM [simp]: "bindM (getM g) f s = f (g s) s"
  by (simp add: bindM_def getM_def)

lemma bind_liftM [simp]: "bindM (liftM r) f s = (case r of Ok a \<Rightarrow> f a s | Err e \<Rightarrow> (Err e, s) | Panic \<Rightarrow> (Panic, s))"
  by (simp add: bindM_def liftM_def split: outcome.split)

lemma seq_modM [simp]: "seqM (modM g) m s = m (g s)"
  by (simp add: seqM_def bindM_def modM_def)

lemma seq_liftM [simp]: "seqM (liftM r) m s = (case r of Ok a \<Rightarrow> m s | Err e \<Rightarrow> (Err e, s) | Panic \<Rightarrow> (Panic, s))"
  by (simp add: seqM_def)

definition token_of :: "string \<Rightarrow> u64 \<Rightarrow> string" where
  "token_of nonce n = nonce @ ''-'' @ dec_digits (unat n)"

lemma begin_cases:
  assumes "begin_selected nonce schemas serializable selected st = (r, st')"
  obtains (same) "ms_transactions st' = ms_transactions st" "ms_durable st' = ms_durable st"
      "ms_next_transaction st' = ms_next_transaction st \<or>
       ms_next_transaction st \<noteq> - 1 \<and> ms_next_transaction st' = ms_next_transaction st + 1"
  | (started) tx where "ms_transactions st' = hm_insert (token_of nonce (ms_next_transaction st + 1)) tx (ms_transactions st)"
      "tx_held tx = []" "tx_snapshot tx = du_csn (ms_durable st)" "ms_durable st' = ms_durable st"
      "ms_next_transaction st \<noteq> - 1" "ms_next_transaction st' = ms_next_transaction st + 1"
  using assms
  by (auto simp: begin_selected_def Let_def errM_def okM_def token_of_def split: if_splits outcome.splits)

lemma locks_ok_begin:
  assumes ok: "locks_ok st" and b: "begin_selected nonce schemas serializable selected st = (r, st')"
  shows "locks_ok st'"
  using b
proof (cases rule: begin_cases)
  case same
  then show ?thesis using ok locks_ok_same by blast
next
  case (started tx)
  show ?thesis
  proof (rule locks_ok_shrink [OF ok])
    show "hm_ok (ms_transactions st')" using locks_okD(1) [OF ok] hm.ok_put started(1) by metis
    show "bt_ok (tx_held tx)" if "map_of (ms_transactions st') t = Some tx" for t tx
      using started(1,2) that locks_okD(2) [OF ok] by (auto simp: update_conv' split: if_splits)
    show "holds st t key = Some v" if "holds st' t key = Some v" for t key v
      using started(1,2) that by (auto simp: holds_def update_conv' split: if_splits option.splits)
  qed
qed

lemma locks_ok_lock_start:
  assumes "locks_ok st" and "lock_start token ops reads st = (r, st')"
  shows "locks_ok st'"
  using assms
  by (auto simp: lock_start_def panicM_def okM_def intro!: locks_ok_update_tx split: outcome.splits option.splits)

lemma locks_ok_lock_try:
  assumes "locks_ok st" and "lock_try timed_out token key exclusive st = (r, st')"
  shows "locks_ok st'"
  using assms locks_ok_grant [OF assms(1), of token key exclusive]
  by (auto simp: lock_try_def abort_with_def okM_def errM_def Let_def intro!: locks_ok_update_tx locks_ok_abort
      split: outcome.splits if_splits)

lemma locks_ok_lock_finish:
  assumes "locks_ok st" and "lock_finish token ops st = (r, st')"
  shows "locks_ok st'"
  using assms by (auto simp: lock_finish_def modM_def intro!: locks_ok_update_tx split: outcome.splits)

lemma locks_ok_finish:
  assumes ok: "locks_ok st"
  shows "locks_ok (finish token st)"
proof (rule locks_ok_shrink [OF ok])
  have txs: "ms_transactions (finish token st) =
      hm_map (\<lambda>_ tx. tx\<lparr>tx_waiting := removeAll token (tx_waiting tx)\<rparr>) (hm_remove token (ms_transactions st))"
    by (simp add: finish_def prune_def Let_def)
  show "hm_ok (ms_transactions (finish token st))" using hm.ok_del [OF locks_okD(1) [OF ok]] by (simp add: txs)
  show "bt_ok (tx_held tx)" if "map_of (ms_transactions (finish token st)) t = Some tx" for t tx
    using that locks_okD(2) [OF ok] by (auto simp: txs get_hm_map delete_conv' split: if_splits)
  show "holds st t key = Some b" if "holds (finish token st) t key = Some b" for t key b
    using that by (auto simp: holds_def txs get_hm_map delete_conv' split: option.splits if_splits)
qed

lemma locks_ok_fail_all:
  assumes "locks_ok st"
  shows "locks_ok (fail_all st)"
proof -
  have "locks_ok (foldl (\<lambda>st token. abort token msg st) s ts)" if "locks_ok s" for s ts msg
    using that by (induction ts arbitrary: s) (auto intro: locks_ok_abort)
  then show ?thesis using assms by (simp add: fail_all_def)
qed

lemma locks_ok_step:
  assumes "mv_step nonce (st, rq) (st', rq')" and "locks_ok st"
  shows "locks_ok st'"
  using assms
proof (cases rule: mv_step.cases)
  case (publishes csn schemas tables d')
  then show ?thesis using assms(2) locks_ok_same [of st' st] by simp
qed (auto intro: locks_ok_begin locks_ok_lock_start locks_ok_lock_try locks_ok_lock_finish locks_ok_lock_failed
      locks_ok_finish locks_ok_fail_all)

text \<open>The store right after opening: no transactions.\<close>

definition opened :: "mstate \<Rightarrow> bool" where
  "opened st \<longleftrightarrow> ms_transactions st = [] \<and> durable_ok (ms_durable st)"

text \<open>
  Property (C26).  In every state that any interleaving of requests can reach from an opened
  store, no two transactions that can still commit hold the same lock unless both share it.
\<close>

theorem locks_exclusive:
  fixes st :: mstate
  assumes "(mv_step nonce)\<^sup>*\<^sup>* (st, []) (st', rq)" and "opened st"
    and "t \<noteq> u" and "holds st' t key = Some b" and "holds st' u key = Some c"
  shows "\<not> b \<and> \<not> c"
proof -
  have "locks_ok st'"
    using assms(1)
  proof (induction rule: rtranclp_induct2)
    case refl
    then show ?case using assms(2) by (simp add: locks_ok_def holds_def hm_ok_def opened_def)
  next
    case (step st1 rq1 st2 rq2)
    then show ?case using locks_ok_step by blast
  qed
  then show ?thesis using locks_okD(3) assms(3-5) by blast
qed

text \<open>Two transactions begin on an empty table and share its lock.\<close>

definition sample_opened :: mstate where
  "sample_opened = \<lparr>ms_durable = sample_durable\<lparr>du_tables := [(7, sample_history\<lparr>hs_rows := []\<rparr>)]\<rparr>, ms_transactions = [],
     ms_next_transaction = 0\<rparr>"

definition sample_begun :: mstate where
  "sample_begun = (let start = begin_selected ''n'' [sample_schema 7] False (Some []) in snd (start (snd (start sample_opened))))"

definition sample_asked :: mstate where
  "sample_asked = snd (lock_start ''n-2'' [Delete ''items'' []] [] (snd (lock_start ''n-1'' [Delete ''items'' []] [] sample_begun)))"

definition sample_shared :: mstate where
  "sample_shared = snd (lock_try False ''n-2'' (KTable 7) False (snd (lock_try False ''n-1'' (KTable 7) False sample_asked)))"

lemma sample_requests:
  "fst (lock_start ''n-1'' [Delete ''items'' []] [] sample_begun) = Ok [(KTable 7, False)]"
  "fst (lock_start ''n-2'' [Delete ''items'' []] [] (snd (lock_start ''n-1'' [Delete ''items'' []] [] sample_begun))) = Ok [(KTable 7, False)]"
  "fst (lock_try False ''n-1'' (KTable 7) False sample_asked) = Ok True"
  "fst (lock_try False ''n-2'' (KTable 7) False (snd (lock_try False ''n-1'' (KTable 7) False sample_asked))) = Ok True"
  by code_simp+

lemma sample_holds: "holds sample_shared ''n-1'' (KTable 7) = Some False" "holds sample_shared ''n-2'' (KTable 7) = Some False"
  by code_simp+

lemma sample_run: "\<exists>rq. (mv_step ''n'')\<^sup>*\<^sup>* (sample_opened, []) (sample_shared, rq)"
proof -
  let ?b = "begin_selected ''n'' [sample_schema 7] False (Some [])"
  let ?c = "snd (lock_start ''n-1'' [Delete ''items'' []] [] sample_begun)"
  let ?e = "snd (lock_try False ''n-1'' (KTable 7) False sample_asked)"
  let ?r = "\<lambda>t ks. (t, ks, [Delete ''items'' []])"
  have "mv_step ''n'' (sample_opened, []) (snd (?b sample_opened), [])"
    by (rule mv_step.begins) (rule surjective_pairing)
  then have "(mv_step ''n'')\<^sup>*\<^sup>* (sample_opened, []) (snd (?b sample_opened), [])" by blast
  also have "mv_step ''n'' (snd (?b sample_opened), []) (sample_begun, [])"
    unfolding sample_begun_def Let_def by (rule mv_step.begins) (rule surjective_pairing)
  also have "mv_step ''n'' (sample_begun, []) (?c, [?r ''n-1'' [(KTable 7, False)]])"
    by (rule mv_step.asks) (rule prod_eqI, simp_all add: sample_requests)
  also have "mv_step ''n'' (?c, [?r ''n-1'' [(KTable 7, False)]]) (sample_asked, [?r ''n-2'' [(KTable 7, False)], ?r ''n-1'' [(KTable 7, False)]])"
    by (rule mv_step.asks) (rule prod_eqI, simp_all add: sample_requests sample_asked_def)
  also have "mv_step ''n'' (sample_asked, [?r ''n-2'' [(KTable 7, False)], ?r ''n-1'' [(KTable 7, False)]]) (?e, [?r ''n-2'' [(KTable 7, False)], ?r ''n-1'' []])"
    using mv_step.granted [of False "''n-1''" "KTable 7" False sample_asked ?e "''n''" "[?r ''n-2'' [(KTable 7, False)]]" "[]" _ "[]"]
    by (simp add: prod_eq_iff sample_requests)
  also have "mv_step ''n'' (?e, [?r ''n-2'' [(KTable 7, False)], ?r ''n-1'' []]) (sample_shared, [?r ''n-2'' [], ?r ''n-1'' []])"
    using mv_step.granted [of False "''n-2''" "KTable 7" False ?e sample_shared "''n''" "[]" "[]" _ "[?r ''n-1'' []]"]
    by (simp add: prod_eq_iff sample_requests sample_shared_def)
  finally show ?thesis by blast
qed

theorem locks_exclusive_witness:
  "\<not> the (holds sample_shared ''n-1'' (KTable 7)) \<and> \<not> the (holds sample_shared ''n-2'' (KTable 7))"
proof -
  obtain rq where run: "(mv_step ''n'')\<^sup>*\<^sup>* (sample_opened, []) (sample_shared, rq)" using sample_run by blast
  have "opened sample_opened"
    by (simp add: opened_def sample_opened_def durable_ok_def rows_ok_def sample_durable_def bt_ok_def)
  then show ?thesis using locks_exclusive [OF run _ _ sample_holds] sample_holds by simp
qed

section \<open>Repeatable reads\<close>

text \<open>The snapshot of a transaction that can still commit.\<close>

definition snap :: "mstate \<Rightarrow> string \<Rightarrow> u64 option" where
  "snap st t = (case map_of (ms_transactions st) t of
       None \<Rightarrow> None
     | Some tx \<Rightarrow> if tx_aborted tx = None then Some (tx_snapshot tx) else None)"

text \<open>No transaction comes to life, and numbers and versions stay.\<close>

definition calm :: "mstate \<Rightarrow> mstate \<Rightarrow> bool" where
  "calm st st' \<longleftrightarrow> ms_durable st' = ms_durable st \<and> ms_next_transaction st' = ms_next_transaction st \<and>
     (hm_ok (ms_transactions st) \<longrightarrow> hm_ok (ms_transactions st')) \<and>
     fst ` set (ms_transactions st') \<subseteq> fst ` set (ms_transactions st) \<and>
     (\<forall>t s. snap st' t = Some s \<longrightarrow> snap st t = Some s)"

lemma calm_refl [simp]: "calm st st"
  by (simp add: calm_def)

lemma calm_trans: "calm st st1 \<Longrightarrow> calm st1 st2 \<Longrightarrow> calm st st2"
  by (simp add: calm_def subset_iff)

lemma calm_update_tx:
  assumes "\<And>tx. tx_aborted (f tx) = tx_aborted tx" and "\<And>tx. tx_snapshot (f tx) = tx_snapshot tx"
  shows "calm st (update_tx token f st)"
proof -
  have "snap (update_tx token f st) t = snap st t" for t
    using assms by (simp add: snap_def get_update_tx split: option.split)
  then show ?thesis by (simp add: calm_def hm_ok_def update_tx_def hm_map_def image_image comp_def)
qed

lemma calm_abort: "calm st (abort token msg st)"
proof -
  have "snap st t = Some s" if "snap (abort token msg st) t = Some s" for t s
    using that by (auto simp: snap_def abort_def get_hm_map split: option.splits if_splits)
  then show ?thesis by (simp add: calm_def abort_def hm_map_def image_image hm_ok_def comp_def)
qed

lemma calm_lock_failed: "calm st st' \<Longrightarrow> calm st (lock_failed token e st')"
  using calm_trans [OF _ calm_abort] by (simp add: lock_failed_def)

lemma calm_lock_start: "lock_start token ops reads st = (r, st') \<Longrightarrow> calm st st'"
  by (auto simp: lock_start_def panicM_def okM_def intro!: calm_update_tx split: outcome.splits option.splits)

lemma calm_lock_try: "lock_try timed_out token key exclusive st = (r, st') \<Longrightarrow> calm st st'"
  by (auto simp: lock_try_def abort_with_def okM_def errM_def Let_def grant_def
      intro!: calm_update_tx calm_trans [OF calm_update_tx calm_abort] split: outcome.splits if_splits)

lemma calm_lock_finish: "lock_finish token ops st = (r, st') \<Longrightarrow> calm st st'"
  by (auto simp: lock_finish_def modM_def intro!: calm_update_tx split: outcome.splits)

lemma calm_fail_all: "calm st (fail_all st)"
proof -
  have "calm s (foldl (\<lambda>st token. abort token msg st) s ts)" for s ts msg
    by (induction ts arbitrary: s) (auto intro: calm_trans [OF calm_abort])
  then show ?thesis by (simp add: fail_all_def)
qed

text \<open>The invariant: a well-formed catalog, live snapshots up to the last commit, tokens numbered
  by the counter.\<close>

definition issued :: "string \<Rightarrow> u64 \<Rightarrow> string set" where
  "issued nonce n = {t. \<exists>k \<le> n. t = token_of nonce k}"

definition store_ok :: "string \<Rightarrow> mstate \<Rightarrow> bool" where
  "store_ok nonce st \<longleftrightarrow> durable_ok (ms_durable st) \<and> hm_ok (ms_transactions st) \<and>
     (\<forall>t s. snap st t = Some s \<longrightarrow> s \<le> du_csn (ms_durable st)) \<and>
     fst ` set (ms_transactions st) \<subseteq> issued nonce (ms_next_transaction st)"

lemma store_ok_calm:
  assumes "store_ok nonce st" and "calm st st'"
  shows "store_ok nonce st'"
proof -
  have "fst ` set (ms_transactions st') \<subseteq> issued nonce (ms_next_transaction st')"
    using assms unfolding store_ok_def calm_def by (metis subset_trans)
  moreover have "s \<le> du_csn (ms_durable st')" if "snap st' t = Some s" for t s
    using assms that unfolding store_ok_def calm_def by metis
  ultimately show ?thesis using assms by (simp add: store_ok_def calm_def)
qed

lemma issued_mono:
  assumes "m \<le> n"
  shows "issued nonce m \<subseteq> issued nonce n"
proof
  fix t assume "t \<in> issued nonce m"
  then obtain k where "k \<le> m" "t = token_of nonce k" by (auto simp: issued_def)
  moreover from this(1) assms have "k \<le> n" by (rule order.trans)
  ultimately show "t \<in> issued nonce n" by (auto simp: issued_def)
qed

lemma dec_digits_inject: "dec_digits m = dec_digits n \<longleftrightarrow> m = n"
  by (metis dec_digits_facts)

lemma token_of_inject [simp]: "token_of nonce m = token_of nonce n \<longleftrightarrow> m = n"
  by (simp add: token_of_def dec_digits_inject word_eq_iff_unsigned [where ?'a = nat])

lemma live_snapshot:
  assumes "store_ok nonce st" and "snap st t = Some s"
  obtains tx where "(t, tx) \<in> set (ms_transactions st)" "tx_aborted tx = None" "tx_snapshot tx = s"
  using assms(2) by (auto simp: snap_def split: option.splits if_splits dest!: map_of_SomeD)

lemma oldest_live: "store_ok nonce st \<Longrightarrow> snap st t = Some s \<Longrightarrow> oldest_or csn (ms_transactions st) \<le> s"
  using live_snapshot oldest_least by metis

lemma live_bound:
  assumes ok: "store_ok nonce st" and "du_csn (ms_durable st) \<le> csn"
  shows "oldest_or csn (ms_transactions st) \<le> csn"
proof (rule oldest_bound, clarify)
  fix t tx assume "(t, tx) \<in> set (ms_transactions st)" "tx_aborted tx = None"
  then have "snap st t = Some (tx_snapshot tx)"
    using ok map_of_is_SomeI [of "ms_transactions st" t tx] by (simp add: snap_def store_ok_def hm_ok_def)
  then have "tx_snapshot tx \<le> du_csn (ms_durable st)" using ok by (simp add: store_ok_def)
  then show "tx_snapshot tx \<le> csn" using assms(2) by (rule order.trans)
qed

text \<open>One step: the invariant, and the view of a transaction that lives on.\<close>

definition follows_view :: "string \<Rightarrow> mstate \<Rightarrow> mstate \<Rightarrow> bool" where
  "follows_view nonce st st' \<longleftrightarrow> store_ok nonce st' \<and> ms_next_transaction st \<le> ms_next_transaction st' \<and>
     (\<forall>t s. snap st' t = Some s \<and> t \<in> issued nonce (ms_next_transaction st) \<longrightarrow> snap st t = Some s \<and>
       (\<forall>tid. snapshot_rows (ms_durable st') tid s = snapshot_rows (ms_durable st) tid s))"

lemma view_calm: "store_ok nonce st \<Longrightarrow> calm st st' \<Longrightarrow> follows_view nonce st st'"
  using store_ok_calm [of nonce st st'] by (auto simp: follows_view_def calm_def)

lemma view_begin:
  assumes ok: "store_ok nonce st" and b: "begin_selected nonce schemas serializable selected st = (r, st')"
  shows "follows_view nonce st st'"
  using b
proof (cases rule: begin_cases)
  case same
  then have "snap st' = snap st" by (simp add: fun_eq_iff snap_def)
  moreover have "ms_next_transaction st \<le> ms_next_transaction st'"
    using same(3) word_less_Suc [of "ms_next_transaction st", THEN less_imp_le] by auto
  moreover have "store_ok nonce st'"
    using ok same(1,2) calculation issued_mono [OF calculation(2), of nonce] unfolding store_ok_def by auto
  ultimately show ?thesis using same(2) by (simp add: follows_view_def)
next
  case (started tx)
  let ?n = "ms_next_transaction st"
  have less: "?n < ?n + 1" using started(5) by (rule word_less_Suc)
  have s: "snap st' t = (if t = token_of nonce (?n + 1) then (if tx_aborted tx = None then Some (tx_snapshot tx) else None) else snap st t)" for t
    by (simp add: snap_def started(1) update_conv')
  have old: "t \<noteq> token_of nonce (?n + 1)" if "t \<in> issued nonce ?n" for t using that less leD by (auto simp: issued_def)
  have new: "token_of nonce (?n + 1) \<in> issued nonce (?n + 1)" by (auto simp: issued_def)
  have keys: "fst ` set (ms_transactions st') \<subseteq> insert (token_of nonce (?n + 1)) (fst ` set (ms_transactions st))"
    by (simp add: started(1) dom_update)
  have "store_ok nonce st'"
    unfolding store_ok_def
  proof (intro conjI allI impI)
    show "durable_ok (ms_durable st')" using ok started(4) by (simp add: store_ok_def)
    have "hm_ok (ms_transactions st)" using ok by (simp add: store_ok_def)
    then show "hm_ok (ms_transactions st')" unfolding started(1) by (rule hm.ok_put)
    show "s' \<le> du_csn (ms_durable st')" if "snap st' t = Some s'" for t s'
      using that ok started(3,4) by (auto simp: s store_ok_def split: if_splits)
    have "fst ` set (ms_transactions st) \<subseteq> issued nonce ?n" using ok by (simp add: store_ok_def)
    from this issued_mono [OF less_imp_le [OF less]] have "fst ` set (ms_transactions st) \<subseteq> issued nonce (?n + 1)" by (rule subset_trans)
    from insert_subsetI [OF new this] show "fst ` set (ms_transactions st') \<subseteq> issued nonce (ms_next_transaction st')"
      unfolding started(6) by (rule subset_trans [OF keys])
  qed
  then show ?thesis using started(4,6) less_imp_le [OF less] old [of "token_of nonce (?n + 1)"] by (auto simp: follows_view_def s)
qed

lemma view_publish:
  assumes ok: "store_ok nonce st" and p: "publishable (ms_durable st) csn schemas tables"
    and n: "publish_next (ms_durable st) csn (oldest_or csn (ms_transactions st)) schemas tables = Ok d'"
  shows "follows_view nonce st (st\<lparr>ms_durable := d'\<rparr>)"
proof -
  have lt: "du_csn (ms_durable st) < csn" using p by (simp add: publishable_def)
  have d: "durable_ok (ms_durable st)" using ok by (simp add: store_ok_def)
  have bound: "oldest_or csn (ms_transactions st) \<le> csn" using live_bound [OF ok] lt by simp
  obtain ts n' where c: "commits (ms_durable st) csn (oldest_or csn (ms_transactions st)) schemas tables ts n' d'"
    using publish_next_commits [OF d p bound] n by (metis outcome.inject(1))
  have sn: "snap (st\<lparr>ms_durable := d'\<rparr>) = snap st" by (simp add: fun_eq_iff snap_def)
  have le: "s < csn" if "snap st t = Some s" for t s
    using that ok lt by (auto simp: store_ok_def intro: le_less_trans)
  have "store_ok nonce (st\<lparr>ms_durable := d'\<rparr>)"
    using ok commits_ok [OF c] commits_basic(4) [OF c] le by (auto simp: store_ok_def sn intro: less_imp_le)
  then show ?thesis
    using commits_earlier [OF c] le oldest_live [OF ok] by (auto simp: follows_view_def sn)
qed

lemma transactions_finish: "ms_transactions (finish token st) =
    hm_map (\<lambda>_ tx. tx\<lparr>tx_waiting := removeAll token (tx_waiting tx)\<rparr>) (hm_remove token (ms_transactions st))"
  by (simp add: finish_def prune_def Let_def)

lemma view_finish:
  assumes ok: "store_ok nonce st"
  shows "follows_view nonce st (finish token st)"
proof -
  let ?st = "finish token st"
  have d: "durable_ok (ms_durable st)" and h: "hm_ok (ms_transactions st)" using ok by (simp_all add: store_ok_def)
  have sn: "snap ?st t = (if t = token then None else snap st t)" for t
    by (simp add: snap_def transactions_finish get_hm_map delete_conv' split: option.split)
  have num: "ms_next_transaction ?st = ms_next_transaction st" "du_csn (ms_durable ?st) = du_csn (ms_durable st)"
    by (simp_all add: finish_def prune_def Let_def)
  have keys: "fst ` set (ms_transactions ?st) \<subseteq> fst ` set (ms_transactions st)"
    by (force simp: transactions_finish hm_map_def AList.delete_eq)
  have old: "oldest_or (du_csn (ms_durable st)) (hm_remove token (ms_transactions st)) \<le> s"
    if live: "snap ?st t = Some s" for t s
  proof -
    have t: "t \<noteq> token" "snap st t = Some s" using live by (simp_all add: sn split: if_splits)
    obtain tx where "(t, tx) \<in> set (ms_transactions st)" "tx_aborted tx = None" "tx_snapshot tx = s"
      using live_snapshot [OF ok t(2)] by blast
    then show ?thesis using t(1) oldest_least [of t tx "hm_remove token (ms_transactions st)"] by (auto simp: AList.delete_eq)
  qed
  have "fst ` set (ms_transactions ?st) \<subseteq> issued nonce (ms_next_transaction st)"
    using keys ok unfolding store_ok_def by (meson subset_trans)
  moreover have "hm_ok (ms_transactions ?st)" using hm.ok_del [OF h] by (simp add: transactions_finish)
  ultimately have "store_ok nonce ?st"
    using ok finish_ok [OF d] by (simp add: store_ok_def sn num)
  moreover have "snap st t = Some s \<and> snapshot_rows (ms_durable ?st) tid s = snapshot_rows (ms_durable st) tid s"
    if "snap ?st t = Some s" for t s tid
    using finish_snapshot_rows [OF d old [OF that]] that by (simp add: sn split: if_splits)
  ultimately show ?thesis unfolding follows_view_def num by blast
qed

lemma view_step:
  assumes ok: "store_ok nonce st" and step: "mv_step nonce (st, rq) (st', rq')"
  shows "follows_view nonce st st'"
  using step
  by (cases rule: mv_step.cases)
    (auto intro: view_calm [OF ok] view_begin [OF ok] view_publish [OF ok] view_finish [OF ok] calm_lock_start
      calm_lock_try calm_lock_finish calm_lock_failed calm_fail_all)

lemma view_steps:
  assumes ok: "store_ok nonce st" and run: "(mv_step nonce)\<^sup>*\<^sup>* (st, rq) (st', rq')"
  shows "follows_view nonce st st'"
  using run
proof (induction rule: rtranclp_induct2)
  case refl
  then show ?case using view_calm [OF ok] by simp
next
  case (step st1 rq1 st2 rq2)
  have 1: "follows_view nonce st st1" using step by blast
  have 2: "follows_view nonce st1 st2" using view_step step(2) 1 by (auto simp: follows_view_def)
  have num: "ms_next_transaction st \<le> ms_next_transaction st1" using 1 by (simp add: follows_view_def)
  have tok: "issued nonce (ms_next_transaction st) \<subseteq> issued nonce (ms_next_transaction st1)" using num by (rule issued_mono)
  have "ms_next_transaction st \<le> ms_next_transaction st2"
    using num 2 unfolding follows_view_def by (meson order.trans)
  then show ?case using 1 2 tok unfolding follows_view_def by (metis subsetD)
qed

text \<open>
  Property (C25).  Repeatable reads: let any interleaving of requests start from a store whose
  versions are well formed.  A transaction that is there at the start and can still commit at
  the end kept its snapshot, and reads the same rows of every table at the end as at the start.
\<close>

theorem repeatable_read:
  assumes "store_ok nonce st" and "(mv_step nonce)\<^sup>*\<^sup>* (st, rq) (st', rq')"
    and "map_of (ms_transactions st) t \<noteq> None" and "snap st' t = Some s"
  shows "snap st t = Some s \<and> snapshot_rows (ms_durable st') tid s = snapshot_rows (ms_durable st) tid s"
proof -
  have "t \<in> issued nonce (ms_next_transaction st)"
    using assms(1,3) by (auto simp: store_ok_def map_of_eq_None_iff)
  then show ?thesis using view_steps [OF assms(1,2)] assms(4) by (simp add: follows_view_def)
qed

definition sample_store :: mstate where
  "sample_store = \<lparr>ms_durable = sample_durable, ms_transactions = [(token_of ''n'' 2, sample_tx 2), (token_of ''n'' 3, sample_tx 3)],
     ms_next_transaction = 3\<rparr>"

lemma sample_store_ok: "store_ok ''n'' sample_store"
proof -
  have "fst ` set (ms_transactions sample_store) \<subseteq> issued ''n'' 3"
    by (auto simp: sample_store_def issued_def)
  then show ?thesis using sample_durable_ok
    by (simp add: store_ok_def sample_store_def snap_def sample_tx_def hm_ok_def sample_durable_def)
qed

theorem repeatable_read_witness:
  "snapshot_rows (ms_durable (finish (token_of ''n'' 2) sample_store)) 7 3 = snapshot_rows (ms_durable sample_store) 7 3"
proof -
  have run: "(mv_step ''n'')\<^sup>*\<^sup>* (sample_store, []) (finish (token_of ''n'' 2) sample_store, [])"
    using mv_step.finishes by (rule r_into_rtranclp)
  have "snap (finish (token_of ''n'' 2) sample_store) (token_of ''n'' 3) = Some 3"
    by (simp add: snap_def transactions_finish get_hm_map delete_conv' sample_store_def sample_tx_def)
  moreover have "map_of (ms_transactions sample_store) (token_of ''n'' 3) \<noteq> None" by (simp add: sample_store_def)
  ultimately show ?thesis using repeatable_read [OF sample_store_ok run] by blast
qed

end
