(* ===== verification/Mvcc_Progress.thy ===== *)
theory Mvcc_Progress
  imports Mvcc_Locks
begin

text \<open>
  Progress of the lock requests of \<open>mvcc.rs\<close>: the check at every wait keeps the wait-for graph free
  of cycles, so some transaction never waits.
\<close>

section \<open>The wait-for graph\<close>

text \<open>A change of the edges out of one node makes a cycle only through that node.\<close>

lemma trancl_through:
  assumes out: "\<And>x y. (x, y) \<in> R' \<Longrightarrow> x \<noteq> t \<Longrightarrow> (x, y) \<in> R" and "(x, y) \<in> R'\<^sup>+"
  shows "(x, y) \<in> R\<^sup>+ \<or> (x, t) \<in> R'\<^sup>* \<and> (t, y) \<in> R'\<^sup>+"
  using assms(2)
proof (induction rule: trancl_induct)
  case (base y)
  then show ?case using out by (cases "x = t") auto
next
  case (step y z)
  then consider "y = t" | "y \<noteq> t" "(x, y) \<in> R\<^sup>+" | "(x, t) \<in> R'\<^sup>*" "(t, y) \<in> R'\<^sup>+" by blast
  then show ?case
  proof cases
    case 1
    then show ?thesis using step(1,2) by (auto intro: trancl_into_rtrancl)
  next
    case 2
    then show ?thesis using out [OF step(2)] by (meson trancl.trancl_into_trancl)
  next
    case 3
    then show ?thesis using step(2) by (meson trancl.trancl_into_trancl)
  qed
qed

lemma acyclic_through:
  assumes "acyclic R" and "\<And>x y. (x, y) \<in> R' \<Longrightarrow> x \<noteq> t \<Longrightarrow> (x, y) \<in> R" and "(t, t) \<notin> R'\<^sup>+"
  shows "acyclic R'"
  unfolding acyclic_def
proof (intro allI notI)
  fix x assume x: "(x, x) \<in> R'\<^sup>+"
  then have "(x, t) \<in> R'\<^sup>* \<and> (t, x) \<in> R'\<^sup>+"
    using trancl_through [OF assms(2) x] assms(1) by (auto simp: acyclic_def)
  then show False using assms(3) by (meson trancl_rtrancl_trancl)
qed

text \<open>The invariant: no cycle, and every transaction waited for exists.\<close>

definition live_waits :: "mstate \<Rightarrow> bool" where
  "live_waits st \<longleftrightarrow> hm_ok (ms_transactions st) \<and> acyclic (waits (ms_transactions st)) \<and>
     (\<forall>a b. (a, b) \<in> waits (ms_transactions st) \<longrightarrow> map_of (ms_transactions st) b \<noteq> None)"

lemma live_waits_shrink:
  assumes ok: "live_waits st" and hm: "hm_ok (ms_transactions st')"
    and sub: "\<And>a b. (a, b) \<in> waits (ms_transactions st') \<Longrightarrow> (a, b) \<in> waits (ms_transactions st)"
    and dom: "\<And>a b. (a, b) \<in> waits (ms_transactions st') \<Longrightarrow> map_of (ms_transactions st) b \<noteq> None \<Longrightarrow>
      map_of (ms_transactions st') b \<noteq> None"
  shows "live_waits st'"
proof -
  have "acyclic (waits (ms_transactions st'))" using ok sub unfolding live_waits_def by (meson acyclic_subset subrelI)
  then show ?thesis using ok hm sub dom unfolding live_waits_def by blast
qed

lemma waits_update_tx:
  "(a, b) \<in> waits (ms_transactions (update_tx t f st)) \<longleftrightarrow>
     (if a = t then (\<exists>tx. map_of (ms_transactions st) t = Some tx \<and> b \<in> set (tx_waiting (f tx)))
      else (a, b) \<in> waits (ms_transactions st))"
  by (auto simp: waits_def get_update_tx)

lemma dom_update_tx: "map_of (ms_transactions (update_tx t f st)) b = None \<longleftrightarrow> map_of (ms_transactions st) b = None"
  by (simp add: get_update_tx)

lemma live_update_tx:
  assumes "live_waits st" and "\<And>tx. set (tx_waiting (f tx)) \<subseteq> set (tx_waiting tx)"
  shows "live_waits (update_tx t f st)"
proof (rule live_waits_shrink [OF assms(1)])
  show "(a, b) \<in> waits (ms_transactions st)" if "(a, b) \<in> waits (ms_transactions (update_tx t f st))" for a b
    using that assms(2) by (fastforce simp: waits_def get_update_tx split: if_splits)
qed (use assms(1) in \<open>auto simp: live_waits_def dom_update_tx\<close>)

lemma live_abort: "live_waits st \<Longrightarrow> live_waits (abort t msg st)"
  by (rule live_waits_shrink) (auto simp: live_waits_def abort_def waits_def get_hm_map split: if_splits)

lemma live_lock_failed: "live_waits st \<Longrightarrow> live_waits (lock_failed t e st)"
  by (simp add: lock_failed_def live_abort)

lemma live_fail_all:
  assumes "live_waits st"
  shows "live_waits (fail_all st)"
proof -
  have "live_waits (foldl (\<lambda>st t. abort t m st) st ts)" if "live_waits st" for st ts m
    using that by (induction ts arbitrary: st) (simp_all add: live_abort)
  then show ?thesis using assms by (simp add: fail_all_def)
qed

lemma live_finish:
  assumes "live_waits st"
  shows "live_waits (finish t st)"
proof (rule live_waits_shrink [OF assms])
  have txs: "ms_transactions (finish t st) = hm_map (\<lambda>_ tx. tx\<lparr>tx_waiting := removeAll t (tx_waiting tx)\<rparr>) (hm_remove t (ms_transactions st))"
    by (simp add: finish_def prune_def Let_def)
  then have get: "map_of (ms_transactions (finish t st)) a =
      (if a = t then None else map_option (\<lambda>tx. tx\<lparr>tx_waiting := removeAll t (tx_waiting tx)\<rparr>) (map_of (ms_transactions st) a))" for a
    by (simp add: get_hm_map delete_conv')
  show "hm_ok (ms_transactions (finish t st))" using assms by (simp add: txs live_waits_def hm_ok_def distinct_delete)
  show "(a, b) \<in> waits (ms_transactions st)" if "(a, b) \<in> waits (ms_transactions (finish t st))" for a b
    using that by (auto simp: waits_def get split: if_splits)
  show "map_of (ms_transactions (finish t st)) b \<noteq> None"
    if "(a, b) \<in> waits (ms_transactions (finish t st))" "map_of (ms_transactions st) b \<noteq> None" for a b
    using that by (auto simp: waits_def get split: if_splits)
qed

lemma live_begin:
  assumes ok: "live_waits st" and b: "begin_selected nonce schemas serializable selected st = (r, st')"
  shows "live_waits st'"
proof -
  consider "ms_transactions st' = ms_transactions st"
    | n tx where "ms_transactions st' = hm_insert n tx (ms_transactions st)" "tx_waiting tx = []"
    using b by (auto simp: begin_selected_def Let_def errM_def okM_def split: if_splits outcome.splits)
  then show ?thesis
  proof cases
    case 1
    then show ?thesis using ok by (simp add: live_waits_def)
  next
    case 2
    then show ?thesis
      using ok by (intro live_waits_shrink [OF ok]) (auto simp: live_waits_def waits_def update_conv' hm_ok_def distinct_update split: if_splits)
  qed
qed

text \<open>A turn of the waiting loop: the new edges either close no cycle or are taken back by the abort.\<close>

lemma live_lock_try:
  assumes ok: "live_waits st" and l: "lock_try timed_out t key exclusive st = (r, st')"
  shows "live_waits st'"
proof (cases "validate st t False")
  case (Ok x)
  let ?bs = "blockers st t key exclusive"
  let ?w = "update_tx t (\<lambda>tx. tx\<lparr>tx_waiting := ?bs\<rparr>) st"
  have bs: "map_of (ms_transactions st) b \<noteq> None" if "b \<in> set ?bs" for b
    using that by (auto simp: blockers_def map_of_eq_None_iff)
  have hm: "hm_ok (ms_transactions ?w)" using ok by (simp add: live_waits_def)
  have out: "(x, y) \<in> waits (ms_transactions st)" if "(x, y) \<in> waits (ms_transactions ?w)" "x \<noteq> t" for x y
    using that by (simp add: waits_update_tx)
  have dom: "map_of (ms_transactions ?w) y \<noteq> None" if "(x, y) \<in> waits (ms_transactions ?w)" for x y
    using that bs ok by (auto simp: live_waits_def waits_update_tx dom_update_tx split: if_splits)
  have wait: "live_waits ?w" if "\<not> on_cycle ?w t"
  proof -
    have "(t, t) \<notin> (waits (ms_transactions ?w))\<^sup>+" using that on_cycle_waits by blast
    then have "acyclic (waits (ms_transactions ?w))"
      using acyclic_through [OF _ out] ok unfolding live_waits_def by blast
    then show ?thesis using hm dom by (auto simp: live_waits_def)
  qed
  have aborted: "live_waits (abort t msg ?w)" for msg
    by (rule live_waits_shrink [OF ok])
      (use ok in \<open>auto simp: live_waits_def abort_def waits_def get_hm_map get_update_tx split: if_splits\<close>)
  have granted: "live_waits (update_tx t (grant key exclusive) st)" using ok by (rule live_update_tx) (simp add: grant_def)
  show ?thesis
    using l Ok wait aborted granted
    by (auto simp: lock_try_def Let_def okM_def errM_def abort_with_def split: if_splits)
qed (use l ok in \<open>auto simp: lock_try_def\<close>)

lemma live_step:
  assumes "mv_step nonce c c'" and "live_waits (fst c)"
  shows "live_waits (fst c')"
  using assms
proof (cases rule: mv_step.cases)
  case (begins schemas serializable selected st r st' rq)
  then show ?thesis using assms(2) live_begin by simp
next
  case (asks token ops reads st ks st' rq)
  then show ?thesis using assms(2)
    by (auto simp: lock_start_def okM_def panicM_def intro!: live_update_tx split: outcome.splits option.splits)
next
  case (refused token ops reads st e st' rq)
  then show ?thesis using assms(2)
    by (auto simp: lock_start_def okM_def panicM_def intro!: live_lock_failed live_update_tx split: outcome.splits option.splits)
next
  case (granted timed_out token key exclusive st st' rq1 ks ops rq2)
  then show ?thesis using assms(2) live_lock_try by simp
next
  case (sleeps timed_out token key exclusive st st' rq1 ks ops rq2)
  then show ?thesis using assms(2) live_lock_try by simp
next
  case (gives_up timed_out token key exclusive st e st' rq1 ks ops rq2)
  then show ?thesis using assms(2) live_lock_try [of st] live_lock_failed by simp
next
  case (locked token ops st st' rq1 rq2)
  then show ?thesis using assms(2)
    by (auto simp: lock_finish_def modM_def intro!: live_update_tx split: outcome.splits)
next
  case (unlocked token ops st e st' rq1 rq2)
  then show ?thesis using assms(2)
    by (auto simp: lock_finish_def modM_def intro!: live_lock_failed live_update_tx split: outcome.splits)
next
  case (publishes st csn schemas tables d' rq)
  then show ?thesis using assms(2) by (simp add: live_waits_def)
next
  case (finishes st rq token)
  then show ?thesis using assms(2) live_finish by simp
next
  case (fails st rq)
  then show ?thesis using assms(2) live_fail_all by simp
qed

text \<open>A finite graph without cycles has a node with no edge out.\<close>

lemma live_sink:
  assumes "live_waits st" and "ms_transactions st \<noteq> []"
  shows "\<exists>t tx. map_of (ms_transactions st) t = Some tx \<and> tx_waiting tx = []"
proof -
  let ?R = "waits (ms_transactions st)" and ?D = "dom (map_of (ms_transactions st))"
  have sub: "?R \<subseteq> ?D \<times> ?D" using assms(1) by (auto simp: live_waits_def waits_def)
  have "finite ?R" using finite_subset [OF sub] by (simp add: finite_dom_map_of)
  then have wf: "wf (?R\<inverse>)" using assms(1) by (intro finite_acyclic_wf_converse) (auto simp: live_waits_def)
  have "fst (hd (ms_transactions st)) \<in> ?D" using assms(2) by (simp add: dom_map_of_conv_image_fst)
  from wfE_min [OF wf this] obtain t where t: "t \<in> ?D" "\<And>y. (y, t) \<in> ?R\<inverse> \<Longrightarrow> y \<notin> ?D" by blast
  then obtain tx where tx: "map_of (ms_transactions st) t = Some tx" by blast
  have "b \<notin> set (tx_waiting tx)" for b
    using t(2) [of b] sub tx by (auto simp: waits_def)
  then show ?thesis using tx by (metis list.set_intros(1) neq_Nil_conv)
qed

text \<open>
  Property (C35).  However the requests of the transactions interleave, with timeouts, aborts,
  commits and failures of the store, the transactions never all wait for one another: no chain of
  waiting transactions is closed, and as long as there are transactions, one of them is not waiting.
\<close>

theorem some_transaction_runs:
  assumes "(mv_step nonce)\<^sup>*\<^sup>* (st, []) (st', rq)" and "ms_transactions st = []"
  shows "(\<forall>t. \<not> on_cycle st' t) \<and>
    (ms_transactions st' \<noteq> [] \<longrightarrow> (\<exists>t tx. map_of (ms_transactions st') t = Some tx \<and> tx_waiting tx = []))"
proof -
  have "live_waits (fst (st, [] :: request_state list))" using assms(2) by (simp add: live_waits_def waits_def hm_ok_def acyclic_def)
  with assms(1) have live: "live_waits (fst (st', rq))"
    by (induction rule: rtranclp_induct) (auto intro: live_step)
  have "\<not> on_cycle st' t" for t
    using live on_cycle_waits [of st' t] by (auto simp: live_waits_def acyclic_def)
  then show ?thesis using live_sink live by simp
qed

theorem some_transaction_runs_witness:
  "\<exists>st' rq. (mv_step ''n'')\<^sup>*\<^sup>* (\<lparr>ms_durable = empty_durable, ms_transactions = [], ms_next_transaction = 0\<rparr>, []) (st', rq) \<and>
     (\<exists>t tx. map_of (ms_transactions st') t = Some tx \<and> tx_waiting tx = [])"
proof -
  let ?st = "\<lparr>ms_durable = empty_durable, ms_transactions = [], ms_next_transaction = 0\<rparr>"
  obtain r st' where b: "begin_selected ''n'' [] False None ?st = (r, st')" by fastforce
  then have "ms_transactions st' \<noteq> []"
    by (auto simp: begin_selected_def Let_def errM_def okM_def)
  moreover have "(mv_step ''n'')\<^sup>*\<^sup>* (?st, []) (st', [])" using mv_step.begins [OF b] by blast
  ultimately show ?thesis using some_transaction_runs [of "''n''" ?st st' "[]"] by auto
qed

end
