(* ===== verification/Spec2Isabelle.thy ===== *)
theory Spec2Isabelle
  imports Server_Catalog Mvcc_Progress Heap_Rows
begin

text \<open>
  \<^bold>\<open>The storage engine of ChuSQL\<close> (the Rust crate \<open>src/chusql-core/storage\<close>).

  \<^bold>\<open>The program.\<close>  A table is a heap file of slotted pages (\<open>heap.rs\<close>) with B+ tree
  indexes (\<open>btree.rs\<close>); both live in page files with a buffer pool (\<open>page.rs\<close>), whose
  write-back goes through a full-page journal (\<open>page_wal.rs\<close>).  Logical changes are appended in
  groups to a write-ahead log (\<open>wal.rs\<close>).  The dictionary of tables, columns, types and
  statistics is \<open>catalog.rs\<close>.  Transactions run on row versions: \<open>mvcc.rs\<close> publishes a commit as
  new versions, gives each transaction a snapshot, plans and validates its writes, and holds row
  and key locks with deadlock detection.  \<open>protocol.rs\<close> has the wire types and the name checks,
  \<open>config.rs\<close> the settings, \<open>log.rs\<close> the log lines, \<open>runtime.rs\<close> the request loop that
  composes them.

  \<^bold>\<open>Conventions.\<close>  \<open>Chu_Prelude\<close> has the machine words, the byte codecs of the standard library,
  the \<open>outcome\<close> of a fallible call (\<open>Ok\<close>, \<open>Err\<close> with the kind and message, \<open>Panic\<close> for an index
  out of range, a checked overflow or a failed \<open>expect\<close>), the state-and-exception monad \<open>cmd\<close>
  of a method on \<open>&mut self\<close> (the state is returned on the error path too) and its weakest
  preconditions \<open>wp\<close>.  An I/O call consumes one entry of a list of faults, which may make it fail
  after any prefix of its bytes; so a statement about all fault lists is one about every crash
  point.  \<open>Std_Maps\<close>, \<open>Std_Text\<close> and \<open>Std_Float\<close> model the \<open>BTreeMap\<close>, \<open>HashMap\<close>, \<open>str\<close> and
  \<open>f64\<close> operations the code uses.  A counter that reaches \<open>2 ^ 64\<close> is a \<open>Panic\<close>, as in a build that
  checks overflow; the product of the layout check wraps, as in the release build, and
  \<open>order_overflow_accepted\<close> shows an order that it wrongly accepts.

  \<^bold>\<open>Interfaces.\<close>  Three locales carry the lemmas that a client needs of its provider: \<open>key_map\<close>
  (a map by keys, interpreted for both maps of the standard library), \<open>slotted\<close> (a page of slots
  that behaves as a list of rows, interpreted for the slotted page) and \<open>row_store\<close> (a file of such
  pages, interpreted for the heap file on the page file).

  \<^bold>\<open>Theories.\<close>
  \<^item> \<open>Page_Wal\<close> (\<open>page_wal.rs\<close>): frames, \<open>prepare\<close>, \<open>reset\<close>, \<open>checkpoint\<close>, \<open>recover\<close>, \<open>open_wal\<close>
    over the four files of a page file.
  \<^item> \<open>Page_File\<close> (\<open>page.rs\<close>): the buffer pool; \<open>pf_view\<close> is its logical content and \<open>pf_inv\<close> its
    invariant.  Caching and eviction never change the view, each operation changes exactly the page
    it names, and a flush that fails anywhere leaves every page old or new after a restart.
  \<^item> \<open>Heap_Page\<close>, \<open>Heap_Keys\<close> (\<open>heap.rs\<close>): the slotted page refines a list of rows, row positions
    and order-preserving keys round trip, and the keys of JSON values.
  \<^item> \<open>Heap_Table\<close>, \<open>Heap_Rows\<close> (\<open>heap.rs\<close>): the table with its indexes, and the heap file as a map
    from positions to rows: what inserting, deleting and scanning do, also when they fail half-way.
  \<^item> \<open>Btree\<close> (\<open>btree.rs\<close>): node and header codecs, splitting, and every tree operation on its page
    file.
  \<^item> \<open>Protocol\<close> (\<open>protocol.rs\<close>): requests, names that are safe as file names, table classes.
  \<^item> \<open>Wal\<close> (\<open>wal.rs\<close>): frames, groups, truncation; what recovery returns after a crash at any point.
  \<^item> \<open>Catalog\<close>, \<open>Catalog_Props\<close> (\<open>catalog.rs\<close>): object numbers, schema versions, histograms,
    saving and loading.  \<open>local_step\<close> has the operations that requests make and \<open>cat_step\<close> those of
    the recovery too; in a \<open>strict\<close> step rows are counted for known tables only, without it tables
    with the number 0 arise (\<open>unnumbered_tables\<close>).
  \<^item> \<open>Mvcc\<close> (definitions), \<open>Mvcc_Versions\<close> (publishing, snapshots, pruning), \<open>Mvcc_Locks\<close> (locks,
    deadlock search, isolation), \<open>Mvcc_Progress\<close> (no deadlock stays) for \<open>mvcc.rs\<close>.
  \<^item> \<open>Accounts\<close> (\<open>runtime.rs\<close>): the identities, every request on them, and that the last superuser
    and the privileged identities are protected.
  \<^item> \<open>Domains\<close> (\<open>runtime.rs\<close>): the domain wrappers of type names, decimal values, the checks of one
    operation.
  \<^item> \<open>Server\<close> (\<open>runtime.rs\<close>): the server of one database, its tables and files; applying a logged
    operation, writing a group (\<open>prepare_group\<close>, \<open>append_group\<close>, \<open>apply_group\<close>, \<open>close_group\<close>),
    recovery, starting, compacting.
  \<^item> \<open>Requests\<close> (\<open>runtime.rs\<close>): checks, snapshots, transactions and \<open>dispatch\<close>; the second
    handle through which a shard is scanned.
  \<^item> \<open>Server_Props\<close>: the composition of log, tables, dictionary and row versions.  \<open>leaves\<close> says
    that a command keeps a part of the state and \<open>ends\<close> what holds on each way out of it; with them
    a group is all or nothing, recovery is complete, concurrent reads change nothing, and the shards
    of a scan cover the pages (\<open>shards_cover_pages\<close>).
  \<^item> \<open>Server_Catalog\<close>: \<open>dispatch\<close> moves the dictionary by the local operations only, so the number
    and the version of a table identify its columns along any requests (\<open>serve_keeps_versions\<close>).
  \<^item> \<open>Log_Config\<close> (\<open>log.rs\<close>, \<open>config.rs\<close>): the civil calendar, rendering, and the validated
    settings.

  \<^bold>\<open>Parameters.\<close>  Code outside the repository is an argument: the JSON codecs of the page
  metadata, log payloads, rows and dictionary (\<open>codec\<close>, \<open>serde\<close>; where a theorem needs it, that
  decoding inverts encoding), the TOML parser, the environment, the clock, the hash function and the
  powers of ten; the record \<open>libs\<close> gathers those of the server.

  \<^bold>\<open>Fuel.\<close>  The descent into a B+ tree and the walk along its leaves follow page numbers read from
  disk, so they take fuel and panic without it.  The deadlock search takes one more than the number
  of transactions, which the theorem \<open>on_cycle_iff\<close> shows to be enough.

  \<^bold>\<open>Not modelled.\<close>
  \<^item> Threads: the server runs its requests one at a time, in the order in which they pass the gate;
    only the lock requests, which wait outside the gate, are steps of an interleaving
    (\<open>Mvcc_Locks\<close>).  A poisoned mutex does not occur.
  \<^item> Timers, log output, the Windows branches and the hit rate of the buffer pool.
  \<^item> Code generated by the serialisation library, which is a parameter, and the pointer glue of
    \<open>ffi.rs\<close> and \<open>lib.rs\<close>.
  \<^item> In \<open>runtime.rs\<close>: online compaction and the clean-up of its files, the renaming of legacy tables (with the rename of the journal files), the
    set of databases and the maintenance commands, which work on directories.
\<close>

end
